(* ===== verification/OVS_Prelude.thy ===== *)
theory OVS_Prelude
  imports Main "HOL-Library.Word" "HOL-Library.Signed_Division"
begin

text \<open>
  Shared vocabulary of the development: names for the C integer types of the sources, the
  wrap-around of signed C arithmetic, truncating division, and the generic lemmas on words, lists
  and array-like functions that the component theories use.

  Unsigned C integers are words (\<open>u8\<close>, \<open>u16\<close>, \<open>u32\<close>, \<open>u64\<close>). Signed C integers are HOL
  integers; wherever the source computes on them, the result is passed through \<open>c_int\<close> (32 bits) or
  \<open>c_llong\<close> (64 bits), the two's complement wrap-around of the targets that the program is built for.
\<close>

unbundle bit_operations_syntax

type_synonym u8 = "8 word"
type_synonym u16 = "16 word"
type_synonym u32 = "32 word"
type_synonym u64 = "64 word"

text \<open>Addresses of objects in memory.\<close>

type_synonym addr = nat

text \<open>Named collections that the component theories extend.\<close>

named_theorems ovs_frame \<open>fields an operation does not write\<close>
named_theorems ovs_inv \<open>preservation of a component's invariant\<close>

section \<open>C integer arithmetic\<close>

definition c_int :: "int \<Rightarrow> int" where
  "c_int x = signed_take_bit 31 x"

definition c_llong :: "int \<Rightarrow> int" where
  "c_llong x = signed_take_bit 63 x"

abbreviation INT_MAX :: int where "INT_MAX \<equiv> 2147483647"
abbreviation LLONG_MAX :: int where "LLONG_MAX \<equiv> 9223372036854775807"
abbreviation LLONG_MIN :: int where "LLONG_MIN \<equiv> - 9223372036854775808"
abbreviation UINT_MAX :: u32 where "UINT_MAX \<equiv> 4294967295"

text \<open>The C operator \<open>/\<close> on signed integers truncates towards zero.\<close>

abbreviation c_div :: "int \<Rightarrow> int \<Rightarrow> int" where
  "c_div a b \<equiv> a sdiv b"

lemma c_int_id [simp]: "- 2147483648 \<le> x \<Longrightarrow> x < 2147483648 \<Longrightarrow> c_int x = x"
  by (simp add: c_int_def signed_take_bit_int_eq_self)

lemma c_llong_id [simp]: "LLONG_MIN \<le> x \<Longrightarrow> x \<le> LLONG_MAX \<Longrightarrow> c_llong x = x"
  by (simp add: c_llong_def signed_take_bit_int_eq_self)

lemma c_int_range: "- 2147483648 \<le> c_int x \<and> c_int x < 2147483648"
  using signed_take_bit_int_greater_eq_minus_exp [of 31 x] signed_take_bit_int_less_exp [of 31 x]
  by (simp add: c_int_def)

lemma c_llong_range: "LLONG_MIN \<le> c_llong x \<and> c_llong x \<le> LLONG_MAX"
  using signed_take_bit_int_greater_eq_minus_exp [of 63 x] signed_take_bit_int_less_exp [of 63 x]
  by (simp add: c_llong_def)

lemma c_div_pos: "0 \<le> a \<Longrightarrow> 0 < b \<Longrightarrow> c_div a b = a div b"
  by (simp add: signed_divide_int_def sgn_if)

lemma int_div_bounds:
  fixes a b :: int
  assumes "0 < b"
  shows "a div b * b \<le> a" "a < a div b * b + b"
  using assms div_mult_mod_eq [of a b] pos_mod_sign [of b a] pos_mod_bound [of b a] by linarith+

section \<open>Words\<close>

lemma sint_small_u32:
  assumes "unat (x :: u32) < 2 ^ 31"
  shows "sint x = int (unat x)"
proof -
  have "int (unat x) < int (2 ^ 31)" using assms by (simp only: of_nat_less_iff)
  then have "uint x < 2 ^ 31" by simp
  moreover have "- (2 ^ 31) \<le> uint x" by (rule order_trans [OF _ uint_ge_0]) simp
  ultimately show ?thesis by (simp add: sint_uint signed_take_bit_int_eq_self)
qed

lemma uint_word_of_int_small:
  "0 \<le> x \<Longrightarrow> x < 2 ^ LENGTH('a) \<Longrightarrow> uint (word_of_int x :: 'a::len word) = x"
  by (simp add: uint_word_of_int)

lemma unat_u32_le: "unat (x :: u32) \<le> 4294967295"
proof -
  have "unat x < 2 ^ LENGTH(32)" by (rule unsigned_less)
  then show ?thesis by simp
qed

lemma unat_of_nat_small: "k < 2 ^ LENGTH('a) \<Longrightarrow> unat (of_nat k :: 'a::len word) = k"
  by (simp add: unat_of_nat)

lemma unat_exp_small:
  assumes "k < LENGTH('a)"
  shows "unat (2 ^ k :: 'a::len word) = 2 ^ k"
proof -
  have "unat (of_nat (2 ^ k) :: 'a word) = 2 ^ k"
    using assms by (intro unat_of_nat_small) simp
  then show ?thesis by simp
qed

lemma unat_and_exp_minus_1: "unat ((x :: 'a::len word) AND (2 ^ k - 1)) = unat x mod 2 ^ k"
proof -
  have "x AND (2 ^ k - 1) = take_bit k x"
    by (simp add: mask_eq_exp_minus_1 [symmetric] take_bit_eq_mask)
  then have "unat (x AND (2 ^ k - 1)) = take_bit k (unat x)" by (simp add: unsigned_take_bit_eq)
  then show ?thesis by (simp only: take_bit_eq_mod)
qed

lemma mod_neq_of_lt:
  assumes "0 < e" "e < (m::nat)"
  shows "(a + e) mod m \<noteq> a mod m"
proof
  assume "(a + e) mod m = a mod m"
  then have "m dvd e" using mod_eq_dvd_iff_nat [of a "a + e" m] by simp
  with assms show False by (simp add: nat_dvd_not_less)
qed

lemma mod_add_small: "(a::nat) mod m + d < m \<Longrightarrow> (a + d) mod m = a mod m + d"
  using mod_add_left_eq [of a m d] by simp

section \<open>Searching an array\<close>

lemma find_upt_Some:
  assumes "find P [a ..< n] = Some i"
  shows "a \<le> i" "i < n" "P i" "\<And>j. a \<le> j \<Longrightarrow> j < i \<Longrightarrow> \<not> P j"
proof -
  obtain k where k: "k < n - a" "P (a + k)" "i = a + k" "\<And>j. j < k \<Longrightarrow> \<not> P (a + j)"
    using assms by (auto simp: find_Some_iff)
  then show "a \<le> i" "i < n" "P i" by auto
  fix j assume "a \<le> j" "j < i"
  with k(3) k(4) [of "j - a"] show "\<not> P j" by simp
qed

lemma find_upt_None: "find P [a ..< n] = None \<longleftrightarrow> (\<forall>j. a \<le> j \<and> j < n \<longrightarrow> \<not> P j)"
  by (auto simp: find_None_iff)

section \<open>Arrays as functions\<close>

text \<open>Exchanging two cells of an array.\<close>

definition exchange :: "nat \<Rightarrow> nat \<Rightarrow> (nat \<Rightarrow> 'a) \<Rightarrow> nat \<Rightarrow> 'a" where
  "exchange i j f = f(i := f j, j := f i)"

lemma exchange_at [simp]:
  "exchange i j f i = f j" "exchange i j f j = f i"
  "k \<noteq> i \<Longrightarrow> k \<noteq> j \<Longrightarrow> exchange i j f k = f k"
  by (auto simp: exchange_def)

lemma exchange_image:
  assumes "i \<in> S" "j \<in> S"
  shows "exchange i j f ` S = f ` S"
  using assms by (force simp: exchange_def image_iff)

end
