(* ===== verification/Heap_Queue.thy ===== *)
theory Heap_Queue
  imports OVS_Prelude
begin

text \<open>
  The intrusive max-heap of lib/heap.c and lib/heap.h. A node is embedded in the client's object
  and is named by its address; \<open>store\<close> holds the node at each address, and \<open>array\<close> the pointers of
  the heap (elements 1 to \<open>n\<close>, element 0 unused). Every node carries its own position \<open>idx\<close>, so the
  heap and the nodes must agree: that is the well-formedness invariant \<open>heap_wf\<close>.
\<close>

section \<open>State and operations\<close>

record heap_node =
  nd_idx :: nat
  nd_priority :: u64

record heap =
  hp_store :: "addr \<Rightarrow> heap_node"
  hp_array :: "nat \<Rightarrow> addr"
  hp_n :: nat
  hp_allocated :: nat

definition heap_parent :: "nat \<Rightarrow> nat" where
  "heap_parent i = i div 2"

definition heap_left :: "nat \<Rightarrow> nat" where
  "heap_left i = i * 2"

definition heap_right :: "nat \<Rightarrow> nat" where
  "heap_right i = i * 2 + 1"

definition heap_is_leaf :: "heap \<Rightarrow> nat \<Rightarrow> bool" where
  "heap_is_leaf h i \<longleftrightarrow> hp_n h < heap_left i"

definition heap_count :: "heap \<Rightarrow> nat" where
  "heap_count h = hp_n h"

definition heap_is_empty :: "heap \<Rightarrow> bool" where
  "heap_is_empty h \<longleftrightarrow> hp_n h = 0"

definition heap_max :: "heap \<Rightarrow> addr" where
  "heap_max h = hp_array h 1"

definition heap_init :: "heap \<Rightarrow> heap" where
  "heap_init h = h\<lparr>hp_array := (\<lambda>_. 0), hp_n := 0, hp_allocated := 0\<rparr>"

definition heap_clear :: "heap \<Rightarrow> heap" where
  "heap_clear h = h\<lparr>hp_n := 0\<rparr>"

text \<open>Both heaps point into the same store.\<close>

definition heap_swap :: "heap \<Rightarrow> heap \<Rightarrow> heap \<times> heap" where
  "heap_swap a b = (b, a)"

definition heap_pop :: "heap \<Rightarrow> addr \<times> heap" where
  "heap_pop h = (hp_array h (hp_n h), h\<lparr>hp_n := hp_n h - 1\<rparr>)"

definition heap_raw_change :: "heap \<Rightarrow> addr \<Rightarrow> u64 \<Rightarrow> heap" where
  "heap_raw_change h p prio = h\<lparr>hp_store := (hp_store h)(p := (hp_store h p)\<lparr>nd_priority := prio\<rparr>)\<rparr>"

definition put_node :: "heap \<Rightarrow> addr \<Rightarrow> nat \<Rightarrow> heap" where
  "put_node h p i =
     h\<lparr>hp_array := (hp_array h)(i := p), hp_store := (hp_store h)(p := (hp_store h p)\<lparr>nd_idx := i\<rparr>)\<rparr>"

definition swap_nodes :: "heap \<Rightarrow> nat \<Rightarrow> nat \<Rightarrow> heap" where
  "swap_nodes h i j =
     (let old_i = hp_array h i; old_j = hp_array h j
      in put_node (put_node h old_j i) old_i j)"

text \<open>The priority of the node in array cell \<open>i\<close>: \<open>heap->array[i]->priority\<close>.\<close>

abbreviation key :: "heap \<Rightarrow> nat \<Rightarrow> u64" where
  "key h i \<equiv> nd_priority (hp_store h (hp_array h i))"

function float_up :: "heap \<Rightarrow> nat \<Rightarrow> bool \<Rightarrow> bool \<times> heap" where
  "float_up h i moved =
     (if i > 1 then
        let parent = heap_parent i in
        if key h parent \<ge> key h i then (moved, h)
        else float_up (swap_nodes h parent i) parent True
      else (moved, h))"
  by pat_completeness auto
termination
  by (relation "measure (\<lambda>(h, i, moved). i)") (auto simp: heap_parent_def)

text \<open>The child of \<open>i\<close> that \<open>float_down\<close> swaps with, or \<open>i\<close> itself.\<close>

definition float_down_max :: "heap \<Rightarrow> nat \<Rightarrow> nat" where
  "float_down_max h i =
     (let left = heap_left i;
          right = heap_right i;
          mx = (if key h left > key h i then left else i)
      in if right \<le> hp_n h \<and> key h right > key h mx then right else mx)"

lemma n_swap_nodes [simp]: "hp_n (swap_nodes h i j) = hp_n h"
  by (simp add: swap_nodes_def put_node_def Let_def)

function float_down :: "heap \<Rightarrow> nat \<Rightarrow> heap" where
  "float_down h i =
     (if heap_is_leaf h i then h
      else let mx = float_down_max h i
           in if mx = i then h else float_down (swap_nodes h mx i) mx)"
  by pat_completeness auto
termination
  by (relation "measure (\<lambda>(h, i). hp_n h - i)")
     (auto simp: heap_is_leaf_def float_down_max_def heap_left_def heap_right_def Let_def
        split: if_splits)

declare float_up.simps [simp del] float_down.simps [simp del]

definition float_up_or_down :: "heap \<Rightarrow> nat \<Rightarrow> heap" where
  "float_up_or_down h i =
     (let (moved, h') = float_up h i False in if \<not> moved then float_down h' i else h')"

definition heap_raw_insert :: "heap \<Rightarrow> addr \<Rightarrow> u64 \<Rightarrow> heap" where
  "heap_raw_insert h p prio =
     (let h = (if hp_n h \<ge> hp_allocated h
               then h\<lparr>hp_allocated := (if hp_n h = 0 then 1 else 2 * hp_n h)\<rparr> else h);
          h = h\<lparr>hp_n := hp_n h + 1\<rparr>;
          h = put_node h p (hp_n h)
      in h\<lparr>hp_store := (hp_store h)(p := (hp_store h p)\<lparr>nd_priority := prio\<rparr>)\<rparr>)"

definition heap_raw_remove :: "heap \<Rightarrow> addr \<Rightarrow> heap" where
  "heap_raw_remove h p =
     (let i = nd_idx (hp_store h p);
          h = (if i < hp_n h then put_node h (hp_array h (hp_n h)) i else h)
      in h\<lparr>hp_n := hp_n h - 1\<rparr>)"

definition heap_insert :: "heap \<Rightarrow> addr \<Rightarrow> u64 \<Rightarrow> heap" where
  "heap_insert h p prio =
     (let h = heap_raw_insert h p prio in snd (float_up h (nd_idx (hp_store h p)) False))"

definition heap_remove :: "heap \<Rightarrow> addr \<Rightarrow> heap" where
  "heap_remove h p =
     (let i = nd_idx (hp_store h p);
          h = heap_raw_remove h p
      in if i \<le> hp_n h then float_up_or_down h i else h)"

definition heap_change :: "heap \<Rightarrow> addr \<Rightarrow> u64 \<Rightarrow> heap" where
  "heap_change h p prio =
     (let h = heap_raw_change h p prio in float_up_or_down h (nd_idx (hp_store h p)))"

text \<open>The loop of \<open>heap_rebuild\<close>: \<open>float_down\<close> at \<open>i\<close>, \<open>i - 1\<close>, \dots, 1.\<close>

fun heap_rebuild_from :: "heap \<Rightarrow> nat \<Rightarrow> heap" where
  "heap_rebuild_from h 0 = h"
| "heap_rebuild_from h (Suc i) = heap_rebuild_from (float_down h (Suc i)) i"

definition heap_rebuild :: "heap \<Rightarrow> heap" where
  "heap_rebuild h = heap_rebuild_from h (hp_n h div 2)"

section \<open>Invariant and abstraction\<close>

text \<open>
  \<open>heap_wf\<close>: the array cells in use are allocated, and each node in the heap knows its cell. The
  contents are abstracted to the set \<open>heap_nodes\<close> of the nodes in the heap and the function
  \<open>heap_prio\<close> that gives each node's priority. \<open>heap_ordered lo\<close> is the max-heap order below the
  cells from \<open>lo\<close> on.
\<close>

definition heap_wf :: "heap \<Rightarrow> bool" where
  "heap_wf h \<longleftrightarrow> hp_n h \<le> hp_allocated h \<and>
     (\<forall>i. 1 \<le> i \<and> i \<le> hp_n h \<longrightarrow> nd_idx (hp_store h (hp_array h i)) = i)"

definition heap_nodes :: "heap \<Rightarrow> addr set" where
  "heap_nodes h = hp_array h ` {1..hp_n h}"

definition heap_prio :: "heap \<Rightarrow> addr \<Rightarrow> u64" where
  "heap_prio h p = nd_priority (hp_store h p)"

definition heap_ordered :: "nat \<Rightarrow> heap \<Rightarrow> bool" where
  "heap_ordered lo h \<longleftrightarrow>
     (\<forall>k. 2 \<le> k \<and> k \<le> hp_n h \<and> lo \<le> k div 2 \<longrightarrow> key h k \<le> key h (k div 2))"

definition heap_inv :: "heap \<Rightarrow> bool" where
  "heap_inv h \<longleftrightarrow> heap_wf h \<and> heap_ordered 1 h"

text \<open>What every reordering of the array keeps.\<close>

definition heap_same :: "heap \<Rightarrow> heap \<Rightarrow> bool" where
  "heap_same h h' \<longleftrightarrow> heap_wf h' \<and> hp_n h' = hp_n h \<and> hp_allocated h' = hp_allocated h \<and>
     heap_nodes h' = heap_nodes h \<and> heap_prio h' = heap_prio h"

lemma heap_same_refl [intro]: "heap_wf h \<Longrightarrow> heap_same h h"
  by (simp add: heap_same_def)

lemma heap_same_trans: "heap_same h h' \<Longrightarrow> heap_same h' h'' \<Longrightarrow> heap_same h h''"
  by (simp add: heap_same_def)

lemma heap_wf_idx: "heap_wf h \<Longrightarrow> 1 \<le> i \<Longrightarrow> i \<le> hp_n h \<Longrightarrow> nd_idx (hp_store h (hp_array h i)) = i"
  by (simp add: heap_wf_def)

lemma heap_wf_inj: "heap_wf h \<Longrightarrow> inj_on (hp_array h) {1..hp_n h}"
  by (rule inj_on_inverseI [where g = "\<lambda>p. nd_idx (hp_store h p)"]) (simp add: heap_wf_idx)

lemma heap_nodes_idx:
  assumes "heap_wf h" "p \<in> heap_nodes h"
  shows "1 \<le> nd_idx (hp_store h p)" "nd_idx (hp_store h p) \<le> hp_n h"
    "hp_array h (nd_idx (hp_store h p)) = p"
  using assms by (auto simp: heap_nodes_def heap_wf_def)

subsection \<open>Exchanging nodes\<close>

lemma swap_nodes_array [simp]:
  "hp_array (swap_nodes h i j) = exchange i j (hp_array h)"
  by (auto simp: swap_nodes_def put_node_def Let_def exchange_def)

lemma swap_nodes_allocated [simp]: "hp_allocated (swap_nodes h i j) = hp_allocated h"
  by (simp add: swap_nodes_def put_node_def Let_def)

lemma swap_nodes_priority [simp]:
  "nd_priority (hp_store (swap_nodes h i j) p) = nd_priority (hp_store h p)"
  by (simp add: swap_nodes_def put_node_def Let_def)

lemma swap_nodes_key: "key (swap_nodes h i j) k = exchange i j (key h) k"
  by (simp add: exchange_def)

lemma swap_nodes_wf:
  assumes wf: "heap_wf h" and ij: "1 \<le> i" "i \<le> hp_n h" "1 \<le> j" "j \<le> hp_n h"
  shows "heap_wf (swap_nodes h i j)"
proof -
  have inj: "hp_array h k = hp_array h l \<longleftrightarrow> k = l"
    if "1 \<le> k" "k \<le> hp_n h" "1 \<le> l" "l \<le> hp_n h" for k l
    using inj_onD [OF heap_wf_inj [OF wf]] that by (auto simp: heap_wf_idx [OF wf])
  have "nd_idx (hp_store (swap_nodes h i j) (exchange i j (hp_array h) k)) = k"
    if "1 \<le> k" "k \<le> hp_n h" for k
    using that ij wf
    by (auto simp: swap_nodes_def put_node_def Let_def exchange_def inj heap_wf_idx)
  with wf show ?thesis by (simp add: heap_wf_def)
qed

lemma swap_nodes_same:
  assumes "heap_wf h" "1 \<le> i" "i \<le> hp_n h" "1 \<le> j" "j \<le> hp_n h"
  shows "heap_same h (swap_nodes h i j)"
  using assms swap_nodes_wf [OF assms]
  by (simp add: heap_same_def heap_nodes_def heap_prio_def exchange_image fun_eq_iff)

subsection \<open>Floating up\<close>

lemma float_up_same:
  "heap_wf h \<Longrightarrow> 1 \<le> i \<Longrightarrow> i \<le> hp_n h \<Longrightarrow> heap_same h (snd (float_up h i m))"
proof (induction h i m rule: float_up.induct)
  case (1 h i m)
  show ?case
  proof (cases "i > 1 \<and> \<not> key h (heap_parent i) \<ge> key h i")
    case True
    let ?s = "swap_nodes h (heap_parent i) i"
    have p: "1 \<le> heap_parent i" "heap_parent i \<le> hp_n h"
      using True "1.prems" by (auto simp: heap_parent_def)
    have s: "heap_same h ?s" using p "1.prems" by (intro swap_nodes_same) auto
    then have "heap_same ?s (snd (float_up ?s (heap_parent i) True))"
      using True p by (intro "1.IH") (auto simp: heap_same_def)
    with s True show ?thesis
      by (auto simp: float_up.simps [of h i m] Let_def intro: heap_same_trans)
  next
    case False
    with "1.prems" show ?thesis by (auto simp: float_up.simps [of h i m] Let_def)
  qed
qed

text \<open>The order holds but for cell \<open>i\<close>, which may be too large for its place.\<close>

definition up_ok :: "heap \<Rightarrow> nat \<Rightarrow> bool" where
  "up_ok h i \<longleftrightarrow>
     (\<forall>k. 2 \<le> k \<and> k \<le> hp_n h \<and> k \<noteq> i \<longrightarrow> key h k \<le> key h (k div 2)) \<and>
     (\<forall>k. 2 \<le> i \<and> k \<le> hp_n h \<and> k div 2 = i \<longrightarrow> key h k \<le> key h (i div 2))"

lemma up_ok_swap:
  assumes ok: "up_ok h i" and i: "2 \<le> i" "i \<le> hp_n h" and gt: "key h (i div 2) < key h i"
  shows "up_ok (swap_nodes h (i div 2) i) (i div 2)"
  unfolding up_ok_def n_swap_nodes swap_nodes_key
proof (intro conjI allI impI)
  let ?p = "i div 2"
  have pi: "?p \<noteq> i" "1 \<le> ?p" "?p \<le> hp_n h" using i by auto
  {
    fix k assume k: "2 \<le> k \<and> k \<le> hp_n h \<and> k \<noteq> ?p"
    consider "k = i" | "k \<noteq> i" "k div 2 = i" | "k \<noteq> i" "k div 2 = ?p" | "k div 2 \<noteq> i" "k div 2 \<noteq> ?p"
      by blast
    then show "exchange ?p i (key h) k \<le> exchange ?p i (key h) (k div 2)"
    proof cases
      case 1 with gt pi show ?thesis by simp
    next
      case 2 with ok k i pi show ?thesis by (simp add: up_ok_def)
    next
      case 3
      have "key h k \<le> key h ?p" using ok k 3 by (auto simp: up_ok_def)
      with gt 3 k show ?thesis by simp
    next
      case 4
      then have "k \<noteq> i" by auto
      with ok k 4 show ?thesis by (simp add: up_ok_def)
    qed
  next
    fix k assume k: "2 \<le> ?p \<and> k \<le> hp_n h \<and> k div 2 = ?p"
    have pp: "?p div 2 \<noteq> ?p" "?p div 2 \<noteq> i" using k by auto
    have le: "key h ?p \<le> key h (?p div 2)" using ok k pi by (simp add: up_ok_def)
    show "exchange ?p i (key h) k \<le> exchange ?p i (key h) (?p div 2)"
    proof (cases "k = i")
      case True with le pp pi show ?thesis by simp
    next
      case False
      have k2: "2 \<le> k" "k \<noteq> ?p" using k by auto
      have "key h k \<le> key h ?p" using ok k False k2 by (auto simp: up_ok_def)
      with le False pp k2 show ?thesis by simp
    qed
  }
qed

lemma float_up_ordered:
  "up_ok h i \<Longrightarrow> 1 \<le> i \<Longrightarrow> i \<le> hp_n h \<Longrightarrow> heap_ordered 1 (snd (float_up h i m))"
proof (induction h i m rule: float_up.induct)
  case (1 h i m)
  show ?case
  proof (cases "i > 1 \<and> \<not> key h (heap_parent i) \<ge> key h i")
    case True
    then have "up_ok (swap_nodes h (heap_parent i) i) (heap_parent i)"
      using "1.prems" up_ok_swap [of h i] by (simp add: heap_parent_def not_le)
    then have "heap_ordered 1 (snd (float_up (swap_nodes h (heap_parent i) i) (heap_parent i) True))"
      using True "1.prems" by (intro "1.IH") (auto simp: heap_parent_def)
    with True show ?thesis by (simp add: float_up.simps [of h i m] Let_def)
  next
    case False
    with "1.prems" show ?thesis
      by (auto simp: float_up.simps [of h i m] Let_def heap_ordered_def up_ok_def heap_parent_def)
  qed
qed

lemma float_up_flag: "m \<Longrightarrow> fst (float_up h i m)"
proof (induction h i m rule: float_up.induct)
  case (1 h i m)
  then show ?case by (auto simp: float_up.simps [of h i True] Let_def)
qed

lemma float_up_unmoved:
  assumes "\<not> fst (float_up h i m)"
  shows "snd (float_up h i m) = h" "i > 1 \<Longrightarrow> key h i \<le> key h (i div 2)"
  using assms float_up_flag [of True "swap_nodes h (heap_parent i) i" "heap_parent i"]
  by (auto simp: float_up.simps [of h i m] Let_def heap_parent_def split: if_splits)

lemma float_up_moved:
  assumes "fst (float_up h i False)"
  shows "i > 1" "key h (i div 2) < key h i"
  using assms
  by (auto simp: float_up.simps [of h i False] Let_def heap_parent_def split: if_splits)

subsection \<open>Floating down\<close>

lemma float_down_max_cases:
  assumes "\<not> heap_is_leaf h i"
  shows "float_down_max h i = i \<or>
     (2 * i \<le> float_down_max h i \<and> float_down_max h i \<le> 2 * i + 1 \<and> float_down_max h i \<le> hp_n h \<and>
      key h i < key h (float_down_max h i))"
  using assms
  by (auto simp: float_down_max_def heap_is_leaf_def heap_left_def heap_right_def Let_def)

text \<open>The chosen cell is the largest of \<open>i\<close> and its children.\<close>

lemma float_down_max_ge:
  assumes "k div 2 = i" "2 \<le> k" "k \<le> hp_n h"
  shows "key h k \<le> key h (float_down_max h i)"
proof -
  have "k = i * 2 \<or> k = i * 2 + 1" using assms(1) by presburger
  with assms(3) show ?thesis
    by (auto simp: float_down_max_def heap_left_def heap_right_def Let_def)
qed

lemma float_down_same:
  "heap_wf h \<Longrightarrow> 1 \<le> i \<Longrightarrow> i \<le> hp_n h \<Longrightarrow> heap_same h (float_down h i)"
proof (induction h i rule: float_down.induct)
  case (1 h i)
  let ?m = "float_down_max h i"
  show ?case
  proof (cases "\<not> heap_is_leaf h i \<and> ?m \<noteq> i")
    case True
    then have m: "1 \<le> ?m" "?m \<le> hp_n h" using float_down_max_cases [of h i] "1.prems" by auto
    have s: "heap_same h (swap_nodes h ?m i)" using m "1.prems" by (intro swap_nodes_same) auto
    then have "heap_same (swap_nodes h ?m i) (float_down (swap_nodes h ?m i) ?m)"
      using True m by (intro "1.IH") (auto simp: heap_same_def)
    with s True show ?thesis
      by (auto simp: float_down.simps [of h i] Let_def intro: heap_same_trans)
  next
    case False
    with "1.prems" show ?thesis by (auto simp: float_down.simps [of h i] Let_def)
  qed
qed

text \<open>The order holds below the cells from \<open>lo\<close> on, but for cell \<open>i\<close>, which may be too small.\<close>

definition down_ok :: "nat \<Rightarrow> heap \<Rightarrow> nat \<Rightarrow> bool" where
  "down_ok lo h i \<longleftrightarrow>
     (\<forall>k. 2 \<le> k \<and> k \<le> hp_n h \<and> lo \<le> k div 2 \<and> k div 2 \<noteq> i \<longrightarrow> key h k \<le> key h (k div 2)) \<and>
     (\<forall>k. k \<le> hp_n h \<and> k div 2 = i \<and> 2 \<le> i \<and> lo \<le> i div 2 \<longrightarrow> key h k \<le> key h (i div 2))"

lemma down_ok_swap:
  assumes ok: "down_ok lo h i" and i: "1 \<le> i" "lo \<le> i" and leaf: "\<not> heap_is_leaf h i"
    and m: "m = float_down_max h i" "m \<noteq> i"
  shows "down_ok lo (swap_nodes h m i) m"
  unfolding down_ok_def n_swap_nodes swap_nodes_key
proof (intro conjI allI impI)
  have mi: "m div 2 = i" "m \<le> hp_n h" "key h i < key h m" "2 \<le> m" "i < m"
    using float_down_max_cases [OF leaf] m i by auto
  {
    fix k assume k: "2 \<le> k \<and> k \<le> hp_n h \<and> lo \<le> k div 2 \<and> k div 2 \<noteq> m"
    consider "k = m" | "k = i" | "k \<noteq> m" "k div 2 = i" | "k \<noteq> m" "k \<noteq> i" "k div 2 \<noteq> i" by blast
    then show "exchange m i (key h) k \<le> exchange m i (key h) (k div 2)"
    proof cases
      case 1 with mi show ?thesis by simp
    next
      case 2
      then have "key h m \<le> key h (i div 2)" using ok k mi by (simp add: down_ok_def)
      moreover have "i div 2 \<noteq> i" using 2 k by auto
      ultimately show ?thesis using 2 k by simp
    next
      case 3
      have "key h k \<le> key h m" using float_down_max_ge [of k i h] 3 k m by simp
      moreover have "k \<noteq> i" using 3 k by auto
      ultimately show ?thesis using 3 by simp
    next
      case 4 with ok k show ?thesis by (simp add: down_ok_def)
    qed
  next
    fix k assume k: "k \<le> hp_n h \<and> k div 2 = m \<and> 2 \<le> m \<and> lo \<le> m div 2"
    then have "2 \<le> k" "lo \<le> k div 2" "k div 2 \<noteq> i" using mi i by auto
    then have "key h k \<le> key h m" using ok k by (auto simp: down_ok_def)
    moreover have "k \<noteq> m" "k \<noteq> i" using k mi by auto
    ultimately show "exchange m i (key h) k \<le> exchange m i (key h) (m div 2)" using mi by simp
  }
qed

lemma float_down_ordered:
  "down_ok lo h i \<Longrightarrow> 1 \<le> i \<Longrightarrow> lo \<le> i \<Longrightarrow> heap_ordered lo (float_down h i)"
proof (induction h i rule: float_down.induct)
  case (1 h i)
  let ?m = "float_down_max h i"
  show ?case
  proof (cases "\<not> heap_is_leaf h i \<and> ?m \<noteq> i")
    case True
    then have "down_ok lo (swap_nodes h ?m i) ?m" using "1.prems" by (intro down_ok_swap) auto
    then have "heap_ordered lo (float_down (swap_nodes h ?m i) ?m)"
      using True "1.prems" float_down_max_cases [of h i] by (intro "1.IH") auto
    with True show ?thesis by (simp add: float_down.simps [of h i] Let_def)
  next
    case False
    then have "key h k \<le> key h i" if "k div 2 = i" "2 \<le> k" "k \<le> hp_n h" for k
      using float_down_max_ge [OF that] that by (auto simp: heap_is_leaf_def heap_left_def)
    with False "1.prems" show ?thesis
      by (auto simp: float_down.simps [of h i] Let_def heap_ordered_def down_ok_def)
  qed
qed

subsection \<open>Restoring the order at one cell\<close>

text \<open>Cell \<open>i\<close> is out of place, in an unknown direction, and everything around it fits.\<close>

definition hole_ok :: "heap \<Rightarrow> nat \<Rightarrow> bool" where
  "hole_ok h i \<longleftrightarrow>
     (\<forall>k. 2 \<le> k \<and> k \<le> hp_n h \<and> k \<noteq> i \<and> k div 2 \<noteq> i \<longrightarrow> key h k \<le> key h (k div 2)) \<and>
     (\<forall>k. k \<le> hp_n h \<and> k div 2 = i \<and> 2 \<le> i \<longrightarrow> key h k \<le> key h (i div 2))"

lemma float_up_or_down_same:
  assumes "heap_wf h" "1 \<le> i" "i \<le> hp_n h"
  shows "heap_same h (float_up_or_down h i)"
proof -
  have up: "heap_same h (snd (float_up h i False))" by (rule float_up_same [OF assms])
  then have "heap_same (snd (float_up h i False)) (float_down (snd (float_up h i False)) i)"
    using assms by (intro float_down_same) (auto simp: heap_same_def)
  with up show ?thesis
    by (auto simp: float_up_or_down_def Let_def split_beta intro: heap_same_trans)
qed

lemma float_up_or_down_ordered:
  assumes "hole_ok h i" "1 \<le> i" "i \<le> hp_n h"
  shows "heap_ordered 1 (float_up_or_down h i)"
proof (cases "fst (float_up h i False)")
  case True
  note gt = float_up_moved [OF True]
  have "up_ok h i" unfolding up_ok_def
  proof (intro conjI allI impI)
    fix k assume k: "2 \<le> k \<and> k \<le> hp_n h \<and> k \<noteq> i"
    show "key h k \<le> key h (k div 2)"
    proof (cases "k div 2 = i")
      case True
      then have "key h k \<le> key h (i div 2)" using assms(1) k gt by (simp add: hole_ok_def)
      with gt True show ?thesis by simp
    next
      case False with assms(1) k show ?thesis by (simp add: hole_ok_def)
    qed
  next
    fix k assume "2 \<le> i \<and> k \<le> hp_n h \<and> k div 2 = i"
    with assms(1) show "key h k \<le> key h (i div 2)" by (simp add: hole_ok_def)
  qed
  with True assms show ?thesis
    by (simp add: float_up_or_down_def Let_def split_beta float_up_ordered del: One_nat_def)
next
  case False
  note un = float_up_unmoved [OF False]
  have "down_ok 1 h i" using assms un(2) by (auto simp: down_ok_def hole_ok_def)
  with False un(1) assms show ?thesis
    by (simp add: float_up_or_down_def Let_def split_beta float_down_ordered del: One_nat_def)
qed

subsection \<open>The operations\<close>

lemma raw_insert_fields [simp]:
  "hp_n (heap_raw_insert h p x) = Suc (hp_n h)"
  "hp_array (heap_raw_insert h p x) = (hp_array h)(Suc (hp_n h) := p)"
  "hp_store (heap_raw_insert h p x) = (hp_store h)(p := \<lparr>nd_idx = Suc (hp_n h), nd_priority = x\<rparr>)"
proof -
  have "(hp_store h p)\<lparr>nd_idx := Suc (hp_n h), nd_priority := x\<rparr>
      = \<lparr>nd_idx = Suc (hp_n h), nd_priority = x\<rparr>"
    by (cases "hp_store h p") simp
  moreover have "hp_store (heap_raw_insert h p x)
      = (hp_store h)(p := (hp_store h p)\<lparr>nd_idx := Suc (hp_n h), nd_priority := x\<rparr>)"
    by (simp add: heap_raw_insert_def put_node_def Let_def)
  ultimately show "hp_store (heap_raw_insert h p x)
      = (hp_store h)(p := \<lparr>nd_idx = Suc (hp_n h), nd_priority = x\<rparr>)"
    by metis
qed (simp_all add: heap_raw_insert_def put_node_def Let_def)

lemma heap_array_notin: "p \<notin> heap_nodes h \<Longrightarrow> 1 \<le> i \<Longrightarrow> i \<le> hp_n h \<Longrightarrow> hp_array h i \<noteq> p"
  by (auto simp: heap_nodes_def)

lemma raw_insert_wf:
  assumes "heap_wf h" "p \<notin> heap_nodes h"
  shows "heap_wf (heap_raw_insert h p x)"
    and "heap_nodes (heap_raw_insert h p x) = insert p (heap_nodes h)"
    and "heap_prio (heap_raw_insert h p x) = (heap_prio h)(p := x)"
proof -
  have "hp_allocated (heap_raw_insert h p x) \<ge> Suc (hp_n h)"
    by (auto simp: heap_raw_insert_def put_node_def Let_def)
  moreover have "hp_array h i \<noteq> p" if "1 \<le> i" "i \<le> hp_n h" for i
    using heap_array_notin [OF assms(2) that] .
  ultimately show "heap_wf (heap_raw_insert h p x)"
    using assms(1) by (auto simp: heap_wf_def le_Suc_eq)
  show "heap_nodes (heap_raw_insert h p x) = insert p (heap_nodes h)"
    by (auto simp: heap_nodes_def atLeastAtMostSuc_conv)
  show "heap_prio (heap_raw_insert h p x) = (heap_prio h)(p := x)"
    by (auto simp: heap_prio_def)
qed

lemma raw_insert_up_ok:
  assumes "heap_inv h" "p \<notin> heap_nodes h"
  shows "up_ok (heap_raw_insert h p x) (Suc (hp_n h))"
proof -
  have facts: "key h k \<le> key h (k div 2)" "hp_array h k \<noteq> p" "hp_array h (k div 2) \<noteq> p"
    if "2 \<le> k" "k \<le> hp_n h" for k
    using assms that heap_array_notin [OF assms(2), of k] heap_array_notin [OF assms(2), of "k div 2"]
    by (auto simp: heap_inv_def heap_ordered_def)
  have "key (heap_raw_insert h p x) k \<le> key (heap_raw_insert h p x) (k div 2)"
    if "2 \<le> k" "k \<le> hp_n h" for k
  proof -
    have "k \<noteq> Suc (hp_n h)" "k div 2 \<noteq> Suc (hp_n h)" using that by auto
    with facts [OF that] show ?thesis by simp
  qed
  then show ?thesis unfolding up_ok_def raw_insert_fields(1)
    by (intro conjI allI impI) (simp only: le_Suc_eq, blast, linarith)
qed

lemma heap_insert_same:
  assumes "heap_wf h" "p \<notin> heap_nodes h"
  shows "heap_same (heap_raw_insert h p x) (heap_insert h p x)"
  using raw_insert_wf(1) [OF assms] by (auto simp: heap_insert_def Let_def intro!: float_up_same)

lemma heap_insert_ordered:
  assumes "heap_inv h" "p \<notin> heap_nodes h"
  shows "heap_ordered 1 (heap_insert h p x)"
  using float_up_ordered [OF raw_insert_up_ok [OF assms], of x False]
  by (simp add: heap_insert_def Let_def)

lemma raw_remove_fields:
  assumes "heap_wf h" "p \<in> heap_nodes h"
  shows "hp_n (heap_raw_remove h p) = hp_n h - 1"
    and "hp_allocated (heap_raw_remove h p) = hp_allocated h"
    and "\<And>k. k \<noteq> nd_idx (hp_store h p) \<Longrightarrow> hp_array (heap_raw_remove h p) k = hp_array h k"
    and "nd_idx (hp_store h p) < hp_n h \<Longrightarrow>
           hp_array (heap_raw_remove h p) (nd_idx (hp_store h p)) = hp_array h (hp_n h)"
    and "heap_prio (heap_raw_remove h p) = heap_prio h"
    and "heap_wf (heap_raw_remove h p)"
proof -
  note ix = heap_nodes_idx [OF assms]
  have inj: "hp_array h k = hp_array h (hp_n h) \<longleftrightarrow> k = hp_n h" if "1 \<le> k" "k \<le> hp_n h" for k
    using inj_onD [OF heap_wf_inj [OF assms(1)], of k "hp_n h"] that by auto
  show "hp_n (heap_raw_remove h p) = hp_n h - 1"
    and "hp_allocated (heap_raw_remove h p) = hp_allocated h"
    and "\<And>k. k \<noteq> nd_idx (hp_store h p) \<Longrightarrow> hp_array (heap_raw_remove h p) k = hp_array h k"
    and "nd_idx (hp_store h p) < hp_n h \<Longrightarrow>
           hp_array (heap_raw_remove h p) (nd_idx (hp_store h p)) = hp_array h (hp_n h)"
    and "heap_prio (heap_raw_remove h p) = heap_prio h"
    by (auto simp: heap_raw_remove_def put_node_def Let_def heap_prio_def)
  show "heap_wf (heap_raw_remove h p)"
    using assms(1) ix by (auto simp: heap_raw_remove_def put_node_def Let_def heap_wf_def inj)
qed

lemma raw_remove_nodes:
  assumes "heap_wf h" "p \<in> heap_nodes h"
  shows "heap_nodes (heap_raw_remove h p) = heap_nodes h - {p}"
proof -
  note ix = heap_nodes_idx [OF assms] and rr = raw_remove_fields [OF assms]
  let ?i = "nd_idx (hp_store h p)" and ?n = "hp_n h"
  have split: "{1..?n} = insert ?n {1..?n - 1}" using ix by auto
  have sub: "hp_array (heap_raw_remove h p) ` {1..?n - 1} = hp_array h ` ({1..?n} - {?i})"
  proof (cases "?i = ?n")
    case True
    with ix split have "{1..?n} - {?i} = {1..?n - 1}" by auto
    moreover have "hp_array (heap_raw_remove h p) ` {1..?n - 1} = hp_array h ` {1..?n - 1}"
      using True ix rr(3) by (intro image_cong) auto
    ultimately show ?thesis by simp
  next
    case False
    with ix have lt: "?i < ?n" by simp
    have "{1..?n - 1} = insert ?i ({1..?n - 1} - {?i})" using ix lt by auto
    then have "hp_array (heap_raw_remove h p) ` {1..?n - 1} =
        insert (hp_array h ?n) (hp_array h ` ({1..?n - 1} - {?i}))"
      using rr(3,4) lt by (metis (no_types, lifting) Diff_iff image_cong image_insert singletonI)
    also have "\<dots> = hp_array h ` ({1..?n} - {?i})" using split lt by auto
    finally show ?thesis .
  qed
  also have "\<dots> = heap_nodes h - {p}"
    using inj_on_image_set_diff [OF heap_wf_inj [OF assms(1)], of "{1..?n}" "{?i}"] ix
    by (simp add: heap_nodes_def)
  finally show ?thesis by (simp add: heap_nodes_def rr(1))
qed

lemma raw_remove_hole_ok:
  assumes "heap_inv h" "p \<in> heap_nodes h" "nd_idx (hp_store h p) < hp_n h"
  shows "hole_ok (heap_raw_remove h p) (nd_idx (hp_store h p))"
proof -
  have wf: "heap_wf h" using assms(1) by (simp add: heap_inv_def)
  note rr = raw_remove_fields [OF wf assms(2)]
  let ?i = "nd_idx (hp_store h p)"
  have key: "key (heap_raw_remove h p) k = key h k" if "k \<noteq> ?i" for k
    using rr(3) [OF that] fun_cong [OF rr(5)] by (simp add: heap_prio_def)
  have ord: "key h k \<le> key h (k div 2)" if "2 \<le> k" "k \<le> hp_n h" for k
    using assms(1) that by (auto simp: heap_inv_def heap_ordered_def)
  have "key h k \<le> key h (?i div 2)" if "k \<le> hp_n h" "k div 2 = ?i" "2 \<le> ?i" for k
  proof -
    have "2 \<le> k" using that by auto
    then show ?thesis using ord [of k] ord [of ?i] that assms(3) by (auto intro: order_trans)
  qed
  with ord show ?thesis by (auto simp: hole_ok_def key rr(1))
qed

lemma heap_remove_same:
  assumes "heap_wf h" "p \<in> heap_nodes h"
  shows "heap_same (heap_raw_remove h p) (heap_remove h p)"
  using raw_remove_fields [OF assms] heap_nodes_idx [OF assms]
  by (auto simp: heap_remove_def Let_def intro!: float_up_or_down_same)

lemma heap_remove_ordered:
  assumes "heap_inv h" "p \<in> heap_nodes h"
  shows "heap_ordered 1 (heap_remove h p)"
proof -
  have wf: "heap_wf h" using assms(1) by (simp add: heap_inv_def)
  note rr = raw_remove_fields [OF wf assms(2)] and ix = heap_nodes_idx [OF wf assms(2)]
  let ?i = "nd_idx (hp_store h p)"
  show ?thesis
  proof (cases "?i < hp_n h")
    case True
    then have "heap_ordered 1 (float_up_or_down (heap_raw_remove h p) ?i)"
      using raw_remove_hole_ok [OF assms] rr(1) ix by (intro float_up_or_down_ordered) auto
    moreover have "?i \<le> hp_n (heap_raw_remove h p)" using True rr(1) by simp
    ultimately show ?thesis by (simp add: heap_remove_def Let_def)
  next
    case False
    with ix have i: "?i = hp_n h" by simp
    have "key (heap_raw_remove h p) k = key h k" if "k \<noteq> ?i" for k
      using rr(3) [OF that] fun_cong [OF rr(5)] by (simp add: heap_prio_def)
    with i ix rr(1) assms(1) have "heap_ordered 1 (heap_raw_remove h p)"
      by (auto simp: heap_inv_def heap_ordered_def)
    moreover have "\<not> ?i \<le> hp_n (heap_raw_remove h p)" using i ix rr(1) by simp
    ultimately show ?thesis by (simp add: heap_remove_def Let_def)
  qed
qed

lemma raw_change_fields [simp]:
  "hp_n (heap_raw_change h p x) = hp_n h"
  "hp_array (heap_raw_change h p x) = hp_array h"
  "hp_allocated (heap_raw_change h p x) = hp_allocated h"
  "nd_idx (hp_store (heap_raw_change h p x) q) = nd_idx (hp_store h q)"
  "nd_priority (hp_store (heap_raw_change h p x) q)
     = (if q = p then x else nd_priority (hp_store h q))"
  by (simp_all add: heap_raw_change_def)

lemma raw_change_abs:
  "heap_wf (heap_raw_change h p x) = heap_wf h"
  "heap_nodes (heap_raw_change h p x) = heap_nodes h"
  "heap_prio (heap_raw_change h p x) = (heap_prio h)(p := x)"
  by (simp_all add: heap_wf_def heap_nodes_def heap_prio_def fun_eq_iff)

lemma raw_change_hole_ok:
  assumes "heap_inv h" "p \<in> heap_nodes h"
  shows "hole_ok (heap_raw_change h p x) (nd_idx (hp_store h p))"
proof -
  have wf: "heap_wf h" using assms(1) by (simp add: heap_inv_def)
  let ?i = "nd_idx (hp_store h p)"
  note ix = heap_nodes_idx [OF wf assms(2)]
  have ord: "key h k \<le> key h (k div 2)" if "2 \<le> k" "k \<le> hp_n h" for k
    using assms(1) that by (auto simp: heap_inv_def heap_ordered_def)
  have key: "key (heap_raw_change h p x) k = key h k" if "k \<noteq> ?i" "1 \<le> k" "k \<le> hp_n h" for k
    using heap_wf_idx [OF wf that(2,3)] that(1) by auto
  show ?thesis unfolding hole_ok_def raw_change_fields(1)
  proof (intro conjI allI impI)
    fix k assume "2 \<le> k \<and> k \<le> hp_n h \<and> k \<noteq> ?i \<and> k div 2 \<noteq> ?i"
    then show "key (heap_raw_change h p x) k \<le> key (heap_raw_change h p x) (k div 2)"
      using key [of k] key [of "k div 2"] ord [of k] by auto
  next
    fix k assume k: "k \<le> hp_n h \<and> k div 2 = ?i \<and> 2 \<le> ?i"
    then have "2 \<le> k" "k \<noteq> ?i" "?i div 2 \<noteq> ?i" by auto
    then show "key (heap_raw_change h p x) k \<le> key (heap_raw_change h p x) (?i div 2)"
      using key [of k] key [of "?i div 2"] ord [of k] ord [of ?i] k ix by auto
  qed
qed

lemma heap_change_same:
  assumes "heap_wf h" "p \<in> heap_nodes h"
  shows "heap_same (heap_raw_change h p x) (heap_change h p x)"
  using heap_nodes_idx [OF assms] assms(1)
  by (auto simp: heap_change_def Let_def raw_change_abs intro!: float_up_or_down_same)

lemma heap_change_ordered:
  assumes "heap_inv h" "p \<in> heap_nodes h"
  shows "heap_ordered 1 (heap_change h p x)"
  using float_up_or_down_ordered [OF raw_change_hole_ok [OF assms], of x] assms
    heap_nodes_idx [of h p]
  by (simp add: heap_change_def Let_def heap_inv_def)

lemma heap_rebuild_from_correct:
  "heap_wf h \<Longrightarrow> 2 * i \<le> hp_n h \<Longrightarrow> heap_ordered (Suc i) h \<Longrightarrow>
     heap_same h (heap_rebuild_from h i) \<and> heap_ordered 1 (heap_rebuild_from h i)"
proof (induction i arbitrary: h)
  case 0
  then show ?case by (auto simp: heap_ordered_def)
next
  case (Suc i)
  let ?h = "float_down h (Suc i)"
  have same: "heap_same h ?h" using Suc.prems by (intro float_down_same) auto
  have "down_ok (Suc i) h (Suc i)" using Suc.prems(3) by (auto simp: down_ok_def heap_ordered_def)
  then have "heap_ordered (Suc i) ?h" by (intro float_down_ordered) auto
  then have "heap_same ?h (heap_rebuild_from ?h i) \<and> heap_ordered 1 (heap_rebuild_from ?h i)"
    using same Suc.prems by (intro Suc.IH) (auto simp: heap_same_def)
  with same show ?case by (auto intro: heap_same_trans)
qed

lemma heap_ordered_le_max:
  "heap_ordered 1 h \<Longrightarrow> 1 \<le> k \<Longrightarrow> k \<le> hp_n h \<Longrightarrow> key h k \<le> key h 1"
proof (induction k rule: less_induct)
  case (less k)
  show ?case
  proof (cases "k = 1")
    case False
    with less.prems have "key h k \<le> key h (k div 2)" "1 \<le> k div 2" "k div 2 < k"
      by (auto simp: heap_ordered_def)
    with less.IH [of "k div 2"] less.prems show ?thesis by auto
  qed simp
qed

section \<open>The priority queue interface\<close>

text \<open>
  What clients of the heap rely on: a set of nodes with a priority each, changed by insertion,
  removal and change of priority, and a node of the greatest priority.
\<close>

locale max_queue =
  fixes ins :: "'h \<Rightarrow> 'a \<Rightarrow> 'p::linorder \<Rightarrow> 'h"
    and rem :: "'h \<Rightarrow> 'a \<Rightarrow> 'h"
    and chg :: "'h \<Rightarrow> 'a \<Rightarrow> 'p \<Rightarrow> 'h"
    and top :: "'h \<Rightarrow> 'a"
    and members :: "'h \<Rightarrow> 'a set"
    and prio :: "'h \<Rightarrow> 'a \<Rightarrow> 'p"
    and invar :: "'h \<Rightarrow> bool"
  assumes invar_ins: "invar h \<Longrightarrow> x \<notin> members h \<Longrightarrow> invar (ins h x p)"
    and members_ins: "invar h \<Longrightarrow> x \<notin> members h \<Longrightarrow> members (ins h x p) = insert x (members h)"
    and prio_ins: "invar h \<Longrightarrow> x \<notin> members h \<Longrightarrow> prio (ins h x p) = (prio h)(x := p)"
    and invar_rem: "invar h \<Longrightarrow> x \<in> members h \<Longrightarrow> invar (rem h x)"
    and members_rem: "invar h \<Longrightarrow> x \<in> members h \<Longrightarrow> members (rem h x) = members h - {x}"
    and prio_rem: "invar h \<Longrightarrow> x \<in> members h \<Longrightarrow> prio (rem h x) = prio h"
    and invar_chg: "invar h \<Longrightarrow> x \<in> members h \<Longrightarrow> invar (chg h x p)"
    and members_chg: "invar h \<Longrightarrow> x \<in> members h \<Longrightarrow> members (chg h x p) = members h"
    and prio_chg: "invar h \<Longrightarrow> x \<in> members h \<Longrightarrow> prio (chg h x p) = (prio h)(x := p)"
    and top_in: "invar h \<Longrightarrow> members h \<noteq> {} \<Longrightarrow> top h \<in> members h"
    and top_max: "invar h \<Longrightarrow> x \<in> members h \<Longrightarrow> prio h x \<le> prio h (top h)"
begin

text \<open>Taking the maximum out repeatedly yields priorities that never increase.\<close>

lemma tops_decrease:
  assumes "invar h" "members h - {top h} \<noteq> {}"
  shows "prio h (top (rem h (top h))) \<le> prio h (top h)"
    and "top (rem h (top h)) \<noteq> top h"
proof -
  have t: "top h \<in> members h" using assms top_in by blast
  then have "top (rem h (top h)) \<in> members (rem h (top h))"
    using assms invar_rem members_rem top_in by metis
  then have m: "top (rem h (top h)) \<in> members h - {top h}"
    using members_rem [OF assms(1) t] by simp
  then show "prio h (top (rem h (top h))) \<le> prio h (top h)" using assms(1) top_max by blast
  show "top (rem h (top h)) \<noteq> top h" using m by blast
qed

text \<open>Raising a node above every other makes it the maximum.\<close>

lemma raise_to_top:
  assumes "invar h" "x \<in> members h" "\<And>y. y \<in> members h \<Longrightarrow> y \<noteq> x \<Longrightarrow> prio h y < p"
  shows "top (chg h x p) = x"
proof (rule ccontr)
  let ?t = "top (chg h x p)"
  assume neq: "?t \<noteq> x"
  have "members (chg h x p) = members h" using assms by (simp add: members_chg)
  then have "?t \<in> members h" using top_in [OF invar_chg [OF assms(1,2)]] assms(2) by blast
  then have "prio h ?t < p" using assms(3) neq by blast
  moreover have "prio (chg h x p) x \<le> prio (chg h x p) ?t"
    using assms by (intro top_max) (auto simp: invar_chg members_chg)
  ultimately show False using neq assms by (simp add: prio_chg)
qed

end

lemma heap_inv_same: "heap_same h h' \<Longrightarrow> heap_ordered 1 h' \<Longrightarrow> heap_inv h'"
  by (simp add: heap_same_def heap_inv_def)

lemma heap_inv_top:
  assumes "heap_inv h" "p \<in> heap_nodes h"
  shows "heap_prio h p \<le> heap_prio h (heap_max h)"
proof -
  obtain k where "p = hp_array h k" "1 \<le> k" "k \<le> hp_n h"
    using assms(2) by (auto simp: heap_nodes_def)
  with heap_ordered_le_max [of h k] assms(1) show ?thesis
    by (simp add: heap_prio_def heap_max_def heap_inv_def)
qed

interpretation ovs_heap: max_queue heap_insert heap_remove heap_change heap_max heap_nodes heap_prio heap_inv
proof (unfold_locales, goal_cases)
  case (1 h x p)
  then show ?case
    by (intro heap_inv_same [OF heap_insert_same heap_insert_ordered]) (auto simp: heap_inv_def)
next
  case (2 h x p)
  then have "heap_wf h" by (simp add: heap_inv_def)
  with 2 heap_insert_same [of h x p] show ?case by (simp add: heap_same_def raw_insert_wf)
next
  case (3 h x p)
  then have "heap_wf h" by (simp add: heap_inv_def)
  with 3 heap_insert_same [of h x p] show ?case by (simp add: heap_same_def raw_insert_wf)
next
  case (4 h x)
  then show ?case
    by (intro heap_inv_same [OF heap_remove_same heap_remove_ordered]) (auto simp: heap_inv_def)
next
  case (5 h x)
  then have "heap_wf h" by (simp add: heap_inv_def)
  with 5 heap_remove_same [of h x] show ?case by (simp add: heap_same_def raw_remove_nodes)
next
  case (6 h x)
  then have "heap_wf h" by (simp add: heap_inv_def)
  with 6 heap_remove_same [of h x] show ?case by (simp add: heap_same_def raw_remove_fields)
next
  case (7 h x p)
  then show ?case
    by (intro heap_inv_same [OF heap_change_same heap_change_ordered]) (auto simp: heap_inv_def)
next
  case (8 h x p)
  then have "heap_wf h" by (simp add: heap_inv_def)
  with 8 heap_change_same [of h x p] show ?case by (simp add: heap_same_def raw_change_abs)
next
  case (9 h x p)
  then have "heap_wf h" by (simp add: heap_inv_def)
  with 9 heap_change_same [of h x p] show ?case by (simp add: heap_same_def raw_change_abs)
next
  case (10 h)
  then show ?case by (auto simp: heap_nodes_def heap_max_def)
next
  case (11 h x)
  then show ?case by (rule heap_inv_top)
qed

section \<open>Sequences of operations\<close>

text \<open>
  A client's use of the heap is a sequence of operations, each within its documented precondition.
  The specification is a partial map from nodes to priorities.
\<close>

datatype heap_op = HInsert addr u64 | HRemove addr | HChange addr u64

fun heap_step :: "heap \<Rightarrow> heap_op \<Rightarrow> heap" where
  "heap_step h (HInsert p x) = heap_insert h p x"
| "heap_step h (HRemove p) = heap_remove h p"
| "heap_step h (HChange p x) = heap_change h p x"

fun spec_pre :: "(addr \<rightharpoonup> u64) \<Rightarrow> heap_op \<Rightarrow> bool" where
  "spec_pre m (HInsert p x) = (m p = None)"
| "spec_pre m (HRemove p) = (m p \<noteq> None)"
| "spec_pre m (HChange p x) = (m p \<noteq> None)"

fun spec_step :: "(addr \<rightharpoonup> u64) \<Rightarrow> heap_op \<Rightarrow> (addr \<rightharpoonup> u64)" where
  "spec_step m (HInsert p x) = m(p \<mapsto> x)"
| "spec_step m (HRemove p) = m(p := None)"
| "spec_step m (HChange p x) = m(p \<mapsto> x)"

fun spec_pre_all :: "(addr \<rightharpoonup> u64) \<Rightarrow> heap_op list \<Rightarrow> bool" where
  "spec_pre_all m [] = True"
| "spec_pre_all m (x # xs) = (spec_pre m x \<and> spec_pre_all (spec_step m x) xs)"

definition heap_abs :: "heap \<Rightarrow> (addr \<rightharpoonup> u64)" where
  "heap_abs h p = (if p \<in> heap_nodes h then Some (heap_prio h p) else None)"

lemma heap_step_refines:
  assumes "heap_inv h" "spec_pre (heap_abs h) x"
  shows "heap_inv (heap_step h x)" "heap_abs (heap_step h x) = spec_step (heap_abs h) x"
  using assms
  by (cases x; auto simp: heap_abs_def fun_eq_iff ovs_heap.invar_ins ovs_heap.invar_rem
        ovs_heap.invar_chg ovs_heap.members_ins ovs_heap.members_rem ovs_heap.members_chg
        ovs_heap.prio_ins ovs_heap.prio_rem ovs_heap.prio_chg split: if_splits)+

lemma heap_steps_refine:
  "heap_inv h \<Longrightarrow> spec_pre_all (heap_abs h) xs \<Longrightarrow>
     heap_inv (foldl heap_step h xs) \<and>
     heap_abs (foldl heap_step h xs) = foldl spec_step (heap_abs h) xs"
proof (induction xs arbitrary: h)
  case (Cons x xs)
  then have "heap_inv (heap_step h x)" "heap_abs (heap_step h x) = spec_step (heap_abs h) x"
    using heap_step_refines by auto
  with Cons show ?case by simp
qed simp

lemma heap_inv_init: "heap_inv (heap_init h)" "heap_abs (heap_init h) = Map.empty"
  by (auto simp: heap_inv_def heap_wf_def heap_ordered_def heap_init_def heap_abs_def heap_nodes_def)

text \<open>
  C7: A heap that starts empty and undergoes any sequence of insertions, removals and priority
  changes within their preconditions holds exactly the nodes and priorities of the map
  specification, and whenever it is not empty heap_max returns a node of greatest priority.
\<close>

theorem heap_run_refines:
  assumes "spec_pre_all Map.empty xs"
    and "h' = foldl heap_step (heap_init h) xs" and "m = foldl spec_step Map.empty xs"
  shows "heap_abs h' = m \<and>
    (m \<noteq> Map.empty \<longrightarrow>
      (\<exists>x. m (heap_max h') = Some x \<and> (\<forall>p y. m p = Some y \<longrightarrow> y \<le> x)))"
proof -
  have inv: "heap_inv h'" and abs: "heap_abs h' = m"
    using heap_steps_refine [of "heap_init h" xs] assms by (simp_all add: heap_inv_init)
  have "\<exists>x. m (heap_max h') = Some x \<and> (\<forall>p y. m p = Some y \<longrightarrow> y \<le> x)" if ne: "m \<noteq> Map.empty"
  proof -
    obtain p where "m p \<noteq> None" using ne by (auto simp: fun_eq_iff)
    then have "heap_nodes h' \<noteq> {}" using abs by (auto simp: heap_abs_def split: if_splits)
    then have "heap_max h' \<in> heap_nodes h'" by (rule ovs_heap.top_in [OF inv])
    with ovs_heap.top_max [OF inv] abs show ?thesis
      by (auto simp: heap_abs_def split: if_splits)
  qed
  with abs show ?thesis by blast
qed

definition heap_example_ops :: "heap_op list" where
  "heap_example_ops = [HInsert 7 3, HInsert 9 5, HInsert 4 8, HChange 7 6, HRemove 4]"

theorem heap_run_refines_witness:
  "spec_pre_all Map.empty heap_example_ops \<and>
   heap_abs (foldl heap_step (heap_init \<lparr>hp_store = \<lambda>_. \<lparr>nd_idx = 0, nd_priority = 0\<rparr>,
     hp_array = \<lambda>_. 0, hp_n = 0, hp_allocated = 0\<rparr>) heap_example_ops) 7 = Some 6"
proof -
  have pre: "spec_pre_all Map.empty heap_example_ops" by (simp add: heap_example_ops_def)
  show ?thesis
    using heap_run_refines [OF pre refl refl] pre by (auto simp: heap_example_ops_def)
qed

text \<open>
  heap_rebuild restores the heap order after arbitrary raw insertions, raw removals and raw
  changes: from any well-formed array it yields a heap with the same nodes and priorities.
\<close>

theorem heap_rebuild_restores:
  assumes "heap_wf h"
  shows "heap_inv (heap_rebuild h) \<and> heap_nodes (heap_rebuild h) = heap_nodes h \<and>
    heap_prio (heap_rebuild h) = heap_prio h \<and> heap_count (heap_rebuild h) = heap_count h"
proof -
  have "heap_ordered (Suc (hp_n h div 2)) h" by (auto simp: heap_ordered_def)
  then have "heap_same h (heap_rebuild h) \<and> heap_ordered 1 (heap_rebuild h)"
    unfolding heap_rebuild_def by (intro heap_rebuild_from_correct assms) auto
  then show ?thesis by (auto simp: heap_same_def heap_inv_def heap_count_def)
qed

theorem heap_rebuild_restores_witness:
  "\<exists>h. heap_wf h \<and> \<not> heap_inv h \<and> heap_count h = 2 \<and> heap_inv (heap_rebuild h)"
proof -
  define h where "h = heap_raw_insert (heap_raw_insert (heap_init \<lparr>hp_store = \<lambda>_. \<lparr>nd_idx = 0,
    nd_priority = 0\<rparr>, hp_array = \<lambda>_. 0, hp_n = 0, hp_allocated = 0\<rparr>) 5 1) 6 2"
  have n: "hp_n h = 2" "hp_array h 1 = 5" "hp_array h 2 = 6"
    by (simp_all add: h_def heap_init_def)
  have wf: "heap_wf h"
    by (auto simp: h_def intro!: raw_insert_wf)
       (auto simp: heap_init_def heap_wf_def heap_nodes_def)
  have "\<not> heap_ordered 1 h"
    by (auto simp: heap_ordered_def h_def heap_init_def word_le_nat_alt intro!: exI [of _ 2])
  with n wf heap_rebuild_restores [OF wf] show ?thesis
    by (auto simp: heap_inv_def heap_count_def)
qed

text \<open>
  Draining a heap by removing heap_max visits the nodes in order of priority: the next maximum
  is another node, and its priority is not greater than that of the one just removed.
\<close>

theorem heap_drain_decreases:
  assumes "heap_inv h" "heap_nodes h - {heap_max h} \<noteq> {}"
  shows "heap_prio h (heap_max (heap_remove h (heap_max h))) \<le> heap_prio h (heap_max h) \<and>
    heap_max (heap_remove h (heap_max h)) \<in> heap_nodes h - {heap_max h}"
proof -
  have "heap_max h \<in> heap_nodes h" using assms ovs_heap.top_in by blast
  then have "heap_max (heap_remove h (heap_max h)) \<in> heap_nodes h - {heap_max h}"
    using assms ovs_heap.members_rem ovs_heap.invar_rem ovs_heap.top_in by metis
  with ovs_heap.tops_decrease(1) [OF assms] show ?thesis by blast
qed

theorem heap_drain_decreases_witness:
  "\<exists>h. heap_inv h \<and> heap_nodes h = {5, 6} \<and>
     heap_prio h (heap_max (heap_remove h (heap_max h))) \<le> heap_prio h (heap_max h)"
proof -
  define h0 where "h0 = heap_init \<lparr>hp_store = \<lambda>_. \<lparr>nd_idx = 0, nd_priority = 0\<rparr>,
    hp_array = \<lambda>_. 0, hp_n = 0, hp_allocated = 0\<rparr>"
  define h where "h = heap_insert (heap_insert h0 5 1) 6 2"
  have h0: "heap_inv h0" "heap_nodes h0 = {}"
    by (simp_all add: h0_def heap_inv_init) (simp add: heap_init_def heap_nodes_def)
  then have inv: "heap_inv h" "heap_nodes h = {5, 6}"
    by (auto simp: h_def ovs_heap.invar_ins ovs_heap.members_ins)
  then have "heap_nodes h - {heap_max h} \<noteq> {}" by auto
  from heap_drain_decreases [OF inv(1) this] inv show ?thesis by blast
qed

end
