(* ===== verification/Fifo_Spec.thy ===== *)
theory Fifo_Spec
  imports Main
begin

text \<open>
  A bounded first-in first-out queue: adding to a full queue and taking from an empty one abort.
  A run of operations gives the elements taken, and its specification is the same run on a list.
  The byte queue of lib/byteq.c and the message queue of ofproto/lnx_msq.c both provide this
  interface.
\<close>

datatype 'a queue_op = Put 'a | Get

fun run_queue :: "('q \<Rightarrow> 'a \<Rightarrow> 'q option) \<Rightarrow> ('q \<Rightarrow> ('a \<times> 'q) option) \<Rightarrow> 'q \<Rightarrow> 'a queue_op list \<Rightarrow>
    ('a list \<times> 'q) option" where
  "run_queue put get q [] = Some ([], q)"
| "run_queue put get q (Put x # ops) = Option.bind (put q x) (\<lambda>q'. run_queue put get q' ops)"
| "run_queue put get q (Get # ops) =
     Option.bind (get q) (\<lambda>(x, q'). map_option (apfst ((#) x)) (run_queue put get q' ops))"

definition list_put :: "nat \<Rightarrow> 'a list \<Rightarrow> 'a \<Rightarrow> 'a list option" where
  "list_put cap xs x = (if length xs = cap then None else Some (xs @ [x]))"

definition list_get :: "'a list \<Rightarrow> ('a \<times> 'a list) option" where
  "list_get xs = (case xs of [] \<Rightarrow> None | x # xs' \<Rightarrow> Some (x, xs'))"

locale bounded_fifo =
  fixes put :: "'q \<Rightarrow> 'a \<Rightarrow> 'q option"
    and get :: "'q \<Rightarrow> ('a \<times> 'q) option"
    and contents :: "'q \<Rightarrow> 'a list"
    and cap :: "'q \<Rightarrow> nat"
    and invar :: "'q \<Rightarrow> bool"
  assumes put_None: "invar q \<Longrightarrow> put q x = None \<longleftrightarrow> length (contents q) = cap q"
    and put_Some: "invar q \<Longrightarrow> put q x = Some q' \<Longrightarrow>
      invar q' \<and> contents q' = contents q @ [x] \<and> cap q' = cap q"
    and get_None: "invar q \<Longrightarrow> get q = None \<longleftrightarrow> contents q = []"
    and get_Some: "invar q \<Longrightarrow> get q = Some (x, q') \<Longrightarrow>
      invar q' \<and> contents q = x # contents q' \<and> cap q' = cap q"
begin

lemma run_refines:
  "invar q \<Longrightarrow> map_option (apsnd contents) (run_queue put get q ops)
     = run_queue (list_put (cap q)) list_get (contents q) ops"
proof (induction ops arbitrary: q)
  case Nil
  then show ?case by simp
next
  case (Cons op ops)
  show ?case
  proof (cases op)
    case (Put x)
    show ?thesis
    proof (cases "put q x")
      case None
      with Put put_None [OF Cons.prems, of x] show ?thesis by (simp add: list_put_def)
    next
      case (Some q')
      with put_Some [OF Cons.prems Some] Cons.IH [of q'] Put put_None [OF Cons.prems, of x]
      show ?thesis by (simp add: list_put_def)
    qed
  next
    case Get
    show ?thesis
    proof (cases "get q")
      case None
      with Get get_None [OF Cons.prems] show ?thesis by (simp add: list_get_def)
    next
      case (Some p)
      then obtain x q' where p: "get q = Some (x, q')" by (cases p) auto
      have inv': "invar q'" and cap': "cap q' = cap q"
        and lg: "list_get (contents q) = Some (x, contents q')"
        using get_Some [OF Cons.prems p] by (simp_all add: list_get_def)
      show ?thesis
        using Cons.IH [OF inv'] by (cases "run_queue put get q' ops") (auto simp: Get p lg cap' dest: sym)
    qed
  qed
qed

end

end
