(* ===== verification/Byte_Queue.thy ===== *)
theory Byte_Queue
  imports OVS_Prelude Fifo_Spec
begin

text \<open>
  The circular byte queue of lib/byteq.c. The counters \<open>head\<close> and \<open>tail\<close> are free-running 32-bit
  counters that wrap around; the position in the buffer is the counter masked with \<open>size - 1\<close>, which
  is sound because the size is a power of 2. A failed assertion aborts the program and is \<open>None\<close>.
  The system calls \<open>read\<close> and \<open>write\<close> are parameters: a device state and a function on it.
\<close>

section \<open>State and operations\<close>

record byteq =
  bq_buffer :: "u8 list"
  bq_size :: u32
  bq_head :: u32
  bq_tail :: u32

definition is_pow2 :: "u64 \<Rightarrow> bool" where
  "is_pow2 x \<longleftrightarrow> x \<noteq> 0 \<and> x AND (x - 1) = 0"

definition byteq_init :: "u8 list \<Rightarrow> u64 \<Rightarrow> byteq option" where
  "byteq_init buffer sz =
     (if is_pow2 sz
      then Some \<lparr>bq_buffer = buffer, bq_size = ucast sz, bq_head = 0, bq_tail = 0\<rparr>
      else None)"

definition byteq_used :: "byteq \<Rightarrow> int" where
  "byteq_used q = sint (bq_head q - bq_tail q)"

definition byteq_avail :: "byteq \<Rightarrow> int" where
  "byteq_avail q = sint (bq_size q - word_of_int (byteq_used q))"

definition byteq_is_empty :: "byteq \<Rightarrow> bool" where
  "byteq_is_empty q \<longleftrightarrow> byteq_used q = 0"

definition byteq_is_full :: "byteq \<Rightarrow> bool" where
  "byteq_is_full q \<longleftrightarrow> byteq_avail q = 0"

text \<open>The pointers returned by \<open>byteq_head\<close> and \<open>byteq_tail\<close> are offsets into the buffer.\<close>

definition byteq_head :: "byteq \<Rightarrow> nat" where
  "byteq_head q = unat (bq_head q AND (bq_size q - 1))"

definition byteq_tail :: "byteq \<Rightarrow> nat" where
  "byteq_tail q = unat (bq_tail q AND (bq_size q - 1))"

definition byteq_headroom :: "byteq \<Rightarrow> int" where
  "byteq_headroom q =
     (let avail = byteq_avail q;
          head_to_end = sint (bq_size q - (bq_head q AND (bq_size q - 1)))
      in if avail < head_to_end then avail else head_to_end)"

definition byteq_tailroom :: "byteq \<Rightarrow> int" where
  "byteq_tailroom q =
     (let used = byteq_used q;
          tail_to_end = sint (bq_size q - (bq_tail q AND (bq_size q - 1)))
      in if used < tail_to_end then used else tail_to_end)"

definition byteq_put :: "byteq \<Rightarrow> u8 \<Rightarrow> byteq option" where
  "byteq_put q c =
     (if byteq_is_full q then None
      else Some (q\<lparr>bq_buffer := (bq_buffer q)[byteq_head q := c], bq_head := bq_head q + 1\<rparr>))"

definition byteq_get :: "byteq \<Rightarrow> (u8 \<times> byteq) option" where
  "byteq_get q =
     (if byteq_is_empty q then None
      else Some (bq_buffer q ! byteq_tail q, q\<lparr>bq_tail := bq_tail q + 1\<rparr>))"

text \<open>The comparisons with an \<open>unsigned int\<close> convert the \<open>int\<close> operand.\<close>

definition byteq_advance_head :: "byteq \<Rightarrow> u32 \<Rightarrow> byteq option" where
  "byteq_advance_head q k =
     (if (word_of_int (byteq_headroom q) :: u32) \<ge> k
      then Some (q\<lparr>bq_head := bq_head q + k\<rparr>) else None)"

definition byteq_advance_tail :: "byteq \<Rightarrow> u32 \<Rightarrow> byteq option" where
  "byteq_advance_tail q k =
     (if (word_of_int (byteq_tailroom q) :: u32) \<ge> k
      then Some (q\<lparr>bq_tail := bq_tail q + k\<rparr>) else None)"

text \<open>\<open>memcpy\<close> of \<open>xs\<close> to offset \<open>i\<close> of a buffer.\<close>

definition copy_at :: "u8 list \<Rightarrow> nat \<Rightarrow> u8 list \<Rightarrow> u8 list" where
  "copy_at buf i xs = take i buf @ xs @ drop (i + length xs) buf"

text \<open>
  The loop of \<open>byteq_putn\<close>. The size \<open>n\<close> is the length of \<open>p\<close>; the \<open>int\<close> operand of MIN is
  converted to \<open>size_t\<close>. A chunk of 0 bytes would make the loop run forever.
\<close>

partial_function (option) byteq_putn_loop :: "byteq \<Rightarrow> u8 list \<Rightarrow> byteq option" where
  "byteq_putn_loop q p =
     (if p = [] then Some q
      else let room = nat (uint (word_of_int (byteq_headroom q) :: u64));
               chunk = (if length p < room then length p else room)
           in Option.bind
                (byteq_advance_head
                   (q\<lparr>bq_buffer := copy_at (bq_buffer q) (byteq_head q) (take chunk p)\<rparr>)
                   (of_nat chunk))
                (\<lambda>q'. byteq_putn_loop q' (drop chunk p)))"

definition byteq_putn :: "byteq \<Rightarrow> u8 list \<Rightarrow> byteq option" where
  "byteq_putn q p =
     (if uint (word_of_int (byteq_avail q) :: u64) \<ge> int (length p)
      then byteq_putn_loop q p else None)"

definition byteq_put_string :: "byteq \<Rightarrow> u8 list \<Rightarrow> byteq option" where
  "byteq_put_string q s = byteq_putn q (takeWhile (\<lambda>c. c \<noteq> 0) s)"

text \<open>
  \<open>write(fd, p, n)\<close> on a device \<open>d\<close>: the number of bytes it takes, or \<open>Inl errno\<close>. A result of 0
  fails the assertion.
\<close>

partial_function (option) byteq_write ::
    "('d \<Rightarrow> u8 list \<Rightarrow> (int + nat) \<times> 'd) \<Rightarrow> byteq \<Rightarrow> 'd \<Rightarrow> (int \<times> byteq \<times> 'd) option" where
  "byteq_write wr q d =
     (if byteq_is_empty q then Some (0, q, d)
      else case wr d (take (nat (byteq_tailroom q)) (drop (byteq_tail q) (bq_buffer q))) of
             (Inl errno, d') \<Rightarrow> Some (errno, q, d')
           | (Inr k, d') \<Rightarrow>
               if k > 0 then Option.bind (byteq_advance_tail q (of_nat k)) (\<lambda>q'. byteq_write wr q' d')
               else None)"

text \<open>\<open>read(fd, p, n)\<close>: the bytes read (none at end of file), or \<open>Inl errno\<close>. EOF is \<open>-1\<close>.\<close>

partial_function (option) byteq_read ::
    "('d \<Rightarrow> nat \<Rightarrow> (int + u8 list) \<times> 'd) \<Rightarrow> byteq \<Rightarrow> 'd \<Rightarrow> (int \<times> byteq \<times> 'd) option" where
  "byteq_read rd q d =
     (if byteq_is_full q then Some (0, q, d)
      else case rd d (nat (byteq_headroom q)) of
             (Inl errno, d') \<Rightarrow> Some (errno, q, d')
           | (Inr bs, d') \<Rightarrow>
               if bs \<noteq> []
               then Option.bind
                      (byteq_advance_head
                         (q\<lparr>bq_buffer := copy_at (bq_buffer q) (byteq_head q) bs\<rparr>)
                         (of_nat (length bs)))
                      (\<lambda>q'. byteq_read rd q' d')
               else Some (-1, q, d'))"

section \<open>Invariant and abstraction\<close>

text \<open>
  The size is a power of 2 that fits an \<open>int\<close>, the buffer has that many bytes, and at most that
  many are in use. The abstraction lists the bytes in use from the tail to the head.
\<close>

definition byteq_inv :: "byteq \<Rightarrow> bool" where
  "byteq_inv q \<longleftrightarrow>
     (\<exists>k \<le> 30. bq_size q = 2 ^ k \<and> length (bq_buffer q) = 2 ^ k) \<and>
     unat (bq_head q - bq_tail q) \<le> length (bq_buffer q)"

definition byteq_contents :: "byteq \<Rightarrow> u8 list" where
  "byteq_contents q =
     map (\<lambda>i. bq_buffer q ! ((unat (bq_tail q) + i) mod length (bq_buffer q)))
         [0 ..< unat (bq_head q - bq_tail q)]"

lemma byteq_inv_size:
  assumes "byteq_inv q"
  obtains k where "k \<le> 30" "bq_size q = 2 ^ k" "length (bq_buffer q) = 2 ^ k"
    "unat (bq_size q) = 2 ^ k" "length (bq_buffer q) \<le> 2 ^ 30"
proof -
  obtain k where k: "k \<le> 30" "bq_size q = 2 ^ k" "length (bq_buffer q) = 2 ^ k"
    using assms by (auto simp: byteq_inv_def)
  then have "unat (bq_size q) = 2 ^ k" by (simp add: unat_exp_small)
  moreover have "(2::nat) ^ k \<le> 2 ^ 30" using k(1) by (intro power_increasing) auto
  ultimately show ?thesis using k that by simp
qed

lemma byteq_inv_bound: "byteq_inv q \<Longrightarrow> length (bq_buffer q) \<le> 2 ^ 30"
  by (erule byteq_inv_size)

lemma unat_and_size:
  assumes "byteq_inv q"
  shows "unat (x AND (bq_size q - 1)) = unat x mod length (bq_buffer q)"
proof -
  obtain k where k: "k \<le> 30" "bq_size q = 2 ^ k" "length (bq_buffer q) = 2 ^ k"
    by (rule byteq_inv_size [OF assms])
  show ?thesis by (simp add: k(2,3) unat_and_exp_minus_1)
qed

lemma unat_add_mod_size:
  assumes "byteq_inv q"
  shows "unat (x + y :: u32) mod length (bq_buffer q) = (unat x + unat y) mod length (bq_buffer q)"
proof -
  obtain k where k: "k \<le> 30" "length (bq_buffer q) = 2 ^ k"
    by (rule byteq_inv_size [OF assms])
  have "(2::nat) ^ k dvd 2 ^ 32" using k(1) by (intro le_imp_power_dvd) auto
  then show ?thesis
    using mod_mod_cancel [of "2 ^ k" "2 ^ 32" "unat x + unat y"]
    by (simp add: k(2) unat_word_ariths)
qed

lemma byteq_used_eq:
  assumes "byteq_inv q"
  shows "byteq_used q = int (unat (bq_head q - bq_tail q))"
proof -
  have "unat (bq_head q - bq_tail q) < 2 ^ 31"
    using byteq_inv_bound [OF assms] assms by (simp add: byteq_inv_def)
  then show ?thesis by (simp add: byteq_used_def sint_small_u32)
qed

lemma byteq_used_length: "byteq_inv q \<Longrightarrow> byteq_used q = int (length (byteq_contents q))"
  by (simp add: byteq_used_eq byteq_contents_def)

lemma byteq_avail_eq:
  assumes "byteq_inv q"
  shows "byteq_avail q = int (length (bq_buffer q) - length (byteq_contents q))"
proof -
  obtain k where k: "unat (bq_size q) = 2 ^ k" "length (bq_buffer q) = 2 ^ k"
    "length (bq_buffer q) \<le> 2 ^ 30"
    by (rule byteq_inv_size [OF assms])
  have le: "unat (bq_head q - bq_tail q) \<le> unat (bq_size q)"
    using assms k by (simp add: byteq_inv_def)
  have "unat (bq_size q - (bq_head q - bq_tail q)) = unat (bq_size q) - unat (bq_head q - bq_tail q)"
    using le by (simp add: unat_sub word_le_nat_alt)
  moreover have "word_of_int (byteq_used q) = bq_head q - bq_tail q"
    by (simp add: byteq_used_def)
  ultimately show ?thesis
    using k by (simp add: byteq_avail_def sint_small_u32 byteq_contents_def)
qed

lemma byteq_to_end_eq:
  assumes "byteq_inv q"
  shows "sint (bq_size q - (x AND (bq_size q - 1)))
    = int (length (bq_buffer q) - unat x mod length (bq_buffer q))"
proof -
  obtain k where k: "unat (bq_size q) = 2 ^ k" "length (bq_buffer q) = 2 ^ k"
    "length (bq_buffer q) \<le> 2 ^ 30"
    by (rule byteq_inv_size [OF assms])
  have "unat (bq_size q - (x AND (bq_size q - 1)))
      = unat (bq_size q) - unat x mod length (bq_buffer q)"
    using unat_and_size [OF assms, of x] k by (simp add: unat_sub word_le_nat_alt)
  with k show ?thesis by (simp add: sint_small_u32)
qed

lemma byteq_headroom_eq:
  assumes "byteq_inv q"
  shows "byteq_headroom q = int (min (length (bq_buffer q) - length (byteq_contents q))
      (length (bq_buffer q) - byteq_head q))"
  using assms
  by (simp add: byteq_headroom_def Let_def byteq_avail_eq byteq_to_end_eq byteq_head_def
      unat_and_size min_def)

lemma byteq_tailroom_eq:
  assumes "byteq_inv q"
  shows "byteq_tailroom q = int (min (length (byteq_contents q))
      (length (bq_buffer q) - byteq_tail q))"
  using assms
  by (simp add: byteq_tailroom_def Let_def byteq_used_length byteq_to_end_eq byteq_tail_def
      unat_and_size min_def)

lemma byteq_tail_eq: "byteq_inv q \<Longrightarrow> byteq_tail q = unat (bq_tail q) mod length (bq_buffer q)"
  by (simp add: byteq_tail_def unat_and_size)

lemma byteq_head_eq:
  assumes "byteq_inv q"
  shows "byteq_head q = (unat (bq_tail q) + length (byteq_contents q)) mod length (bq_buffer q)"
  using unat_add_mod_size [OF assms, of "bq_tail q" "bq_head q - bq_tail q"] assms
  by (simp add: byteq_head_def unat_and_size byteq_contents_def)

lemma byteq_buffer_pos: "byteq_inv q \<Longrightarrow> 0 < length (bq_buffer q)"
  by (auto simp: byteq_inv_def)

lemma byteq_contents_le: "byteq_inv q \<Longrightarrow> length (byteq_contents q) \<le> length (bq_buffer q)"
  by (simp add: byteq_inv_def byteq_contents_def)

subsection \<open>Appending a chunk at the head\<close>

lemma copy_at_nth:
  assumes "i + length xs \<le> length buf" "j < length buf"
  shows "copy_at buf i xs ! j = (if i \<le> j \<and> j < i + length xs then xs ! (j - i) else buf ! j)"
  using assms by (auto simp: copy_at_def nth_append)

lemma copy_at_length: "i + length xs \<le> length buf \<Longrightarrow> length (copy_at buf i xs) = length buf"
  by (simp add: copy_at_def)

lemma byteq_append:
  assumes inv: "byteq_inv q"
    and len: "length xs \<le> length (bq_buffer q) - length (byteq_contents q)"
    and fit: "byteq_head q + length xs \<le> length (bq_buffer q)"
  defines "q' \<equiv> q\<lparr>bq_buffer := copy_at (bq_buffer q) (byteq_head q) xs,
      bq_head := bq_head q + of_nat (length xs)\<rparr>"
  shows "byteq_inv q'" and "byteq_contents q' = byteq_contents q @ xs"
    and "length (bq_buffer q') = length (bq_buffer q)"
proof -
  let ?m = "length (bq_buffer q)" and ?u = "length (byteq_contents q)" and ?t = "unat (bq_tail q)"
  have m: "0 < ?m" "?m \<le> 2 ^ 30"
    using byteq_buffer_pos [OF inv] byteq_inv_bound [OF inv] by simp_all
  show blen: "length (bq_buffer q') = ?m" using fit by (simp add: q'_def copy_at_length)
  have u: "unat (bq_head q' - bq_tail q') = ?u + length xs"
  proof -
    have "bq_head q' - bq_tail q' = (bq_head q - bq_tail q) + of_nat (length xs)"
      by (simp add: q'_def)
    moreover have "?u + length xs < 2 ^ 32" using len byteq_contents_le [OF inv] m by simp
    ultimately show ?thesis
      using len m by (simp add: unat_word_ariths unat_of_nat byteq_contents_def)
  qed
  show "byteq_inv q'"
    using inv u len byteq_contents_le [OF inv] blen by (auto simp: byteq_inv_def q'_def)
  show "byteq_contents q' = byteq_contents q @ xs"
  proof (rule nth_equalityI)
    show "length (byteq_contents q') = length (byteq_contents q @ xs)"
      using u by (simp add: byteq_contents_def)
    fix i assume "i < length (byteq_contents q')"
    then have i: "i < ?u + length xs" using u by (simp add: byteq_contents_def)
    have lt: "(?t + i) mod ?m < ?m" using m by simp
    have hd: "byteq_head q = (?t + ?u) mod ?m" by (rule byteq_head_eq [OF inv])
    have "byteq_contents q' ! i = copy_at (bq_buffer q) (byteq_head q) xs ! ((?t + i) mod ?m)"
      using i u blen by (simp add: byteq_contents_def q'_def)
    also have "\<dots> = (byteq_contents q @ xs) ! i"
    proof (cases "i < ?u")
      case True
      have apart: "(?t + i) mod ?m \<noteq> byteq_head q + d" if "d < length xs" for d
      proof -
        have "byteq_head q + d = (?t + ?u + d) mod ?m"
          using mod_add_small [of "?t + ?u" ?m d] hd that fit by simp
        also have "?t + ?u + d = ?t + i + (?u + d - i)" using True by simp
        finally have "byteq_head q + d = (?t + i + (?u + d - i)) mod ?m" .
        moreover have "0 < ?u + d - i" "?u + d - i < ?m" using True that len by auto
        ultimately show ?thesis using mod_neq_of_lt [of "?u + d - i" ?m "?t + i"] by simp
      qed
      have out: "\<not> (byteq_head q \<le> (?t + i) mod ?m \<and> (?t + i) mod ?m < byteq_head q + length xs)"
        using apart [of "(?t + i) mod ?m - byteq_head q"] by linarith
      show ?thesis
        unfolding copy_at_nth [OF fit lt] if_not_P [OF out]
        using True by (simp add: nth_append) (simp add: byteq_contents_def)
    next
      case False
      define d where "d = i - ?u"
      with False i have d: "i = ?u + d" "d < length xs" by auto
      then have "(?t + i) mod ?m = byteq_head q + d"
        using mod_add_small [of "?t + ?u" ?m d] hd fit by (simp add: add.assoc)
      with d lt fit show ?thesis by (simp add: copy_at_nth nth_append)
    qed
    finally show "byteq_contents q' ! i = (byteq_contents q @ xs) ! i" .
  qed
qed

subsection \<open>The operations as queue operations\<close>

lemma copy_at_single: "i < length buf \<Longrightarrow> copy_at buf i [x] = buf[i := x]"
  by (simp add: copy_at_def upd_conv_take_nth_drop)

lemma byteq_head_less: "byteq_inv q \<Longrightarrow> byteq_head q < length (bq_buffer q)"
  using byteq_head_eq byteq_buffer_pos by simp

lemma byteq_put_spec:
  assumes "byteq_inv q"
  shows "byteq_put q c = None \<longleftrightarrow> length (byteq_contents q) = length (bq_buffer q)"
    and "byteq_put q c = Some q' \<Longrightarrow>
      byteq_inv q' \<and> byteq_contents q' = byteq_contents q @ [c] \<and>
      length (bq_buffer q') = length (bq_buffer q)"
proof -
  show full: "byteq_put q c = None \<longleftrightarrow> length (byteq_contents q) = length (bq_buffer q)"
    using byteq_avail_eq [OF assms] byteq_contents_le [OF assms]
    by (simp add: byteq_put_def byteq_is_full_def)
  assume put: "byteq_put q c = Some q'"
  then have lt: "length (byteq_contents q) < length (bq_buffer q)"
    using full byteq_contents_le [OF assms] by simp
  have "q' = q\<lparr>bq_buffer := copy_at (bq_buffer q) (byteq_head q) [c],
      bq_head := bq_head q + of_nat (length [c])\<rparr>"
    using put byteq_head_less [OF assms] by (simp add: byteq_put_def copy_at_single split: if_splits)
  then show "byteq_inv q' \<and> byteq_contents q' = byteq_contents q @ [c] \<and>
      length (bq_buffer q') = length (bq_buffer q)"
    using byteq_append [OF assms, of "[c]"] lt byteq_head_less [OF assms] by simp
qed

text \<open>Removing bytes at the tail.\<close>

lemma byteq_remove:
  assumes inv: "byteq_inv q" and k: "k \<le> length (byteq_contents q)"
  defines "q' \<equiv> q\<lparr>bq_tail := bq_tail q + of_nat k\<rparr>"
  shows "byteq_inv q'" and "byteq_contents q' = drop k (byteq_contents q)"
proof -
  let ?m = "length (bq_buffer q)" and ?u = "length (byteq_contents q)"
  have k32: "k < 2 ^ 32"
    using k byteq_contents_le [OF inv] byteq_inv_bound [OF inv] by simp
  have "bq_head q' - bq_tail q' = (bq_head q - bq_tail q) - of_nat k"
    by (simp add: q'_def)
  moreover have "of_nat k \<le> bq_head q - bq_tail q"
    using k k32 by (simp add: word_le_nat_alt unat_of_nat byteq_contents_def)
  ultimately have u: "unat (bq_head q' - bq_tail q') = ?u - k"
    using k32 by (simp add: unat_sub unat_of_nat byteq_contents_def)
  then show "byteq_inv q'" using inv byteq_contents_le [OF inv] by (auto simp: byteq_inv_def q'_def)
  have pos: "(unat (bq_tail q') + i) mod ?m = (unat (bq_tail q) + (k + i)) mod ?m" for i
  proof -
    have "unat (bq_tail q') mod ?m = (unat (bq_tail q) + k) mod ?m"
      using unat_add_mod_size [OF inv, of "bq_tail q" "of_nat k"] k32
      by (simp add: q'_def unat_of_nat)
    then show ?thesis by (metis add.assoc mod_add_left_eq)
  qed
  show "byteq_contents q' = drop k (byteq_contents q)"
  proof (rule nth_equalityI)
    show "length (byteq_contents q') = length (drop k (byteq_contents q))"
      using u by (simp add: byteq_contents_def)
    fix i assume "i < length (byteq_contents q')"
    then have "i < ?u - k" using u by (simp add: byteq_contents_def)
    then show "byteq_contents q' ! i = drop k (byteq_contents q) ! i"
      using u pos by (simp add: byteq_contents_def) (simp add: q'_def)
  qed
qed

lemma byteq_first:
  assumes "byteq_inv q" "byteq_contents q \<noteq> []"
  shows "bq_buffer q ! byteq_tail q = hd (byteq_contents q)"
proof -
  have "0 < unat (bq_head q - bq_tail q)" using assms(2) by (simp add: byteq_contents_def)
  then have "hd (byteq_contents q) = bq_buffer q ! ((unat (bq_tail q) + 0) mod length (bq_buffer q))"
    by (simp add: byteq_contents_def hd_map upt_conv_Cons)
  then show ?thesis by (simp add: byteq_tail_eq [OF assms(1)])
qed

lemma byteq_get_spec:
  assumes "byteq_inv q"
  shows "byteq_get q = None \<longleftrightarrow> byteq_contents q = []"
    and "byteq_get q = Some (c, q') \<Longrightarrow>
      byteq_inv q' \<and> byteq_contents q = c # byteq_contents q' \<and> bq_buffer q' = bq_buffer q"
proof -
  show empty: "byteq_get q = None \<longleftrightarrow> byteq_contents q = []"
    using byteq_used_length [OF assms] by (simp add: byteq_get_def byteq_is_empty_def)
  assume get: "byteq_get q = Some (c, q')"
  then have ne: "byteq_contents q \<noteq> []" using empty by auto
  have "c = hd (byteq_contents q)" "q' = q\<lparr>bq_tail := bq_tail q + of_nat 1\<rparr>"
    using get byteq_first [OF assms ne] by (auto simp: byteq_get_def split: if_splits)
  then show "byteq_inv q' \<and> byteq_contents q = c # byteq_contents q' \<and> bq_buffer q' = bq_buffer q"
    using byteq_remove [OF assms, of 1] ne by (cases "byteq_contents q") auto
qed

lemma byteq_headroom_bound:
  assumes "byteq_inv q"
  shows "0 \<le> byteq_headroom q" "byteq_headroom q \<le> 2 ^ 30"
  using byteq_headroom_eq [OF assms] byteq_inv_bound [OF assms] by auto

lemma byteq_tailroom_bound:
  assumes "byteq_inv q"
  shows "0 \<le> byteq_tailroom q" "byteq_tailroom q \<le> 2 ^ 30"
  using byteq_tailroom_eq [OF assms] byteq_contents_le [OF assms] byteq_inv_bound [OF assms] by auto

lemma of_nat_le_word_of_int:
  assumes "int k \<le> x" "x \<le> 2 ^ 30"
  shows "(of_nat k :: u32) \<le> word_of_int x"
proof -
  have "word_of_int x = (of_nat (nat x) :: u32)" using assms by simp
  moreover have "unat (of_nat (nat x) :: u32) = nat x" "unat (of_nat k :: u32) = k"
    using assms by (intro unat_of_nat_small; simp)+
  ultimately show ?thesis using assms by (simp only: word_le_nat_alt)
qed

lemma byteq_advance_head_ok:
  assumes "byteq_inv q" "int k \<le> byteq_headroom q"
  shows "byteq_advance_head (q\<lparr>bq_buffer := b\<rparr>) (of_nat k)
    = Some (q\<lparr>bq_buffer := b, bq_head := bq_head q + of_nat k\<rparr>)"
proof -
  have "byteq_headroom (q\<lparr>bq_buffer := b\<rparr>) = byteq_headroom q"
    by (simp add: byteq_headroom_def byteq_avail_def byteq_used_def)
  with of_nat_le_word_of_int [OF assms(2) byteq_headroom_bound(2) [OF assms(1)]] show ?thesis
    by (simp add: byteq_advance_head_def)
qed

lemma byteq_advance_tail_ok:
  assumes "byteq_inv q" "int k \<le> byteq_tailroom q"
  shows "byteq_advance_tail q (of_nat k) = Some (q\<lparr>bq_tail := bq_tail q + of_nat k\<rparr>)"
  using of_nat_le_word_of_int [OF assms(2) byteq_tailroom_bound(2) [OF assms(1)]]
  by (simp add: byteq_advance_tail_def)

lemma byteq_chunk:
  assumes "byteq_inv q" "int (length xs) \<le> byteq_headroom q"
  obtains q' where
    "byteq_advance_head (q\<lparr>bq_buffer := copy_at (bq_buffer q) (byteq_head q) xs\<rparr>)
       (of_nat (length xs)) = Some q'"
    "byteq_inv q'" "byteq_contents q' = byteq_contents q @ xs"
    "length (bq_buffer q') = length (bq_buffer q)"
proof
  let ?q' = "q\<lparr>bq_buffer := copy_at (bq_buffer q) (byteq_head q) xs,
      bq_head := bq_head q + of_nat (length xs)\<rparr>"
  show "byteq_advance_head (q\<lparr>bq_buffer := copy_at (bq_buffer q) (byteq_head q) xs\<rparr>)
       (of_nat (length xs)) = Some ?q'"
    by (rule byteq_advance_head_ok [OF assms])
  have "length xs \<le> length (bq_buffer q) - length (byteq_contents q)"
    "byteq_head q + length xs \<le> length (bq_buffer q)"
    using assms(2) byteq_headroom_eq [OF assms(1)] byteq_head_less [OF assms(1)] by auto
  then show "byteq_inv ?q'" "byteq_contents ?q' = byteq_contents q @ xs"
    "length (bq_buffer ?q') = length (bq_buffer q)"
    using byteq_append [OF assms(1)] by auto
qed

lemma byteq_putn_loop_spec:
  "byteq_inv q \<Longrightarrow> length p \<le> length (bq_buffer q) - length (byteq_contents q) \<Longrightarrow>
   \<exists>q'. byteq_putn_loop q p = Some q' \<and> byteq_inv q' \<and> byteq_contents q' = byteq_contents q @ p \<and>
     length (bq_buffer q') = length (bq_buffer q)"
proof (induction "length p" arbitrary: q p rule: less_induct)
  case less
  show ?case
  proof (cases "p = []")
    case True
    with less.prems show ?thesis by (simp add: byteq_putn_loop.simps)
  next
    case False
    let ?room = "nat (uint (word_of_int (byteq_headroom q) :: u64))"
    let ?c = "if length p < ?room then length p else ?room"
    have room: "?room = nat (byteq_headroom q)"
      using byteq_headroom_bound [OF less.prems(1)] by (subst uint_word_of_int_small) simp_all
    have pos: "0 < length p" using False by simp
    then have "length (byteq_contents q) < length (bq_buffer q)" using less.prems(2) by linarith
    with pos have c: "0 < ?c" "?c \<le> length p" "int ?c \<le> byteq_headroom q"
      using less.prems byteq_headroom_eq [OF less.prems(1)] byteq_head_less [OF less.prems(1)]
      unfolding room by (auto simp: min_def split: if_splits)
    have "int (length (take ?c p)) \<le> byteq_headroom q" using c by simp
    then obtain q' where q': "byteq_advance_head
        (q\<lparr>bq_buffer := copy_at (bq_buffer q) (byteq_head q) (take ?c p)\<rparr>) (of_nat ?c) = Some q'"
      "byteq_inv q'" "byteq_contents q' = byteq_contents q @ take ?c p"
      "length (bq_buffer q') = length (bq_buffer q)"
      using byteq_chunk [OF less.prems(1), of "take ?c p"] c by (metis length_take min.absorb2)
    have "\<exists>q''. byteq_putn_loop q' (drop ?c p) = Some q'' \<and> byteq_inv q'' \<and>
        byteq_contents q'' = byteq_contents q' @ drop ?c p \<and>
        length (bq_buffer q'') = length (bq_buffer q')"
      using less.prems q' c False by (intro less.hyps) auto
    with q' False show ?thesis
      by (subst byteq_putn_loop.simps) (auto simp: Let_def)
  qed
qed

lemma byteq_putn_spec:
  assumes "byteq_inv q" "length p \<le> length (bq_buffer q) - length (byteq_contents q)"
  shows "\<exists>q'. byteq_putn q p = Some q' \<and> byteq_inv q' \<and> byteq_contents q' = byteq_contents q @ p \<and>
     length (bq_buffer q') = length (bq_buffer q)"
proof -
  have "uint (word_of_int (byteq_avail q) :: u64) = byteq_avail q"
    using byteq_avail_eq [OF assms(1)] byteq_inv_bound [OF assms(1)]
    by (intro uint_word_of_int_small) simp_all
  with byteq_putn_loop_spec [OF assms] assms byteq_avail_eq [OF assms(1)] show ?thesis
    by (simp add: byteq_putn_def)
qed

subsection \<open>Draining to and filling from a file descriptor\<close>

lemma byteq_tail_chunk:
  assumes "byteq_inv q"
  shows "take (nat (byteq_tailroom q)) (drop (byteq_tail q) (bq_buffer q))
    = take (nat (byteq_tailroom q)) (byteq_contents q)"
proof (rule nth_equalityI)
  let ?r = "nat (byteq_tailroom q)" and ?m = "length (bq_buffer q)"
  have t: "byteq_tail q < ?m" using byteq_tail_eq [OF assms] byteq_buffer_pos [OF assms] by simp
  have r: "?r \<le> length (byteq_contents q)" "byteq_tail q + ?r \<le> ?m"
    using byteq_tailroom_eq [OF assms] t by auto
  then show "length (take ?r (drop (byteq_tail q) (bq_buffer q))) = length (take ?r (byteq_contents q))"
    by simp
  fix i assume "i < length (take ?r (drop (byteq_tail q) (bq_buffer q)))"
  then have i: "i < ?r" by simp
  then have "(unat (bq_tail q) + i) mod ?m = byteq_tail q + i"
    using mod_add_small [of "unat (bq_tail q)" ?m i] byteq_tail_eq [OF assms] r by simp
  with i r t show "take ?r (drop (byteq_tail q) (bq_buffer q)) ! i = take ?r (byteq_contents q) ! i"
    by (simp add: byteq_contents_def)
qed

text \<open>What the code relies on of \<open>write\<close> and \<open>read\<close>, with \<open>out\<close> the bytes a device has taken.\<close>

definition write_ok :: "('d \<Rightarrow> u8 list) \<Rightarrow> ('d \<Rightarrow> u8 list \<Rightarrow> (int + nat) \<times> 'd) \<Rightarrow> bool" where
  "write_ok out wr \<longleftrightarrow>
     (\<forall>d bs k d'. bs \<noteq> [] \<longrightarrow> wr d bs = (Inr k, d') \<longrightarrow>
        0 < k \<and> k \<le> length bs \<and> out d' = out d @ take k bs) \<and>
     (\<forall>d bs e d'. wr d bs = (Inl e, d') \<longrightarrow> 0 < e \<and> out d' = out d)"

definition read_ok :: "('d \<Rightarrow> u8 list) \<Rightarrow> ('d \<Rightarrow> nat \<Rightarrow> (int + u8 list) \<times> 'd) \<Rightarrow> bool" where
  "read_ok src rd \<longleftrightarrow>
     (\<forall>d k bs d'. rd d k = (Inr bs, d') \<longrightarrow>
        length bs \<le> k \<and> src d = bs @ src d' \<and> (bs = [] \<longrightarrow> 0 < k \<longrightarrow> src d = [])) \<and>
     (\<forall>d k e d'. rd d k = (Inl e, d') \<longrightarrow> 0 < e \<and> src d' = src d)"

lemma byteq_write_spec:
  "write_ok out wr \<Longrightarrow> byteq_inv q \<Longrightarrow>
   \<exists>r q' d'. byteq_write wr q d = Some (r, q', d') \<and> byteq_inv q' \<and>
     out d' @ byteq_contents q' = out d @ byteq_contents q \<and> (r = 0 \<longleftrightarrow> byteq_contents q' = []) \<and> 0 \<le> r"
proof (induction "length (byteq_contents q)" arbitrary: q d rule: less_induct)
  case less
  note ok = less.prems(1) and inv = less.prems(2)
  let ?bs = "take (nat (byteq_tailroom q)) (drop (byteq_tail q) (bq_buffer q))"
  show ?case
  proof (cases "byteq_contents q = []")
    case True
    with inv show ?thesis by (subst byteq_write.simps) (simp add: byteq_is_empty_def byteq_used_length)
  next
    case False
    have ne: "\<not> byteq_is_empty q" using False byteq_used_length [OF inv] by (simp add: byteq_is_empty_def)
    have "0 < nat (byteq_tailroom q)"
      using byteq_tailroom_eq [OF inv] False byteq_tail_eq [OF inv] byteq_buffer_pos [OF inv] by auto
    then have bs: "?bs \<noteq> []" "?bs = take (nat (byteq_tailroom q)) (byteq_contents q)"
      using byteq_tail_chunk [OF inv] False by auto
    obtain res d' where wr: "wr d ?bs = (res, d')" by (cases "wr d ?bs")
    show ?thesis
    proof (cases res)
      case (Inl e)
      with ok wr have "0 < e" "out d' = out d" by (auto simp: write_ok_def)
      with Inl wr ne inv False show ?thesis by (subst byteq_write.simps) auto
    next
      case (Inr k)
      with ok wr bs have k: "0 < k" "k \<le> length ?bs" "out d' = out d @ take k ?bs"
        unfolding write_ok_def by blast+
      then have kt: "int k \<le> byteq_tailroom q" "k \<le> length (byteq_contents q)"
        using bs(2) by auto
      let ?q = "q\<lparr>bq_tail := bq_tail q + of_nat k\<rparr>"
      note rem = byteq_remove [OF inv kt(2)]
      have "length (byteq_contents ?q) < length (byteq_contents q)" using rem(2) k False by simp
      then obtain r q' d'' where IH: "byteq_write wr ?q d' = Some (r, q', d'')" "byteq_inv q'"
          "out d'' @ byteq_contents q' = out d' @ byteq_contents ?q"
          "r = 0 \<longleftrightarrow> byteq_contents q' = []" "0 \<le> r"
        using less.hyps [OF _ ok rem(1), of d'] by blast
      have "take k ?bs @ byteq_contents ?q = byteq_contents q"
        using rem(2) kt k bs(2) by (simp add: min_absorb1)
      with IH k have "out d'' @ byteq_contents q' = out d @ byteq_contents q" by simp
      with IH wr Inr k ne byteq_advance_tail_ok [OF inv kt(1)] show ?thesis
        by (subst byteq_write.simps) auto
    qed
  qed
qed

lemma byteq_read_spec:
  "read_ok src rd \<Longrightarrow> byteq_inv q \<Longrightarrow>
   \<exists>r q' d'. byteq_read rd q d = Some (r, q', d') \<and> byteq_inv q' \<and>
     byteq_contents q' @ src d' = byteq_contents q @ src d \<and>
     length (bq_buffer q') = length (bq_buffer q) \<and>
     (r = 0 \<longleftrightarrow> length (byteq_contents q') = length (bq_buffer q)) \<and> (r = -1 \<longrightarrow> src d' = [])"
proof (induction "length (bq_buffer q) - length (byteq_contents q)" arbitrary: q d rule: less_induct)
  case less
  note ok = less.prems(1) and inv = less.prems(2)
  show ?case
  proof (cases "length (byteq_contents q) = length (bq_buffer q)")
    case True
    with inv show ?thesis by (subst byteq_read.simps) (simp add: byteq_is_full_def byteq_avail_eq)
  next
    case False
    then have lt: "length (byteq_contents q) < length (bq_buffer q)"
      using byteq_contents_le [OF inv] by simp
    then have nf: "\<not> byteq_is_full q" by (simp add: byteq_is_full_def byteq_avail_eq [OF inv])
    have room: "0 < nat (byteq_headroom q)"
      using byteq_headroom_eq [OF inv] byteq_head_less [OF inv] lt by auto
    obtain res d' where rd: "rd d (nat (byteq_headroom q)) = (res, d')"
      by (cases "rd d (nat (byteq_headroom q))")
    show ?thesis
    proof (cases res)
      case (Inl e)
      with ok rd have "0 < e" "src d' = src d" by (auto simp: read_ok_def)
      with Inl rd nf inv False show ?thesis by (subst byteq_read.simps) auto
    next
      case (Inr bs)
      with ok rd have bs: "length bs \<le> nat (byteq_headroom q)" "src d = bs @ src d'"
        "bs = [] \<longrightarrow> src d = []"
        unfolding read_ok_def using room by blast+
      show ?thesis
      proof (cases "bs = []")
        case True
        with Inr rd bs nf inv False show ?thesis by (subst byteq_read.simps) auto
      next
        case ne: False
        have "int (length bs) \<le> byteq_headroom q" using bs(1) room by simp
        then obtain q1 where q1: "byteq_advance_head (q\<lparr>bq_buffer := copy_at (bq_buffer q)
            (byteq_head q) bs\<rparr>) (of_nat (length bs)) = Some q1" "byteq_inv q1"
            "byteq_contents q1 = byteq_contents q @ bs" "length (bq_buffer q1) = length (bq_buffer q)"
          using byteq_chunk [OF inv] by blast
        have "length (bq_buffer q1) - length (byteq_contents q1)
            < length (bq_buffer q) - length (byteq_contents q)"
          unfolding q1(3,4) length_append
          using lt length_greater_0_conv [THEN iffD2, OF ne] by linarith
        then obtain r q' d'' where "byteq_read rd q1 d' = Some (r, q', d'')" "byteq_inv q'"
            "byteq_contents q' @ src d'' = byteq_contents q1 @ src d'"
            "length (bq_buffer q') = length (bq_buffer q1)"
            "r = 0 \<longleftrightarrow> length (byteq_contents q') = length (bq_buffer q1)" "r = -1 \<longrightarrow> src d'' = []"
          using less.hyps [OF _ ok q1(2), of d'] by blast
        with q1 bs rd Inr ne nf show ?thesis by (subst byteq_read.simps) auto
      qed
    qed
  qed
qed

section \<open>The queue interface\<close>

interpretation ovs_byteq: bounded_fifo byteq_put byteq_get byteq_contents
  "\<lambda>q. length (bq_buffer q)" byteq_inv
  by unfold_locales (auto simp: byteq_put_spec(1) byteq_get_spec(1) dest: byteq_put_spec(2) byteq_get_spec(2))

text \<open>
  C9: A byte queue behaves as a bounded first-in first-out list for every sequence of byteq_put and
  byteq_get, from any valid state, so also where the 32-bit counters head and tail wrap around: it
  returns the same bytes, ends with the same contents, and aborts (assertion) exactly where the
  list queue is full or empty.
\<close>

theorem byteq_run_refines:
  assumes "byteq_inv q"
  shows "map_option (apsnd byteq_contents) (run_queue byteq_put byteq_get q ops)
    = run_queue (list_put (length (bq_buffer q))) list_get (byteq_contents q) ops"
  by (rule ovs_byteq.run_refines [OF assms])

definition byteq_wrapping :: byteq where
  "byteq_wrapping = \<lparr>bq_buffer = [1, 2, 3, 4], bq_size = 4, bq_head = 1, bq_tail = - 2\<rparr>"

lemma byteq_wrapping_inv: "byteq_inv byteq_wrapping"
  by (auto simp: byteq_inv_def byteq_wrapping_def intro!: exI [of _ 2])

theorem byteq_run_refines_witness:
  "byteq_inv byteq_wrapping \<and>
   map_option (apsnd byteq_contents)
     (run_queue byteq_put byteq_get byteq_wrapping [Get, Put 9, Get, Get, Get])
   = Some ([3, 4, 1, 9], [])"
proof -
  have "byteq_contents byteq_wrapping = [3, 4, 1]"
    by (simp add: byteq_contents_def byteq_wrapping_def upt_rec)
  then show ?thesis
    using byteq_wrapping_inv byteq_run_refines [OF byteq_wrapping_inv, of "[Get, Put 9, Get, Get, Get]"]
    by (simp add: list_put_def list_get_def byteq_wrapping_def)
qed

text \<open>
  byteq_putn terminates and appends exactly the given bytes whenever they fit, also where they
  wrap around the end of the buffer; when they do not fit it aborts.
\<close>

theorem byteq_putn_appends:
  assumes "byteq_inv q" "length p < 2 ^ 63"
  shows "if length (byteq_contents q) + length p \<le> length (bq_buffer q)
    then \<exists>q'. byteq_putn q p = Some q' \<and> byteq_inv q' \<and> byteq_contents q' = byteq_contents q @ p
    else byteq_putn q p = None"
proof (cases "length (byteq_contents q) + length p \<le> length (bq_buffer q)")
  case True
  then have "length p \<le> length (bq_buffer q) - length (byteq_contents q)" by simp
  with byteq_putn_spec [OF assms(1)] True show ?thesis by auto
next
  case False
  have "uint (word_of_int (byteq_avail q) :: u64) = byteq_avail q"
    using byteq_avail_eq [OF assms(1)] byteq_inv_bound [OF assms(1)]
    by (intro uint_word_of_int_small) simp_all
  with False byteq_avail_eq [OF assms(1)] byteq_contents_le [OF assms(1)] show ?thesis
    by (auto simp: byteq_putn_def)
qed

theorem byteq_putn_appends_witness:
  "\<exists>q'. byteq_putn (byteq_wrapping\<lparr>bq_head := - 1\<rparr>) [7, 8, 9] = Some q' \<and>
     byteq_contents q' = [3, 7, 8, 9]"
proof -
  let ?q = "byteq_wrapping\<lparr>bq_head := - 1\<rparr>"
  have inv: "byteq_inv ?q"
    by (auto simp: byteq_inv_def byteq_wrapping_def intro!: exI [of _ 2])
  have "byteq_contents ?q = [3]" by (simp add: byteq_contents_def byteq_wrapping_def upt_rec)
  with byteq_putn_appends [OF inv, of "[7, 8, 9]"] show ?thesis
    by (auto simp: byteq_wrapping_def)
qed

text \<open>
  byteq_write always returns, loses no byte and duplicates none: what the descriptor has taken
  followed by what is still queued is what was there before, in order; and it returns 0 exactly
  when the queue has been drained. The hypothesis is the documented behaviour of write(2).
\<close>

theorem byteq_write_conserves:
  assumes "write_ok out wr" "byteq_inv q"
  shows "\<exists>r q' d'. byteq_write wr q d = Some (r, q', d') \<and> byteq_inv q' \<and>
    out d' @ byteq_contents q' = out d @ byteq_contents q \<and> (r = 0 \<longleftrightarrow> byteq_contents q' = []) \<and> 0 \<le> r"
  by (rule byteq_write_spec [OF assms])

text \<open>A device that takes at most two bytes per call.\<close>

definition write_two :: "u8 list \<Rightarrow> u8 list \<Rightarrow> (int + nat) \<times> u8 list" where
  "write_two d bs = (Inr (min 2 (length bs)), d @ take 2 bs)"

theorem byteq_write_conserves_witness:
  "write_ok (\<lambda>d. d) write_two \<and>
   (\<exists>r q' d'. byteq_write write_two byteq_wrapping [] = Some (r, q', d') \<and>
      d' @ byteq_contents q' = [3, 4, 1])"
proof -
  have ok: "write_ok (\<lambda>d. d) write_two"
    by (auto simp: write_ok_def write_two_def min_def)
  have "byteq_contents byteq_wrapping = [3, 4, 1]"
    by (simp add: byteq_contents_def byteq_wrapping_def upt_rec)
  with byteq_write_conserves [OF ok byteq_wrapping_inv, of "[]"] ok show ?thesis by auto
qed

end
