(* ===== verification/Token_Bucket.thy ===== *)
theory Token_Bucket
  imports OVS_Prelude
begin

text \<open>
  The saturating arithmetic of lib/sat-math.h and the token bucket of lib/token-bucket.c that
  limits the rate of log messages and of packets sent to the controller. The current time, that
  the source gets from \<open>time_msec()\<close>, is an argument.
\<close>

section \<open>Saturating arithmetic\<close>

definition sat_add :: "u32 \<Rightarrow> u32 \<Rightarrow> u32" where
  "sat_add x y = (if x + y \<ge> x then x + y else UINT_MAX)"

definition sat_sub :: "u32 \<Rightarrow> u32 \<Rightarrow> u32" where
  "sat_sub x y = (if x \<ge> y then x - y else 0)"

definition sat_mul :: "u32 \<Rightarrow> u32 \<Rightarrow> u32" where
  "sat_mul x y = (if y = 0 then 0 else if x \<le> UINT_MAX div y then x * y else UINT_MAX)"

section \<open>The bucket\<close>

record token_bucket =
  tb_rate :: u32
  tb_burst :: u32
  tb_tokens :: u32
  tb_last_fill :: int

definition token_bucket_init :: "u32 \<Rightarrow> u32 \<Rightarrow> token_bucket" where
  "token_bucket_init rate burst =
     \<lparr>tb_rate = rate, tb_burst = burst, tb_tokens = 0, tb_last_fill = LLONG_MIN\<rparr>"

definition token_bucket_set :: "token_bucket \<Rightarrow> u32 \<Rightarrow> u32 \<Rightarrow> token_bucket" where
  "token_bucket_set tb rate burst =
     (let tb = tb\<lparr>tb_rate := rate, tb_burst := burst\<rparr>
      in if burst > tb_tokens tb then tb\<lparr>tb_tokens := burst\<rparr> else tb)"

text \<open>The block guarded by \<open>now > tb->last_fill\<close>.\<close>

definition token_bucket_fill :: "token_bucket \<Rightarrow> int \<Rightarrow> token_bucket" where
  "token_bucket_fill tb now =
     (if now > tb_last_fill tb then
        let elapsed_ull = (word_of_int now - word_of_int (tb_last_fill tb) :: u64);
            elapsed = (if ucast UINT_MAX < elapsed_ull then UINT_MAX else ucast elapsed_ull);
            add = sat_mul (tb_rate tb) elapsed;
            tokens = sat_add (tb_tokens tb) add
        in tb\<lparr>tb_tokens := (if tokens < tb_burst tb then tokens else tb_burst tb),
              tb_last_fill := now\<rparr>
      else tb)"

definition token_bucket_withdraw :: "token_bucket \<Rightarrow> int \<Rightarrow> u32 \<Rightarrow> bool \<times> token_bucket" where
  "token_bucket_withdraw tb now n =
     (if tb_tokens tb < n then
        let tb = token_bucket_fill tb now
        in if tb_tokens tb < n then (False, tb)
           else (True, tb\<lparr>tb_tokens := tb_tokens tb - n\<rparr>)
      else (True, tb\<lparr>tb_tokens := tb_tokens tb - n\<rparr>))"

text \<open>
  The wake-up that \<open>token_bucket_wait\<close> requests of the poll loop. Dividing by a rate of 0 traps.
\<close>

datatype wake = Wake_Immediate | Wake_Until int | Wake_Trap

definition token_bucket_wait :: "token_bucket \<Rightarrow> u32 \<Rightarrow> wake" where
  "token_bucket_wait tb n =
     (if tb_tokens tb \<ge> n then Wake_Immediate
      else let need = n - tb_tokens tb
           in if tb_rate tb = 0 then Wake_Trap
              else Wake_Until (c_llong (c_llong (tb_last_fill tb + uint (need div tb_rate tb)) + 1)))"

section \<open>Saturation is exact up to the bound\<close>

lemma sat_add_exact: "unat (sat_add x y) = min (unat x + unat y) 4294967295"
  using unat_u32_le [of x] unat_u32_le [of y]
  by (auto simp: sat_add_def word_le_nat_alt unat_word_ariths mod_if split: if_splits)

lemma sat_sub_exact: "unat (sat_sub x y) = unat x - unat y"
  by (auto simp: sat_sub_def word_le_nat_alt unat_sub)

lemma sat_mul_exact: "unat (sat_mul x y) = min (unat x * unat y) 4294967295"
proof (cases "y = 0")
  case True
  then show ?thesis by (simp add: sat_mul_def)
next
  case False
  then have y: "0 < unat y" by (simp add: unat_gt_0)
  have le: "x \<le> UINT_MAX div y \<longleftrightarrow> unat x * unat y \<le> 4294967295"
    using less_eq_div_iff_mult_less_eq [OF y, of "unat x" 4294967295]
    by (simp add: word_le_nat_alt unat_div)
  show ?thesis
  proof (cases "unat x * unat y \<le> 4294967295")
    case True
    with False le show ?thesis by (simp add: sat_mul_def unat_word_ariths)
  next
    case not: False
    with False le show ?thesis by (simp add: sat_mul_def)
  qed
qed

section \<open>Filling and withdrawing\<close>

definition time_ok :: "int \<Rightarrow> bool" where
  "time_ok t \<longleftrightarrow> LLONG_MIN \<le> t \<and> t \<le> LLONG_MAX"

text \<open>The milliseconds that a fill at \<open>now\<close> accounts for.\<close>

definition tb_elapsed :: "token_bucket \<Rightarrow> int \<Rightarrow> nat" where
  "tb_elapsed tb now = nat (now - tb_last_fill tb)"

lemma elapsed_exact:
  assumes "time_ok now" "time_ok t0" "t0 < now"
  shows "unat (word_of_int now - word_of_int t0 :: u64) = nat (now - t0)"
proof -
  have "(word_of_int now - word_of_int t0 :: u64) = word_of_int (now - t0)" by simp
  moreover have "uint (word_of_int (now - t0) :: u64) = now - t0"
    using assms by (intro uint_word_of_int_small) (auto simp: time_ok_def)
  ultimately show ?thesis by (simp only: unat_eq_nat_uint)
qed

lemma sat_mul_min:
  "min (r * min e 4294967295) 4294967295 = min (r * e) (4294967295 :: nat)"
proof (cases "r = 0 \<or> e \<le> 4294967295")
  case False
  then have "4294967295 \<le> r * 4294967295" "e \<le> r * e" by auto
  moreover from this False have "4294967295 \<le> r * e" by linarith
  ultimately show ?thesis using False by (simp add: min_absorb2)
qed (auto simp: min_def)

lemma token_bucket_fill_exact:
  assumes "time_ok now" "time_ok (tb_last_fill tb)"
  shows "unat (tb_tokens (token_bucket_fill tb now)) =
    (if now > tb_last_fill tb
     then min (unat (tb_burst tb)) (unat (tb_tokens tb) + unat (tb_rate tb) * tb_elapsed tb now)
     else unat (tb_tokens tb))"
proof (cases "now > tb_last_fill tb")
  case True
  let ?e = "word_of_int now - word_of_int (tb_last_fill tb) :: u64"
  let ?el = "if ucast UINT_MAX < ?e then UINT_MAX else ucast ?e :: u32"
  have e: "unat ?e = tb_elapsed tb now"
    using elapsed_exact [OF assms True] by (simp add: tb_elapsed_def)
  have el: "unat ?el = min (tb_elapsed tb now) 4294967295"
  proof (cases "unat ?e \<le> 4294967295")
    case True
    then have "unat (ucast ?e :: u32) = unat ?e"
      by (simp add: unsigned_ucast_eq take_bit_nat_eq_self)
    with True e show ?thesis by (simp add: word_less_nat_alt unsigned_ucast_eq)
  next
    case False
    with e show ?thesis by (simp add: word_less_nat_alt unsigned_ucast_eq)
  qed
  have "unat (sat_mul (tb_rate tb) ?el) = min (unat (tb_rate tb) * tb_elapsed tb now) 4294967295"
    by (simp only: sat_mul_exact el sat_mul_min)
  then have "unat (sat_add (tb_tokens tb) (sat_mul (tb_rate tb) ?el)) =
      min (unat (tb_tokens tb) + unat (tb_rate tb) * tb_elapsed tb now) 4294967295"
    using unat_u32_le [of "tb_tokens tb"] by (simp add: sat_add_exact)
  with True unat_u32_le [of "tb_burst tb"] show ?thesis
    by (simp add: token_bucket_fill_def Let_def word_less_nat_alt)
qed (simp add: token_bucket_fill_def)

lemma token_bucket_fill_fields [simp]:
  "tb_rate (token_bucket_fill tb now) = tb_rate tb"
  "tb_burst (token_bucket_fill tb now) = tb_burst tb"
  "tb_last_fill (token_bucket_fill tb now) = max now (tb_last_fill tb)"
  by (simp_all add: token_bucket_fill_def Let_def max_def)

lemma token_bucket_fill_bound:
  assumes "time_ok now" "time_ok (tb_last_fill tb)"
  shows "unat (tb_tokens (token_bucket_fill tb now))
      \<le> unat (tb_tokens tb) + unat (tb_rate tb) * tb_elapsed tb now"
    and "now > tb_last_fill tb \<Longrightarrow>
      unat (tb_tokens (token_bucket_fill tb now)) \<le> unat (tb_burst tb)"
  by (simp_all add: token_bucket_fill_exact [OF assms])

lemma token_bucket_withdraw_spec:
  assumes "time_ok now" "time_ok (tb_last_fill tb)"
    and "avail = (if unat (tb_tokens tb) < unat n \<and> now > tb_last_fill tb
      then min (unat (tb_burst tb)) (unat (tb_tokens tb) + unat (tb_rate tb) * tb_elapsed tb now)
      else unat (tb_tokens tb))"
  shows "fst (token_bucket_withdraw tb now n) \<longleftrightarrow> unat n \<le> avail"
    and "unat (tb_tokens (snd (token_bucket_withdraw tb now n)))
      = (if unat n \<le> avail then avail - unat n else avail)"
proof -
  have "unat (tb_tokens (if tb_tokens tb < n then token_bucket_fill tb now else tb)) = avail"
    using assms by (simp add: token_bucket_fill_exact word_less_nat_alt)
  then show "fst (token_bucket_withdraw tb now n) \<longleftrightarrow> unat n \<le> avail"
    and "unat (tb_tokens (snd (token_bucket_withdraw tb now n)))
      = (if unat n \<le> avail then avail - unat n else avail)"
    by (auto simp: token_bucket_withdraw_def Let_def word_less_nat_alt unat_sub word_le_nat_alt
        split: if_splits)
qed

text \<open>
  token_bucket_withdraw grants n tokens exactly when the bucket holds at least n, counting, when
  it holds fewer, the tokens accrued since the last fill up to the burst size; and it removes exactly
  n. No overflow of the 32-bit and 64-bit computations is visible, for all rates and all times.
\<close>

theorem token_bucket_withdraw_exact:
  assumes "time_ok now" "time_ok (tb_last_fill tb)"
    and "avail = (if unat (tb_tokens tb) < unat n \<and> now > tb_last_fill tb
      then min (unat (tb_burst tb)) (unat (tb_tokens tb) + unat (tb_rate tb) * tb_elapsed tb now)
      else unat (tb_tokens tb))"
  shows "(fst (token_bucket_withdraw tb now n) \<longleftrightarrow> unat n \<le> avail) \<and>
    unat (tb_tokens (snd (token_bucket_withdraw tb now n)))
      = (if unat n \<le> avail then avail - unat n else avail)"
  using token_bucket_withdraw_spec [OF assms] by simp

theorem token_bucket_withdraw_exact_witness:
  "fst (token_bucket_withdraw (token_bucket_init 1 10) 0 10) \<and>
   unat (tb_tokens (snd (token_bucket_withdraw (token_bucket_init 1 10) 0 4))) = 6"
  using token_bucket_withdraw_exact [of 0 "token_bucket_init 1 10" 10 10]
    token_bucket_withdraw_exact [of 0 "token_bucket_init 1 10" 10 4]
  by (simp add: token_bucket_init_def time_ok_def tb_elapsed_def)

section \<open>The rate limit\<close>

text \<open>A sequence of requests, each a time and a number of tokens: the total granted.\<close>

fun tb_run :: "token_bucket \<Rightarrow> (int \<times> u32) list \<Rightarrow> nat" where
  "tb_run tb [] = 0"
| "tb_run tb ((now, k) # rs) =
     (case token_bucket_withdraw tb now k of
        (ok, tb') \<Rightarrow> (if ok then unat k else 0) + tb_run tb' rs)"

lemma token_bucket_withdraw_cases:
  obtains (enough) "\<not> tb_tokens tb < k"
      "token_bucket_withdraw tb now k = (True, tb\<lparr>tb_tokens := tb_tokens tb - k\<rparr>)"
      "unat (tb_tokens tb - k) + unat k = unat (tb_tokens tb)"
    | (filled) tb' where "tb' = token_bucket_fill tb now" "\<not> tb_tokens tb' < k"
      "token_bucket_withdraw tb now k = (True, tb'\<lparr>tb_tokens := tb_tokens tb' - k\<rparr>)"
      "unat (tb_tokens tb' - k) + unat k = unat (tb_tokens tb')"
    | (refused) "token_bucket_withdraw tb now k = (False, token_bucket_fill tb now)"
  by (cases "tb_tokens tb < k"; cases "tb_tokens (token_bucket_fill tb now) < k")
     (auto simp: token_bucket_withdraw_def Let_def not_less unat_sub word_le_nat_alt)

lemma tb_elapsed_split:
  assumes "tb_last_fill tb < now" "now \<le> T"
  shows "tb_elapsed tb now + nat (T - now) = nat (T - tb_last_fill tb)"
  using assms by (simp add: tb_elapsed_def)

lemma tb_run_from_fill:
  "\<forall>(now, k) \<in> set rs. time_ok now \<and> now \<le> T \<Longrightarrow> time_ok (tb_last_fill tb) \<Longrightarrow> tb_last_fill tb \<le> T \<Longrightarrow>
   tb_run tb rs \<le> unat (tb_tokens tb) + unat (tb_rate tb) * nat (T - tb_last_fill tb)"
proof (induction tb rs rule: tb_run.induct)
  case (2 tb now k rs)
  have now: "time_ok now" "now \<le> T" and rest: "\<forall>(now, k) \<in> set rs. time_ok now \<and> now \<le> T"
    using "2.prems"(1) by auto
  let ?f = "token_bucket_fill tb now"
  have fill: "unat (tb_tokens ?f) + unat (tb_rate tb) * nat (T - tb_last_fill ?f)
      \<le> unat (tb_tokens tb) + unat (tb_rate tb) * nat (T - tb_last_fill tb)"
  proof (cases "now > tb_last_fill tb")
    case True
    with token_bucket_fill_bound(1) [OF now(1) "2.prems"(2)] show ?thesis
      by (simp add: max_def tb_elapsed_split [OF True now(2), symmetric] distrib_left)
  qed (simp add: token_bucket_fill_def)
  have fok: "time_ok (tb_last_fill ?f)" "tb_last_fill ?f \<le> T"
    using now "2.prems" by (auto simp: max_def)
  show ?case
  proof (cases rule: token_bucket_withdraw_cases [of tb k now])
    case enough
    have "tb_run (tb\<lparr>tb_tokens := tb_tokens tb - k\<rparr>) rs \<le> unat (tb_tokens tb - k)
        + unat (tb_rate tb) * nat (T - tb_last_fill tb)"
      using "2.IH" [OF enough(2) [symmetric] rest] "2.prems" by simp
    with enough show ?thesis by simp
  next
    case (filled tb')
    have "tb_run (tb'\<lparr>tb_tokens := tb_tokens tb' - k\<rparr>) rs \<le> unat (tb_tokens tb' - k)
        + unat (tb_rate tb) * nat (T - tb_last_fill ?f)"
      using "2.IH" [OF filled(3) [symmetric] rest] fok filled(1) by simp
    with filled fill show ?thesis by simp
  next
    case refused
    have "tb_run ?f rs \<le> unat (tb_tokens ?f) + unat (tb_rate tb) * nat (T - tb_last_fill ?f)"
      using "2.IH" [OF refused [symmetric] rest] fok by simp
    with refused fill show ?thesis by simp
  qed
qed simp

lemma tb_run_before_fill:
  "\<forall>(now, k) \<in> set rs. time_ok now \<and> t0 \<le> now \<and> now \<le> T \<Longrightarrow> time_ok (tb_last_fill tb) \<Longrightarrow>
   tb_last_fill tb < t0 \<Longrightarrow>
   tb_run tb rs \<le> unat (tb_tokens tb) + unat (tb_burst tb) + unat (tb_rate tb) * nat (T - t0)"
proof (induction tb rs rule: tb_run.induct)
  case (2 tb now k rs)
  have now: "time_ok now" "t0 \<le> now" "now \<le> T" and rest: "\<forall>(now, k) \<in> set rs. time_ok now \<and> t0 \<le> now \<and> now \<le> T"
    using "2.prems"(1) by auto
  let ?f = "token_bucket_fill tb now"
  have f: "unat (tb_tokens ?f) \<le> unat (tb_burst tb)" "tb_last_fill ?f = now"
    using token_bucket_fill_bound(2) [OF now(1) "2.prems"(2)] "2.prems"(3) now by auto
  have mono: "unat (tb_rate tb) * nat (T - now) \<le> unat (tb_rate tb) * nat (T - t0)"
    using now by (intro mult_le_mono) auto
  have run: "tb_run b rs \<le> unat (tb_tokens b) + unat (tb_rate tb) * nat (T - t0)"
    if "tb_rate b = tb_rate tb" "tb_last_fill b = now" for b
    using tb_run_from_fill [of rs T b] rest that now order_trans [OF _ add_left_mono [OF mono]] by auto
  show ?case
  proof (cases rule: token_bucket_withdraw_cases [of tb k now])
    case enough
    have "tb_run (tb\<lparr>tb_tokens := tb_tokens tb - k\<rparr>) rs \<le> unat (tb_tokens tb - k)
        + unat (tb_burst tb) + unat (tb_rate tb) * nat (T - t0)"
      using "2.IH" [OF enough(2) [symmetric] rest] "2.prems" by simp
    with enough show ?thesis by simp
  next
    case (filled tb')
    with run [of "tb'\<lparr>tb_tokens := tb_tokens tb' - k\<rparr>"] f show ?thesis by simp
  next
    case refused
    with run [of ?f] f show ?thesis by simp
  qed
qed simp

text \<open>
  C20: The rate limit. However the requests made between the times t0 and T are spread, the tokens
  granted are at most those in the bucket at the start, plus one burst, plus rate times the length of
  the interval.
\<close>

theorem token_bucket_rate_limit:
  assumes "\<forall>(now, k) \<in> set rs. time_ok now \<and> t0 \<le> now \<and> now \<le> T" "time_ok (tb_last_fill tb)"
    and "tb_last_fill tb \<le> t0" "t0 \<le> T"
  shows "tb_run tb rs \<le> unat (tb_tokens tb) + unat (tb_burst tb) + unat (tb_rate tb) * nat (T - t0)"
proof (cases "tb_last_fill tb < t0")
  case True
  with tb_run_before_fill [OF assms(1,2)] show ?thesis by simp
next
  case False
  with assms(3) have eq: "tb_last_fill tb = t0" by simp
  have "tb_run tb rs \<le> unat (tb_tokens tb) + unat (tb_rate tb) * nat (T - t0)"
    using tb_run_from_fill [of rs T tb] assms eq by auto
  then show ?thesis by simp
qed

text \<open>The bound is reached: twice the burst size can be withdrawn in one millisecond.\<close>

theorem token_bucket_rate_limit_witness:
  "tb_run \<lparr>tb_rate = 1, tb_burst = 10, tb_tokens = 10, tb_last_fill = 0\<rparr> [(1000, 10), (1000, 10)] = 20 \<and>
   tb_run \<lparr>tb_rate = 1, tb_burst = 10, tb_tokens = 10, tb_last_fill = 0\<rparr> [(1000, 10), (1000, 10)]
     \<le> 10 + 10 + 1 * nat (1000 - 1000)"
  using token_bucket_rate_limit [of "[(1000, 10), (1000, 10)]" 1000 1000
      "\<lparr>tb_rate = 1, tb_burst = 10, tb_tokens = 10, tb_last_fill = 0\<rparr>"]
  by (simp add: time_ok_def)
     (simp add: token_bucket_withdraw_def token_bucket_fill_def Let_def sat_mul_def sat_add_def)

text \<open>
  A client that sleeps until the time requested by token_bucket_wait and then withdraws the n
  tokens succeeds, provided the rate is not 0 and n is not more than the burst size.
\<close>

theorem token_bucket_wait_sufficient:
  assumes "token_bucket_wait tb n = Wake_Until t" "n \<le> tb_burst tb"
    and "LLONG_MIN \<le> tb_last_fill tb" "tb_last_fill tb \<le> LLONG_MAX - 4294967296" "t \<le> now" "time_ok now"
  shows "fst (token_bucket_withdraw tb now n)"
proof -
  let ?need = "unat n - unat (tb_tokens tb)" and ?r = "unat (tb_rate tb)"
  have lt: "unat (tb_tokens tb) < unat n" and r: "0 < ?r"
    using assms(1) by (auto simp: token_bucket_wait_def Let_def word_le_nat_alt unat_gt_0 split: if_splits)
  let ?q = "uint ((n - tb_tokens tb) div tb_rate tb)"
  have q: "?q = int (?need div ?r)"
    using lt by (simp add: uint_nat unat_div unat_sub word_le_nat_alt del: of_nat_unat)
  have small: "?need div ?r \<le> 4294967295"
    using unat_u32_le [of n] div_le_dividend [of ?need ?r] by linarith
  have "t = tb_last_fill tb + ?q + 1"
    using assms(1,3,4) small q by (auto simp: token_bucket_wait_def Let_def split: if_splits)
  then have el: "?need div ?r + 1 \<le> tb_elapsed tb now" "tb_last_fill tb < now"
    using q assms(5) by (auto simp: tb_elapsed_def)
  have "?need \<le> ?r * (?need div ?r + 1)"
    unfolding distrib_left
    using mult_div_mod_eq [of ?r ?need] mod_less_divisor [OF r, of ?need] by linarith
  also have "\<dots> \<le> ?r * tb_elapsed tb now" using el(1) by (rule mult_le_mono2)
  finally have "unat n \<le> unat (tb_tokens tb) + ?r * tb_elapsed tb now" by linarith
  moreover have "time_ok (tb_last_fill tb)" using assms(3,4) by (simp add: time_ok_def)
  ultimately show ?thesis
    using token_bucket_withdraw_spec(1) [OF assms(6) _ refl, of tb n] el(2) lt assms(2)
    by (simp add: word_le_nat_alt)
qed

theorem token_bucket_wait_sufficient_witness:
  "token_bucket_wait \<lparr>tb_rate = 2, tb_burst = 10, tb_tokens = 1, tb_last_fill = 100\<rparr> 8 = Wake_Until 104 \<and>
   fst (token_bucket_withdraw \<lparr>tb_rate = 2, tb_burst = 10, tb_tokens = 1, tb_last_fill = 100\<rparr> 104 8)"
proof -
  have "token_bucket_wait \<lparr>tb_rate = 2, tb_burst = 10, tb_tokens = 1, tb_last_fill = 100\<rparr> 8 = Wake_Until 104"
    by (simp add: token_bucket_wait_def word_le_nat_alt)
  with token_bucket_wait_sufficient [OF this, of 104] show ?thesis by (simp add: time_ok_def)
qed

end
