(* ===== verification/Csum.thy ===== *)
theory Csum
  imports OVS_Prelude
begin

text \<open>
  The Internet checksum of lib/csum.c. Values of type \<open>ovs_be16\<close> are kept as the host sees them:
  a 16-bit load from memory depends on the byte order of the host, given by \<open>big\<close>.
\<close>

section \<open>Operations\<close>

definition get_unaligned_be16 :: "bool \<Rightarrow> u8 \<Rightarrow> u8 \<Rightarrow> u16" where
  "get_unaligned_be16 big b0 b1 =
     (if big then push_bit 8 (ucast b0) OR ucast b1 else push_bit 8 (ucast b1) OR ucast b0)"

definition csum_add16 :: "u32 \<Rightarrow> u16 \<Rightarrow> u32" where
  "csum_add16 partial new = partial + ucast new"

definition csum_add32 :: "u32 \<Rightarrow> u32 \<Rightarrow> u32" where
  "csum_add32 partial new = partial + drop_bit 16 new + (new AND 0xffff)"

fun csum_continue :: "bool \<Rightarrow> u32 \<Rightarrow> u8 list \<Rightarrow> u32" where
  "csum_continue big partial (b0 # b1 # data) =
     csum_continue big (csum_add16 partial (get_unaligned_be16 big b0 b1)) data"
| "csum_continue big partial [b] = partial + ucast b"
| "csum_continue big partial [] = partial"

lemma unat_low_high:
  "unat ((p :: u32) AND 0xffff) = unat p mod 65536" "unat (drop_bit 16 p) = unat p div 65536"
proof -
  show "unat (p AND 0xffff) = unat p mod 65536" using unat_and_exp_minus_1 [of p 16] by simp
  have "unat (drop_bit 16 p) = drop_bit 16 (unat p)" by (rule unat_drop_bit_eq)
  then show "unat (drop_bit 16 p) = unat p div 65536" by (simp only: drop_bit_eq_div) simp
qed

lemma unat_fold_step: "unat ((p AND 0xffff) + drop_bit 16 (p :: u32)) = unat p mod 65536 + unat p div 65536"
proof -
  have "unat p div 65536 < 65536" using unat_u32_le [of p] by (simp add: less_mult_imp_div_less)
  then have "unat p mod 65536 + unat p div 65536 < 4294967296"
    using mod_less_divisor [of 65536 "unat p"] by linarith
  then show ?thesis by (simp add: unat_word_ariths unat_low_high)
qed

text \<open>The loop of \<open>csum_finish\<close>.\<close>

function csum_fold :: "u32 \<Rightarrow> u32" where
  "csum_fold partial =
     (if drop_bit 16 partial \<noteq> 0 then csum_fold ((partial AND 0xffff) + drop_bit 16 partial)
      else partial)"
  by pat_completeness auto
termination
proof (relation "measure unat", goal_cases)
  case (2 p)
  then have "0 < unat p div 65536" using unat_low_high(2) [of p] unat_eq_zero by (metis gr_zeroI)
  then have "unat p mod 65536 + unat p div 65536 < unat p"
    using mult_div_mod_eq [of 65536 "unat p"] by linarith
  then show ?case by (simp add: unat_fold_step)
qed simp

declare csum_fold.simps [simp del]

definition csum_finish :: "u32 \<Rightarrow> u16" where
  "csum_finish partial = ucast (NOT (csum_fold partial))"

definition csum :: "bool \<Rightarrow> u8 list \<Rightarrow> u16" where
  "csum big data = csum_finish (csum_continue big 0 data)"

definition recalc_csum16 :: "u16 \<Rightarrow> u16 \<Rightarrow> u16 \<Rightarrow> u16" where
  "recalc_csum16 old_csum old_u16 new_u16 =
     (let hc_complement = NOT old_csum;
          m_complement = NOT old_u16;
          m_prime = new_u16
      in csum_finish (ucast hc_complement + ucast m_complement + ucast m_prime))"

definition recalc_csum32 :: "u16 \<Rightarrow> u32 \<Rightarrow> u32 \<Rightarrow> u16" where
  "recalc_csum32 old_csum old_u32 new_u32 =
     recalc_csum16 (recalc_csum16 old_csum (ucast old_u32) (ucast new_u32))
       (ucast (drop_bit 16 old_u32)) (ucast (drop_bit 16 new_u32))"

text \<open>
  The loops over the three 16-bit units of an Ethernet address and over the four 32-bit words of an
  IPv6 address, given the loaded units.
\<close>

definition recalc_csum48 :: "u16 \<Rightarrow> u16 list \<Rightarrow> u16 list \<Rightarrow> u16" where
  "recalc_csum48 old_csum old new =
     fold (\<lambda>i c. recalc_csum16 c (old ! i) (new ! i)) [0 ..< 3] old_csum"

definition recalc_csum128 :: "u16 \<Rightarrow> u32 list \<Rightarrow> u32 list \<Rightarrow> u16" where
  "recalc_csum128 old_csum old new =
     fold (\<lambda>i c. recalc_csum32 c (old ! i) (new ! i)) [0 ..< 4] old_csum"

section \<open>Ones' complement sums\<close>

text \<open>
  The representative of a sum modulo 65535 that the folding computes: 0 for 0 only, and 65535 for
  the other multiples of 65535.
\<close>

definition ones_rep :: "nat \<Rightarrow> nat" where
  "ones_rep s = (if s = 0 then 0 else if s mod 65535 = 0 then 65535 else s mod 65535)"

lemma ones_rep_cong: "s mod 65535 = t mod 65535 \<Longrightarrow> (s = 0 \<longleftrightarrow> t = 0) \<Longrightarrow> ones_rep s = ones_rep t"
  by (simp add: ones_rep_def)

lemma ones_rep_small: "s < 65536 \<Longrightarrow> ones_rep s = s"
  by (cases "s = 65535") (auto simp: ones_rep_def)

lemma ones_rep_bound: "ones_rep s \<le> 65535"
  using mod_less_divisor [of 65535 s] by (simp add: ones_rep_def)

lemma ones_rep_mod [simp]: "ones_rep s mod 65535 = s mod 65535"
  by (simp add: ones_rep_def)

lemma csum_fold_exact: "unat (csum_fold p) = ones_rep (unat p)"
proof (induction p rule: csum_fold.induct)
  case (1 p)
  let ?q = "(p AND 0xffff) + drop_bit 16 p"
  have high: "drop_bit 16 p = 0 \<longleftrightarrow> unat p div 65536 = 0"
    using unat_low_high(2) [of p] by (metis unat_eq_zero)
  show ?case
  proof (cases "drop_bit 16 p = 0")
    case True
    with high have "unat p < 65536" by (simp add: div_eq_0_iff)
    with True show ?thesis by (simp add: csum_fold.simps [of p] ones_rep_small)
  next
    case False
    have split: "unat p = 65536 * (unat p div 65536) + unat p mod 65536" by simp
    have "unat ?q mod 65535 = unat p mod 65535"
    proof -
      have "unat p = 65535 * (unat p div 65536) + (unat p mod 65536 + unat p div 65536)"
        using split by linarith
      then show ?thesis by (metis mod_mult_self4 mult.commute unat_fold_step)
    qed
    moreover have "unat ?q \<noteq> 0" "unat p \<noteq> 0" using False high unat_fold_step [of p] by auto
    ultimately have "ones_rep (unat ?q) = ones_rep (unat p)" by (intro ones_rep_cong) auto
    with "1.IH" [OF False] False show ?thesis by (simp add: csum_fold.simps [of p])
  qed
qed

lemma unat_u16_le: "unat (x :: u16) \<le> 65535"
proof -
  have "unat x < 2 ^ LENGTH(16)" by (rule unsigned_less)
  then show ?thesis by simp
qed

lemma unat_not_u16: "unat (NOT (x :: u16)) = 65535 - unat x"
proof -
  have "NOT x = - 1 - x" by (simp add: not_eq_complement)
  moreover have "unat (- 1 - x) = unat (- 1 :: u16) - unat x"
    by (intro unat_sub) simp
  ultimately show ?thesis by (simp add: unsigned_minus_1_eq_mask mask_eq_exp_minus_1)
qed

lemma csum_finish_exact: "unat (csum_finish p) = 65535 - ones_rep (unat p)"
proof -
  let ?r = "ones_rep (unat p)"
  have "unat (NOT (csum_fold p)) = 4294967295 - ?r"
  proof -
    have "NOT (csum_fold p) = - 1 - csum_fold p" by (simp add: not_eq_complement)
    moreover have "unat (- 1 - csum_fold p) = unat (- 1 :: u32) - unat (csum_fold p)"
      by (intro unat_sub) simp
    ultimately show ?thesis
      by (simp add: csum_fold_exact unsigned_minus_1_eq_mask mask_eq_exp_minus_1)
  qed
  also have "\<dots> = (65535 - ?r) + 65535 * 65536" using ones_rep_bound [of "unat p"] by simp
  finally have "unat (NOT (csum_fold p)) mod 65536 = (65535 - ?r) mod 65536"
    by (simp only: mod_mult_self1)
  then show ?thesis
    by (simp add: csum_finish_def unsigned_ucast_eq take_bit_eq_mod)
qed

section \<open>Sums of words\<close>

definition csum_words :: "u32 \<Rightarrow> u16 list \<Rightarrow> u32" where
  "csum_words partial ws = fold (\<lambda>w p. csum_add16 p w) ws partial"

definition word_sum :: "u16 list \<Rightarrow> nat" where
  "word_sum ws = sum_list (map unat ws)"

lemma word_sum_simps [simp]:
  "word_sum [] = 0" "word_sum (w # ws) = unat w + word_sum ws"
  "word_sum (xs @ ys) = word_sum xs + word_sum ys"
  by (simp_all add: word_sum_def)

lemma word_sum_bound: "word_sum ws \<le> 65535 * length ws"
proof (induction ws)
  case (Cons w ws)
  then show ?case using unat_u16_le [of w] by simp
qed simp

lemma word_sum_zero: "word_sum ws = 0 \<longleftrightarrow> (\<forall>w \<in> set ws. w = 0)"
  by (induction ws) (auto simp: unat_eq_zero)

lemma csum_words_exact:
  "unat partial + word_sum ws < 4294967296 \<Longrightarrow> unat (csum_words partial ws) = unat partial + word_sum ws"
proof (induction ws arbitrary: partial)
  case (Cons w ws)
  have "unat (csum_add16 partial w) = unat partial + unat w"
    using Cons.prems by (simp add: csum_add16_def unat_word_ariths unsigned_ucast_eq
        take_bit_nat_eq_self unat_u16_le [THEN le_less_trans])
  with Cons show ?case by (simp add: csum_words_def)
qed (simp add: csum_words_def)

text \<open>The 16-bit units of a packet as a host loads them.\<close>

fun load_words :: "bool \<Rightarrow> u8 list \<Rightarrow> u16 list" where
  "load_words big (b0 # b1 # data) = get_unaligned_be16 big b0 b1 # load_words big data"
| "load_words big [b] = [ucast b]"
| "load_words big [] = []"

lemma ucast_u8_u16_u32: "(ucast (ucast (b :: u8) :: u16) :: u32) = ucast b"
  by (rule bit_word_eqI) (auto simp: bit_ucast_iff dest: bit_imp_le_length)

lemma csum_continue_words: "csum_continue big partial data = csum_words partial (load_words big data)"
  by (induction big partial data rule: csum_continue.induct)
     (simp_all add: csum_words_def csum_add16_def ucast_u8_u16_u32)

lemma length_load_words: "length (load_words big data) = (length data + 1) div 2"
  by (induction big data rule: load_words.induct) auto

lemma csum_exact:
  assumes "length data \<le> 131072"
  shows "unat (csum big data) = 65535 - ones_rep (word_sum (load_words big data))"
proof -
  have "word_sum (load_words big data) \<le> 65535 * 65536"
    using word_sum_bound [of "load_words big data"] assms
    by (simp add: length_load_words) (erule order_trans, simp)
  then show ?thesis
    by (simp add: csum_def csum_finish_exact csum_continue_words csum_words_exact)
qed

section \<open>Incremental update\<close>

text \<open>A receiver accepts data \<open>ws\<close> with checksum \<open>c\<close> when the checksum over both is 0.\<close>

definition csum_valid :: "u16 list \<Rightarrow> u16 \<Rightarrow> bool" where
  "csum_valid ws c \<longleftrightarrow> csum_finish (csum_add16 (csum_words 0 ws) c) = 0"

lemma csum_valid_iff:
  assumes "length ws < 65536"
  shows "csum_valid ws c \<longleftrightarrow> (word_sum ws + unat c) mod 65535 = 0 \<and> word_sum ws + unat c \<noteq> 0"
proof -
  have "65535 * length ws \<le> 65535 * 65535" using assms by (intro mult_le_mono2) simp
  then have b: "word_sum ws \<le> 4294836225" using word_sum_bound [of ws] by simp
  have "unat (csum_add16 (csum_words 0 ws) c) = word_sum ws + unat c"
    using csum_words_exact [of 0 "ws @ [c]"] b unat_u16_le [of c] by (simp add: csum_words_def)
  then have "unat (csum_finish (csum_add16 (csum_words 0 ws) c)) = 65535 - ones_rep (word_sum ws + unat c)"
    by (simp add: csum_finish_exact)
  moreover have "csum_finish p = 0 \<longleftrightarrow> unat (csum_finish p) = 0" for p
    by (simp add: unat_eq_zero)
  moreover have "65535 - ones_rep s = 0 \<longleftrightarrow> s mod 65535 = 0 \<and> s \<noteq> 0" for s
    using mod_less_divisor [of 65535 s] by (auto simp: ones_rep_def)
  ultimately show ?thesis by (simp add: csum_valid_def)
qed

lemma recalc_csum16_exact:
  "unat (recalc_csum16 c m m') = 65535 - ones_rep ((65535 - unat c) + (65535 - unat m) + unat m')"
proof -
  have u: "unat (ucast (x :: u16) :: u32) = unat x" for x
    using unat_u16_le [of x] by (simp add: unsigned_ucast_eq take_bit_nat_eq_self)
  have "unat (ucast (NOT c) + ucast (NOT m) + ucast m' :: u32)
      = (65535 - unat c) + (65535 - unat m) + unat m'"
    using unat_u16_le [of m'] by (simp add: unat_word_ariths u unat_not_u16)
  then show ?thesis by (simp add: recalc_csum16_def csum_finish_exact)
qed

text \<open>Modulo 65535, the new checksum is the old one plus the old word minus the new word.\<close>

lemma mod_add_right_cancel_nat: "((a :: nat) + t) mod m = (b + t) mod m \<Longrightarrow> a mod m = b mod m"
  by (metis add_diff_cancel_right' diff_add_inverse2 mod_eq_dvd_iff_nat nat_le_linear add_le_cancel_right
      add_diff_cancel_right mod_eq_dvd_iff_nat)

lemma recalc_csum16_cong:
  "(unat (recalc_csum16 c m m') + unat m') mod 65535 = (unat c + unat m) mod 65535"
proof -
  let ?t = "(65535 - unat c) + (65535 - unat m) + unat m'"
  have r: "ones_rep ?t \<le> 65535" by (rule ones_rep_bound)
  have t: "?t + (unat c + unat m) = 131070 + unat m'"
    using unat_u16_le [of c] unat_u16_le [of m] by linarith
  have "(unat (recalc_csum16 c m m') + unat m' + ones_rep ?t) mod 65535 = unat m' mod 65535"
    using r by (simp add: recalc_csum16_exact)
  then have "(unat (recalc_csum16 c m m') + unat m' + ?t) mod 65535 = unat m' mod 65535"
    by (metis mod_add_right_eq ones_rep_mod)
  moreover have "(unat c + unat m + ?t) mod 65535 = unat m' mod 65535"
  proof -
    have "unat c + unat m + ?t = unat m' + 2 * 65535" using t by linarith
    then show ?thesis by (metis mod_mult_self1)
  qed
  ultimately have "(unat (recalc_csum16 c m m') + unat m' + ?t) mod 65535 = (unat c + unat m + ?t) mod 65535"
    by simp
  then show ?thesis by (rule mod_add_right_cancel_nat)
qed

definition halves :: "u32 \<Rightarrow> u16 list" where
  "halves x = [ucast x, ucast (drop_bit 16 x)]"

text \<open>Composing the congruences of successive updates.\<close>

lemma recalc_cong_trans:
  assumes "(a' + s') mod m = (a + s) mod (m :: nat)" "(b' + t') mod m = (a' + t) mod m"
  shows "(b' + (s' + t')) mod m = (a + (s + t)) mod m"
proof -
  have "(b' + t' + s') mod m = (a' + t + s') mod m" using assms(2) by (rule mod_add_cong) simp
  also have "\<dots> = (a' + s' + t) mod m" by (simp add: ac_simps)
  also have "\<dots> = (a + s + t) mod m" using assms(1) by (rule mod_add_cong) simp
  finally show ?thesis by (simp add: ac_simps)
qed

lemma recalc_csum32_cong:
  "(unat (recalc_csum32 c m m') + word_sum (halves m')) mod 65535 = (unat c + word_sum (halves m)) mod 65535"
  unfolding recalc_csum32_def halves_def word_sum_simps add_0_right
  by (rule recalc_cong_trans [OF recalc_csum16_cong recalc_csum16_cong])

lemma recalc_csum48_cong:
  assumes "length olds = 3" "length news = 3"
  shows "(unat (recalc_csum48 c olds news) + word_sum news) mod 65535 = (unat c + word_sum olds) mod 65535"
proof -
  obtain a1 a2 a3 b1 b2 b3 where [simp]: "olds = [a1, a2, a3]" "news = [b1, b2, b3]"
    using assms by (auto simp: numeral_3_eq_3 length_Suc_conv)
  show ?thesis
    using recalc_cong_trans [OF recalc_csum16_cong [of c a1 b1]
        recalc_cong_trans [OF recalc_csum16_cong [of _ a2 b2] recalc_csum16_cong [of _ a3 b3]]]
    by (simp add: recalc_csum48_def upt_rec)
qed

lemma recalc_csum128_cong:
  assumes "length olds = 4" "length news = 4"
  shows "(unat (recalc_csum128 c olds news) + word_sum (concat (map halves news))) mod 65535
       = (unat c + word_sum (concat (map halves olds))) mod 65535"
proof -
  obtain a1 a2 a3 a4 b1 b2 b3 b4 where [simp]: "olds = [a1, a2, a3, a4]" "news = [b1, b2, b3, b4]"
    using assms by (auto simp: eval_nat_numeral length_Suc_conv)
  show ?thesis
    using recalc_cong_trans [OF recalc_csum32_cong [of c a1 b1]
        recalc_cong_trans [OF recalc_csum32_cong [of _ a2 b2]
          recalc_cong_trans [OF recalc_csum32_cong [of _ a3 b3] recalc_csum32_cong [of _ a4 b4]]]]
    by (simp add: recalc_csum128_def upt_rec)
qed

lemma csum_valid_update:
  assumes valid: "csum_valid (pre @ olds @ post) c"
    and cong: "(unat c' + word_sum news) mod 65535 = (unat c + word_sum olds) mod 65535"
    and len: "length (pre @ olds @ post) < 65536" "length news = length olds"
    and nonzero: "\<exists>w \<in> set (pre @ news @ post). w \<noteq> 0"
  shows "csum_valid (pre @ news @ post) c'"
proof -
  let ?r = "word_sum pre + word_sum post"
  have "word_sum (pre @ news @ post) \<noteq> 0" using nonzero by (simp only: word_sum_zero) blast
  moreover have "(unat c' + word_sum news + ?r) mod 65535 = (unat c + word_sum olds + ?r) mod 65535"
    using cong by (rule mod_add_cong) simp
  moreover have "(word_sum (pre @ olds @ post) + unat c) mod 65535 = 0"
    using valid len by (simp only: csum_valid_iff)
  ultimately show ?thesis using len by (auto simp: csum_valid_iff ac_simps)
qed

text \<open>
  C35: Incremental checksum update (RFC 1624): when a checksum is valid for a packet and one 16-bit
  unit of the packet is replaced, \<open>recalc_csum16\<close> returns a checksum that is valid for the new packet,
  for every packet shorter than 65536 units that is not all zeros after the change.
\<close>

theorem recalc_csum16_valid:
  assumes "csum_valid (pre @ [old] @ post) c" "length (pre @ [old] @ post) < 65536"
    and "\<exists>w \<in> set (pre @ [new] @ post). w \<noteq> 0"
  shows "csum_valid (pre @ [new] @ post) (recalc_csum16 c old new)"
  by (rule csum_valid_update [OF assms(1) _ assms(2) _ assms(3)]) (simp_all add: recalc_csum16_cong)

theorem recalc_csum16_valid_witness:
  "csum_valid ([0x4500, 0x0054] @ [0x4001] @ [0xc0a8]) 0xba01
   \<and> csum_valid ([0x4500, 0x0054] @ [0x3f01] @ [0xc0a8]) (recalc_csum16 0xba01 0x4001 0x3f01)"
proof -
  have v: "csum_valid ([0x4500, 0x0054] @ [0x4001] @ [0xc0a8]) 0xba01"
    by (simp add: csum_valid_iff)
  show ?thesis using recalc_csum16_valid [OF v, of "0x3f01"] v by simp
qed

text \<open>
  The wider incremental updates: replacing a 32-bit field, a 48-bit Ethernet address or a
  128-bit IPv6 address of a packet and updating the checksum with \<open>recalc_csum32\<close>, \<open>recalc_csum48\<close> and
  \<open>recalc_csum128\<close> keeps the checksum valid.
\<close>

theorem recalc_csum_fields_valid:
  assumes "length pre + length post < 65528" "\<exists>w \<in> set (pre @ post). w \<noteq> 0"
  shows "(csum_valid (pre @ halves o32 @ post) c
            \<longrightarrow> csum_valid (pre @ halves n32 @ post) (recalc_csum32 c o32 n32))
       \<and> (length o48 = 3 \<and> length n48 = 3 \<and> csum_valid (pre @ o48 @ post) c
            \<longrightarrow> csum_valid (pre @ n48 @ post) (recalc_csum48 c o48 n48))
       \<and> (length o128 = 4 \<and> length n128 = 4 \<and> csum_valid (pre @ concat (map halves o128) @ post) c
            \<longrightarrow> csum_valid (pre @ concat (map halves n128) @ post) (recalc_csum128 c o128 n128))"
proof -
  have [simp]: "length (concat (map halves xs)) = 2 * length xs" "length (halves x) = 2" for x xs
    by (induction xs) (simp_all add: halves_def)
  have nz: "\<exists>w \<in> set (pre @ news @ post). w \<noteq> 0" for news using assms(2) by auto
  note update = csum_valid_update [OF _ _ _ _ nz]
  show ?thesis
  proof (intro conjI impI, goal_cases)
    case 1
    then show ?case using assms(1) by (rule_tac update [OF _ recalc_csum32_cong]) simp_all
  next
    case 2
    then show ?case using assms(1) by (rule_tac update [OF _ recalc_csum48_cong]) simp_all
  next
    case 3
    then show ?case using assms(1) by (rule_tac update [OF _ recalc_csum128_cong]) simp_all
  qed
qed

theorem recalc_csum_fields_valid_witness:
  "csum_valid ([0x4500] @ halves 0xc0a80001 @ []) 0xfa55
   \<and> csum_valid ([0x4500] @ halves 0x0a000002 @ []) (recalc_csum32 0xfa55 0xc0a80001 0x0a000002)"
proof -
  have v: "csum_valid ([0x4500] @ halves 0xc0a80001 @ []) 0xfa55" by code_simp
  show ?thesis
    using recalc_csum_fields_valid [of "[0x4500]" "[]" "0xc0a80001" "0xfa55" "0x0a000002"] v by simp
qed

section \<open>Byte order\<close>

text \<open>The value a host of the other byte order reads from the same two bytes.\<close>

definition byte_swap :: "u16 \<Rightarrow> u16" where
  "byte_swap x = push_bit 8 x OR drop_bit 8 x"

lemma unat_u8_le: "unat (x :: u8) \<le> 255"
proof -
  have "unat x < 2 ^ LENGTH(8)" by (rule unsigned_less)
  then show ?thesis by simp
qed

lemma unat_join_bytes: "unat (push_bit 8 (ucast (a :: u8)) OR ucast b :: u16) = 256 * unat a + unat (b :: u8)"
proof -
  have "push_bit 8 (ucast a) OR ucast b = (push_bit 8 (ucast a) + ucast b :: u16)"
    by (rule disjunctive_add_eq_or [symmetric], rule bit_word_eqI)
       (auto simp: bit_simps dest: bit_imp_le_length)
  moreover have "unat a \<le> 255" "unat b \<le> 255"
    by (rule unat_u8_le)+
  ultimately show ?thesis
    by (simp add: unat_word_ariths push_bit_eq_mult unsigned_ucast_eq take_bit_eq_mod)
qed

lemma unat_byte_swap: "unat (byte_swap x) = 256 * (unat x mod 256) + unat x div 256"
proof -
  have d: "unat (drop_bit 8 x) = unat x div 256"
    using unat_drop_bit_eq [of 8 x] by (simp only: drop_bit_eq_div) simp
  have "push_bit 8 x OR drop_bit 8 x = (push_bit 8 (ucast (ucast x :: u8)) OR ucast (ucast (drop_bit 8 x) :: u8) :: u16)"
    by (rule bit_word_eqI) (auto simp: bit_simps dest: bit_imp_le_length)
  then have "unat (byte_swap x) = 256 * unat (ucast x :: u8) + unat (ucast (drop_bit 8 x) :: u8)"
    by (simp only: byte_swap_def unat_join_bytes)
  then show ?thesis using unat_u16_le [of x] d
    by (simp add: unsigned_ucast_eq take_bit_eq_mod)
qed

lemma byte_swap_cong: "unat (byte_swap x) mod 65535 = 256 * unat x mod 65535"
proof -
  have "256 * unat x = unat (byte_swap x) + 65535 * (unat x div 256)"
    using div_mult_mod_eq [of "unat x" 256] by (simp only: unat_byte_swap)
  then show ?thesis by (metis mod_mult_self2)
qed

lemma word_sum_byte_order:
  "even (length data) \<Longrightarrow>
   word_sum (load_words False data) mod 65535 = 256 * word_sum (load_words True data) mod 65535"
proof (induction data rule: induct_list012)
  case (3 a b data)
  then have IH: "word_sum (load_words False data) mod 65535 = 256 * word_sum (load_words True data) mod 65535"
    by simp
  have "256 * (256 * unat a + unat b) = 256 * unat b + unat a + 65535 * unat a" by simp
  then have "(256 * unat b + unat a) mod 65535 = 256 * (256 * unat a + unat b) mod 65535"
    by (metis mod_mult_self2)
  from mod_add_cong [OF this IH] show ?case
    by (simp add: get_unaligned_be16_def unat_join_bytes algebra_simps)
qed simp_all

lemma word_sum_byte_order_zero:
  "even (length data) \<Longrightarrow> word_sum (load_words False data) = 0 \<longleftrightarrow> word_sum (load_words True data) = 0"
  by (induction data rule: induct_list012)
     (auto simp: get_unaligned_be16_def unat_join_bytes)

text \<open>
  Byte order independence: a little-endian host and a big-endian host that compute the checksum
  of the same even number of bytes store the same two checksum bytes, so the value read by one is
  the byte-swapped value of the other.
\<close>

theorem csum_byte_order:
  assumes "even (length data)" "length data \<le> 131072"
  shows "csum False data = byte_swap (csum True data)"
proof -
  let ?F = "word_sum (load_words False data)" and ?T = "word_sum (load_words True data)"
  have T: "unat (csum True data) = 65535 - ones_rep ?T" and F: "unat (csum False data) = 65535 - ones_rep ?F"
    using assms(2) by (simp_all add: csum_exact)
  have nT: "unat (NOT (csum True data)) = ones_rep ?T" and nF: "unat (NOT (csum False data)) = ones_rep ?F"
    using T F ones_rep_bound [of ?T] ones_rep_bound [of ?F] by (simp_all add: unat_not_u16)
  let ?s = "unat (byte_swap (NOT (csum True data)))"
  have "?s = ones_rep ?s" using unat_u16_le [of "byte_swap (NOT (csum True data))"] by (simp add: ones_rep_small)
  also have "\<dots> = ones_rep ?F"
  proof (rule ones_rep_cong)
    have "?s mod 65535 = 256 * ones_rep ?T mod 65535" by (simp add: byte_swap_cong nT)
    also have "\<dots> = 256 * ?T mod 65535" by (metis mod_mult_right_eq ones_rep_mod)
    finally show "?s mod 65535 = ?F mod 65535" using word_sum_byte_order [OF assms(1)] by simp
    have "?s = 0 \<longleftrightarrow> ones_rep ?T = 0" using nT
      by (auto simp: unat_byte_swap)
    also have "\<dots> \<longleftrightarrow> ?T = 0" by (simp add: ones_rep_def)
    finally show "?s = 0 \<longleftrightarrow> ?F = 0" using word_sum_byte_order_zero [OF assms(1)] by simp
  qed
  finally have "byte_swap (NOT (csum True data)) = NOT (csum False data)"
    using nF by (simp add: word_unat_eq_iff)
  moreover have "byte_swap (NOT x) = NOT (byte_swap x)" for x
    unfolding byte_swap_def
    by (rule bit_word_eqI) (auto simp: bit_simps dest: bit_imp_le_length)
  ultimately show ?thesis by (metis bit.double_compl)
qed

theorem csum_byte_order_witness: "csum False [0x45, 0, 0xc0, 0xa8] = byte_swap (csum True [0x45, 0, 0xc0, 0xa8])"
  by (rule csum_byte_order) simp_all

text \<open>
  C36: The trailing byte of data of odd length: a little-endian host computes the checksum of the
  data padded with a zero byte, as RFC 1071 asks, whereas a big-endian host computes that value for
  a single byte only when the byte is 0.
\<close>

theorem csum_odd_length:
  "(odd (length data) \<and> length data < 131072 \<longrightarrow> csum False data = csum False (data @ [0]))
   \<and> (csum True [b] = csum True [b, 0] \<longleftrightarrow> b = 0)"
proof
  have "word_sum (load_words False (data @ [0])) = word_sum (load_words False data)" if "odd (length data)"
    using that by (induction data rule: induct_list012)
      (simp_all add: get_unaligned_be16_def)
  then show "odd (length data) \<and> length data < 131072 \<longrightarrow> csum False data = csum False (data @ [0])"
    by (simp add: word_unat_eq_iff csum_exact)
  have b: "unat b \<le> 255" by (rule unat_u8_le)
  then have "unat (csum True [b]) = 65535 - unat b" "unat (csum True [b, 0]) = 65535 - 256 * unat b"
    using unat_join_bytes [of b 0]
    by (simp_all add: csum_exact get_unaligned_be16_def ones_rep_small unsigned_ucast_eq take_bit_eq_mod)
  then show "csum True [b] = csum True [b, 0] \<longleftrightarrow> b = 0"
    using b by (auto simp: word_unat_eq_iff)
qed

theorem csum_odd_length_witness:
  "csum False [0x45, 0x10, 0xff] = csum False ([0x45, 0x10, 0xff] @ [0])"
  using csum_odd_length [of "[0x45, 0x10, 0xff]"] by simp

end
