(* ===== verification/State_Machine.thy ===== *)
theory State_Machine
  imports Main
begin

text \<open>
  Components driven by calls: the states reachable from the initial ones by the calls a client may
  make, and the rule that an invariant of the initial states kept by every call holds in all of
  them. A call that aborts has no successor state.
\<close>

inductive reachable_by :: "('s \<Rightarrow> bool) \<Rightarrow> ('s \<Rightarrow> 'op \<Rightarrow> bool) \<Rightarrow> ('s \<Rightarrow> 'op \<Rightarrow> 's option) \<Rightarrow> 's \<Rightarrow> bool"
  for start :: "'s \<Rightarrow> bool" and allowed :: "'s \<Rightarrow> 'op \<Rightarrow> bool" and exec :: "'s \<Rightarrow> 'op \<Rightarrow> 's option" where
  reachable_start: "start s \<Longrightarrow> reachable_by start allowed exec s"
| reachable_call: "reachable_by start allowed exec s \<Longrightarrow> allowed s op \<Longrightarrow> exec s op = Some s' \<Longrightarrow>
    reachable_by start allowed exec s'"

locale call_machine =
  fixes start :: "'s \<Rightarrow> bool"
    and allowed :: "'s \<Rightarrow> 'op \<Rightarrow> bool"
    and exec :: "'s \<Rightarrow> 'op \<Rightarrow> 's option"
    and inv :: "'s \<Rightarrow> bool"
  assumes start_inv: "start s \<Longrightarrow> inv s"
    and exec_inv: "inv s \<Longrightarrow> allowed s op \<Longrightarrow> exec s op = Some s' \<Longrightarrow> inv s'"
begin

lemma reachable_inv: "reachable_by start allowed exec s \<Longrightarrow> inv s"
  by (induction rule: reachable_by.induct) (auto intro: start_inv exec_inv)

end

end
