(* ===== verification/Reconnect.thy ===== *)
theory Reconnect
  imports OVS_Prelude State_Machine
begin

text \<open>
  The connection state machine of lib/reconnect.c, used by the OpenFlow and OVSDB clients to decide
  when to connect, to probe an idle connection and to disconnect. Time is an argument of every
  operation, as in the source. Log messages are left out.
\<close>

section \<open>State\<close>

datatype state = S_VOID | S_BACKOFF | S_CONNECTING | S_ACTIVE | S_IDLE | S_RECONNECT | S_LISTENING

datatype vlog_level = VLL_OFF | VLL_EMER | VLL_ERR | VLL_WARN | VLL_INFO | VLL_DBG

datatype reconnect_action = RECONNECT_CONNECT | RECONNECT_DISCONNECT | RECONNECT_PROBE

record reconnect =
  rc_name :: string
  rc_min_backoff :: int
  rc_max_backoff :: int
  rc_probe_interval :: int
  rc_passive :: bool
  rc_info :: vlog_level
  rc_state :: state
  rc_state_entered :: int
  rc_backoff :: int
  rc_last_activity :: int
  rc_last_connected :: int
  rc_last_disconnected :: int
  rc_max_tries :: u32
  rc_creation_time :: int
  rc_n_attempted_connections :: u32
  rc_n_successful_connections :: u32
  rc_total_connected_duration :: u32
  rc_seqno :: u32

record reconnect_stats =
  rs_creation_time :: int
  rs_last_activity :: int
  rs_last_connected :: int
  rs_last_disconnected :: int
  rs_backoff :: int
  rs_seqno :: u32
  rs_is_connected :: bool
  rs_msec_since_connect :: u32
  rs_msec_since_disconnect :: u32
  rs_total_connected_duration :: u32
  rs_n_attempted_connections :: u32
  rs_n_successful_connections :: u32
  rs_state :: string
  rs_state_elapsed :: u32

definition is_connected_state :: "state \<Rightarrow> bool" where
  "is_connected_state s \<longleftrightarrow> s \<in> {S_ACTIVE, S_IDLE}"

fun reconnect_state_name :: "state \<Rightarrow> string" where
  "reconnect_state_name S_VOID = ''VOID''"
| "reconnect_state_name S_BACKOFF = ''BACKOFF''"
| "reconnect_state_name S_CONNECTING = ''CONNECTING''"
| "reconnect_state_name S_ACTIVE = ''ACTIVE''"
| "reconnect_state_name S_IDLE = ''IDLE''"
| "reconnect_state_name S_RECONNECT = ''RECONNECT''"
| "reconnect_state_name S_LISTENING = ''LISTENING''"

abbreviation RECONNECT_DEFAULT_MIN_BACKOFF :: int where "RECONNECT_DEFAULT_MIN_BACKOFF \<equiv> 1000"
abbreviation RECONNECT_DEFAULT_MAX_BACKOFF :: int where "RECONNECT_DEFAULT_MAX_BACKOFF \<equiv> 8000"
abbreviation RECONNECT_DEFAULT_PROBE_INTERVAL :: int where "RECONNECT_DEFAULT_PROBE_INTERVAL \<equiv> 5000"

section \<open>Operations\<close>

definition reconnect_create :: "int \<Rightarrow> reconnect" where
  "reconnect_create now =
     \<lparr>rc_name = ''void'', rc_min_backoff = RECONNECT_DEFAULT_MIN_BACKOFF,
      rc_max_backoff = RECONNECT_DEFAULT_MAX_BACKOFF,
      rc_probe_interval = RECONNECT_DEFAULT_PROBE_INTERVAL, rc_passive = False, rc_info = VLL_INFO,
      rc_state = S_VOID, rc_state_entered = now, rc_backoff = 0, rc_last_activity = now,
      rc_last_connected = LLONG_MAX, rc_last_disconnected = LLONG_MAX, rc_max_tries = UINT_MAX,
      rc_creation_time = now, rc_n_attempted_connections = 0, rc_n_successful_connections = 0,
      rc_total_connected_duration = 0, rc_seqno = 0\<rparr>"

definition reconnect_set_quiet :: "reconnect \<Rightarrow> bool \<Rightarrow> reconnect" where
  "reconnect_set_quiet fsm quiet = fsm\<lparr>rc_info := (if quiet then VLL_DBG else VLL_INFO)\<rparr>"

definition reconnect_get_name :: "reconnect \<Rightarrow> string" where
  "reconnect_get_name fsm = rc_name fsm"

definition reconnect_set_name :: "reconnect \<Rightarrow> string option \<Rightarrow> reconnect" where
  "reconnect_set_name fsm name =
     fsm\<lparr>rc_name := (case name of Some s \<Rightarrow> s | None \<Rightarrow> ''void'')\<rparr>"

definition reconnect_get_min_backoff :: "reconnect \<Rightarrow> int" where
  "reconnect_get_min_backoff fsm = rc_min_backoff fsm"

definition reconnect_get_max_backoff :: "reconnect \<Rightarrow> int" where
  "reconnect_get_max_backoff fsm = rc_max_backoff fsm"

definition reconnect_get_probe_interval :: "reconnect \<Rightarrow> int" where
  "reconnect_get_probe_interval fsm = rc_probe_interval fsm"

definition reconnect_set_max_tries :: "reconnect \<Rightarrow> u32 \<Rightarrow> reconnect" where
  "reconnect_set_max_tries fsm max_tries = fsm\<lparr>rc_max_tries := max_tries\<rparr>"

definition reconnect_get_max_tries :: "reconnect \<Rightarrow> u32" where
  "reconnect_get_max_tries fsm = rc_max_tries fsm"

definition reconnect_set_backoff :: "reconnect \<Rightarrow> int \<Rightarrow> int \<Rightarrow> reconnect" where
  "reconnect_set_backoff fsm min_backoff max_backoff =
     (let fsm = fsm\<lparr>rc_min_backoff := max min_backoff 1000,
                    rc_max_backoff := (if max_backoff \<noteq> 0 then max max_backoff 1000
                                       else RECONNECT_DEFAULT_MAX_BACKOFF)\<rparr>;
          fsm = (if rc_min_backoff fsm > rc_max_backoff fsm
                 then fsm\<lparr>rc_max_backoff := rc_min_backoff fsm\<rparr> else fsm)
      in if rc_state fsm = S_BACKOFF \<and> rc_backoff fsm > max_backoff
         then fsm\<lparr>rc_backoff := max_backoff\<rparr> else fsm)"

definition reconnect_set_probe_interval :: "reconnect \<Rightarrow> int \<Rightarrow> reconnect" where
  "reconnect_set_probe_interval fsm probe_interval =
     fsm\<lparr>rc_probe_interval := (if probe_interval \<noteq> 0 then max 1000 probe_interval else 0)\<rparr>"

definition reconnect_is_passive :: "reconnect \<Rightarrow> bool" where
  "reconnect_is_passive fsm = rc_passive fsm"

definition reconnect_may_retry :: "reconnect \<Rightarrow> bool \<times> reconnect" where
  "reconnect_may_retry fsm =
     (let may_retry = rc_max_tries fsm > 0
      in (may_retry, if may_retry \<and> rc_max_tries fsm \<noteq> UINT_MAX
                     then fsm\<lparr>rc_max_tries := rc_max_tries fsm - 1\<rparr> else fsm))"

definition reconnect_transition :: "reconnect \<Rightarrow> int \<Rightarrow> state \<Rightarrow> reconnect" where
  "reconnect_transition fsm now s =
     (let fsm = (if rc_state fsm = S_CONNECTING then
                   let fsm = fsm\<lparr>rc_n_attempted_connections := rc_n_attempted_connections fsm + 1\<rparr>
                   in if s = S_ACTIVE
                      then fsm\<lparr>rc_n_successful_connections := rc_n_successful_connections fsm + 1\<rparr>
                      else fsm
                 else fsm);
          fsm = (if is_connected_state (rc_state fsm) \<noteq> is_connected_state s then
                   let fsm = (if is_connected_state (rc_state fsm)
                              then fsm\<lparr>rc_total_connected_duration := rc_total_connected_duration fsm
                                     + word_of_int (c_llong (now - rc_last_connected fsm))\<rparr>
                              else fsm)
                   in fsm\<lparr>rc_seqno := rc_seqno fsm + 1\<rparr>
                 else fsm)
      in fsm\<lparr>rc_state := s, rc_state_entered := now\<rparr>)"

definition reconnect_set_passive :: "reconnect \<Rightarrow> bool \<Rightarrow> int \<Rightarrow> reconnect" where
  "reconnect_set_passive fsm passive now =
     (if rc_passive fsm \<noteq> passive then
        let fsm = fsm\<lparr>rc_passive := passive\<rparr>;
            (change, fsm) = (if passive then (rc_state fsm \<in> {S_CONNECTING, S_RECONNECT}, fsm)
                             else if rc_state fsm = S_LISTENING then reconnect_may_retry fsm
                             else (False, fsm))
        in if change then (reconnect_transition fsm now S_BACKOFF)\<lparr>rc_backoff := 0\<rparr> else fsm
      else fsm)"

definition reconnect_is_enabled :: "reconnect \<Rightarrow> bool" where
  "reconnect_is_enabled fsm \<longleftrightarrow> rc_state fsm \<noteq> S_VOID"

definition reconnect_enable :: "reconnect \<Rightarrow> int \<Rightarrow> reconnect" where
  "reconnect_enable fsm now =
     (if rc_state fsm = S_VOID then
        let (ok, fsm) = reconnect_may_retry fsm
        in if ok then (reconnect_transition fsm now S_BACKOFF)\<lparr>rc_backoff := 0\<rparr> else fsm
      else fsm)"

definition reconnect_disable :: "reconnect \<Rightarrow> int \<Rightarrow> reconnect" where
  "reconnect_disable fsm now =
     (if rc_state fsm \<noteq> S_VOID then reconnect_transition fsm now S_VOID else fsm)"

definition reconnect_force_reconnect :: "reconnect \<Rightarrow> int \<Rightarrow> reconnect" where
  "reconnect_force_reconnect fsm now =
     (if rc_state fsm \<in> {S_CONNECTING, S_ACTIVE, S_IDLE}
      then reconnect_transition fsm now S_RECONNECT else fsm)"

text \<open>The block of \<open>reconnect_disconnected\<close> that chooses the new backoff.\<close>

definition reconnect_back_off :: "reconnect \<Rightarrow> reconnect" where
  "reconnect_back_off fsm =
     fsm\<lparr>rc_backoff :=
       (if rc_state fsm \<in> {S_ACTIVE, S_IDLE}
           \<and> (c_llong (rc_last_activity fsm - rc_last_connected fsm) \<ge> rc_backoff fsm \<or> rc_passive fsm)
        then if rc_passive fsm then 0 else rc_min_backoff fsm
        else if rc_backoff fsm < rc_min_backoff fsm then rc_min_backoff fsm
        else if rc_backoff fsm \<ge> c_div (rc_max_backoff fsm) 2 then rc_max_backoff fsm
        else c_int (rc_backoff fsm * 2))\<rparr>"

text \<open>The error code of a disconnection is only logged.\<close>

definition reconnect_disconnected :: "reconnect \<Rightarrow> int \<Rightarrow> reconnect" where
  "reconnect_disconnected fsm now =
     (if rc_state fsm \<notin> {S_BACKOFF, S_VOID} then
        let fsm = (if rc_state fsm \<in> {S_ACTIVE, S_IDLE} then fsm\<lparr>rc_last_disconnected := now\<rparr> else fsm);
            fsm = reconnect_back_off fsm;
            (ok, fsm) = reconnect_may_retry fsm
        in reconnect_transition fsm now (if ok then S_BACKOFF else S_VOID)
      else fsm)"

definition reconnect_connecting :: "reconnect \<Rightarrow> int \<Rightarrow> reconnect" where
  "reconnect_connecting fsm now =
     (if rc_state fsm \<noteq> S_CONNECTING then reconnect_transition fsm now S_CONNECTING else fsm)"

definition reconnect_listening :: "reconnect \<Rightarrow> int \<Rightarrow> reconnect" where
  "reconnect_listening fsm now =
     (if rc_state fsm \<noteq> S_LISTENING then reconnect_transition fsm now S_LISTENING else fsm)"

definition reconnect_listen_error :: "reconnect \<Rightarrow> int \<Rightarrow> reconnect" where
  "reconnect_listen_error fsm now =
     (if rc_state fsm = S_LISTENING then reconnect_disconnected fsm now else fsm)"

definition reconnect_connected :: "reconnect \<Rightarrow> int \<Rightarrow> reconnect" where
  "reconnect_connected fsm now =
     (if \<not> is_connected_state (rc_state fsm)
      then (reconnect_transition (reconnect_connecting fsm now) now S_ACTIVE)\<lparr>rc_last_connected := now\<rparr>
      else fsm)"

definition reconnect_connect_failed :: "reconnect \<Rightarrow> int \<Rightarrow> reconnect" where
  "reconnect_connect_failed fsm now = reconnect_disconnected (reconnect_connecting fsm now) now"

definition reconnect_activity :: "reconnect \<Rightarrow> int \<Rightarrow> reconnect" where
  "reconnect_activity fsm now =
     (if rc_state fsm \<noteq> S_ACTIVE then reconnect_transition fsm now S_ACTIVE else fsm)
       \<lparr>rc_last_activity := now\<rparr>"

text \<open>None: the assertion at the head of the function fails.\<close>

definition reconnect_deadline :: "reconnect \<Rightarrow> int option" where
  "reconnect_deadline fsm =
     (if rc_state_entered fsm = LLONG_MIN then None
      else Some (case rc_state fsm of
          S_VOID \<Rightarrow> LLONG_MAX
        | S_LISTENING \<Rightarrow> LLONG_MAX
        | S_BACKOFF \<Rightarrow> c_llong (rc_state_entered fsm + rc_backoff fsm)
        | S_CONNECTING \<Rightarrow> c_llong (rc_state_entered fsm + max 1000 (rc_backoff fsm))
        | S_ACTIVE \<Rightarrow>
            (if rc_probe_interval fsm \<noteq> 0
             then c_llong (max (rc_last_activity fsm) (rc_state_entered fsm) + rc_probe_interval fsm)
             else LLONG_MAX)
        | S_IDLE \<Rightarrow>
            (if rc_probe_interval fsm \<noteq> 0
             then c_llong (rc_state_entered fsm + rc_probe_interval fsm)
             else LLONG_MAX)
        | S_RECONNECT \<Rightarrow> rc_state_entered fsm))"

definition reconnect_run :: "reconnect \<Rightarrow> int \<Rightarrow> (reconnect_action option \<times> reconnect) option" where
  "reconnect_run fsm now =
     (case reconnect_deadline fsm of
        None \<Rightarrow> None
      | Some deadline \<Rightarrow> Some
          (if now \<ge> deadline then
             (case rc_state fsm of
                S_VOID \<Rightarrow> (None, fsm)
              | S_BACKOFF \<Rightarrow> (Some RECONNECT_CONNECT, fsm)
              | S_CONNECTING \<Rightarrow> (Some RECONNECT_DISCONNECT, fsm)
              | S_ACTIVE \<Rightarrow> (Some RECONNECT_PROBE, reconnect_transition fsm now S_IDLE)
              | S_IDLE \<Rightarrow> (Some RECONNECT_DISCONNECT, fsm)
              | S_RECONNECT \<Rightarrow> (Some RECONNECT_DISCONNECT, fsm)
              | S_LISTENING \<Rightarrow> (None, fsm))
           else (None, fsm)))"

definition reconnect_timeout :: "reconnect \<Rightarrow> int \<Rightarrow> int option" where
  "reconnect_timeout fsm now =
     (case reconnect_deadline fsm of
        None \<Rightarrow> None
      | Some deadline \<Rightarrow> Some
          (if deadline \<noteq> LLONG_MAX then max 0 (min INT_MAX (c_llong (deadline - now))) else - 1))"

text \<open>The timer that \<open>reconnect_wait\<close> sets, if any.\<close>

definition reconnect_wait :: "reconnect \<Rightarrow> int \<Rightarrow> int option option" where
  "reconnect_wait fsm now =
     (case reconnect_timeout fsm now of
        None \<Rightarrow> None
      | Some timeout \<Rightarrow> Some (if timeout \<ge> 0 then Some timeout else None))"

definition reconnect_is_connected :: "reconnect \<Rightarrow> bool" where
  "reconnect_is_connected fsm = is_connected_state (rc_state fsm)"

definition reconnect_get_last_connect_elapsed :: "reconnect \<Rightarrow> int \<Rightarrow> u32" where
  "reconnect_get_last_connect_elapsed fsm now =
     (if rc_last_connected fsm = LLONG_MAX then UINT_MAX
      else word_of_int (c_llong (now - rc_last_connected fsm)))"

definition reconnect_get_last_disconnect_elapsed :: "reconnect \<Rightarrow> int \<Rightarrow> u32" where
  "reconnect_get_last_disconnect_elapsed fsm now =
     (if rc_last_disconnected fsm = LLONG_MAX then UINT_MAX
      else word_of_int (c_llong (now - rc_last_disconnected fsm)))"

definition reconnect_get_stats :: "reconnect \<Rightarrow> int \<Rightarrow> reconnect_stats" where
  "reconnect_get_stats fsm now =
     \<lparr>rs_creation_time = rc_creation_time fsm, rs_last_activity = rc_last_activity fsm,
      rs_last_connected = rc_last_connected fsm, rs_last_disconnected = rc_last_disconnected fsm,
      rs_backoff = rc_backoff fsm, rs_seqno = rc_seqno fsm,
      rs_is_connected = reconnect_is_connected fsm,
      rs_msec_since_connect = reconnect_get_last_connect_elapsed fsm now,
      rs_msec_since_disconnect = reconnect_get_last_disconnect_elapsed fsm now,
      rs_total_connected_duration = rc_total_connected_duration fsm
        + (if is_connected_state (rc_state fsm) then reconnect_get_last_connect_elapsed fsm now else 0),
      rs_n_attempted_connections = rc_n_attempted_connections fsm,
      rs_n_successful_connections = rc_n_successful_connections fsm,
      rs_state = reconnect_state_name (rc_state fsm),
      rs_state_elapsed = word_of_int (c_llong (now - rc_state_entered fsm))\<rparr>"

section \<open>What a transition changes\<close>

lemma transition_frame [ovs_frame, simp]:
  "rc_state (reconnect_transition fsm now s) = s"
  "rc_state_entered (reconnect_transition fsm now s) = now"
  "rc_min_backoff (reconnect_transition fsm now s) = rc_min_backoff fsm"
  "rc_max_backoff (reconnect_transition fsm now s) = rc_max_backoff fsm"
  "rc_probe_interval (reconnect_transition fsm now s) = rc_probe_interval fsm"
  "rc_passive (reconnect_transition fsm now s) = rc_passive fsm"
  "rc_backoff (reconnect_transition fsm now s) = rc_backoff fsm"
  "rc_last_activity (reconnect_transition fsm now s) = rc_last_activity fsm"
  "rc_last_connected (reconnect_transition fsm now s) = rc_last_connected fsm"
  "rc_max_tries (reconnect_transition fsm now s) = rc_max_tries fsm"
  "rc_seqno (reconnect_transition fsm now s)
     = (if is_connected_state (rc_state fsm) \<noteq> is_connected_state s then rc_seqno fsm + 1 else rc_seqno fsm)"
  by (simp_all add: reconnect_transition_def Let_def)

lemma may_retry_frame [ovs_frame, simp]:
  "rc_state (snd (reconnect_may_retry fsm)) = rc_state fsm"
  "rc_state_entered (snd (reconnect_may_retry fsm)) = rc_state_entered fsm"
  "rc_min_backoff (snd (reconnect_may_retry fsm)) = rc_min_backoff fsm"
  "rc_max_backoff (snd (reconnect_may_retry fsm)) = rc_max_backoff fsm"
  "rc_probe_interval (snd (reconnect_may_retry fsm)) = rc_probe_interval fsm"
  "rc_passive (snd (reconnect_may_retry fsm)) = rc_passive fsm"
  "rc_backoff (snd (reconnect_may_retry fsm)) = rc_backoff fsm"
  "rc_seqno (snd (reconnect_may_retry fsm)) = rc_seqno fsm"
  by (simp_all add: reconnect_may_retry_def Let_def)

text \<open>The backoff after a failure other than the loss of a connection that lasted long enough.\<close>

definition next_backoff :: "int \<Rightarrow> int \<Rightarrow> int \<Rightarrow> int" where
  "next_backoff mn mx b = (if b < mn then mn else if b \<ge> mx div 2 then mx else b * 2)"

text \<open>The fields whose values the operations keep in range.\<close>

definition rc_ranges :: "reconnect \<Rightarrow> bool" where
  "rc_ranges fsm \<longleftrightarrow>
     1000 \<le> rc_min_backoff fsm \<and> rc_min_backoff fsm \<le> rc_max_backoff fsm \<and> rc_max_backoff fsm \<le> INT_MAX \<and>
     0 \<le> rc_backoff fsm \<and> rc_backoff fsm \<le> INT_MAX \<and>
     (rc_probe_interval fsm = 0 \<or> 1000 \<le> rc_probe_interval fsm \<and> rc_probe_interval fsm \<le> INT_MAX)"

lemma back_off_frame [ovs_frame, simp]:
  "rc_state (reconnect_back_off fsm) = rc_state fsm"
  "rc_min_backoff (reconnect_back_off fsm) = rc_min_backoff fsm"
  "rc_max_backoff (reconnect_back_off fsm) = rc_max_backoff fsm"
  "rc_probe_interval (reconnect_back_off fsm) = rc_probe_interval fsm"
  "rc_passive (reconnect_back_off fsm) = rc_passive fsm"
  "rc_max_tries (reconnect_back_off fsm) = rc_max_tries fsm"
  "rc_seqno (reconnect_back_off fsm) = rc_seqno fsm"
  by (simp_all add: reconnect_back_off_def)

lemma back_off_backoff:
  assumes "rc_ranges fsm"
  shows "rc_backoff (reconnect_back_off fsm) =
    (if is_connected_state (rc_state fsm)
        \<and> (c_llong (rc_last_activity fsm - rc_last_connected fsm) \<ge> rc_backoff fsm \<or> rc_passive fsm)
     then if rc_passive fsm then 0 else rc_min_backoff fsm
     else next_backoff (rc_min_backoff fsm) (rc_max_backoff fsm) (rc_backoff fsm))"
  using assms by (auto simp: reconnect_back_off_def next_backoff_def rc_ranges_def c_div_pos is_connected_state_def)

lemma may_retry_fst [simp]: "fst (reconnect_may_retry fsm) \<longleftrightarrow> rc_max_tries fsm > 0"
  by (simp add: reconnect_may_retry_def Let_def)

lemma may_retry_tries:
  "rc_max_tries (snd (reconnect_may_retry fsm))
     = (if rc_max_tries fsm > 0 \<and> rc_max_tries fsm \<noteq> UINT_MAX then rc_max_tries fsm - 1 else rc_max_tries fsm)"
  by (simp add: reconnect_may_retry_def Let_def)

lemma disconnected_frame:
  "rc_min_backoff (reconnect_disconnected fsm now) = rc_min_backoff fsm"
  "rc_max_backoff (reconnect_disconnected fsm now) = rc_max_backoff fsm"
  "rc_probe_interval (reconnect_disconnected fsm now) = rc_probe_interval fsm"
  "rc_passive (reconnect_disconnected fsm now) = rc_passive fsm"
  "rc_state_entered (reconnect_disconnected fsm now)
     = (if rc_state fsm \<in> {S_BACKOFF, S_VOID} then rc_state_entered fsm else now)"
  "rc_state (reconnect_disconnected fsm now) = (if rc_state fsm \<in> {S_BACKOFF, S_VOID} then rc_state fsm
     else if rc_max_tries fsm > 0 then S_BACKOFF else S_VOID)"
  "rc_max_tries (reconnect_disconnected fsm now) = (if rc_state fsm \<in> {S_BACKOFF, S_VOID} then rc_max_tries fsm
     else rc_max_tries (snd (reconnect_may_retry fsm)))"
  by (auto simp: reconnect_disconnected_def Let_def split_beta may_retry_tries)

lemma ranges_updates [simp]:
  "rc_ranges (f\<lparr>rc_info := l\<rparr>) = rc_ranges f" "rc_ranges (f\<lparr>rc_name := s\<rparr>) = rc_ranges f"
  "rc_ranges (f\<lparr>rc_max_tries := m\<rparr>) = rc_ranges f" "rc_ranges (f\<lparr>rc_passive := b\<rparr>) = rc_ranges f"
  "rc_ranges (f\<lparr>rc_last_activity := x\<rparr>) = rc_ranges f" "rc_ranges (f\<lparr>rc_last_connected := x\<rparr>) = rc_ranges f"
  "rc_ranges (f\<lparr>rc_last_disconnected := x\<rparr>) = rc_ranges f"
  "rc_ranges (snd (reconnect_may_retry f)) = rc_ranges f"
  "rc_ranges (reconnect_transition f now st) = rc_ranges f"
  by (simp_all add: rc_ranges_def)

lemma ranges_backoff_0 [simp]: "rc_ranges f \<Longrightarrow> rc_ranges (f\<lparr>rc_backoff := 0\<rparr>)"
  by (simp add: rc_ranges_def)

lemma disconnected_backoff:
  assumes "rc_ranges fsm"
  shows "rc_backoff (reconnect_disconnected fsm now) =
    (if rc_state fsm \<in> {S_BACKOFF, S_VOID} then rc_backoff fsm
     else if is_connected_state (rc_state fsm)
             \<and> (c_llong (rc_last_activity fsm - rc_last_connected fsm) \<ge> rc_backoff fsm \<or> rc_passive fsm)
     then if rc_passive fsm then 0 else rc_min_backoff fsm
     else next_backoff (rc_min_backoff fsm) (rc_max_backoff fsm) (rc_backoff fsm))"
  using assms by (auto simp: reconnect_disconnected_def Let_def split_beta back_off_backoff)

lemma next_backoff_range: "mn \<le> mx \<Longrightarrow> 0 \<le> mn \<Longrightarrow> mn \<le> next_backoff mn mx b \<and> next_backoff mn mx b \<le> mx"
  by (auto simp: next_backoff_def)

section \<open>Sequences of client calls\<close>

datatype rc_op = Set_Quiet bool | Set_Name "string option" | Set_Max_Tries u32 | Set_Backoff int int
  | Set_Probe_Interval int | Set_Passive bool int | Enable int | Disable int | Force_Reconnect int
  | Disconnected int | Connecting int | Listening int | Listen_Error int | Connected int
  | Connect_Failed int | Activity int | Run int

fun rc_exec :: "reconnect \<Rightarrow> rc_op \<Rightarrow> reconnect option" where
  "rc_exec fsm (Set_Quiet q) = Some (reconnect_set_quiet fsm q)"
| "rc_exec fsm (Set_Name s) = Some (reconnect_set_name fsm s)"
| "rc_exec fsm (Set_Max_Tries m) = Some (reconnect_set_max_tries fsm m)"
| "rc_exec fsm (Set_Backoff mn mx) = Some (reconnect_set_backoff fsm mn mx)"
| "rc_exec fsm (Set_Probe_Interval p) = Some (reconnect_set_probe_interval fsm p)"
| "rc_exec fsm (Set_Passive b now) = Some (reconnect_set_passive fsm b now)"
| "rc_exec fsm (Enable now) = Some (reconnect_enable fsm now)"
| "rc_exec fsm (Disable now) = Some (reconnect_disable fsm now)"
| "rc_exec fsm (Force_Reconnect now) = Some (reconnect_force_reconnect fsm now)"
| "rc_exec fsm (Disconnected now) = Some (reconnect_disconnected fsm now)"
| "rc_exec fsm (Connecting now) = Some (reconnect_connecting fsm now)"
| "rc_exec fsm (Listening now) = Some (reconnect_listening fsm now)"
| "rc_exec fsm (Listen_Error now) = Some (reconnect_listen_error fsm now)"
| "rc_exec fsm (Connected now) = Some (reconnect_connected fsm now)"
| "rc_exec fsm (Connect_Failed now) = Some (reconnect_connect_failed fsm now)"
| "rc_exec fsm (Activity now) = Some (reconnect_activity fsm now)"
| "rc_exec fsm (Run now) = map_option snd (reconnect_run fsm now)"

text \<open>Arguments of type int, and no negative maximal backoff.\<close>

fun rc_op_ok :: "rc_op \<Rightarrow> bool" where
  "rc_op_ok (Set_Backoff mn mx) \<longleftrightarrow> mn \<le> INT_MAX \<and> 0 \<le> mx \<and> mx \<le> INT_MAX"
| "rc_op_ok (Set_Probe_Interval p) \<longleftrightarrow> p \<le> INT_MAX"
| "rc_op_ok op \<longleftrightarrow> True"

definition rc_reachable :: "reconnect \<Rightarrow> bool" where
  "rc_reachable = reachable_by (\<lambda>fsm. \<exists>now. fsm = reconnect_create now) (\<lambda>_. rc_op_ok) rc_exec"

lemma disconnected_ranges: "rc_ranges fsm \<Longrightarrow> rc_ranges (reconnect_disconnected fsm now)"
  using next_backoff_range [of "rc_min_backoff fsm" "rc_max_backoff fsm" "rc_backoff fsm"]
  by (auto simp: rc_ranges_def disconnected_frame disconnected_backoff)

lemma connecting_ranges: "rc_ranges fsm \<Longrightarrow> rc_ranges (reconnect_connecting fsm now)"
  by (simp add: rc_ranges_def reconnect_connecting_def)

lemma run_cases:
  "reconnect_run fsm now = Some (a, fsm') \<Longrightarrow>
   fsm' = fsm \<or> rc_state fsm = S_ACTIVE \<and> fsm' = reconnect_transition fsm now S_IDLE"
  by (auto simp: reconnect_run_def split: option.splits if_splits state.splits)

lemma set_backoff_fields:
  "rc_min_backoff (reconnect_set_backoff fsm mn mx) = max mn 1000"
  "rc_max_backoff (reconnect_set_backoff fsm mn mx) = max (max mn 1000) (if mx \<noteq> 0 then max mx 1000 else 8000)"
  "rc_backoff (reconnect_set_backoff fsm mn mx)
     = (if rc_state fsm = S_BACKOFF \<and> rc_backoff fsm > mx then mx else rc_backoff fsm)"
  "rc_probe_interval (reconnect_set_backoff fsm mn mx) = rc_probe_interval fsm"
  "rc_state (reconnect_set_backoff fsm mn mx) = rc_state fsm"
  "rc_max_tries (reconnect_set_backoff fsm mn mx) = rc_max_tries fsm"
  by (simp_all add: reconnect_set_backoff_def Let_def)

lemma exec_ranges [ovs_inv]:
  assumes "rc_ranges fsm" "rc_op_ok op" "rc_exec fsm op = Some fsm'"
  shows "rc_ranges fsm'"
proof (cases op)
  case (Run now)
  then show ?thesis using assms(1,3) run_cases [of fsm now] by auto
next
  case (Set_Backoff mn mx)
  then show ?thesis using assms
    by (auto simp: rc_ranges_def set_backoff_fields)
next
  case (Set_Probe_Interval x)
  then show ?thesis using assms by (auto simp: reconnect_set_probe_interval_def rc_ranges_def)
qed (use assms disconnected_ranges connecting_ranges in
    \<open>auto simp: reconnect_set_quiet_def reconnect_set_name_def reconnect_set_max_tries_def
       reconnect_set_passive_def reconnect_enable_def reconnect_disable_def
       reconnect_force_reconnect_def reconnect_listening_def reconnect_listen_error_def
       reconnect_connected_def reconnect_connect_failed_def reconnect_activity_def Let_def split_beta\<close>)

text \<open>Connections and disconnections are counted in pairs.\<close>

definition rc_parity :: "reconnect \<Rightarrow> bool" where
  "rc_parity fsm \<longleftrightarrow> (is_connected_state (rc_state fsm) \<longleftrightarrow> odd (rc_seqno fsm))"

lemma transition_parity: "rc_parity fsm \<Longrightarrow> rc_parity (reconnect_transition fsm now s)"
  by (auto simp: rc_parity_def)

lemma parity_updates [simp]:
  "rc_parity (f\<lparr>rc_info := l\<rparr>) = rc_parity f" "rc_parity (f\<lparr>rc_name := s\<rparr>) = rc_parity f"
  "rc_parity (f\<lparr>rc_max_tries := m\<rparr>) = rc_parity f" "rc_parity (f\<lparr>rc_probe_interval := x\<rparr>) = rc_parity f"
  "rc_parity (f\<lparr>rc_passive := b\<rparr>) = rc_parity f" "rc_parity (f\<lparr>rc_backoff := x\<rparr>) = rc_parity f"
  "rc_parity (f\<lparr>rc_last_activity := x\<rparr>) = rc_parity f"
  "rc_parity (f\<lparr>rc_last_connected := x\<rparr>) = rc_parity f"
  "rc_parity (f\<lparr>rc_last_disconnected := x\<rparr>) = rc_parity f"
  "rc_parity (f\<lparr>rc_min_backoff := x\<rparr>) = rc_parity f" "rc_parity (f\<lparr>rc_max_backoff := x\<rparr>) = rc_parity f"
  "rc_parity (snd (reconnect_may_retry f)) = rc_parity f" "rc_parity (reconnect_back_off f) = rc_parity f"
  by (simp_all add: rc_parity_def)

lemma disconnected_parity: "rc_parity fsm \<Longrightarrow> rc_parity (reconnect_disconnected fsm now)"
  by (simp add: reconnect_disconnected_def Let_def split_beta transition_parity)

lemma connecting_parity: "rc_parity fsm \<Longrightarrow> rc_parity (reconnect_connecting fsm now)"
  by (simp add: reconnect_connecting_def transition_parity)

lemma set_passive_parity: "rc_parity fsm \<Longrightarrow> rc_parity (reconnect_set_passive fsm b now)"
  by (simp add: reconnect_set_passive_def Let_def split_beta transition_parity)

lemmas rc_parity_intros = transition_parity disconnected_parity connecting_parity set_passive_parity

lemma exec_parity [ovs_inv]:
  assumes "rc_parity fsm" "rc_exec fsm op = Some fsm'"
  shows "rc_parity fsm'"
proof (cases op)
  case (Run now)
  then show ?thesis using assms run_cases [of fsm now] by (auto simp: transition_parity)
qed (use assms in \<open>auto simp: reconnect_set_quiet_def reconnect_set_name_def
       reconnect_set_max_tries_def reconnect_set_probe_interval_def reconnect_disable_def
       reconnect_force_reconnect_def reconnect_listening_def reconnect_listen_error_def
       reconnect_connect_failed_def reconnect_set_backoff_def reconnect_activity_def
       reconnect_enable_def reconnect_connected_def Let_def split_beta rc_parity_intros\<close>)

interpretation reconnect_machine: call_machine "\<lambda>fsm. \<exists>now. fsm = reconnect_create now"
  "\<lambda>_. rc_op_ok" rc_exec "\<lambda>fsm. rc_ranges fsm \<and> rc_parity fsm"
proof
  fix fsm assume "\<exists>now. fsm = reconnect_create now"
  then show "rc_ranges fsm \<and> rc_parity fsm"
    by (auto simp: rc_ranges_def rc_parity_def reconnect_create_def is_connected_state_def)
qed (blast intro: exec_ranges exec_parity)

text \<open>
  Whatever the client calls after \<open>reconnect_create\<close>, and in whatever order, the configured
  backoffs satisfy 1000 \<open>\<le>\<close> minimum \<open>\<le>\<close> maximum, the current backoff is not negative, a probe interval
  is 0 or at least 1000, and the state machine is connected exactly when the number of connections
  and disconnections \<open>seqno\<close> is odd.
\<close>

theorem reconnect_reachable_inv:
  assumes "rc_reachable fsm"
  shows "rc_ranges fsm \<and> (reconnect_is_connected fsm \<longleftrightarrow> odd (rc_seqno fsm))"
  using reconnect_machine.reachable_inv [of fsm] assms
  by (simp add: rc_reachable_def rc_parity_def reconnect_is_connected_def)

theorem reconnect_reachable_inv_witness:
  "reconnect_is_connected (reconnect_connected (reconnect_enable (reconnect_create 0) 5) 10) \<and>
   odd (rc_seqno (reconnect_connected (reconnect_enable (reconnect_create 0) 5) 10))"
proof -
  let ?f = "reconnect_enable (reconnect_create 0) 5"
  have "rc_reachable (reconnect_create 0)" by (auto simp: rc_reachable_def intro: reachable_start)
  then have "rc_reachable ?f"
    unfolding rc_reachable_def by (rule reachable_call [where op = "Enable 5"]) simp_all
  then have "rc_reachable (reconnect_connected ?f 10)"
    unfolding rc_reachable_def by (rule reachable_call [where op = "Connected 10"]) simp_all
  from reconnect_reachable_inv [OF this] show ?thesis
    by (simp add: reconnect_is_connected_def reconnect_connected_def reconnect_connecting_def
        reconnect_enable_def reconnect_create_def reconnect_may_retry_def Let_def is_connected_state_def)
qed

section \<open>Backoff\<close>

lemma connect_failed_backoff:
  assumes "rc_ranges fsm" "rc_max_tries fsm = UINT_MAX"
  shows "rc_backoff (reconnect_connect_failed fsm now)
      = next_backoff (rc_min_backoff fsm) (rc_max_backoff fsm) (rc_backoff fsm)"
    and "rc_state (reconnect_connect_failed fsm now) = S_BACKOFF"
    and "rc_max_tries (reconnect_connect_failed fsm now) = UINT_MAX"
    and "rc_min_backoff (reconnect_connect_failed fsm now) = rc_min_backoff fsm"
    and "rc_max_backoff (reconnect_connect_failed fsm now) = rc_max_backoff fsm"
    and "rc_ranges (reconnect_connect_failed fsm now)"
proof -
  have st: "rc_state (reconnect_connecting fsm now) = S_CONNECTING"
    by (simp add: reconnect_connecting_def)
  have keep: "rc_backoff (reconnect_connecting fsm now) = rc_backoff fsm"
    "rc_min_backoff (reconnect_connecting fsm now) = rc_min_backoff fsm"
    "rc_max_backoff (reconnect_connecting fsm now) = rc_max_backoff fsm"
    "rc_max_tries (reconnect_connecting fsm now) = rc_max_tries fsm"
    by (simp_all add: reconnect_connecting_def)
  note r = connecting_ranges [OF assms(1), of now]
  show "rc_backoff (reconnect_connect_failed fsm now)
      = next_backoff (rc_min_backoff fsm) (rc_max_backoff fsm) (rc_backoff fsm)"
    using disconnected_backoff [OF r] by (simp add: reconnect_connect_failed_def st keep is_connected_state_def)
  show "rc_state (reconnect_connect_failed fsm now) = S_BACKOFF"
    "rc_max_tries (reconnect_connect_failed fsm now) = UINT_MAX"
    using assms(2) st keep(4)
    by (simp_all add: reconnect_connect_failed_def disconnected_frame may_retry_tries)
  show "rc_min_backoff (reconnect_connect_failed fsm now) = rc_min_backoff fsm"
    "rc_max_backoff (reconnect_connect_failed fsm now) = rc_max_backoff fsm"
    "rc_ranges (reconnect_connect_failed fsm now)"
    using disconnected_ranges [OF r] by (simp_all add: reconnect_connect_failed_def disconnected_frame keep)
qed





text \<open>
  \<open>reconnect_set_backoff\<close> documents that a maximal backoff of 0 selects the default. While the
  machine is backing off, however, it compares and assigns the argument and not the value selected,
  so this call reduces the current backoff to 0, below the minimum of 1000 ms, and the next
  \<open>reconnect_run\<close> connects at once.
\<close>

theorem reconnect_set_backoff_default_resets:
  assumes "rc_state fsm = S_BACKOFF" "0 < rc_backoff fsm"
    and "LLONG_MIN < rc_state_entered fsm" "rc_state_entered fsm \<le> now" "now \<le> LLONG_MAX"
    and "fsm' = reconnect_set_backoff fsm mn 0"
  shows "rc_backoff fsm' = 0 \<and> 1000 \<le> rc_min_backoff fsm' \<and> 8000 \<le> rc_max_backoff fsm' \<and>
    reconnect_run fsm' now = Some (Some RECONNECT_CONNECT, fsm')"
  using assms by (auto simp: reconnect_set_backoff_def Let_def reconnect_run_def reconnect_deadline_def)

theorem reconnect_set_backoff_default_resets_witness:
  "rc_backoff (reconnect_connect_failed (reconnect_create 0) 5) = 1000 \<and>
   rc_backoff (reconnect_set_backoff (reconnect_connect_failed (reconnect_create 0) 5) 0 0) = 0"
proof -
  let ?f = "reconnect_connect_failed (reconnect_create 0) 5"
  have c: "rc_ranges (reconnect_create 0)" "rc_max_tries (reconnect_create 0) = UINT_MAX"
    "rc_backoff (reconnect_create 0) = 0" "rc_min_backoff (reconnect_create 0) = 1000"
    by (simp_all add: rc_ranges_def reconnect_create_def)
  have "rc_state_entered ?f = 5"
    by (simp add: reconnect_connect_failed_def reconnect_connecting_def disconnected_frame reconnect_create_def)
  with connect_failed_backoff [OF c(1,2), of 5] c
  have f: "rc_state ?f = S_BACKOFF" "rc_backoff ?f = 1000" "rc_state_entered ?f = 5"
    by (simp_all add: next_backoff_def)
  then show ?thesis
    using reconnect_set_backoff_default_resets [of ?f 5 "reconnect_set_backoff ?f 0 0" 0] by simp
qed

section \<open>Limiting the number of attempts\<close>

text \<open>
  The number of calls in a sequence that start a new backoff period, after which \<open>reconnect_run\<close>
  asks the client to connect. A failed connection attempt may be reported in the backoff state.
\<close>

fun rc_tries :: "reconnect \<Rightarrow> rc_op list \<Rightarrow> nat" where
  "rc_tries fsm [] = 0"
| "rc_tries fsm (op # ops) =
     (case rc_exec fsm op of
        None \<Rightarrow> 0
      | Some fsm' \<Rightarrow>
          (if rc_state fsm' = S_BACKOFF \<and> (rc_state fsm \<noteq> S_BACKOFF \<or> (\<exists>now. op = Connect_Failed now))
           then 1 else 0) + rc_tries fsm' ops)"

fun keeps_tries :: "rc_op \<Rightarrow> bool" where
  "keeps_tries (Set_Max_Tries m) \<longleftrightarrow> False"
| "keeps_tries (Set_Passive b now) \<longleftrightarrow> \<not> b"
| "keeps_tries op \<longleftrightarrow> True"

lemma unat_dec: "0 < (m :: u32) \<Longrightarrow> Suc (unat (m - 1)) = unat m"
  by (simp add: unat_minus_one) (simp add: word_less_nat_alt)

lemma connecting_frame:
  "rc_state (reconnect_connecting fsm now) = S_CONNECTING"
  "rc_max_tries (reconnect_connecting fsm now) = rc_max_tries fsm"
  by (simp_all add: reconnect_connecting_def)

lemma set_active_fields:
  "rc_state (reconnect_set_passive fsm False now)
     = (if rc_passive fsm \<and> rc_state fsm = S_LISTENING \<and> rc_max_tries fsm > 0 then S_BACKOFF else rc_state fsm)"
  "rc_max_tries (reconnect_set_passive fsm False now)
     = (if rc_passive fsm \<and> rc_state fsm = S_LISTENING then rc_max_tries (snd (reconnect_may_retry fsm))
        else rc_max_tries fsm)"
  by (simp_all add: reconnect_set_passive_def Let_def split_beta may_retry_tries)

lemma enable_fields:
  "rc_state (reconnect_enable fsm now)
     = (if rc_state fsm = S_VOID \<and> rc_max_tries fsm > 0 then S_BACKOFF else rc_state fsm)"
  "rc_max_tries (reconnect_enable fsm now)
     = (if rc_state fsm = S_VOID then rc_max_tries (snd (reconnect_may_retry fsm)) else rc_max_tries fsm)"
  by (simp_all add: reconnect_enable_def split_beta may_retry_tries)

lemma exec_tries:
  assumes "rc_exec fsm op = Some fsm'" "keeps_tries op" "rc_max_tries fsm \<noteq> UINT_MAX"
  shows "rc_max_tries fsm' \<noteq> UINT_MAX \<and>
    (if rc_state fsm' = S_BACKOFF \<and> (rc_state fsm \<noteq> S_BACKOFF \<or> (\<exists>now. op = Connect_Failed now))
     then 1 else 0) + unat (rc_max_tries fsm') \<le> unat (rc_max_tries fsm)"
proof -
  have dec: "rc_max_tries (snd (reconnect_may_retry f)) \<noteq> UINT_MAX"
    "0 < rc_max_tries f \<Longrightarrow> Suc (unat (rc_max_tries (snd (reconnect_may_retry f)))) = unat (rc_max_tries f)"
    "unat (rc_max_tries (snd (reconnect_may_retry f))) \<le> unat (rc_max_tries f)"
    if "rc_max_tries f \<noteq> UINT_MAX" for f
  proof -
    show s: "0 < rc_max_tries f \<Longrightarrow> Suc (unat (rc_max_tries (snd (reconnect_may_retry f)))) = unat (rc_max_tries f)"
      using that by (simp add: may_retry_tries unat_dec)
    then show le: "unat (rc_max_tries (snd (reconnect_may_retry f))) \<le> unat (rc_max_tries f)"
      by (cases "0 < rc_max_tries f") (auto simp: may_retry_tries)
    have "unat (rc_max_tries f) < 4294967295"
      using that unat_u32_le [of "rc_max_tries f"] by (simp add: word_unat_eq_iff)
    with le show "rc_max_tries (snd (reconnect_may_retry f)) \<noteq> UINT_MAX" by auto
  qed
  note d = dec [OF assms(3)]
  show ?thesis
  proof (cases op)
    case (Run now)
    then show ?thesis using assms run_cases [of fsm now] by auto
  next
    case (Connect_Failed now)
    have "rc_max_tries (reconnect_connecting fsm now) \<noteq> UINT_MAX" using assms(3) by (simp add: connecting_frame)
    from dec [OF this] show ?thesis using assms Connect_Failed
      by (auto simp: reconnect_connect_failed_def disconnected_frame connecting_frame split: if_splits)
  next
    case (Set_Passive b now)
    with assms(2) have "\<not> b" by simp
    then show ?thesis using assms Set_Passive d by (auto simp: set_active_fields split: if_splits)
  qed (use assms d in \<open>auto simp: reconnect_set_quiet_def reconnect_set_name_def
       reconnect_set_probe_interval_def set_backoff_fields enable_fields
       reconnect_disable_def reconnect_force_reconnect_def reconnect_listening_def
       reconnect_listen_error_def reconnect_connected_def reconnect_activity_def
       connecting_frame disconnected_frame split: if_splits\<close>)
qed

text \<open>
  C6: With a limit on the number of tries, any sequence of calls that neither changes the limit nor
  switches to passive mode starts at most that many backoff periods, so the client is asked to
  connect at most that many times.
\<close>

theorem reconnect_tries_limited:
  assumes "rc_max_tries fsm \<noteq> UINT_MAX" "\<forall>op \<in> set ops. keeps_tries op"
  shows "rc_tries fsm ops \<le> unat (rc_max_tries fsm)"
  using assms
proof (induction ops arbitrary: fsm)
  case (Cons op ops)
  show ?case
  proof (cases "rc_exec fsm op")
    case (Some fsm')
    with exec_tries [OF Some] Cons.prems
    have "rc_max_tries fsm' \<noteq> UINT_MAX" and le: "(if rc_state fsm' = S_BACKOFF \<and> (rc_state fsm \<noteq> S_BACKOFF \<or>
        (\<exists>now. op = Connect_Failed now)) then 1 else 0) + unat (rc_max_tries fsm') \<le> unat (rc_max_tries fsm)"
      by auto
    with Cons have "rc_tries fsm' ops \<le> unat (rc_max_tries fsm')" by simp
    with le Some show ?thesis by simp
  qed simp
qed simp

theorem reconnect_tries_limited_witness:
  "rc_tries (reconnect_set_max_tries (reconnect_create 0) 2)
     [Enable 1, Connect_Failed 2, Connect_Failed 3, Enable 4, Connect_Failed 5] \<le> 2"
  using reconnect_tries_limited [of "reconnect_set_max_tries (reconnect_create 0) 2"
      "[Enable 1, Connect_Failed 2, Connect_Failed 3, Enable 4, Connect_Failed 5]"]
  by (simp add: reconnect_set_max_tries_def del: rc_tries.simps rc_exec.simps)

section \<open>Deadlines\<close>

definition rc_times_ok :: "reconnect \<Rightarrow> bool" where
  "rc_times_ok fsm \<longleftrightarrow> \<bar>rc_state_entered fsm\<bar> \<le> 2 ^ 61 \<and> \<bar>rc_last_activity fsm\<bar> \<le> 2 ^ 61"

lemma run_at_deadline:
  assumes "reconnect_deadline fsm = Some d" "d \<noteq> LLONG_MAX" "d \<le> now"
  shows "\<exists>a fsm'. reconnect_run fsm now = Some (Some a, fsm')"
proof -
  have "rc_state fsm \<noteq> S_VOID" "rc_state fsm \<noteq> S_LISTENING"
    using assms(1,2) by (auto simp: reconnect_deadline_def split: if_splits)
  with assms(1,3) show ?thesis by (cases "rc_state fsm") (auto simp: reconnect_run_def)
qed

lemma run_before_deadline: "reconnect_deadline fsm = Some d \<Longrightarrow> now < d \<Longrightarrow> reconnect_run fsm now = Some (None, fsm)"
  by (simp add: reconnect_run_def)

lemma deadline_range:
  assumes "rc_ranges fsm" "rc_times_ok fsm"
  obtains d where "reconnect_deadline fsm = Some d" "d = LLONG_MAX \<or> \<bar>d\<bar> \<le> 2 ^ 61 + INT_MAX"
proof -
  have "\<exists>d. reconnect_deadline fsm = Some d \<and> (d = LLONG_MAX \<or> \<bar>d\<bar> \<le> 2 ^ 61 + INT_MAX)"
    using assms
    by (cases "rc_state fsm") (auto simp: reconnect_deadline_def rc_ranges_def rc_times_ok_def max_def)
  then show ?thesis using that by blast
qed

text \<open>
  C34: The timeout that \<open>reconnect_timeout\<close> returns is exact. If it is negative, \<open>reconnect_run\<close> has
  nothing to do at any time; otherwise \<open>reconnect_run\<close> does nothing before the timeout and, when the
  timeout is not cut off at the largest int, asks the client to act once it has passed.
\<close>

theorem reconnect_timeout_exact:
  assumes "rc_ranges fsm" "rc_times_ok fsm" "\<bar>now\<bar> \<le> 2 ^ 61"
  shows "\<exists>t. reconnect_timeout fsm now = Some t \<and>
    (t < 0 \<longrightarrow> (\<forall>now' < LLONG_MAX. reconnect_run fsm now' = Some (None, fsm))) \<and>
    (0 \<le> t \<longrightarrow> (\<forall>now' < now + t. t > 0 \<longrightarrow> reconnect_run fsm now' = Some (None, fsm))) \<and>
    (0 \<le> t \<and> t < INT_MAX \<longrightarrow> (\<forall>now' \<ge> now + t. \<exists>a fsm'. reconnect_run fsm now' = Some (Some a, fsm')))"
proof (rule deadline_range [OF assms(1,2)])
  fix d assume d: "reconnect_deadline fsm = Some d" and r: "d = LLONG_MAX \<or> \<bar>d\<bar> \<le> 2 ^ 61 + INT_MAX"
  show ?thesis
  proof (cases "d = LLONG_MAX")
    case True
    then show ?thesis using run_before_deadline [OF d] by (simp add: reconnect_timeout_def d)
  next
    case False
    with r have "\<bar>d\<bar> \<le> 2 ^ 61 + INT_MAX" by simp
    with assms(3) have "c_llong (d - now) = d - now" by (intro c_llong_id) auto
    with False have t: "reconnect_timeout fsm now = Some (max 0 (min INT_MAX (d - now)))"
      by (simp add: reconnect_timeout_def d)
    show ?thesis
      using t run_before_deadline [OF d] run_at_deadline [OF d False] by auto
  qed
qed

theorem reconnect_timeout_exact_witness:
  "reconnect_timeout (reconnect_connect_failed (reconnect_create 0) 5) 105 = Some 900 \<and>
   reconnect_run (reconnect_connect_failed (reconnect_create 0) 5) 1004
     = Some (None, reconnect_connect_failed (reconnect_create 0) 5) \<and>
   (\<exists>a fsm'. reconnect_run (reconnect_connect_failed (reconnect_create 0) 5) 1005 = Some (Some a, fsm'))"
proof -
  let ?f = "reconnect_connect_failed (reconnect_create 0) 5"
  have "rc_ranges ?f" "rc_times_ok ?f" and t: "reconnect_timeout ?f 105 = Some 900" by code_simp+
  from reconnect_timeout_exact [OF this(1,2), of 105] t show ?thesis by auto
qed

text \<open>
  Inactivity probes. An active connection without activity for the probe interval makes
  \<open>reconnect_run\<close> return a probe and go idle, staying connected; if the interval passes again without
  activity, it asks to disconnect; activity instead makes the connection active again and starts
  the interval anew.
\<close>

theorem reconnect_keepalive:
  assumes "rc_ranges fsm" "rc_times_ok fsm" "rc_state fsm = S_ACTIVE" "rc_probe_interval fsm \<noteq> 0"
    and "max (rc_last_activity fsm) (rc_state_entered fsm) + rc_probe_interval fsm \<le> t1" "t1 \<le> 2 ^ 61"
  shows "\<exists>fsm'. reconnect_run fsm t1 = Some (Some RECONNECT_PROBE, fsm') \<and> reconnect_is_connected fsm' \<and>
    rc_seqno fsm' = rc_seqno fsm \<and>
    (\<forall>t2 \<ge> t1 + rc_probe_interval fsm. reconnect_run fsm' t2 = Some (Some RECONNECT_DISCONNECT, fsm')) \<and>
    (\<forall>t2 < t1 + rc_probe_interval fsm. reconnect_run fsm' t2 = Some (None, fsm')) \<and>
    (\<forall>t2. t1 \<le> t2 \<and> t2 \<le> 2 ^ 61 \<longrightarrow>
       reconnect_deadline (reconnect_activity fsm' t2) = Some (t2 + rc_probe_interval fsm) \<and>
       rc_seqno (reconnect_activity fsm' t2) = rc_seqno fsm)"
proof -
  let ?f = "reconnect_transition fsm t1 S_IDLE"
  have p: "1000 \<le> rc_probe_interval fsm" "rc_probe_interval fsm \<le> INT_MAX"
    using assms(1,4) by (auto simp: rc_ranges_def)
  have t: "- (2 ^ 61) \<le> rc_state_entered fsm" "- (2 ^ 61) \<le> rc_last_activity fsm"
    using assms(2) by (auto simp: rc_times_ok_def)
  have "reconnect_run fsm t1 = Some (Some RECONNECT_PROBE, ?f)"
    using assms p t by (simp add: reconnect_run_def reconnect_deadline_def)
  moreover have "reconnect_deadline ?f = Some (t1 + rc_probe_interval fsm)"
    using assms p t by (simp add: reconnect_deadline_def)
  moreover have "reconnect_deadline (reconnect_activity ?f t2) = Some (t2 + rc_probe_interval fsm)"
    if "t1 \<le> t2" "t2 \<le> 2 ^ 61" for t2
    using that assms p t by (simp add: reconnect_deadline_def reconnect_activity_def)
  moreover have "rc_seqno (reconnect_activity ?f t2) = rc_seqno fsm" for t2
    using assms(3) by (simp add: reconnect_activity_def is_connected_state_def)
  ultimately show ?thesis
    using assms(3)
    by (auto simp: reconnect_is_connected_def is_connected_state_def reconnect_run_def)
qed

theorem reconnect_keepalive_witness:
  "\<exists>fsm fsm'. rc_state fsm = S_ACTIVE \<and> reconnect_run fsm 5100 = Some (Some RECONNECT_PROBE, fsm') \<and>
     reconnect_run fsm' 10100 = Some (Some RECONNECT_DISCONNECT, fsm')"
proof -
  let ?f = "reconnect_connected (reconnect_create 0) 100"
  have f: "rc_state ?f = S_ACTIVE" "rc_state_entered ?f = 100" "rc_last_activity ?f = 0"
    "rc_probe_interval ?f = 5000" "rc_ranges ?f"
    by (simp_all add: reconnect_connected_def reconnect_connecting_def reconnect_create_def
        is_connected_state_def rc_ranges_def)
  then have "rc_times_ok ?f" by (simp add: rc_times_ok_def)
  from reconnect_keepalive [OF f(5) this f(1), of 5100] f show ?thesis by auto
qed

text \<open>
  A disabled machine stays disabled: \<open>reconnect_run\<close> never asks for an action, and reporting a
  disconnection, a failure to listen, or forcing a reconnection changes nothing.
\<close>

theorem reconnect_disabled_quiet:
  assumes "rc_state fsm = S_VOID" "LLONG_MIN < rc_state_entered fsm"
  shows "reconnect_run fsm now = Some (None, fsm) \<and> reconnect_disconnected fsm now = fsm \<and>
    reconnect_force_reconnect fsm now = fsm \<and> reconnect_listen_error fsm now = fsm \<and>
    \<not> reconnect_is_enabled fsm"
  using assms by (auto simp: reconnect_run_def reconnect_deadline_def reconnect_disconnected_def
      reconnect_force_reconnect_def reconnect_listen_error_def reconnect_is_enabled_def)

theorem reconnect_disabled_quiet_witness:
  "reconnect_disconnected (reconnect_create 7) 9 = reconnect_create 7 \<and>
   \<not> reconnect_is_enabled (reconnect_disconnected (reconnect_create 7) 9)"
proof -
  have "rc_state (reconnect_create 7) = S_VOID" "LLONG_MIN < rc_state_entered (reconnect_create 7)"
    by (simp_all add: reconnect_create_def)
  from reconnect_disabled_quiet [OF this, of 9] show ?thesis by simp
qed

end
