(* ===== verification/Byte_Order.thy ===== *)
theory Byte_Order
  imports OVS_Prelude
begin

text \<open>
  Fields in network byte order: the bytes that \<open>htons\<close>, \<open>htonl\<close> and \<open>htonll\<close> followed by a store put
  into a packet, and the value that a load followed by \<open>ntohs\<close>, \<open>ntohl\<close> and \<open>ntohll\<close> gets back.
\<close>

fun be_bytes :: "nat \<Rightarrow> 'a::len word \<Rightarrow> u8 list" where
  "be_bytes 0 w = []"
| "be_bytes (Suc k) w = ucast (drop_bit (8 * k) w) # be_bytes k w"

definition of_be :: "u8 list \<Rightarrow> 'a::len word" where
  "of_be bs = foldl (\<lambda>w b. push_bit 8 w OR ucast b) 0 bs"

lemma length_be_bytes [simp]: "length (be_bytes k w) = k"
  by (induction k) simp_all

lemma foldl_be_bytes:
  "8 * k \<le> LENGTH('a) \<Longrightarrow>
   foldl (\<lambda>w b. push_bit 8 w OR ucast b) a (be_bytes k (w :: 'a::len word)) = push_bit (8 * k) a OR take_bit (8 * k) w"
proof (induction k arbitrary: a)
  case (Suc k)
  have "push_bit (8 * k) (push_bit 8 a OR ucast (ucast (drop_bit (8 * k) w) :: u8)) OR take_bit (8 * k) w
      = push_bit (8 * Suc k) a OR take_bit (8 * Suc k) w"
  proof (rule bit_word_eqI)
    fix n assume n: "n < LENGTH('a)"
    show "bit (push_bit (8 * k) (push_bit 8 a OR ucast (ucast (drop_bit (8 * k) w) :: u8)) OR take_bit (8 * k) w) n
      = bit (push_bit (8 * Suc k) a OR take_bit (8 * Suc k) w) n"
      using n Suc.prems by (auto simp: bit_simps add.commute)
  qed
  with Suc show ?case by simp
qed simp

theorem of_be_bytes [simp]:
  assumes "8 * k = LENGTH('a)"
  shows "of_be (be_bytes k (w :: 'a::len word)) = w"
  using foldl_be_bytes [of k 0 w] assms by (simp add: of_be_def)

text \<open>A field of \<open>k\<close> bytes at an offset of a packet.\<close>

definition be_field :: "nat \<Rightarrow> nat \<Rightarrow> u8 list \<Rightarrow> 'a::len word" where
  "be_field off k bs = of_be (take k (drop off bs))"

end
