(* ===== verification/Stp.thy ===== *)
theory Stp
  imports Byte_Order
begin

text \<open>
  The spanning tree protocol of lib/stp.c (IEEE 802.1D-1998). A pointer to a port is its index in
  the array of ports. The callback \<open>send_bpdu\<close> is modelled by the log \<open>st_sent\<close> of the packets
  passed to it, and \<open>seq_change\<close> on the connectivity sequence number by the counter
  \<open>st_connectivity\<close>. The mutex, held by every public function, and log messages are left out.
  Fields of type int are integers, with the wrap-around of C written out where they are computed;
  where C compares an int with an unsigned int, the int is converted.
\<close>

section \<open>Data\<close>

type_synonym stp_identifier = u64

datatype stp_state = STP_DISABLED | STP_LISTENING | STP_LEARNING | STP_FORWARDING | STP_BLOCKING

datatype stp_role = STP_ROLE_ROOT | STP_ROLE_DESIGNATED | STP_ROLE_ALTERNATE | STP_ROLE_DISABLED

record stp_timer =
  tm_active :: bool
  tm_value :: int

record stp_config_bpdu =
  cb_protocol_id :: u16
  cb_protocol_version :: u8
  cb_bpdu_type :: u8
  cb_flags :: u8
  cb_root_id :: u64
  cb_root_path_cost :: u32
  cb_bridge_id :: u64
  cb_port_id :: u16
  cb_message_age :: u16
  cb_max_age :: u16
  cb_hello_time :: u16
  cb_forward_delay :: u16

record stp_port =
  sp_port_name :: "string option"
  sp_aux :: "nat option"
  sp_port_id :: int
  sp_state :: stp_state
  sp_path_cost :: int
  sp_designated_root :: stp_identifier
  sp_designated_cost :: int
  sp_designated_bridge :: stp_identifier
  sp_designated_port :: int
  sp_topology_change_ack :: bool
  sp_config_pending :: bool
  sp_change_detection_enabled :: bool
  sp_message_age_timer :: stp_timer
  sp_forward_delay_timer :: stp_timer
  sp_hold_timer :: stp_timer
  sp_tx_count :: int
  sp_rx_count :: int
  sp_error_count :: int
  sp_state_changed :: bool

record stp =
  st_name :: string
  st_bridge_id :: stp_identifier
  st_max_age :: int
  st_hello_time :: int
  st_forward_delay :: int
  st_bridge_max_age :: int
  st_bridge_hello_time :: int
  st_bridge_forward_delay :: int
  st_rq_max_age :: int
  st_rq_hello_time :: int
  st_rq_forward_delay :: int
  st_elapsed_remainder :: int
  st_designated_root :: stp_identifier
  st_root_path_cost :: u32
  st_root_port :: "nat option"
  st_topology_change_detected :: bool
  st_topology_change :: bool
  st_hello_timer :: stp_timer
  st_tcn_timer :: stp_timer
  st_topology_change_timer :: stp_timer
  st_ports :: "stp_port list"
  st_fdb_needs_flush :: bool
  st_first_changed_port :: nat
  st_ref_cnt :: nat
  st_sent :: "(nat \<times> u8 list) list"
  st_connectivity :: nat

abbreviation STP_MAX_PORTS :: nat where "STP_MAX_PORTS \<equiv> 255"
abbreviation STP_TYPE_CONFIG :: u8 where "STP_TYPE_CONFIG \<equiv> 0x00"
abbreviation STP_TYPE_TCN :: u8 where "STP_TYPE_TCN \<equiv> 0x80"
abbreviation STP_CONFIG_TOPOLOGY_CHANGE_ACK :: u8 where "STP_CONFIG_TOPOLOGY_CHANGE_ACK \<equiv> 0x80"
abbreviation STP_CONFIG_TOPOLOGY_CHANGE :: u8 where "STP_CONFIG_TOPOLOGY_CHANGE \<equiv> 0x01"

abbreviation port :: "stp \<Rightarrow> nat \<Rightarrow> stp_port" where
  "port s i \<equiv> st_ports s ! i"

definition upd_port :: "nat \<Rightarrow> (stp_port \<Rightarrow> stp_port) \<Rightarrow> stp \<Rightarrow> stp" where
  "upd_port i f s = s\<lparr>st_ports := (st_ports s)[i := f (port s i)]\<rparr>"

definition seq_change :: "stp \<Rightarrow> stp" where
  "seq_change s = s\<lparr>st_connectivity := st_connectivity s + 1\<rparr>"

text \<open>
  \<open>FOR_EACH_ENABLED_PORT\<close>: \<open>stp_next_enabled_port\<close> tests the state of a port when the iteration reaches
  it.
\<close>

definition for_each_enabled_port :: "(nat \<Rightarrow> stp \<Rightarrow> stp) \<Rightarrow> stp \<Rightarrow> stp" where
  "for_each_enabled_port body s =
     fold (\<lambda>i s. if sp_state (port s i) \<noteq> STP_DISABLED then body i s else s) [0 ..< length (st_ports s)] s"

section \<open>Timers\<close>

definition stp_start_timer :: "int \<Rightarrow> stp_timer" where
  "stp_start_timer v = \<lparr>tm_active = True, tm_value = v\<rparr>"

definition stp_stop_timer :: "stp_timer \<Rightarrow> stp_timer" where
  "stp_stop_timer t = t\<lparr>tm_active := False\<rparr>"

definition stp_timer_expired :: "stp_timer \<Rightarrow> int \<Rightarrow> int \<Rightarrow> bool \<times> stp_timer" where
  "stp_timer_expired t elapsed timeout =
     (if tm_active t then
        let t = t\<lparr>tm_value := c_int (tm_value t + elapsed)\<rparr>
        in if tm_value t \<ge> timeout then (True, t\<lparr>tm_active := False\<rparr>) else (False, t)
      else (False, t))"

definition ms_to_timer :: "int \<Rightarrow> int" where
  "ms_to_timer ms = c_div (c_int (ms * 0x100)) 1000"

definition timer_to_ms :: "int \<Rightarrow> int" where
  "timer_to_ms t = c_div (c_int (t * 1000)) 0x100"

definition clamp :: "int \<Rightarrow> int \<Rightarrow> int \<Rightarrow> int" where
  "clamp x mn mx = (if x < mn then mn else if x > mx then mx else x)"

section \<open>Packets\<close>

definition encode_config :: "stp_config_bpdu \<Rightarrow> u8 list" where
  "encode_config c =
     be_bytes 2 (cb_protocol_id c) @ [cb_protocol_version c, cb_bpdu_type c, cb_flags c]
     @ be_bytes 8 (cb_root_id c) @ be_bytes 4 (cb_root_path_cost c) @ be_bytes 8 (cb_bridge_id c)
     @ be_bytes 2 (cb_port_id c) @ be_bytes 2 (cb_message_age c) @ be_bytes 2 (cb_max_age c)
     @ be_bytes 2 (cb_hello_time c) @ be_bytes 2 (cb_forward_delay c)"

definition decode_config :: "u8 list \<Rightarrow> stp_config_bpdu" where
  "decode_config bs =
     \<lparr>cb_protocol_id = be_field 0 2 bs, cb_protocol_version = bs ! 2, cb_bpdu_type = bs ! 3,
      cb_flags = bs ! 4, cb_root_id = be_field 5 8 bs, cb_root_path_cost = be_field 13 4 bs,
      cb_bridge_id = be_field 17 8 bs, cb_port_id = be_field 25 2 bs,
      cb_message_age = be_field 27 2 bs, cb_max_age = be_field 29 2 bs,
      cb_hello_time = be_field 31 2 bs, cb_forward_delay = be_field 33 2 bs\<rparr>"

text \<open>The 802.3 and LLC headers put around a BPDU; the callback fills in the source address.\<close>

definition stp_frame :: "u8 list \<Rightarrow> u8 list" where
  "stp_frame bpdu =
     [0x01, 0x80, 0xC2, 0x00, 0x00, 0x00] @ replicate 6 0 @ be_bytes 2 (of_nat (3 + length bpdu) :: u16)
     @ [0x42, 0x42, 0x03] @ bpdu"

definition stp_send_bpdu :: "nat \<Rightarrow> u8 list \<Rightarrow> stp \<Rightarrow> stp" where
  "stp_send_bpdu i bpdu s =
     upd_port i (\<lambda>p. p\<lparr>sp_tx_count := c_int (sp_tx_count p + 1)\<rparr>)
       (s\<lparr>st_sent := st_sent s @ [(i, stp_frame bpdu)]\<rparr>)"

section \<open>Sending configuration messages\<close>

definition stp_is_root_bridge :: "stp \<Rightarrow> bool" where
  "stp_is_root_bridge s \<longleftrightarrow> st_bridge_id s = st_designated_root s"

definition stp_is_designated_port :: "stp \<Rightarrow> stp_port \<Rightarrow> bool" where
  "stp_is_designated_port s p \<longleftrightarrow>
     sp_designated_bridge p = st_bridge_id s \<and> sp_designated_port p = sp_port_id p"

text \<open>The message that \<open>stp_transmit_config\<close> builds for port \<open>p\<close>.\<close>

definition config_message :: "stp \<Rightarrow> stp_port \<Rightarrow> stp_config_bpdu" where
  "config_message s p =
     \<lparr>cb_protocol_id = 0, cb_protocol_version = 0, cb_bpdu_type = STP_TYPE_CONFIG,
      cb_flags = (if sp_topology_change_ack p then STP_CONFIG_TOPOLOGY_CHANGE_ACK else 0)
        OR (if st_topology_change s then STP_CONFIG_TOPOLOGY_CHANGE else 0),
      cb_root_id = st_designated_root s, cb_root_path_cost = st_root_path_cost s,
      cb_bridge_id = st_bridge_id s, cb_port_id = word_of_int (sp_port_id p),
      cb_message_age =
        (case st_root_port s of
           Some r \<Rightarrow> if stp_is_root_bridge s then 0
             else word_of_int (tm_value (sp_message_age_timer (port s r)) + 1)
         | None \<Rightarrow> 0),
      cb_max_age = word_of_int (st_max_age s), cb_hello_time = word_of_int (st_hello_time s),
      cb_forward_delay = word_of_int (st_forward_delay s)\<rparr>"

definition stp_transmit_config :: "nat \<Rightarrow> stp \<Rightarrow> stp" where
  "stp_transmit_config i s =
     (if \<not> stp_is_root_bridge s \<and> st_root_port s = None then s
      else if tm_active (sp_hold_timer (port s i))
      then upd_port i (\<lambda>p. p\<lparr>sp_config_pending := True\<rparr>) s
      else let config = config_message s (port s i)
           in if uint (cb_message_age config) < st_max_age s
              then let s = upd_port i (\<lambda>p. p\<lparr>sp_topology_change_ack := False, sp_config_pending := False\<rparr>) s;
                       s = stp_send_bpdu i (encode_config config) s
                   in upd_port i (\<lambda>p. p\<lparr>sp_hold_timer := stp_start_timer 0\<rparr>) s
              else s)"

definition stp_config_bpdu_generation :: "stp \<Rightarrow> stp" where
  "stp_config_bpdu_generation s =
     for_each_enabled_port
       (\<lambda>i s. if stp_is_designated_port s (port s i) then stp_transmit_config i s else s) s"

definition stp_transmit_tcn :: "stp \<Rightarrow> stp" where
  "stp_transmit_tcn s =
     (case st_root_port s of
        None \<Rightarrow> s
      | Some r \<Rightarrow> stp_send_bpdu r (be_bytes 2 (0 :: u16) @ [0, STP_TYPE_TCN]) s)"

section \<open>The spanning tree computation\<close>

definition stp_supersedes_port_info :: "stp \<Rightarrow> stp_port \<Rightarrow> stp_config_bpdu \<Rightarrow> bool" where
  "stp_supersedes_port_info s p config =
     (if cb_root_id config \<noteq> sp_designated_root p then cb_root_id config < sp_designated_root p
      else if cb_root_path_cost config \<noteq> word_of_int (sp_designated_cost p)
      then cb_root_path_cost config < word_of_int (sp_designated_cost p)
      else if cb_bridge_id config \<noteq> sp_designated_bridge p
      then cb_bridge_id config < sp_designated_bridge p
      else cb_bridge_id config \<noteq> st_bridge_id s \<or> uint (cb_port_id config) \<le> sp_designated_port p)"

definition stp_record_config_information :: "stp_config_bpdu \<Rightarrow> stp_port \<Rightarrow> stp_port" where
  "stp_record_config_information config p =
     p\<lparr>sp_designated_root := cb_root_id config, sp_designated_cost := sint (cb_root_path_cost config),
       sp_designated_bridge := cb_bridge_id config, sp_designated_port := uint (cb_port_id config),
       sp_message_age_timer := stp_start_timer (uint (cb_message_age config))\<rparr>"

definition stp_record_config_timeout_values :: "stp_config_bpdu \<Rightarrow> stp \<Rightarrow> stp" where
  "stp_record_config_timeout_values config s =
     s\<lparr>st_max_age := uint (cb_max_age config), st_hello_time := uint (cb_hello_time config),
       st_forward_delay := uint (cb_forward_delay config),
       st_topology_change := cb_flags config AND STP_CONFIG_TOPOLOGY_CHANGE \<noteq> 0\<rparr>"

definition stp_supersedes_root :: "stp_port \<Rightarrow> stp_port \<Rightarrow> bool" where
  "stp_supersedes_root root p =
     (let p_cost = c_int (sp_designated_cost p + sp_path_cost p);
          root_cost = c_int (sp_designated_cost root + sp_path_cost root)
      in if sp_designated_root p \<noteq> sp_designated_root root
         then sp_designated_root p < sp_designated_root root
         else if p_cost \<noteq> root_cost then p_cost < root_cost
         else if sp_designated_bridge p \<noteq> sp_designated_bridge root
         then sp_designated_bridge p < sp_designated_bridge root
         else if sp_designated_port p \<noteq> sp_designated_port root
         then sp_designated_port p < sp_designated_port root
         else sp_port_id p < sp_port_id root)"

text \<open>The body of the loop of \<open>stp_root_selection\<close>, with the port found so far.\<close>

definition root_selection_step :: "stp \<Rightarrow> nat \<Rightarrow> nat option \<Rightarrow> nat option" where
  "root_selection_step s i root =
     (let p = port s i
      in if sp_state p = STP_DISABLED then root
         else if stp_is_designated_port s p \<or> sp_designated_root p \<ge> st_bridge_id s then root
         else case root of
                Some r \<Rightarrow> if \<not> stp_supersedes_root (port s r) p then root else Some i
              | None \<Rightarrow> Some i)"

definition stp_root_selection :: "stp \<Rightarrow> stp" where
  "stp_root_selection s =
     (let root = fold (root_selection_step s) [0 ..< length (st_ports s)] None;
          s = s\<lparr>st_root_port := root\<rparr>
      in case root of
           None \<Rightarrow> s\<lparr>st_designated_root := st_bridge_id s, st_root_path_cost := 0\<rparr>
         | Some r \<Rightarrow> s\<lparr>st_designated_root := sp_designated_root (port s r),
             st_root_path_cost := word_of_int (c_int (sp_designated_cost (port s r) + sp_path_cost (port s r)))\<rparr>)"

definition stp_become_designated_port :: "nat \<Rightarrow> stp \<Rightarrow> stp" where
  "stp_become_designated_port i s =
     upd_port i (\<lambda>p. p\<lparr>sp_designated_root := st_designated_root s,
                        sp_designated_cost := sint (st_root_path_cost s),
                        sp_designated_bridge := st_bridge_id s,
                        sp_designated_port := sp_port_id p\<rparr>) s"

definition stp_designated_port_selection :: "stp \<Rightarrow> stp" where
  "stp_designated_port_selection s =
     for_each_enabled_port
       (\<lambda>i s. let p = port s i in
          if stp_is_designated_port s p
             \<or> sp_designated_root p \<noteq> st_designated_root s
             \<or> st_root_path_cost s < word_of_int (sp_designated_cost p)
             \<or> (st_root_path_cost s = word_of_int (sp_designated_cost p)
                \<and> (st_bridge_id s < sp_designated_bridge p
                   \<or> (st_bridge_id s = sp_designated_bridge p
                      \<and> sp_port_id p \<le> sp_designated_port p)))
          then stp_become_designated_port i s else s) s"

definition stp_configuration_update :: "stp \<Rightarrow> stp" where
  "stp_configuration_update s = seq_change (stp_designated_port_selection (stp_root_selection s))"

section \<open>Port states\<close>

definition stp_set_port_state :: "nat \<Rightarrow> stp_state \<Rightarrow> stp \<Rightarrow> stp" where
  "stp_set_port_state i st s =
     (let s = (if st \<noteq> sp_state (port s i) \<and> \<not> sp_state_changed (port s i) then
                 let s = upd_port i (\<lambda>p. p\<lparr>sp_state_changed := True\<rparr>) s;
                     s = (if i < st_first_changed_port s then s\<lparr>st_first_changed_port := i\<rparr> else s)
                 in seq_change s
               else s)
      in upd_port i (\<lambda>p. p\<lparr>sp_state := st\<rparr>) s)"

definition stp_topology_change_detection :: "stp \<Rightarrow> stp" where
  "stp_topology_change_detection s =
     (let s = (if stp_is_root_bridge s
               then s\<lparr>st_topology_change := True, st_topology_change_timer := stp_start_timer 0\<rparr>
               else if \<not> st_topology_change_detected s
               then (stp_transmit_tcn s)\<lparr>st_tcn_timer := stp_start_timer 0\<rparr>
               else s)
      in seq_change (s\<lparr>st_fdb_needs_flush := True, st_topology_change_detected := True\<rparr>))"

definition stp_make_forwarding :: "nat \<Rightarrow> stp \<Rightarrow> stp" where
  "stp_make_forwarding i s =
     (if sp_state (port s i) = STP_BLOCKING
      then upd_port i (\<lambda>p. p\<lparr>sp_forward_delay_timer := stp_start_timer 0\<rparr>)
             (stp_set_port_state i STP_LISTENING s)
      else s)"

definition stp_make_blocking :: "nat \<Rightarrow> stp \<Rightarrow> stp" where
  "stp_make_blocking i s =
     (if sp_state (port s i) \<notin> {STP_DISABLED, STP_BLOCKING} then
        let s = (if sp_state (port s i) \<in> {STP_FORWARDING, STP_LEARNING}
                    \<and> sp_change_detection_enabled (port s i)
                 then stp_topology_change_detection s else s)
        in upd_port i (\<lambda>p. p\<lparr>sp_forward_delay_timer := stp_stop_timer (sp_forward_delay_timer p)\<rparr>)
             (stp_set_port_state i STP_BLOCKING s)
      else s)"

definition state_selection_step :: "nat \<Rightarrow> stp \<Rightarrow> stp" where
  "state_selection_step i s =
     (if st_root_port s = Some i
      then stp_make_forwarding i
             (upd_port i (\<lambda>p. p\<lparr>sp_config_pending := False, sp_topology_change_ack := False\<rparr>) s)
      else if stp_is_designated_port s (port s i)
      then stp_make_forwarding i
             (upd_port i (\<lambda>p. p\<lparr>sp_message_age_timer := stp_stop_timer (sp_message_age_timer p)\<rparr>) s)
      else stp_make_blocking i
             (upd_port i (\<lambda>p. p\<lparr>sp_config_pending := False, sp_topology_change_ack := False\<rparr>) s))"

definition stp_port_state_selection :: "stp \<Rightarrow> stp" where
  "stp_port_state_selection s = for_each_enabled_port state_selection_step s"

definition stp_become_root_bridge :: "stp \<Rightarrow> stp" where
  "stp_become_root_bridge s =
     (let s = s\<lparr>st_max_age := st_bridge_max_age s, st_hello_time := st_bridge_hello_time s,
                st_forward_delay := st_bridge_forward_delay s\<rparr>;
          s = stp_topology_change_detection s;
          s = s\<lparr>st_tcn_timer := stp_stop_timer (st_tcn_timer s)\<rparr>;
          s = stp_config_bpdu_generation s
      in s\<lparr>st_hello_timer := stp_start_timer 0\<rparr>)"

section \<open>Received messages\<close>

definition stp_topology_change_acknowledged :: "stp \<Rightarrow> stp" where
  "stp_topology_change_acknowledged s =
     s\<lparr>st_topology_change_detected := False, st_tcn_timer := stp_stop_timer (st_tcn_timer s)\<rparr>"

definition stp_acknowledge_topology_change :: "nat \<Rightarrow> stp \<Rightarrow> stp" where
  "stp_acknowledge_topology_change i s =
     stp_transmit_config i (upd_port i (\<lambda>p. p\<lparr>sp_topology_change_ack := True\<rparr>) s)"

definition stp_received_config_bpdu :: "nat \<Rightarrow> stp_config_bpdu \<Rightarrow> stp \<Rightarrow> stp" where
  "stp_received_config_bpdu i config s =
     (if cb_message_age config \<ge> cb_max_age config then s
      else if sp_state (port s i) \<noteq> STP_DISABLED then
        let root = stp_is_root_bridge s in
        if stp_supersedes_port_info s (port s i) config then
          let s = upd_port i (stp_record_config_information config) s;
              s = stp_configuration_update s;
              s = stp_port_state_selection s;
              s = (if \<not> stp_is_root_bridge s \<and> root then
                     let s = s\<lparr>st_hello_timer := stp_stop_timer (st_hello_timer s)\<rparr>
                     in if st_topology_change_detected s then
                          let s = s\<lparr>st_topology_change_timer := stp_stop_timer (st_topology_change_timer s)\<rparr>;
                              s = stp_transmit_tcn s
                          in s\<lparr>st_tcn_timer := stp_start_timer 0\<rparr>
                        else s
                   else s)
          in if st_root_port s = Some i then
               let s = stp_record_config_timeout_values config s;
                   s = stp_config_bpdu_generation s;
                   s = (if cb_flags config AND STP_CONFIG_TOPOLOGY_CHANGE_ACK \<noteq> 0
                        then stp_topology_change_acknowledged s else s)
               in if cb_flags config AND STP_CONFIG_TOPOLOGY_CHANGE \<noteq> 0
                  then s\<lparr>st_fdb_needs_flush := True\<rparr> else s
             else s
        else if stp_is_designated_port s (port s i) then stp_transmit_config i s
        else s
      else s)"

definition stp_received_tcn_bpdu :: "nat \<Rightarrow> stp \<Rightarrow> stp" where
  "stp_received_tcn_bpdu i s =
     (if sp_state (port s i) \<noteq> STP_DISABLED \<and> stp_is_designated_port s (port s i)
      then stp_acknowledge_topology_change i (stp_topology_change_detection s)
      else s)"

definition stp_bpdu_error :: "nat \<Rightarrow> stp \<Rightarrow> stp" where
  "stp_bpdu_error i s = upd_port i (\<lambda>p. p\<lparr>sp_error_count := c_int (sp_error_count p + 1)\<rparr>) s"

definition stp_count_rx :: "nat \<Rightarrow> stp \<Rightarrow> stp" where
  "stp_count_rx i s = upd_port i (\<lambda>p. p\<lparr>sp_rx_count := c_int (sp_rx_count p + 1)\<rparr>) s"

definition stp_received_bpdu :: "nat \<Rightarrow> u8 list \<Rightarrow> stp \<Rightarrow> stp" where
  "stp_received_bpdu i bpdu s =
     (if sp_state (port s i) = STP_DISABLED then s
      else if length bpdu < 4 then stp_bpdu_error i s
      else if (be_field 0 2 bpdu :: u16) \<noteq> 0 then stp_bpdu_error i s
      else if bpdu ! 3 = STP_TYPE_CONFIG then
        if length bpdu < 35 then stp_bpdu_error i s
        else stp_count_rx i (stp_received_config_bpdu i (decode_config bpdu) s)
      else if bpdu ! 3 = STP_TYPE_TCN then
        if length bpdu \<noteq> 4 then stp_bpdu_error i s
        else stp_count_rx i (stp_received_tcn_bpdu i s)
      else stp_bpdu_error i s)"

section \<open>Timer expiry\<close>

definition stp_hello_timer_expiry :: "stp \<Rightarrow> stp" where
  "stp_hello_timer_expiry s =
     (stp_config_bpdu_generation s)\<lparr>st_hello_timer := stp_start_timer 0\<rparr>"

text \<open>The block run when the expiry makes this bridge the root repeats \<open>stp_become_root_bridge\<close>.\<close>

definition stp_message_age_timer_expiry :: "nat \<Rightarrow> stp \<Rightarrow> stp" where
  "stp_message_age_timer_expiry i s =
     (let root = stp_is_root_bridge s;
          s = stp_become_designated_port i s;
          s = stp_configuration_update s;
          s = stp_port_state_selection s
      in if stp_is_root_bridge s \<and> \<not> root then stp_become_root_bridge s else s)"

definition stp_is_designated_for_some_port :: "stp \<Rightarrow> bool" where
  "stp_is_designated_for_some_port s \<longleftrightarrow>
     (\<exists>p \<in> set (st_ports s). sp_state p \<noteq> STP_DISABLED \<and> sp_designated_bridge p = st_bridge_id s)"

definition stp_forward_delay_timer_expiry :: "nat \<Rightarrow> stp \<Rightarrow> stp" where
  "stp_forward_delay_timer_expiry i s =
     (if sp_state (port s i) = STP_LISTENING
      then upd_port i (\<lambda>p. p\<lparr>sp_forward_delay_timer := stp_start_timer 0\<rparr>)
             (stp_set_port_state i STP_LEARNING s)
      else if sp_state (port s i) = STP_LEARNING then
        let s = stp_set_port_state i STP_FORWARDING s
        in if stp_is_designated_for_some_port s \<and> sp_change_detection_enabled (port s i)
           then stp_topology_change_detection s else s
      else s)"

definition stp_tcn_timer_expiry :: "stp \<Rightarrow> stp" where
  "stp_tcn_timer_expiry s = (stp_transmit_tcn s)\<lparr>st_tcn_timer := stp_start_timer 0\<rparr>"

definition stp_topology_change_timer_expiry :: "stp \<Rightarrow> stp" where
  "stp_topology_change_timer_expiry s =
     s\<lparr>st_topology_change_detected := False, st_topology_change := False\<rparr>"

definition stp_hold_timer_expiry :: "nat \<Rightarrow> stp \<Rightarrow> stp" where
  "stp_hold_timer_expiry i s = (if sp_config_pending (port s i) then stp_transmit_config i s else s)"

text \<open>The number of ticks in a call of \<open>stp_tick\<close> and the milliseconds left over for the next one.\<close>

definition tick_elapsed :: "int \<Rightarrow> int \<Rightarrow> int \<times> int" where
  "tick_elapsed remainder ms =
     (let ms = c_int (clamp ms 0 (INT_MAX - 1000) + remainder);
          elapsed = ms_to_timer ms
      in (elapsed, c_int (ms - timer_to_ms elapsed)))"

definition tick_hello :: "int \<Rightarrow> stp \<Rightarrow> stp" where
  "tick_hello elapsed s =
     (let (e, t) = stp_timer_expired (st_hello_timer s) elapsed (st_hello_time s);
          s = s\<lparr>st_hello_timer := t\<rparr>
      in if e then stp_hello_timer_expiry s else s)"

definition tick_tcn :: "int \<Rightarrow> stp \<Rightarrow> stp" where
  "tick_tcn elapsed s =
     (let (e, t) = stp_timer_expired (st_tcn_timer s) elapsed (st_bridge_hello_time s);
          s = s\<lparr>st_tcn_timer := t\<rparr>
      in if e then stp_tcn_timer_expiry s else s)"

definition tick_topology_change :: "int \<Rightarrow> stp \<Rightarrow> stp" where
  "tick_topology_change elapsed s =
     (let (e, t) = stp_timer_expired (st_topology_change_timer s) elapsed
                     (c_int (st_max_age s + st_forward_delay s));
          s = s\<lparr>st_topology_change_timer := t\<rparr>
      in if e then stp_topology_change_timer_expiry s else s)"

definition tick_message_age :: "int \<Rightarrow> nat \<Rightarrow> stp \<Rightarrow> stp" where
  "tick_message_age elapsed i s =
     (let (e, t) = stp_timer_expired (sp_message_age_timer (port s i)) elapsed (st_max_age s);
          s = upd_port i (\<lambda>p. p\<lparr>sp_message_age_timer := t\<rparr>) s
      in if e then stp_message_age_timer_expiry i s else s)"

definition tick_forward_delay :: "int \<Rightarrow> nat \<Rightarrow> stp \<Rightarrow> stp" where
  "tick_forward_delay elapsed i s =
     (let (e, t) = stp_timer_expired (sp_forward_delay_timer (port s i)) elapsed (st_forward_delay s);
          s = upd_port i (\<lambda>p. p\<lparr>sp_forward_delay_timer := t\<rparr>) s
      in if e then stp_forward_delay_timer_expiry i s else s)"

definition tick_hold :: "int \<Rightarrow> nat \<Rightarrow> stp \<Rightarrow> stp" where
  "tick_hold elapsed i s =
     (let (e, t) = stp_timer_expired (sp_hold_timer (port s i)) elapsed (ms_to_timer 1000);
          s = upd_port i (\<lambda>p. p\<lparr>sp_hold_timer := t\<rparr>) s
      in if e then stp_hold_timer_expiry i s else s)"

definition stp_tick :: "stp \<Rightarrow> int \<Rightarrow> stp" where
  "stp_tick s ms =
     (let (elapsed, remainder) = tick_elapsed (st_elapsed_remainder s) ms;
          s = s\<lparr>st_elapsed_remainder := remainder\<rparr>
      in if elapsed = 0 then s
         else
           let s = tick_topology_change elapsed (tick_tcn elapsed (tick_hello elapsed s));
               s = for_each_enabled_port (tick_message_age elapsed) s
           in for_each_enabled_port (\<lambda>i s. tick_hold elapsed i (tick_forward_delay elapsed i s)) s)"

section \<open>Configuration\<close>

definition stp_update_bridge_timers :: "stp \<Rightarrow> stp" where
  "stp_update_bridge_timers s =
     (let ht = clamp (st_rq_hello_time s) 1000 10000;
          ma = clamp (st_rq_max_age s) (max (2 * (ht + 1000)) 6000) 40000;
          fd = clamp (st_rq_forward_delay s) (c_div ma 2 + 1000) 30000;
          s = s\<lparr>st_bridge_hello_time := ms_to_timer ht, st_bridge_max_age := ms_to_timer ma,
                st_bridge_forward_delay := ms_to_timer fd\<rparr>
      in if stp_is_root_bridge s
         then s\<lparr>st_max_age := st_bridge_max_age s, st_hello_time := st_bridge_hello_time s,
                st_forward_delay := st_bridge_forward_delay s\<rparr>
         else s)"

text \<open>
  The assertion that the state is disabled or blocking holds at both calls. \<open>fresh\<close> is the test
  \<open>!p->state\<close>, which is true only while \<open>stp_create\<close> fills in the zeroed array.
\<close>

definition stp_initialize_port :: "bool \<Rightarrow> nat \<Rightarrow> stp_state \<Rightarrow> stp \<Rightarrow> stp" where
  "stp_initialize_port fresh i st s =
     (let s = stp_become_designated_port i s;
          s = (if fresh \<and> st = STP_DISABLED then upd_port i (\<lambda>p. p\<lparr>sp_state := st\<rparr>) s
               else stp_set_port_state i st s)
      in upd_port i (\<lambda>p. p\<lparr>sp_topology_change_ack := False, sp_config_pending := False,
           sp_change_detection_enabled := True, sp_aux := None,
           sp_message_age_timer := stp_stop_timer (sp_message_age_timer p),
           sp_forward_delay_timer := stp_stop_timer (sp_forward_delay_timer p),
           sp_hold_timer := stp_stop_timer (sp_hold_timer p),
           sp_tx_count := 0, sp_rx_count := 0, sp_error_count := 0\<rparr>) s)"

text \<open>What \<open>xzalloc\<close> returns; the state of a zeroed port is none of the enumeration's values.\<close>

definition zero_timer :: stp_timer where
  "zero_timer = \<lparr>tm_active = False, tm_value = 0\<rparr>"

definition zero_port :: stp_port where
  "zero_port = \<lparr>sp_port_name = None, sp_aux = None, sp_port_id = 0, sp_state = STP_DISABLED,
     sp_path_cost = 0, sp_designated_root = 0, sp_designated_cost = 0, sp_designated_bridge = 0,
     sp_designated_port = 0, sp_topology_change_ack = False, sp_config_pending = False,
     sp_change_detection_enabled = False, sp_message_age_timer = zero_timer,
     sp_forward_delay_timer = zero_timer, sp_hold_timer = zero_timer, sp_tx_count = 0,
     sp_rx_count = 0, sp_error_count = 0, sp_state_changed = False\<rparr>"

definition zero_stp :: stp where
  "zero_stp = \<lparr>st_name = [], st_bridge_id = 0, st_max_age = 0, st_hello_time = 0,
     st_forward_delay = 0, st_bridge_max_age = 0, st_bridge_hello_time = 0,
     st_bridge_forward_delay = 0, st_rq_max_age = 0, st_rq_hello_time = 0, st_rq_forward_delay = 0,
     st_elapsed_remainder = 0, st_designated_root = 0, st_root_path_cost = 0, st_root_port = None,
     st_topology_change_detected = False, st_topology_change = False, st_hello_timer = zero_timer,
     st_tcn_timer = zero_timer, st_topology_change_timer = zero_timer,
     st_ports = replicate STP_MAX_PORTS zero_port, st_fdb_needs_flush = False,
     st_first_changed_port = 0, st_ref_cnt = 0, st_sent = [], st_connectivity = 0\<rparr>"

definition create_port :: "nat \<Rightarrow> stp \<Rightarrow> stp" where
  "create_port i s =
     stp_initialize_port True i STP_DISABLED
       (upd_port i (\<lambda>p. p\<lparr>sp_port_id := int (i + 1) OR push_bit 8 128, sp_path_cost := 19\<rparr>) s)"

text \<open>The bridge before its ports are initialised.\<close>

definition create_bridge :: "string \<Rightarrow> stp_identifier \<Rightarrow> stp" where
  "create_bridge name bridge_id =
     (let bridge_id = (if drop_bit 48 bridge_id = 0 then bridge_id OR push_bit 48 32768 else bridge_id);
          s = stp_update_bridge_timers
                (zero_stp\<lparr>st_name := name, st_bridge_id := bridge_id, st_rq_max_age := 20000,
                   st_rq_hello_time := 2000, st_rq_forward_delay := 15000\<rparr>)
      in s\<lparr>st_max_age := st_bridge_max_age s, st_hello_time := st_bridge_hello_time s,
           st_forward_delay := st_bridge_forward_delay s,
           st_designated_root := st_bridge_id s, st_root_path_cost := 0, st_root_port := None,
           st_topology_change_detected := False, st_topology_change := False,
           st_tcn_timer := stp_stop_timer (st_tcn_timer s),
           st_topology_change_timer := stp_stop_timer (st_topology_change_timer s),
           st_hello_timer := stp_start_timer 0,
           st_first_changed_port := length (st_ports s)\<rparr>)"

definition stp_create :: "string \<Rightarrow> stp_identifier \<Rightarrow> stp" where
  "stp_create name bridge_id =
     (let s = create_bridge name bridge_id
      in (fold create_port [0 ..< length (st_ports s)] s)\<lparr>st_ref_cnt := 1\<rparr>)"

definition stp_ref :: "stp \<Rightarrow> stp" where
  "stp_ref s = s\<lparr>st_ref_cnt := st_ref_cnt s + 1\<rparr>"

text \<open>None: the last reference is dropped and the object freed.\<close>

definition stp_unref :: "stp \<Rightarrow> stp option" where
  "stp_unref s = (if st_ref_cnt s = 1 then None else Some (s\<lparr>st_ref_cnt := st_ref_cnt s - 1\<rparr>))"

definition set_bridge_id :: "stp_identifier \<Rightarrow> stp \<Rightarrow> stp" where
  "set_bridge_id new_bridge_id s =
     (if new_bridge_id \<noteq> st_bridge_id s then
        let root = stp_is_root_bridge s;
            s = for_each_enabled_port
                  (\<lambda>i s. if stp_is_designated_port s (port s i)
                         then upd_port i (\<lambda>p. p\<lparr>sp_designated_bridge := new_bridge_id\<rparr>) s else s) s;
            s = s\<lparr>st_bridge_id := new_bridge_id\<rparr>;
            s = stp_configuration_update s;
            s = stp_port_state_selection s
        in if stp_is_root_bridge s \<and> \<not> root then stp_become_root_bridge s else s
      else s)"

definition stp_set_bridge_id :: "stp \<Rightarrow> stp_identifier \<Rightarrow> stp" where
  "stp_set_bridge_id s bridge_id =
     (let mac_bits = push_bit 48 1 - 1; pri_bits = NOT mac_bits
      in set_bridge_id ((st_bridge_id s AND pri_bits) OR (bridge_id AND mac_bits)) s)"

definition stp_set_bridge_priority :: "stp \<Rightarrow> u16 \<Rightarrow> stp" where
  "stp_set_bridge_priority s new_priority =
     (let mac_bits = push_bit 48 1 - 1
      in set_bridge_id ((st_bridge_id s AND mac_bits) OR push_bit 48 (ucast new_priority)) s)"

definition stp_set_hello_time :: "stp \<Rightarrow> int \<Rightarrow> stp" where
  "stp_set_hello_time s ms = stp_update_bridge_timers (s\<lparr>st_rq_hello_time := ms\<rparr>)"

definition stp_set_max_age :: "stp \<Rightarrow> int \<Rightarrow> stp" where
  "stp_set_max_age s ms = stp_update_bridge_timers (s\<lparr>st_rq_max_age := ms\<rparr>)"

definition stp_set_forward_delay :: "stp \<Rightarrow> int \<Rightarrow> stp" where
  "stp_set_forward_delay s ms = stp_update_bridge_timers (s\<lparr>st_rq_forward_delay := ms\<rparr>)"

definition stp_port_disable :: "nat \<Rightarrow> stp \<Rightarrow> stp" where
  "stp_port_disable i s =
     (if sp_state (port s i) \<noteq> STP_DISABLED then
        let root = stp_is_root_bridge s;
            s = stp_become_designated_port i s;
            s = stp_set_port_state i STP_DISABLED s;
            s = upd_port i (\<lambda>p. p\<lparr>sp_topology_change_ack := False, sp_config_pending := False,
                  sp_message_age_timer := stp_stop_timer (sp_message_age_timer p),
                  sp_forward_delay_timer := stp_stop_timer (sp_forward_delay_timer p)\<rparr>) s;
            s = stp_configuration_update s;
            s = stp_port_state_selection s;
            s = (if stp_is_root_bridge s \<and> \<not> root then stp_become_root_bridge s else s)
        in upd_port i (\<lambda>p. p\<lparr>sp_aux := None\<rparr>) s
      else s)"

definition stp_port_enable :: "nat \<Rightarrow> stp \<Rightarrow> stp" where
  "stp_port_enable i s =
     (if sp_state (port s i) = STP_DISABLED
      then stp_port_state_selection (stp_initialize_port False i STP_BLOCKING s)
      else s)"

definition stp_port_set_priority :: "nat \<Rightarrow> u8 \<Rightarrow> stp \<Rightarrow> stp" where
  "stp_port_set_priority i new_priority s =
     (let new_port_id = uint (word_of_int ((sp_port_id (port s i) AND 0xff)
            OR push_bit 8 (uint new_priority)) :: u16)
      in if sp_port_id (port s i) \<noteq> new_port_id then
           let s = (if stp_is_designated_port s (port s i)
                    then upd_port i (\<lambda>p. p\<lparr>sp_designated_port := new_port_id\<rparr>) s else s);
               s = upd_port i (\<lambda>p. p\<lparr>sp_port_id := new_port_id\<rparr>) s
           in if st_bridge_id s = sp_designated_bridge (port s i)
                 \<and> sp_port_id (port s i) < sp_designated_port (port s i)
              then stp_port_state_selection (stp_become_designated_port i s)
              else s
         else s)"

definition stp_convert_speed_to_cost :: "u32 \<Rightarrow> u16" where
  "stp_convert_speed_to_cost speed =
     (if speed \<ge> 10000 then 2 else if speed \<ge> 1000 then 4 else if speed \<ge> 100 then 19
      else if speed \<ge> 16 then 62 else if speed \<ge> 10 then 100 else if speed \<ge> 4 then 250 else 19)"

definition stp_port_set_path_cost :: "nat \<Rightarrow> u16 \<Rightarrow> stp \<Rightarrow> stp" where
  "stp_port_set_path_cost i path_cost s =
     (if sp_path_cost (port s i) \<noteq> uint path_cost
      then stp_port_state_selection (stp_configuration_update
             (upd_port i (\<lambda>p. p\<lparr>sp_path_cost := uint path_cost\<rparr>) s))
      else s)"

definition stp_port_set_speed :: "nat \<Rightarrow> u32 \<Rightarrow> stp \<Rightarrow> stp" where
  "stp_port_set_speed i speed s = stp_port_set_path_cost i (stp_convert_speed_to_cost speed) s"

definition stp_port_enable_change_detection :: "nat \<Rightarrow> stp \<Rightarrow> stp" where
  "stp_port_enable_change_detection i s = upd_port i (\<lambda>p. p\<lparr>sp_change_detection_enabled := True\<rparr>) s"

definition stp_port_disable_change_detection :: "nat \<Rightarrow> stp \<Rightarrow> stp" where
  "stp_port_disable_change_detection i s = upd_port i (\<lambda>p. p\<lparr>sp_change_detection_enabled := False\<rparr>) s"

definition stp_port_set_name :: "nat \<Rightarrow> string \<Rightarrow> stp \<Rightarrow> stp" where
  "stp_port_set_name i name s = upd_port i (\<lambda>p. p\<lparr>sp_port_name := Some name\<rparr>) s"

definition stp_port_set_aux :: "nat \<Rightarrow> nat option \<Rightarrow> stp \<Rightarrow> stp" where
  "stp_port_set_aux i aux s = upd_port i (\<lambda>p. p\<lparr>sp_aux := aux\<rparr>) s"

definition stp_check_and_reset_fdb_flush :: "stp \<Rightarrow> bool \<times> stp" where
  "stp_check_and_reset_fdb_flush s = (st_fdb_needs_flush s, s\<lparr>st_fdb_needs_flush := False\<rparr>)"

definition stp_get_changed_port :: "stp \<Rightarrow> nat option \<times> stp" where
  "stp_get_changed_port s =
     (let end = length (st_ports s)
      in case find (\<lambda>i. sp_state_changed (port s i)) [st_first_changed_port s ..< end] of
           Some i \<Rightarrow> (Some i, upd_port i (\<lambda>p. p\<lparr>sp_state_changed := False\<rparr>) s\<lparr>st_first_changed_port := i + 1\<rparr>)
         | None \<Rightarrow> (None, s\<lparr>st_first_changed_port := end\<rparr>))"

section \<open>Queries\<close>

definition stp_get_name :: "stp \<Rightarrow> string" where
  "stp_get_name s = st_name s"

definition stp_get_bridge_id :: "stp \<Rightarrow> stp_identifier" where
  "stp_get_bridge_id s = st_bridge_id s"

definition stp_get_designated_root :: "stp \<Rightarrow> stp_identifier" where
  "stp_get_designated_root s = st_designated_root s"

definition stp_get_root_path_cost :: "stp \<Rightarrow> int" where
  "stp_get_root_path_cost s = sint (st_root_path_cost s)"

definition stp_get_hello_time :: "stp \<Rightarrow> int" where
  "stp_get_hello_time s = timer_to_ms (st_bridge_hello_time s)"

definition stp_get_max_age :: "stp \<Rightarrow> int" where
  "stp_get_max_age s = timer_to_ms (st_bridge_max_age s)"

definition stp_get_forward_delay :: "stp \<Rightarrow> int" where
  "stp_get_forward_delay s = timer_to_ms (st_bridge_forward_delay s)"

text \<open>None: the assertion on the port number fails.\<close>

definition stp_get_port :: "stp \<Rightarrow> int \<Rightarrow> nat option" where
  "stp_get_port s port_no =
     (if port_no \<ge> 0 \<and> port_no < int (length (st_ports s)) then Some (nat port_no) else None)"

definition stp_get_root_port :: "stp \<Rightarrow> nat option" where
  "stp_get_root_port s = st_root_port s"

fun stp_state_name :: "stp_state \<Rightarrow> string" where
  "stp_state_name STP_DISABLED = ''disabled''"
| "stp_state_name STP_LISTENING = ''listening''"
| "stp_state_name STP_LEARNING = ''learning''"
| "stp_state_name STP_FORWARDING = ''forwarding''"
| "stp_state_name STP_BLOCKING = ''blocking''"

definition stp_forward_in_state :: "stp_state \<Rightarrow> bool" where
  "stp_forward_in_state st \<longleftrightarrow> st = STP_FORWARDING"

definition stp_learn_in_state :: "stp_state \<Rightarrow> bool" where
  "stp_learn_in_state st \<longleftrightarrow> st \<in> {STP_LEARNING, STP_FORWARDING}"

definition stp_should_forward_bpdu :: "stp_state \<Rightarrow> bool" where
  "stp_should_forward_bpdu st \<longleftrightarrow> st \<in> {STP_DISABLED, STP_LISTENING, STP_LEARNING, STP_FORWARDING}"

fun stp_role_name :: "stp_role \<Rightarrow> string" where
  "stp_role_name STP_ROLE_ROOT = ''root''"
| "stp_role_name STP_ROLE_DESIGNATED = ''designated''"
| "stp_role_name STP_ROLE_ALTERNATE = ''alternate''"
| "stp_role_name STP_ROLE_DISABLED = ''disabled''"

definition stp_port_get_aux :: "stp \<Rightarrow> nat \<Rightarrow> nat option" where
  "stp_port_get_aux s i = sp_aux (port s i)"

definition stp_port_get_id :: "stp \<Rightarrow> nat \<Rightarrow> int" where
  "stp_port_get_id s i = sp_port_id (port s i)"

definition stp_port_get_state :: "stp \<Rightarrow> nat \<Rightarrow> stp_state" where
  "stp_port_get_state s i = sp_state (port s i)"

definition stp_port_get_role :: "stp \<Rightarrow> nat \<Rightarrow> stp_role" where
  "stp_port_get_role s i =
     (if (case st_root_port s of Some r \<Rightarrow> sp_port_id (port s r) = sp_port_id (port s i) | None \<Rightarrow> False)
      then STP_ROLE_ROOT
      else if stp_is_designated_port s (port s i) then STP_ROLE_DESIGNATED
      else if sp_state (port s i) = STP_DISABLED then STP_ROLE_DISABLED
      else STP_ROLE_ALTERNATE)"

definition stp_port_get_counts :: "stp \<Rightarrow> nat \<Rightarrow> int \<times> int \<times> int" where
  "stp_port_get_counts s i =
     (sp_tx_count (port s i), sp_rx_count (port s i), sp_error_count (port s i))"

text \<open>The unixctl command stp/tcn on the list of all instances; None: no such instance.\<close>

definition stp_find :: "string \<Rightarrow> stp list \<Rightarrow> nat option" where
  "stp_find name stps = find (\<lambda>i. st_name (stps ! i) = name) [0 ..< length stps]"

definition stp_unixctl_tcn :: "string option \<Rightarrow> stp list \<Rightarrow> stp list option" where
  "stp_unixctl_tcn arg stps =
     (case arg of
        None \<Rightarrow> Some (map stp_topology_change_detection stps)
      | Some name \<Rightarrow>
          (case stp_find name stps of
             None \<Rightarrow> None
           | Some i \<Rightarrow> Some (stps[i := stp_topology_change_detection (stps ! i)])))"

end
