(* ===== verification/Stp_Core.thy ===== *)
theory Stp_Core
  imports Stp
begin

text \<open>
  What the operations of the spanning tree protocol leave alone. The core of a port and of a bridge
  are the fields that decide the tree: identifiers, designated values, port states and the record of
  state changes. Sending messages and detecting topology changes do not touch the core; the
  tree computation and the state selection are described by their effect on it.
\<close>

section \<open>Loops over the enabled ports\<close>

lemma fold_upt_inv:
  assumes "Q 0 s" "\<And>i s. i < n \<Longrightarrow> Q i s \<Longrightarrow> Q (Suc i) (f i s)"
  shows "Q n (fold f [0 ..< n] s)"
proof -
  have "Q m (fold f [0 ..< m] s)" if "m \<le> n" for m
    using that by (induction m) (auto simp: assms)
  then show ?thesis by simp
qed

lemma for_each_inv:
  assumes "Q 0 s"
    and "\<And>i s'. i < length (st_ports s) \<Longrightarrow> Q i s' \<Longrightarrow> sp_state (port s' i) \<noteq> STP_DISABLED \<Longrightarrow> Q (Suc i) (body i s')"
    and "\<And>i s'. i < length (st_ports s) \<Longrightarrow> Q i s' \<Longrightarrow> sp_state (port s' i) = STP_DISABLED \<Longrightarrow> Q (Suc i) s'"
  shows "Q (length (st_ports s)) (for_each_enabled_port body s)"
  unfolding for_each_enabled_port_def
  by (rule fold_upt_inv [where Q = Q]) (use assms in auto)

lemma for_each_keeps:
  assumes "P s" "\<And>i s'. i < length (st_ports s) \<Longrightarrow> P s' \<Longrightarrow> P (body i s')"
  shows "P (for_each_enabled_port body s)"
  using for_each_inv [where Q = "\<lambda>_. P"] assms by blast

section \<open>The core\<close>

definition port_core :: "stp_port \<Rightarrow> int \<times> stp_state \<times> int \<times> u64 \<times> int \<times> u64 \<times> int \<times> bool" where
  "port_core p = (sp_port_id p, sp_state p, sp_path_cost p, sp_designated_root p, sp_designated_cost p,
     sp_designated_bridge p, sp_designated_port p, sp_state_changed p)"

definition stp_core :: "stp \<Rightarrow> u64 \<times> u64 \<times> u32 \<times> nat option \<times> nat \<times>
    (int \<times> stp_state \<times> int \<times> u64 \<times> int \<times> u64 \<times> int \<times> bool) list" where
  "stp_core s = (st_bridge_id s, st_designated_root s, st_root_path_cost s, st_root_port s,
     st_first_changed_port s, map port_core (st_ports s))"

lemma stp_core_fields:
  assumes "stp_core s' = stp_core s"
  shows "st_bridge_id s' = st_bridge_id s" "st_designated_root s' = st_designated_root s"
    "st_root_path_cost s' = st_root_path_cost s" "st_root_port s' = st_root_port s"
    "st_first_changed_port s' = st_first_changed_port s" "length (st_ports s') = length (st_ports s)"
  using assms map_eq_imp_length_eq [of port_core "st_ports s'" port_core "st_ports s"]
  by (auto simp: stp_core_def)

lemma stp_core_port:
  assumes "stp_core s' = stp_core s" "i < length (st_ports s)"
  shows "port_core (port s' i) = port_core (port s i)"
proof -
  have "map port_core (st_ports s') ! i = map port_core (st_ports s) ! i"
    using assms(1) by (simp add: stp_core_def)
  with assms(2) stp_core_fields(6) [OF assms(1)] show ?thesis by simp
qed

lemma length_upd_port [simp]: "length (st_ports (upd_port i f s)) = length (st_ports s)"
  by (simp add: upd_port_def)

lemma port_upd_port [simp]:
  "i < length (st_ports s) \<Longrightarrow> port (upd_port i f s) i = f (port s i)"
  "i \<noteq> j \<Longrightarrow> port (upd_port i f s) j = port s j"
  by (simp_all add: upd_port_def)

lemma upd_port_frame [simp]:
  "st_bridge_id (upd_port i f s) = st_bridge_id s"
  "st_designated_root (upd_port i f s) = st_designated_root s"
  "st_root_path_cost (upd_port i f s) = st_root_path_cost s"
  "st_root_port (upd_port i f s) = st_root_port s"
  "st_first_changed_port (upd_port i f s) = st_first_changed_port s"
  "st_sent (upd_port i f s) = st_sent s"
  "st_max_age (upd_port i f s) = st_max_age s"
  by (simp_all add: upd_port_def)

lemma core_upd_port:
  assumes "\<And>p. port_core (f p) = port_core p"
  shows "stp_core (upd_port i f s) = stp_core s"
  using assms
  by (cases "i < length (st_ports s)")
     (simp_all add: stp_core_def upd_port_def map_update list_update_same_conv list_update_beyond)

lemma core_seq_change [simp]: "stp_core (seq_change s) = stp_core s"
  by (simp add: stp_core_def seq_change_def)

lemma core_sent [simp]: "stp_core (s\<lparr>st_sent := x\<rparr>) = stp_core s"
  by (simp add: stp_core_def)

lemma core_send_bpdu [simp]: "stp_core (stp_send_bpdu i bpdu s) = stp_core s"
  by (simp add: stp_send_bpdu_def core_upd_port port_core_def)

lemma core_bridge_updates [simp]:
  "stp_core (s\<lparr>st_tcn_timer := t\<rparr>) = stp_core s" "stp_core (s\<lparr>st_hello_timer := t\<rparr>) = stp_core s"
  "stp_core (s\<lparr>st_topology_change_timer := t\<rparr>) = stp_core s"
  "stp_core (s\<lparr>st_topology_change := b\<rparr>) = stp_core s"
  "stp_core (s\<lparr>st_topology_change_detected := b\<rparr>) = stp_core s"
  "stp_core (s\<lparr>st_fdb_needs_flush := b\<rparr>) = stp_core s"
  "stp_core (s\<lparr>st_max_age := x\<rparr>) = stp_core s" "stp_core (s\<lparr>st_hello_time := x\<rparr>) = stp_core s"
  "stp_core (s\<lparr>st_forward_delay := x\<rparr>) = stp_core s"
  "stp_core (s\<lparr>st_bridge_max_age := x\<rparr>) = stp_core s" "stp_core (s\<lparr>st_bridge_hello_time := x\<rparr>) = stp_core s"
  "stp_core (s\<lparr>st_bridge_forward_delay := x\<rparr>) = stp_core s"
  "stp_core (s\<lparr>st_rq_max_age := x\<rparr>) = stp_core s" "stp_core (s\<lparr>st_rq_hello_time := x\<rparr>) = stp_core s"
  "stp_core (s\<lparr>st_rq_forward_delay := x\<rparr>) = stp_core s"
  "stp_core (s\<lparr>st_elapsed_remainder := x\<rparr>) = stp_core s" "stp_core (s\<lparr>st_ref_cnt := n\<rparr>) = stp_core s"
  by (simp_all add: stp_core_def)

lemma core_for_each:
  assumes "\<And>i s'. stp_core (body i s') = stp_core s'"
  shows "stp_core (for_each_enabled_port body s) = stp_core s"
  by (rule for_each_keeps [where P = "\<lambda>s'. stp_core s' = stp_core s"]) (simp_all add: assms)

subsection \<open>Sending messages\<close>

lemma core_transmit_config [simp]: "stp_core (stp_transmit_config i s) = stp_core s"
  by (simp add: stp_transmit_config_def Let_def core_upd_port port_core_def)

lemma core_config_bpdu_generation [simp]: "stp_core (stp_config_bpdu_generation s) = stp_core s"
  by (simp add: stp_config_bpdu_generation_def core_for_each)

lemma core_transmit_tcn [simp]: "stp_core (stp_transmit_tcn s) = stp_core s"
  by (simp add: stp_transmit_tcn_def split: option.split)

lemma core_topology_change_detection [simp]: "stp_core (stp_topology_change_detection s) = stp_core s"
  by (simp add: stp_topology_change_detection_def Let_def)

lemma core_become_root_bridge [simp]: "stp_core (stp_become_root_bridge s) = stp_core s"
  by (simp add: stp_become_root_bridge_def Let_def)

lemma core_acknowledge [simp]:
  "stp_core (stp_topology_change_acknowledged s) = stp_core s"
  "stp_core (stp_acknowledge_topology_change i s) = stp_core s"
  by (simp_all add: stp_topology_change_acknowledged_def stp_acknowledge_topology_change_def
      core_upd_port port_core_def)

lemma core_record_timeout [simp]: "stp_core (stp_record_config_timeout_values config s) = stp_core s"
  by (simp add: stp_record_config_timeout_values_def)

lemma core_update_bridge_timers [simp]: "stp_core (stp_update_bridge_timers s) = stp_core s"
  by (simp add: stp_update_bridge_timers_def Let_def)

lemma core_counts [simp]: "stp_core (stp_bpdu_error i s) = stp_core s" "stp_core (stp_count_rx i s) = stp_core s"
  by (simp_all add: stp_bpdu_error_def stp_count_rx_def core_upd_port port_core_def)

lemma core_received_tcn [simp]: "stp_core (stp_received_tcn_bpdu i s) = stp_core s"
  by (simp add: stp_received_tcn_bpdu_def)

lemma core_bridge_ticks [simp]:
  "stp_core (tick_hello e s) = stp_core s" "stp_core (tick_tcn e s) = stp_core s"
  "stp_core (tick_topology_change e s) = stp_core s" "stp_core (tick_hold e i s) = stp_core s"
  by (simp_all add: tick_hello_def tick_tcn_def tick_topology_change_def tick_hold_def split_beta Let_def
      stp_hello_timer_expiry_def stp_tcn_timer_expiry_def stp_topology_change_timer_expiry_def
      stp_hold_timer_expiry_def core_upd_port port_core_def)

end
