(* ===== verification/Stp_Tree.thy ===== *)
theory Stp_Tree
  imports Stp_Core "HOL-Library.Product_Lexorder"
begin

text \<open>
  The spanning tree computation: the choice of the root port, the designated ports and the port
  states, and the invariants that every operation of the protocol keeps.
\<close>

section \<open>Root selection\<close>

text \<open>A port through which a better root than this bridge can be reached.\<close>

definition root_candidate :: "stp \<Rightarrow> nat \<Rightarrow> bool" where
  "root_candidate s i \<longleftrightarrow> i < length (st_ports s) \<and> sp_state (port s i) \<noteq> STP_DISABLED \<and>
     \<not> stp_is_designated_port s (port s i) \<and> sp_designated_root (port s i) < st_bridge_id s"

text \<open>The priority vector of IEEE 802.1D 8.6.8.3.1 by which ports are compared.\<close>

definition port_vector :: "stp_port \<Rightarrow> u64 \<times> int \<times> u64 \<times> int \<times> int" where
  "port_vector p = (sp_designated_root p, c_int (sp_designated_cost p + sp_path_cost p),
     sp_designated_bridge p, sp_designated_port p, sp_port_id p)"

lemma supersedes_root_iff: "stp_supersedes_root root p \<longleftrightarrow> port_vector p < port_vector root"
  by (auto simp: stp_supersedes_root_def port_vector_def Let_def less_prod_def')

definition root_found :: "stp \<Rightarrow> nat \<Rightarrow> nat option \<Rightarrow> bool" where
  "root_found s n root =
     (case root of
        None \<Rightarrow> \<forall>i < n. \<not> root_candidate s i
      | Some r \<Rightarrow> r < n \<and> root_candidate s r \<and>
          (\<forall>i < n. root_candidate s i \<longrightarrow> port_vector (port s r) \<le> port_vector (port s i)))"

lemma root_selection_step_found:
  assumes "i < length (st_ports s)" "root_found s i root"
  shows "root_found s (Suc i) (root_selection_step s i root)"
proof (cases "root_candidate s i")
  case False
  then have "root_selection_step s i root = root"
    using assms(1) by (auto simp: root_selection_step_def root_candidate_def Let_def)
  with False assms(2) show ?thesis
    by (auto simp: root_found_def less_Suc_eq split: option.splits)
next
  case True
  then have "root_selection_step s i root
      = (case root of Some r \<Rightarrow> if \<not> stp_supersedes_root (port s r) (port s i) then root else Some i
         | None \<Rightarrow> Some i)"
    by (auto simp: root_selection_step_def root_candidate_def Let_def)
  with True assms(2) show ?thesis
    by (auto simp: root_found_def less_Suc_eq supersedes_root_iff not_less split: option.splits
        intro: less_imp_le order_trans)
qed

lemma root_selection_found:
  "root_found s (length (st_ports s)) (st_root_port (stp_root_selection s))"
proof -
  have "root_found s (length (st_ports s)) (fold (root_selection_step s) [0 ..< length (st_ports s)] None)"
    by (rule fold_upt_inv [where Q = "root_found s"]) (auto simp: root_selection_step_found, simp add: root_found_def)
  then show ?thesis by (auto simp: stp_root_selection_def Let_def split: option.split)
qed

lemma root_selection_fields:
  "st_ports (stp_root_selection s) = st_ports s" "st_bridge_id (stp_root_selection s) = st_bridge_id s"
  "st_first_changed_port (stp_root_selection s) = st_first_changed_port s"
  "st_root_port (stp_root_selection s) = None \<Longrightarrow>
     st_designated_root (stp_root_selection s) = st_bridge_id s \<and> st_root_path_cost (stp_root_selection s) = 0"
  "st_root_port (stp_root_selection s) = Some r \<Longrightarrow>
     st_designated_root (stp_root_selection s) = sp_designated_root (port s r) \<and>
     st_root_path_cost (stp_root_selection s)
       = word_of_int (c_int (sp_designated_cost (port s r) + sp_path_cost (port s r)))"
  by (auto simp: stp_root_selection_def Let_def split: option.splits)

section \<open>Roles and states\<close>

text \<open>
  The root port is consistent with the designated root; it exists exactly when another bridge is
  the root.
\<close>

definition root_inv :: "stp \<Rightarrow> bool" where
  "root_inv s \<longleftrightarrow>
     (case st_root_port s of
        None \<Rightarrow> st_designated_root s = st_bridge_id s \<and> st_root_path_cost s = 0
      | Some r \<Rightarrow> r < length (st_ports s) \<and> st_designated_root s < st_bridge_id s)"

text \<open>A port that takes part in forwarding, or is on the way to, is the root port or designated.\<close>

definition role_ok :: "stp \<Rightarrow> nat \<Rightarrow> bool" where
  "role_ok s i \<longleftrightarrow>
     (sp_state (port s i) \<in> {STP_LISTENING, STP_LEARNING, STP_FORWARDING} \<longrightarrow>
        st_root_port s = Some i \<or> stp_is_designated_port s (port s i))"

definition role_inv :: "stp \<Rightarrow> bool" where
  "role_inv s \<longleftrightarrow> (\<forall>i < length (st_ports s). role_ok s i)"

text \<open>Every port with an unreported state change is at or after \<open>first_changed_port\<close>.\<close>

definition changed_inv :: "stp \<Rightarrow> bool" where
  "changed_inv s \<longleftrightarrow> st_first_changed_port s \<le> length (st_ports s) \<and>
     (\<forall>i < length (st_ports s). sp_state_changed (port s i) \<longrightarrow> st_first_changed_port s \<le> i)"

lemma invs_core:
  assumes "stp_core s' = stp_core s"
  shows "root_inv s' = root_inv s" "role_inv s' = role_inv s" "changed_inv s' = changed_inv s"
proof -
  note f = stp_core_fields [OF assms]
  show "root_inv s' = root_inv s" by (simp add: root_inv_def f split: option.split)
  have "role_ok s' i = role_ok s i" if "i < length (st_ports s)" for i
    using stp_core_port [OF assms that] by (simp add: role_ok_def port_core_def stp_is_designated_port_def f)
  then show "role_inv s' = role_inv s" by (simp add: role_inv_def f)
  show "changed_inv s' = changed_inv s"
    using stp_core_port [OF assms] by (simp add: changed_inv_def f port_core_def)
qed

text \<open>What a step of the tree computation keeps of the bridge, and how it may change port states.\<close>

definition same_bridge :: "stp \<Rightarrow> stp \<Rightarrow> bool" where
  "same_bridge s s' \<longleftrightarrow> st_bridge_id s' = st_bridge_id s \<and> st_designated_root s' = st_designated_root s \<and>
     st_root_path_cost s' = st_root_path_cost s \<and> st_root_port s' = st_root_port s \<and>
     length (st_ports s') = length (st_ports s)"

definition same_states :: "stp \<Rightarrow> stp \<Rightarrow> bool" where
  "same_states s s' \<longleftrightarrow> length (st_ports s') = length (st_ports s) \<and>
     st_first_changed_port s' = st_first_changed_port s \<and>
     (\<forall>i < length (st_ports s). sp_state (port s' i) = sp_state (port s i) \<and>
        sp_state_changed (port s' i) = sp_state_changed (port s i))"

text \<open>No port is moved closer to forwarding than listening.\<close>

definition no_promotion :: "stp \<Rightarrow> stp \<Rightarrow> bool" where
  "no_promotion s s' \<longleftrightarrow> length (st_ports s') = length (st_ports s) \<and>
     (\<forall>i < length (st_ports s). sp_state (port s' i) \<in> {STP_LEARNING, STP_FORWARDING} \<longrightarrow>
        sp_state (port s' i) = sp_state (port s i))"

lemma relations_refl [simp]: "same_bridge s s" "same_states s s" "no_promotion s s"
  by (simp_all add: same_bridge_def same_states_def no_promotion_def)

lemma same_bridge_trans [trans]: "same_bridge s t \<Longrightarrow> same_bridge t u \<Longrightarrow> same_bridge s u"
  by (simp add: same_bridge_def)

lemma same_states_trans [trans]: "same_states s t \<Longrightarrow> same_states t u \<Longrightarrow> same_states s u"
  by (simp add: same_states_def)

lemma no_promotion_trans [trans]: "no_promotion s t \<Longrightarrow> no_promotion t u \<Longrightarrow> no_promotion s u"
  by (auto simp: no_promotion_def)

lemma relations_core:
  assumes "stp_core s' = stp_core s"
  shows "same_bridge s s'" "same_states s s'" "no_promotion s s'"
  using stp_core_fields [OF assms] stp_core_port [OF assms]
  by (simp_all add: same_bridge_def same_states_def no_promotion_def port_core_def)

lemma same_states_no_promotion: "same_states s s' \<Longrightarrow> no_promotion s s'"
  by (simp add: same_states_def no_promotion_def)

lemma same_states_changed_inv: "same_states s s' \<Longrightarrow> changed_inv s \<Longrightarrow> changed_inv s'"
  by (simp add: same_states_def changed_inv_def)

lemma same_bridge_root_inv: "same_bridge s s' \<Longrightarrow> root_inv s \<Longrightarrow> root_inv s'"
  by (simp add: same_bridge_def root_inv_def split: option.splits)

subsection \<open>Configuration update\<close>

lemma become_designated_effect:
  "same_bridge s (stp_become_designated_port i s)" "same_states s (stp_become_designated_port i s)"
proof -
  show "same_bridge s (stp_become_designated_port i s)"
    by (simp add: same_bridge_def stp_become_designated_port_def)
  have "sp_state (port (stp_become_designated_port i s) j) = sp_state (port s j) \<and>
      sp_state_changed (port (stp_become_designated_port i s) j) = sp_state_changed (port s j)"
    if "j < length (st_ports s)" for j
    using that by (cases "i = j") (simp_all add: stp_become_designated_port_def)
  then show "same_states s (stp_become_designated_port i s)"
    by (simp add: same_states_def) (simp add: stp_become_designated_port_def)
qed

lemma designated_port_selection_effect:
  "same_bridge s (stp_designated_port_selection s)" "same_states s (stp_designated_port_selection s)"
  unfolding stp_designated_port_selection_def
  by (rule for_each_keeps [where P = "same_bridge s"];
      use become_designated_effect in \<open>auto simp: Let_def intro: same_bridge_trans\<close>)
     (rule for_each_keeps [where P = "same_states s"];
      use become_designated_effect in \<open>auto simp: Let_def intro: same_states_trans\<close>)

lemma root_selection_root_inv: "root_inv (stp_root_selection s)"
proof (cases "st_root_port (stp_root_selection s)")
  case None
  then show ?thesis using root_selection_fields(2,4) [of s] by (simp add: root_inv_def)
next
  case (Some r)
  then have "root_candidate s r" using root_selection_found [of s] by (simp add: root_found_def)
  then show ?thesis
    using Some root_selection_fields(1,2) [of s] root_selection_fields(5) [OF Some]
    by (simp add: root_inv_def root_candidate_def)
qed

lemma configuration_update_effect:
  "same_bridge (stp_root_selection s) (stp_configuration_update s)"
  "same_states s (stp_configuration_update s)"
  "root_inv (stp_configuration_update s)"
proof -
  let ?r = "stp_root_selection s" and ?d = "stp_designated_port_selection (stp_root_selection s)"
  have c: "stp_core (stp_configuration_update s) = stp_core ?d"
    by (simp add: stp_configuration_update_def)
  show sb: "same_bridge ?r (stp_configuration_update s)"
    using designated_port_selection_effect(1) [of ?r] relations_core(1) [OF c] by (rule same_bridge_trans)
  have "same_states s ?r" by (simp add: same_states_def root_selection_fields)
  also have "same_states ?r ?d" by (rule designated_port_selection_effect)
  also have "same_states ?d (stp_configuration_update s)" by (rule relations_core [OF c])
  finally show "same_states s (stp_configuration_update s)" .
  show "root_inv (stp_configuration_update s)"
    using sb root_selection_root_inv by (rule same_bridge_root_inv)
qed

subsection \<open>State selection\<close>

text \<open>
  \<open>state_moves i s s'\<close>: only the state of port \<open>i\<close> may differ; bridge, roles and the other states are
  the same.
\<close>

definition state_moves :: "nat \<Rightarrow> stp \<Rightarrow> stp \<Rightarrow> bool" where
  "state_moves i s s' \<longleftrightarrow> same_bridge s s' \<and>
     (\<forall>j < length (st_ports s).
        stp_is_designated_port s' (port s' j) = stp_is_designated_port s (port s j) \<and>
        (j \<noteq> i \<longrightarrow> sp_state (port s' j) = sp_state (port s j)))"

lemma state_moves_refl [simp]: "state_moves i s s"
  by (simp add: state_moves_def)

lemma state_moves_trans [trans]: "state_moves i s t \<Longrightarrow> state_moves i t u \<Longrightarrow> state_moves i s u"
  by (simp add: state_moves_def same_bridge_def)

lemma state_moves_core: "stp_core s' = stp_core s \<Longrightarrow> state_moves i s s'"
  using relations_core(1) [of s' s] stp_core_port [of s' s] stp_core_fields [of s' s]
  by (simp add: state_moves_def port_core_def stp_is_designated_port_def)

lemma set_port_state_effect:
  assumes "i < length (st_ports s)"
  shows "state_moves i s (stp_set_port_state i st s)"
    and "sp_state (port (stp_set_port_state i st s) i) = st"
    and "changed_inv s \<Longrightarrow> changed_inv (stp_set_port_state i st s)"
    and "st \<notin> {STP_LEARNING, STP_FORWARDING} \<Longrightarrow> no_promotion s (stp_set_port_state i st s)"
proof -
  let ?s' = "stp_set_port_state i st s"
  have fields: "same_bridge s ?s'"
    by (simp add: stp_set_port_state_def Let_def same_bridge_def seq_change_def)
  have other: "port ?s' j = port s j" if "j \<noteq> i" for j
    using that by (simp add: stp_set_port_state_def Let_def seq_change_def upd_port_def)
  have at_i: "port ?s' i = (port s i)\<lparr>sp_state := st,
      sp_state_changed := (sp_state_changed (port s i) \<or> st \<noteq> sp_state (port s i))\<rparr>"
    using assms by (simp add: stp_set_port_state_def Let_def seq_change_def upd_port_def)
  have first: "st_first_changed_port ?s' = (if st \<noteq> sp_state (port s i) \<and> \<not> sp_state_changed (port s i)
      \<and> i < st_first_changed_port s then i else st_first_changed_port s)"
    by (simp add: stp_set_port_state_def Let_def seq_change_def upd_port_def)
  show "sp_state (port ?s' i) = st" by (simp add: at_i)
  have "stp_is_designated_port ?s' (port ?s' j) = stp_is_designated_port s (port s j)" for j
    using fields other [of j] at_i by (cases "j = i") (simp_all add: stp_is_designated_port_def same_bridge_def)
  then show "state_moves i s ?s'" using fields other by (simp add: state_moves_def)
  have len: "length (st_ports ?s') = length (st_ports s)" using fields by (simp add: same_bridge_def)
  show "changed_inv ?s'" if "changed_inv s"
    unfolding changed_inv_def
  proof (intro conjI allI impI)
    show "st_first_changed_port ?s' \<le> length (st_ports ?s')"
      using that assms by (simp add: first len changed_inv_def)
    fix j assume "j < length (st_ports ?s')" "sp_state_changed (port ?s' j)"
    then show "st_first_changed_port ?s' \<le> j"
      using that other [of j] at_i by (cases "j = i") (auto simp: first len changed_inv_def)
  qed
  show "no_promotion s ?s'" if "st \<notin> {STP_LEARNING, STP_FORWARDING}"
    unfolding no_promotion_def
  proof (intro conjI allI impI)
    fix j assume "j < length (st_ports s)" "sp_state (port ?s' j) \<in> {STP_LEARNING, STP_FORWARDING}"
    then show "sp_state (port ?s' j) = sp_state (port s j)"
      using that other [of j] at_i by (cases "j = i") auto
  qed (rule len)
qed

text \<open>The shape shared by the state changes: core-preserving steps around \<open>stp_set_port_state\<close>.\<close>

lemma set_port_state_between:
  assumes "i < length (st_ports s)" "stp_core s1 = stp_core s"
    and "stp_core s' = stp_core (stp_set_port_state i st s1)"
  shows "state_moves i s s'" "sp_state (port s' i) = st" "changed_inv s \<Longrightarrow> changed_inv s'"
    "st \<notin> {STP_LEARNING, STP_FORWARDING} \<Longrightarrow> no_promotion s s'"
proof -
  have i1: "i < length (st_ports s1)" using assms(1) stp_core_fields(6) [OF assms(2)] by simp
  note e = set_port_state_effect [OF i1, of st]
  let ?t = "stp_set_port_state i st s1"
  have it: "i < length (st_ports ?t)" using e(1) i1 by (simp add: state_moves_def same_bridge_def)
  have "state_moves i s s1" by (rule state_moves_core [OF assms(2)])
  also note e(1)
  also have "state_moves i ?t s'" by (rule state_moves_core [OF assms(3)])
  finally show "state_moves i s s'" .
  show "sp_state (port s' i) = st"
    using stp_core_port [OF assms(3) it] e(2) by (simp add: port_core_def)
  show "changed_inv s \<Longrightarrow> changed_inv s'"
    using e(3) invs_core(3) [OF assms(2)] invs_core(3) [OF assms(3)] by simp
  show "no_promotion s s'" if "st \<notin> {STP_LEARNING, STP_FORWARDING}"
  proof -
    have "no_promotion s s1" by (rule relations_core [OF assms(2)])
    also have "no_promotion s1 ?t" by (rule e(4) [OF that])
    also have "no_promotion ?t s'" by (rule relations_core [OF assms(3)])
    finally show ?thesis .
  qed
qed

lemma make_forwarding_cases:
  assumes "i < length (st_ports s)"
  shows "stp_make_forwarding i s = s \<and> sp_state (port s i) \<noteq> STP_BLOCKING \<or>
    sp_state (port s i) = STP_BLOCKING \<and>
    stp_core (stp_make_forwarding i s) = stp_core (stp_set_port_state i STP_LISTENING s)"
  by (simp add: stp_make_forwarding_def core_upd_port port_core_def)

lemma make_blocking_cases:
  assumes "i < length (st_ports s)"
  shows "stp_make_blocking i s = s \<and> sp_state (port s i) \<in> {STP_DISABLED, STP_BLOCKING} \<or>
    (\<exists>s1. stp_core s1 = stp_core s \<and>
       stp_core (stp_make_blocking i s) = stp_core (stp_set_port_state i STP_BLOCKING s1))"
  by (cases "sp_state (port s i) \<in> {STP_DISABLED, STP_BLOCKING}")
     (auto simp: stp_make_blocking_def Let_def core_upd_port port_core_def
       intro: exI [of _ "if sp_state (port s i) \<in> {STP_FORWARDING, STP_LEARNING} \<and>
         sp_change_detection_enabled (port s i) then stp_topology_change_detection s else s"])

lemma state_selection_step_effect:
  assumes i: "i < length (st_ports s)" and s': "s' = state_selection_step i s"
  shows "state_moves i s s'" "role_ok s' i" "changed_inv s \<Longrightarrow> changed_inv s'" "no_promotion s s'"
proof -
  define clr where "clr = (\<lambda>p :: stp_port. p\<lparr>sp_config_pending := False, sp_topology_change_ack := False\<rparr>)"
  define stop where "stop = (\<lambda>p :: stp_port. p\<lparr>sp_message_age_timer := stp_stop_timer (sp_message_age_timer p)\<rparr>)"
  have c: "stp_core (upd_port i clr s) = stp_core s" "stp_core (upd_port i stop s) = stp_core s"
    by (simp_all add: clr_def stop_def core_upd_port port_core_def)
  let ?role = "st_root_port s = Some i \<or> stp_is_designated_port s (port s i)"
  have "\<exists>s1 st. stp_core s1 = stp_core s \<and> st \<in> {STP_LISTENING, STP_BLOCKING} \<and>
      (st = STP_LISTENING \<longrightarrow> ?role) \<and> stp_core s' = stp_core (stp_set_port_state i st s1) \<or>
      stp_core s' = stp_core s \<and> (?role \<or> sp_state (port s i) \<in> {STP_DISABLED, STP_BLOCKING})"
  proof (cases ?role)
    case True
    then have "s' = stp_make_forwarding i (upd_port i (if st_root_port s = Some i then clr else stop) s)"
      by (auto simp: s' state_selection_step_def clr_def stop_def)
    with c obtain f where f: "stp_core (upd_port i f s) = stp_core s" "s' = stp_make_forwarding i (upd_port i f s)"
      by (cases "st_root_port s = Some i") auto
    have "i < length (st_ports (upd_port i f s))" using i by simp
    from make_forwarding_cases [OF this] show ?thesis
      using f True by (intro exI [of _ "upd_port i f s"] exI [of _ STP_LISTENING]) auto
  next
    case False
    then have f: "s' = stp_make_blocking i (upd_port i clr s)"
      by (simp add: s' state_selection_step_def clr_def)
    have "i < length (st_ports (upd_port i clr s))" using i by simp
    from make_blocking_cases [OF this] show ?thesis
    proof
      assume "stp_make_blocking i (upd_port i clr s) = upd_port i clr s \<and>
        sp_state (port (upd_port i clr s) i) \<in> {STP_DISABLED, STP_BLOCKING}"
      then show ?thesis using f c(1) i by (auto simp: clr_def)
    next
      assume "\<exists>s1. stp_core s1 = stp_core (upd_port i clr s) \<and>
        stp_core (stp_make_blocking i (upd_port i clr s)) = stp_core (stp_set_port_state i STP_BLOCKING s1)"
      then obtain s1 where "stp_core s1 = stp_core s"
        "stp_core s' = stp_core (stp_set_port_state i STP_BLOCKING s1)" using f c(1) by auto
      then show ?thesis by (intro exI [of _ s1] exI [of _ STP_BLOCKING]) simp
    qed
  qed
  then consider
      (move) s1 st where "stp_core s1 = stp_core s" "st \<in> {STP_LISTENING, STP_BLOCKING}"
        "st = STP_LISTENING \<longrightarrow> ?role" "stp_core s' = stp_core (stp_set_port_state i st s1)"
    | (stay) "stp_core s' = stp_core s" "?role \<or> sp_state (port s i) \<in> {STP_DISABLED, STP_BLOCKING}"
    by blast
  then have "state_moves i s s' \<and> role_ok s' i \<and> (changed_inv s \<longrightarrow> changed_inv s') \<and> no_promotion s s'"
  proof cases
    case move
    note b = set_port_state_between [OF i move(1,4)]
    then have "role_ok s' i" using move(2,3) i by (auto simp: role_ok_def state_moves_def same_bridge_def)
    with b move(2) show ?thesis by auto
  next
    case stay
    have m: "state_moves i s s'" by (rule state_moves_core [OF stay(1)])
    then have "role_ok s' i"
      using stay(2) i stp_core_port [OF stay(1) i]
      by (auto simp: role_ok_def state_moves_def same_bridge_def port_core_def)
    with m show ?thesis using invs_core(3) [OF stay(1)] relations_core(3) [OF stay(1)] by simp
  qed
  then show "state_moves i s s'" "role_ok s' i" "changed_inv s \<Longrightarrow> changed_inv s'" "no_promotion s s'"
    by auto
qed

lemma port_state_selection_effect:
  "same_bridge s (stp_port_state_selection s)" "role_inv (stp_port_state_selection s)"
  "changed_inv s \<Longrightarrow> changed_inv (stp_port_state_selection s)" "no_promotion s (stp_port_state_selection s)"
proof -
  define Q where "Q = (\<lambda>i s'. same_bridge s s' \<and> no_promotion s s' \<and> (changed_inv s \<longrightarrow> changed_inv s') \<and>
    (\<forall>j < i. role_ok s' j))"
  have "Q (length (st_ports s)) (stp_port_state_selection s)"
    unfolding stp_port_state_selection_def
  proof (rule for_each_inv [where Q = Q])
    show "Q 0 s" by (simp add: Q_def)
  next
    fix i s' assume i: "i < length (st_ports s)" and q: "Q i s'"
    have i': "i < length (st_ports s')" using i q by (simp add: Q_def same_bridge_def)
    note e = state_selection_step_effect [OF i' refl]
    have "role_ok (state_selection_step i s') j" if "j < i" for j
      using q e(1) that i' by (auto simp: Q_def role_ok_def state_moves_def same_bridge_def)
    moreover have "same_bridge s (state_selection_step i s')" "no_promotion s (state_selection_step i s')"
      using q e by (auto simp: Q_def state_moves_def intro: same_bridge_trans no_promotion_trans)
    ultimately show "Q (Suc i) (state_selection_step i s')"
      using q e by (auto simp: Q_def less_Suc_eq)
  next
    fix i s' assume "Q i s'" "sp_state (port s' i) = STP_DISABLED"
    then show "Q (Suc i) s'" by (auto simp: Q_def less_Suc_eq role_ok_def)
  qed
  then show "same_bridge s (stp_port_state_selection s)" "role_inv (stp_port_state_selection s)"
    "changed_inv s \<Longrightarrow> changed_inv (stp_port_state_selection s)" "no_promotion s (stp_port_state_selection s)"
    by (auto simp: Q_def role_inv_def same_bridge_def)
qed

text \<open>
  C29: Root selection. The configuration update chooses as root port an enabled port that is not
  designated, through which a better root is known, and no other such port has a smaller priority
  vector (root, cost, bridge, port, own port identifier) in the lexicographic order of IEEE 802.1D;
  the bridge takes over that port's root and adds the port's path cost. Without such a port the
  bridge is the root, at cost 0.
\<close>

theorem stp_root_selection_minimal:
  assumes "s' = stp_configuration_update s"
  shows "case stp_get_root_port s' of
      None \<Rightarrow> (\<forall>i. \<not> root_candidate s i) \<and> stp_get_designated_root s' = st_bridge_id s \<and> st_root_path_cost s' = 0
    | Some r \<Rightarrow> root_candidate s r \<and>
        (\<forall>i. root_candidate s i \<longrightarrow> port_vector (port s r) \<le> port_vector (port s i)) \<and>
        stp_get_designated_root s' = sp_designated_root (port s r) \<and>
        st_root_path_cost s' = word_of_int (c_int (sp_designated_cost (port s r) + sp_path_cost (port s r)))"
proof -
  have eq: "st_root_port s' = st_root_port (stp_root_selection s)"
      "st_designated_root s' = st_designated_root (stp_root_selection s)"
      "st_root_path_cost s' = st_root_path_cost (stp_root_selection s)"
    using configuration_update_effect(1) [of s] assms by (simp_all add: same_bridge_def)
  have len: "root_candidate s i \<Longrightarrow> i < length (st_ports s)" for i by (simp add: root_candidate_def)
  show ?thesis
  proof (cases "st_root_port (stp_root_selection s)")
    case None
    then show ?thesis
      using root_selection_found [of s] root_selection_fields(4) [OF None] len
      by (auto simp: root_found_def eq stp_get_root_port_def stp_get_designated_root_def)
  next
    case (Some r)
    then show ?thesis
      using root_selection_found [of s] root_selection_fields(5) [OF Some] len
      by (auto simp: root_found_def eq stp_get_root_port_def stp_get_designated_root_def)
  qed
qed

text \<open>A bridge whose second and third ports both lead to a better root, the third at a lower cost.\<close>

definition two_paths :: stp where
  "two_paths = zero_stp\<lparr>st_bridge_id := 9, st_designated_root := 9,
     st_ports := [zero_port,
       zero_port\<lparr>sp_state := STP_BLOCKING, sp_designated_root := 1, sp_designated_bridge := 3,
         sp_designated_cost := 10, sp_path_cost := 19\<rparr>,
       zero_port\<lparr>sp_state := STP_BLOCKING, sp_designated_root := 1, sp_designated_bridge := 4,
         sp_designated_cost := 10, sp_path_cost := 4\<rparr>]\<rparr>"

theorem stp_root_selection_minimal_witness:
  "stp_get_root_port (stp_configuration_update two_paths) = Some 2 \<and>
   port_vector (port two_paths 2) \<le> port_vector (port two_paths 1)"
proof -
  have "stp_get_root_port (stp_configuration_update two_paths) = Some 2" by code_simp
  moreover have "root_candidate two_paths 1" by code_simp
  ultimately show ?thesis using stp_root_selection_minimal [OF refl, of two_paths] by auto
qed

end
