(* ===== verification/Stp_Safety.thy ===== *)
theory Stp_Safety
  imports Stp_Tree State_Machine
begin

text \<open>
  Invariants of the spanning tree protocol over every sequence of calls, and the order in which a
  port reaches the forwarding state.
\<close>

section \<open>Calls\<close>

datatype stp_op = Tick int | Set_Bridge_Id u64 | Set_Bridge_Priority u16 | Set_Hello_Time int
  | Set_Max_Age int | Set_Forward_Delay int | Receive nat "u8 list" | Port_Enable nat
  | Port_Disable nat | Port_Priority nat u8 | Port_Path_Cost nat u16 | Port_Speed nat u32
  | Port_Change_Detection nat bool | Port_Name nat string | Port_Aux nat "nat option"
  | Get_Changed_Port | Reset_Fdb_Flush | Topology_Change

fun stp_exec :: "stp \<Rightarrow> stp_op \<Rightarrow> stp" where
  "stp_exec s (Tick ms) = stp_tick s ms"
| "stp_exec s (Set_Bridge_Id b) = stp_set_bridge_id s b"
| "stp_exec s (Set_Bridge_Priority pri) = stp_set_bridge_priority s pri"
| "stp_exec s (Set_Hello_Time ms) = stp_set_hello_time s ms"
| "stp_exec s (Set_Max_Age ms) = stp_set_max_age s ms"
| "stp_exec s (Set_Forward_Delay ms) = stp_set_forward_delay s ms"
| "stp_exec s (Receive i bpdu) = stp_received_bpdu i bpdu s"
| "stp_exec s (Port_Enable i) = stp_port_enable i s"
| "stp_exec s (Port_Disable i) = stp_port_disable i s"
| "stp_exec s (Port_Priority i pri) = stp_port_set_priority i pri s"
| "stp_exec s (Port_Path_Cost i c) = stp_port_set_path_cost i c s"
| "stp_exec s (Port_Speed i v) = stp_port_set_speed i v s"
| "stp_exec s (Port_Change_Detection i b) =
     (if b then stp_port_enable_change_detection i s else stp_port_disable_change_detection i s)"
| "stp_exec s (Port_Name i name) = stp_port_set_name i name s"
| "stp_exec s (Port_Aux i aux) = stp_port_set_aux i aux s"
| "stp_exec s Get_Changed_Port = snd (stp_get_changed_port s)"
| "stp_exec s Reset_Fdb_Flush = snd (stp_check_and_reset_fdb_flush s)"
| "stp_exec s Topology_Change = stp_topology_change_detection s"

text \<open>The port of a call, which \<open>stp_get_port\<close> has checked.\<close>

fun op_port :: "stp_op \<Rightarrow> nat option" where
  "op_port (Receive i bpdu) = Some i"
| "op_port (Port_Enable i) = Some i"
| "op_port (Port_Disable i) = Some i"
| "op_port (Port_Priority i pri) = Some i"
| "op_port (Port_Path_Cost i c) = Some i"
| "op_port (Port_Speed i v) = Some i"
| "op_port (Port_Change_Detection i b) = Some i"
| "op_port (Port_Name i name) = Some i"
| "op_port (Port_Aux i aux) = Some i"
| "op_port op = None"

definition op_ok :: "stp \<Rightarrow> stp_op \<Rightarrow> bool" where
  "op_ok s op \<longleftrightarrow> (case op_port op of Some i \<Rightarrow> i < length (st_ports s) | None \<Rightarrow> True)"

definition stp_inv :: "stp \<Rightarrow> bool" where
  "stp_inv s \<longleftrightarrow> root_inv s \<and> role_inv s \<and> changed_inv s"

section \<open>Each call keeps the invariant and promotes no port\<close>

text \<open>\<open>keeps s s'\<close>: the invariant is carried over and no port moves closer to forwarding.\<close>

definition keeps :: "stp \<Rightarrow> stp \<Rightarrow> bool" where
  "keeps s s' \<longleftrightarrow> (stp_inv s \<longrightarrow> stp_inv s') \<and> no_promotion s s'"

lemma keeps_core:
  assumes "stp_core s' = stp_core s"
  shows "keeps s s'"
  using invs_core [OF assms] relations_core(3) [OF assms] by (simp add: keeps_def stp_inv_def)

lemma keeps_refl [simp]: "keeps s s"
  by (simp add: keeps_core)

lemma keeps_trans [trans]: "keeps s t \<Longrightarrow> keeps t u \<Longrightarrow> keeps s u"
  by (auto simp: keeps_def intro: no_promotion_trans)

lemma keeps_core_right: "keeps s t \<Longrightarrow> stp_core u = stp_core t \<Longrightarrow> keeps s u"
  by (blast intro: keeps_trans keeps_core)

text \<open>Preparing steps, after which the whole tree is computed anew.\<close>

definition prepares :: "stp \<Rightarrow> stp \<Rightarrow> bool" where
  "prepares s s' \<longleftrightarrow> (changed_inv s \<longrightarrow> changed_inv s') \<and> no_promotion s s'"

lemma prepares_same_states: "same_states s s' \<Longrightarrow> prepares s s'"
  by (simp add: prepares_def same_states_no_promotion same_states_changed_inv)

lemma prepares_trans [trans]: "prepares s t \<Longrightarrow> prepares t u \<Longrightarrow> prepares s u"
  by (auto simp: prepares_def intro: no_promotion_trans)

lemma prepares_core: "stp_core s' = stp_core s \<Longrightarrow> prepares s s'"
  by (rule prepares_same_states [OF relations_core(2)])

lemma recompute_keeps:
  assumes "prepares s s1"
  shows "keeps s (stp_port_state_selection (stp_configuration_update s1))"
proof -
  let ?u = "stp_configuration_update s1"
  note u = configuration_update_effect [of s1] and p = port_state_selection_effect [of ?u]
  have "root_inv (stp_port_state_selection ?u)" using p(1) u(3) by (rule same_bridge_root_inv)
  moreover have "changed_inv s \<Longrightarrow> changed_inv (stp_port_state_selection ?u)"
    using assms same_states_changed_inv [OF u(2)] p(3) by (simp add: prepares_def)
  moreover have "no_promotion s (stp_port_state_selection ?u)"
    using assms same_states_no_promotion [OF u(2)] p(4)
    by (auto simp: prepares_def intro: no_promotion_trans)
  ultimately show ?thesis using p(2) by (simp add: keeps_def stp_inv_def)
qed

text \<open>The state selection alone, when the bridge is the same.\<close>

lemma reselect_keeps:
  assumes "prepares s s1" "same_bridge s s1"
  shows "keeps s (stp_port_state_selection s1)"
proof -
  note p = port_state_selection_effect [of s1]
  have "root_inv s \<Longrightarrow> root_inv (stp_port_state_selection s1)"
    using same_bridge_root_inv [OF same_bridge_trans [OF assms(2) p(1)]] .
  with p assms(1) show ?thesis
    by (auto simp: keeps_def stp_inv_def prepares_def intro: no_promotion_trans)
qed

lemma prepares_set_port_state:
  assumes "i < length (st_ports s)" "st \<notin> {STP_LEARNING, STP_FORWARDING}"
  shows "prepares s (stp_set_port_state i st s)" "same_bridge s (stp_set_port_state i st s)"
  using set_port_state_effect [OF assms(1), of st] assms(2) by (simp_all add: prepares_def state_moves_def)

lemma prepares_upd_port:
  assumes "\<And>p. sp_state (f p) = sp_state p" "\<And>p. sp_state_changed (f p) = sp_state_changed p"
  shows "prepares s (upd_port i f s)"
proof (rule prepares_same_states)
  have "sp_state (port (upd_port i f s) j) = sp_state (port s j) \<and>
      sp_state_changed (port (upd_port i f s) j) = sp_state_changed (port s j)" if "j < length (st_ports s)" for j
    using that assms by (cases "i = j") simp_all
  then show "same_states s (upd_port i f s)" by (simp add: same_states_def)
qed

lemma same_bridge_upd_port: "same_bridge s (upd_port i f s)"
  by (simp add: same_bridge_def)

lemma core_upd_port_simps [simp]:
  "stp_core (upd_port i (\<lambda>p. p\<lparr>sp_aux := a\<rparr>) s) = stp_core s"
  "stp_core (upd_port i (\<lambda>p. p\<lparr>sp_port_name := n\<rparr>) s) = stp_core s"
  "stp_core (upd_port i (\<lambda>p. p\<lparr>sp_change_detection_enabled := b\<rparr>) s) = stp_core s"
  "stp_core (upd_port i (\<lambda>p. p\<lparr>sp_message_age_timer := t\<rparr>) s) = stp_core s"
  "stp_core (upd_port i (\<lambda>p. p\<lparr>sp_forward_delay_timer := t\<rparr>) s) = stp_core s"
  by (simp_all add: core_upd_port port_core_def)

lemma port_disable_keeps:
  assumes "i < length (st_ports s)"
  shows "keeps s (stp_port_disable i s)"
proof (cases "sp_state (port s i) = STP_DISABLED")
  case True
  then show ?thesis by (simp add: stp_port_disable_def)
next
  case False
  define f where "f = (\<lambda>p :: stp_port. p\<lparr>sp_topology_change_ack := False, sp_config_pending := False,
    sp_message_age_timer := stp_stop_timer (sp_message_age_timer p),
    sp_forward_delay_timer := stp_stop_timer (sp_forward_delay_timer p)\<rparr>)"
  let ?a = "stp_become_designated_port i s"
  let ?b = "stp_set_port_state i STP_DISABLED ?a"
  let ?c = "stp_port_state_selection (stp_configuration_update (upd_port i f ?b))"
  have "i < length (st_ports ?a)" using assms by (simp add: stp_become_designated_port_def)
  note b = prepares_set_port_state(1) [OF this, of STP_DISABLED]
  have "prepares s ?a" by (rule prepares_same_states [OF become_designated_effect(2)])
  also have "prepares ?a ?b" using b by simp
  also have "prepares ?b (upd_port i f ?b)"
    by (rule prepares_core) (simp add: f_def core_upd_port port_core_def)
  finally have "keeps s ?c" by (rule recompute_keeps)
  moreover have "stp_core (stp_port_disable i s) = stp_core ?c"
    using False by (simp add: stp_port_disable_def Let_def f_def)
  ultimately show ?thesis by (rule keeps_core_right)
qed

lemma port_enable_keeps:
  assumes "i < length (st_ports s)"
  shows "keeps s (stp_port_enable i s)"
proof (cases "sp_state (port s i) = STP_DISABLED")
  case True
  let ?a = "stp_become_designated_port i s"
  let ?b = "stp_set_port_state i STP_BLOCKING ?a"
  let ?c = "stp_initialize_port False i STP_BLOCKING s"
  have "i < length (st_ports ?a)" using assms by (simp add: stp_become_designated_port_def)
  note b = prepares_set_port_state [OF this, of STP_BLOCKING]
  have c: "stp_core ?c = stp_core ?b"
    by (simp add: stp_initialize_port_def Let_def core_upd_port port_core_def)
  have "prepares s ?a" by (rule prepares_same_states [OF become_designated_effect(2)])
  also have "prepares ?a ?b" using b by simp
  also have "prepares ?b ?c" by (rule prepares_core [OF c])
  finally have p: "prepares s ?c" .
  have "same_bridge s ?a" by (rule become_designated_effect)
  also have "same_bridge ?a ?b" using b by simp
  also have "same_bridge ?b ?c" by (rule relations_core [OF c])
  finally have "same_bridge s ?c" .
  with p True show ?thesis by (simp add: stp_port_enable_def reselect_keeps)
qed (simp add: stp_port_enable_def)

lemma path_cost_keeps: "keeps s (stp_port_set_path_cost i c s)"
  by (simp add: stp_port_set_path_cost_def recompute_keeps prepares_upd_port)

lemma set_bridge_id_keeps: "keeps s (set_bridge_id b s)"
proof (cases "b = st_bridge_id s")
  case False
  define body where "body = (\<lambda>i s. if stp_is_designated_port s (port s i)
    then upd_port i (\<lambda>p :: stp_port. p\<lparr>sp_designated_bridge := b\<rparr>) s else s)"
  let ?a = "for_each_enabled_port body s"
  let ?c = "stp_port_state_selection (stp_configuration_update (?a\<lparr>st_bridge_id := b\<rparr>))"
  have "prepares s ?a"
    by (rule for_each_keeps [where P = "prepares s"])
       (auto simp: body_def prepares_same_states intro: prepares_trans [OF _ prepares_upd_port])
  also have "prepares ?a (?a\<lparr>st_bridge_id := b\<rparr>)"
    by (rule prepares_same_states) (simp add: same_states_def)
  finally have "keeps s ?c" by (rule recompute_keeps)
  moreover have "stp_core (set_bridge_id b s) = stp_core ?c"
    using False by (simp add: set_bridge_id_def Let_def body_def)
  ultimately show ?thesis by (rule keeps_core_right)
qed (simp add: set_bridge_id_def)

lemma message_age_expiry_keeps: "keeps s (stp_message_age_timer_expiry i s)"
proof -
  let ?c = "stp_port_state_selection (stp_configuration_update (stp_become_designated_port i s))"
  have "keeps s ?c" by (rule recompute_keeps [OF prepares_same_states [OF become_designated_effect(2)]])
  moreover have "stp_core (stp_message_age_timer_expiry i s) = stp_core ?c"
    by (simp add: stp_message_age_timer_expiry_def Let_def)
  ultimately show ?thesis by (rule keeps_core_right)
qed

lemma received_config_keeps: "keeps s (stp_received_config_bpdu i config s)"
proof (cases "\<not> cb_message_age config \<ge> cb_max_age config \<and> sp_state (port s i) \<noteq> STP_DISABLED
    \<and> stp_supersedes_port_info s (port s i) config")
  case True
  let ?c = "stp_port_state_selection (stp_configuration_update (upd_port i (stp_record_config_information config) s))"
  have "keeps s ?c"
    by (rule recompute_keeps) (simp add: prepares_upd_port stp_record_config_information_def)
  moreover have "stp_core (stp_received_config_bpdu i config s) = stp_core ?c"
    using True by (simp add: stp_received_config_bpdu_def Let_def)
  ultimately show ?thesis by (rule keeps_core_right)
next
  case False
  then show ?thesis
    by (intro keeps_core) (auto simp: stp_received_config_bpdu_def Let_def)
qed

lemma received_bpdu_keeps: "keeps s (stp_received_bpdu i bpdu s)"
  using keeps_core_right [OF received_config_keeps core_counts(2)]
  by (auto simp: stp_received_bpdu_def intro: keeps_core)

lemma set_priority_keeps:
  assumes i: "i < length (st_ports s)"
  shows "keeps s (stp_port_set_priority i pri s)"
proof -
  define id where "id = uint (word_of_int ((sp_port_id (port s i) AND 0xff) OR push_bit 8 (uint pri)) :: u16)"
  define a where "a = (if stp_is_designated_port s (port s i)
    then upd_port i (\<lambda>p :: stp_port. p\<lparr>sp_designated_port := id\<rparr>) s else s)"
  define b where "b = upd_port i (\<lambda>p :: stp_port. p\<lparr>sp_port_id := id\<rparr>) a"
  have "prepares s a" by (simp add: a_def prepares_upd_port prepares_same_states)
  also have "prepares a b" by (simp add: b_def prepares_upd_port)
  finally have pb: "prepares s b" .
  have sb: "same_bridge s b" by (simp add: b_def a_def same_bridge_def)
  have role: "role_ok b j" if "role_ok s j" "j < length (st_ports s)" for j
  proof -
    have "stp_is_designated_port s (port s j) \<Longrightarrow> stp_is_designated_port b (port b j)"
      using i sb by (cases "j = i") (auto simp: b_def a_def stp_is_designated_port_def same_bridge_def)
    moreover have "sp_state (port b j) = sp_state (port s j)"
      using i by (cases "j = i") (auto simp: b_def a_def)
    ultimately show ?thesis using that sb by (auto simp: role_ok_def same_bridge_def)
  qed
  have "keeps s b"
    using pb sb role same_bridge_root_inv [OF sb]
    by (auto simp: keeps_def stp_inv_def prepares_def role_inv_def same_bridge_def)
  moreover have "keeps s (stp_port_state_selection (stp_become_designated_port i b))"
  proof (rule reselect_keeps)
    show "prepares s (stp_become_designated_port i b)"
      using pb prepares_same_states [OF become_designated_effect(2)] by (rule prepares_trans)
    show "same_bridge s (stp_become_designated_port i b)"
      using sb become_designated_effect(1) by (rule same_bridge_trans)
  qed
  ultimately show ?thesis
    by (simp add: stp_port_set_priority_def Let_def id_def [symmetric] a_def [symmetric] b_def [symmetric])
qed

text \<open>Fields of the ports and bridge that \<open>stp_get_changed_port\<close> leaves alone.\<close>

lemma get_changed_port_frame:
  assumes "s' = snd (stp_get_changed_port s)"
  shows "same_bridge s s'" "\<And>j. j < length (st_ports s) \<Longrightarrow>
    sp_state (port s' j) = sp_state (port s j) \<and>
    stp_is_designated_port s' (port s' j) = stp_is_designated_port s (port s j)"
proof -
  show sb: "same_bridge s s'"
    using assms by (simp add: stp_get_changed_port_def Let_def same_bridge_def split: option.split)
  fix j assume j: "j < length (st_ports s)"
  show "sp_state (port s' j) = sp_state (port s j) \<and>
    stp_is_designated_port s' (port s' j) = stp_is_designated_port s (port s j)"
  proof (cases "fst (stp_get_changed_port s)")
    case None
    then show ?thesis using assms
      by (auto simp: stp_get_changed_port_def Let_def stp_is_designated_port_def split: option.splits)
  next
    case (Some i)
    then show ?thesis using assms j
      by (cases "j = i")
         (auto simp: stp_get_changed_port_def Let_def stp_is_designated_port_def upd_port_def split: option.splits)
  qed
qed

lemma get_changed_port_changed_inv:
  assumes "changed_inv s"
  shows "changed_inv (snd (stp_get_changed_port s))"
proof (cases "find (\<lambda>i. sp_state_changed (port s i)) [st_first_changed_port s ..< length (st_ports s)]")
  case None
  then have "\<not> sp_state_changed (port s j)" if "st_first_changed_port s \<le> j" "j < length (st_ports s)" for j
    using that by (simp add: find_upt_None)
  with None show ?thesis using assms
    by (auto simp: stp_get_changed_port_def Let_def changed_inv_def)
next
  case (Some i)
  note f = find_upt_Some [OF Some]
  have "i + 1 \<le> j" if "j < length (st_ports s)" "sp_state_changed (port s j)" "j \<noteq> i" for j
  proof (rule ccontr)
    assume "\<not> i + 1 \<le> j"
    with that(3) have "j < i" by simp
    moreover have "st_first_changed_port s \<le> j" using assms that by (simp add: changed_inv_def)
    ultimately show False using f(4) that(2) by blast
  qed
  moreover have "sp_state_changed (port (upd_port i (\<lambda>p. p\<lparr>sp_state_changed := False\<rparr>) s) j)
      \<longleftrightarrow> sp_state_changed (port s j) \<and> j \<noteq> i" if "j < length (st_ports s)" for j
    using that f(2) by (cases "j = i") simp_all
  ultimately show ?thesis using Some f(2)
    by (simp add: stp_get_changed_port_def Let_def changed_inv_def upd_port_def)
qed

lemma get_changed_port_keeps: "keeps s (snd (stp_get_changed_port s))"
proof -
  let ?s' = "snd (stp_get_changed_port s)"
  note f = get_changed_port_frame [of ?s' s, OF refl]
  have len: "length (st_ports ?s') = length (st_ports s)" using f(1) by (simp add: same_bridge_def)
  have "role_inv s \<Longrightarrow> role_inv ?s'"
    using f by (auto simp: role_inv_def role_ok_def len same_bridge_def)
  moreover have "no_promotion s ?s'" using f(2) len by (auto simp: no_promotion_def)
  ultimately show ?thesis
    using get_changed_port_changed_inv same_bridge_root_inv [OF f(1)] by (auto simp: keeps_def stp_inv_def)
qed

section \<open>Ticks\<close>

lemma tick_message_age_keeps: "keeps s (tick_message_age e i s)"
proof -
  let ?t = "snd (stp_timer_expired (sp_message_age_timer (port s i)) e (st_max_age s))"
  let ?a = "upd_port i (\<lambda>p. p\<lparr>sp_message_age_timer := ?t\<rparr>) s"
  have "keeps s ?a" by (rule keeps_core) simp
  moreover have "keeps ?a (stp_message_age_timer_expiry i ?a)" by (rule message_age_expiry_keeps)
  ultimately show ?thesis
    by (auto simp: tick_message_age_def split_beta Let_def intro: keeps_trans)
qed

text \<open>The first part of a tick, before the forward delay timers are advanced.\<close>

definition tick_ages :: "int \<Rightarrow> stp \<Rightarrow> stp" where
  "tick_ages e s = for_each_enabled_port (tick_message_age e) (tick_topology_change e (tick_tcn e (tick_hello e s)))"

lemma tick_ages_keeps: "keeps s (tick_ages e s)"
proof -
  let ?a = "tick_topology_change e (tick_tcn e (tick_hello e s))"
  have "keeps s ?a" by (rule keeps_core) simp
  moreover have "keeps ?a (tick_ages e s)"
    unfolding tick_ages_def
    by (rule for_each_keeps [where P = "keeps ?a"]) (auto intro: keeps_trans tick_message_age_keeps)
  ultimately show ?thesis by (rule keeps_trans)
qed

lemma forward_delay_expiry_cases:
  "stp_forward_delay_timer_expiry i s = s \<or>
   sp_state (port s i) = STP_LISTENING \<and>
     stp_core (stp_forward_delay_timer_expiry i s) = stp_core (stp_set_port_state i STP_LEARNING s) \<or>
   sp_state (port s i) = STP_LEARNING \<and>
     stp_core (stp_forward_delay_timer_expiry i s) = stp_core (stp_set_port_state i STP_FORWARDING s)"
  by (auto simp: stp_forward_delay_timer_expiry_def Let_def)

text \<open>A step of the second loop moves port \<open>i\<close> by one state at most and leaves the others alone.\<close>

definition one_step :: "stp_state \<Rightarrow> stp_state \<Rightarrow> bool" where
  "one_step a b \<longleftrightarrow> b = a \<or> a = STP_LISTENING \<and> b = STP_LEARNING \<or> a = STP_LEARNING \<and> b = STP_FORWARDING"

lemma one_step_refl [simp]: "one_step a a"
  by (simp add: one_step_def)

lemma tick_forward_step:
  assumes i: "i < length (st_ports s)" and s': "s' = tick_hold e i (tick_forward_delay e i s)"
  shows "stp_inv s \<longrightarrow> stp_inv s'" "state_moves i s s'" "one_step (sp_state (port s i)) (sp_state (port s' i))"
proof -
  define a where "a = upd_port i (\<lambda>p. p\<lparr>sp_forward_delay_timer :=
    snd (stp_timer_expired (sp_forward_delay_timer (port s i)) e (st_forward_delay s))\<rparr>) s"
  have ca: "stp_core a = stp_core s" by (simp add: a_def)
  have ia: "sp_state (port a i) = sp_state (port s i)" using stp_core_port [OF ca i] by (simp add: port_core_def)
  have "tick_forward_delay e i s = a \<or> tick_forward_delay e i s = stp_forward_delay_timer_expiry i a"
    by (simp add: tick_forward_delay_def split_beta Let_def a_def)
  then have "stp_core s' = stp_core s \<or> (\<exists>st. one_step (sp_state (port s i)) st \<and>
      sp_state (port s i) \<in> {STP_LISTENING, STP_LEARNING} \<and> stp_core s' = stp_core (stp_set_port_state i st a))"
    using forward_delay_expiry_cases [of i a] ca ia s' by (auto simp: one_step_def)
  then consider (stay) "stp_core s' = stp_core s"
    | (move) st where "one_step (sp_state (port s i)) st" "sp_state (port s i) \<in> {STP_LISTENING, STP_LEARNING}"
        "stp_core s' = stp_core (stp_set_port_state i st a)"
    by blast
  then have "(stp_inv s \<longrightarrow> stp_inv s') \<and> state_moves i s s' \<and> one_step (sp_state (port s i)) (sp_state (port s' i))"
  proof cases
    case stay
    then show ?thesis
      using keeps_core [OF stay] state_moves_core [OF stay] stp_core_port [OF stay i]
      by (simp add: keeps_def one_step_def port_core_def)
  next
    case move
    note b = set_port_state_between [OF i ca move(3)]
    have "role_ok s' j" if "role_ok s j" "j < length (st_ports s)" for j
    proof (cases "j = i")
      case True
      with that move(2) b(1) i show ?thesis by (auto simp: role_ok_def state_moves_def same_bridge_def)
    next
      case False
      with that b(1) show ?thesis by (auto simp: role_ok_def state_moves_def same_bridge_def)
    qed
    moreover have "same_bridge s s'" using b(1) by (simp add: state_moves_def)
    ultimately show ?thesis
      using b move(1) same_bridge_root_inv
      by (auto simp: stp_inv_def role_inv_def same_bridge_def)
  qed
  then show "stp_inv s \<longrightarrow> stp_inv s'" "state_moves i s s'" "one_step (sp_state (port s i)) (sp_state (port s' i))"
    by auto
qed

lemma tick_forward_loop:
  assumes "s' = for_each_enabled_port (\<lambda>i s. tick_hold e i (tick_forward_delay e i s)) s"
  shows "stp_inv s \<Longrightarrow> stp_inv s'" "length (st_ports s') = length (st_ports s)"
    "\<And>i. i < length (st_ports s) \<Longrightarrow> one_step (sp_state (port s i)) (sp_state (port s' i))"
proof -
  define Q where "Q = (\<lambda>n t. (stp_inv s \<longrightarrow> stp_inv t) \<and> length (st_ports t) = length (st_ports s) \<and>
    (\<forall>i < length (st_ports s). if i < n then one_step (sp_state (port s i)) (sp_state (port t i))
       else sp_state (port t i) = sp_state (port s i)))"
  have "Q (length (st_ports s)) s'"
    unfolding assms
  proof (rule for_each_inv [where Q = Q])
    show "Q 0 s" by (simp add: Q_def)
  next
    fix i t assume i: "i < length (st_ports s)" and q: "Q i t"
    have i': "i < length (st_ports t)" using i q by (simp add: Q_def)
    note st = tick_forward_step [where e = e, OF i' refl]
    show "Q (Suc i) (tick_hold e i (tick_forward_delay e i t))"
      unfolding Q_def
    proof (intro conjI allI impI)
      show "stp_inv (tick_hold e i (tick_forward_delay e i t))" if "stp_inv s" using st(1) q that by (simp add: Q_def)
      show "length (st_ports (tick_hold e i (tick_forward_delay e i t))) = length (st_ports s)"
        using st(2) q by (simp add: Q_def state_moves_def same_bridge_def)
      fix j assume j: "j < length (st_ports s)"
      show "if j < Suc i then one_step (sp_state (port s j)) (sp_state (port (tick_hold e i (tick_forward_delay e i t)) j))
        else sp_state (port (tick_hold e i (tick_forward_delay e i t)) j) = sp_state (port s j)"
      proof (cases "j = i")
        case True
        then show ?thesis using st(3) q j by (auto simp: Q_def dest!: spec [of _ i])
      next
        case False
        then have "sp_state (port (tick_hold e i (tick_forward_delay e i t)) j) = sp_state (port t j)"
          using st(2) j q by (simp add: state_moves_def Q_def)
        then show ?thesis using q j False by (auto simp: Q_def less_Suc_eq)
      qed
    qed
  next
    fix i t assume i: "i < length (st_ports s)" and q: "Q i t" and d: "sp_state (port t i) = STP_DISABLED"
    then show "Q (Suc i) t" by (auto simp: Q_def less_Suc_eq)
  qed
  then show "stp_inv s \<Longrightarrow> stp_inv s'" "length (st_ports s') = length (st_ports s)"
    "\<And>i. i < length (st_ports s) \<Longrightarrow> one_step (sp_state (port s i)) (sp_state (port s' i))"
    by (auto simp: Q_def)
qed

lemma tick_cases:
  obtains (idle) "stp_core (stp_tick s ms) = stp_core s"
  | (work) t e where "keeps s t"
      "stp_tick s ms = for_each_enabled_port (\<lambda>i s. tick_hold e i (tick_forward_delay e i s)) t"
proof -
  define e where "e = fst (tick_elapsed (st_elapsed_remainder s) ms)"
  define r where "r = snd (tick_elapsed (st_elapsed_remainder s) ms)"
  define s1 where "s1 = s\<lparr>st_elapsed_remainder := r\<rparr>"
  have c: "stp_core s1 = stp_core s" by (simp add: s1_def)
  have eq: "stp_tick s ms = (if e = 0 then s1
      else for_each_enabled_port (\<lambda>i s. tick_hold e i (tick_forward_delay e i s)) (tick_ages e s1))"
    by (simp add: stp_tick_def split_beta Let_def e_def r_def s1_def tick_ages_def)
  have "keeps s (tick_ages e s1)" using keeps_trans [OF keeps_core [OF c] tick_ages_keeps] .
  with eq c idle work show ?thesis by (cases "e = 0") auto
qed

section \<open>The invariant holds in every reachable state\<close>

lemma exec_keeps:
  assumes "op_ok s op" "\<And>ms. op \<noteq> Tick ms"
  shows "keeps s (stp_exec s op)"
proof (cases op)
  case (Set_Bridge_Id b)
  then show ?thesis by (simp add: stp_set_bridge_id_def Let_def set_bridge_id_keeps)
next
  case (Set_Bridge_Priority pri)
  then show ?thesis by (simp add: stp_set_bridge_priority_def Let_def set_bridge_id_keeps)
next
  case (Port_Speed i v)
  then show ?thesis by (simp add: stp_port_set_speed_def path_cost_keeps)
qed (use assms in \<open>auto simp: op_ok_def stp_set_hello_time_def stp_set_max_age_def stp_set_forward_delay_def
      stp_port_enable_change_detection_def stp_port_disable_change_detection_def
      stp_port_set_name_def stp_port_set_aux_def stp_check_and_reset_fdb_flush_def
      received_bpdu_keeps port_enable_keeps port_disable_keeps set_priority_keeps path_cost_keeps
      get_changed_port_keeps intro: keeps_core\<close>)

lemma tick_inv:
  assumes "stp_inv s"
  shows "stp_inv (stp_tick s ms)"
proof (cases rule: tick_cases [of s ms])
  case idle
  with assms keeps_core [OF idle] show ?thesis by (simp add: keeps_def)
next
  case (work t e)
  with assms have "stp_inv t" by (simp add: keeps_def)
  with tick_forward_loop(1) [OF work(2)] show ?thesis by blast
qed

lemma exec_inv [ovs_inv]: "stp_inv s \<Longrightarrow> op_ok s op \<Longrightarrow> stp_inv (stp_exec s op)"
  using exec_keeps [of s op] tick_inv [of s] by (cases "\<exists>ms. op = Tick ms") (auto simp: keeps_def)

text \<open>While \<open>stp_create\<close> fills the array of ports.\<close>

lemma create_port_effect:
  assumes "i < length (st_ports s)"
  shows "same_bridge s (create_port i s)"
    "st_first_changed_port (create_port i s) = st_first_changed_port s"
    "j \<noteq> i \<Longrightarrow> port (create_port i s) j = port s j"
    "sp_state (port (create_port i s) i) = STP_DISABLED"
    "sp_state_changed (port (create_port i s) i) = sp_state_changed (port s i)"
  using assms
  by (simp_all add: create_port_def stp_initialize_port_def stp_become_designated_port_def Let_def
      same_bridge_def)

lemma update_bridge_timers_frame:
  "st_ports (stp_update_bridge_timers s) = st_ports s"
  "st_bridge_id (stp_update_bridge_timers s) = st_bridge_id s"
  by (simp_all add: stp_update_bridge_timers_def Let_def)

lemma create_inv: "stp_inv (stp_create name bridge_id)"
proof -
  define Q where "Q = (\<lambda>(n :: nat) s0 s. same_bridge s0 s \<and> st_first_changed_port s = st_first_changed_port s0 \<and>
    (\<forall>i < length (st_ports s0). sp_state (port s i) = STP_DISABLED \<and> \<not> sp_state_changed (port s i)))"
  have fill: "Q (length (st_ports s0)) s0 (fold create_port [0 ..< length (st_ports s0)] s0)"
    if "Q 0 s0 s0" for s0
  proof (rule fold_upt_inv [where Q = "\<lambda>n. Q n s0"])
    fix i s assume i: "i < length (st_ports s0)" and q: "Q i s0 s"
    have i': "i < length (st_ports s)" using i q by (simp add: Q_def same_bridge_def)
    note c = create_port_effect [OF i']
    have "sp_state (port (create_port i s) j) = STP_DISABLED \<and> \<not> sp_state_changed (port (create_port i s) j)"
      if "j < length (st_ports s0)" for j
      using that c(3-5) q i by (cases "j = i") (auto simp: Q_def)
    with q c(1,2) show "Q (Suc i) s0 (create_port i s)"
      by (auto simp: Q_def intro: same_bridge_trans)
  qed (rule that)
  let ?base = "create_bridge name bridge_id"
  have s0: "st_root_port ?base = None" "st_designated_root ?base = st_bridge_id ?base" "st_root_path_cost ?base = 0"
      "st_ports ?base = replicate STP_MAX_PORTS zero_port" "st_first_changed_port ?base = length (st_ports ?base)"
    by (simp_all add: create_bridge_def Let_def update_bridge_timers_frame zero_stp_def)
  let ?s = "fold create_port [0 ..< length (st_ports ?base)] ?base"
  have "Q 0 ?base ?base" by (auto simp: Q_def s0 zero_port_def)
  then have "Q (length (st_ports ?base)) ?base ?s" by (rule fill)
  then have "stp_inv ?s"
    using s0 by (auto simp: Q_def stp_inv_def root_inv_def role_inv_def role_ok_def changed_inv_def same_bridge_def)
  moreover have "stp_core (stp_create name bridge_id) = stp_core ?s" by (simp add: stp_create_def Let_def)
  ultimately show ?thesis using keeps_core by (metis keeps_def)
qed

lemma create_length: "length (st_ports (stp_create name bridge_id)) = STP_MAX_PORTS"
proof -
  let ?base = "create_bridge name bridge_id"
  have "length (st_ports (fold create_port [0 ..< length (st_ports ?base)] ?base)) = length (st_ports ?base)"
    by (rule fold_upt_inv [where Q = "\<lambda>_ s. length (st_ports s) = length (st_ports ?base)"])
       (auto simp: create_port_def stp_initialize_port_def stp_become_designated_port_def Let_def)
  then show ?thesis
    by (simp add: stp_create_def Let_def) (simp add: create_bridge_def Let_def update_bridge_timers_frame zero_stp_def)
qed

definition stp_reachable :: "stp \<Rightarrow> bool" where
  "stp_reachable = reachable_by (\<lambda>s. \<exists>name bridge_id. s = stp_create name bridge_id) op_ok
     (\<lambda>s op. Some (stp_exec s op))"

interpretation stp_machine: call_machine "\<lambda>s. \<exists>name bridge_id. s = stp_create name bridge_id" op_ok
  "\<lambda>s op. Some (stp_exec s op)" stp_inv
  by unfold_locales (auto simp: create_inv exec_inv)

text \<open>
  C1: In every state reachable by calls to the protocol, the bridge believes to be the root exactly
  when it has no root port, no root it believes in has a larger identifier than its own, and a port
  that is listening, learning or forwarding is the root port or a designated port; the other enabled
  ports are blocked, which is what keeps the forwarding topology free of loops.
\<close>

theorem stp_reachable_inv:
  assumes "stp_reachable s"
  shows "(stp_is_root_bridge s \<longleftrightarrow> stp_get_root_port s = None) \<and>
    stp_get_designated_root s \<le> stp_get_bridge_id s \<and>
    (\<forall>i < length (st_ports s).
       stp_port_get_state s i \<in> {STP_LISTENING, STP_LEARNING, STP_FORWARDING} \<longrightarrow>
       stp_get_root_port s = Some i \<or> stp_is_designated_port s (port s i))"
proof -
  have "stp_inv s" using stp_machine.reachable_inv assms by (simp add: stp_reachable_def)
  then show ?thesis
    by (auto simp: stp_inv_def root_inv_def role_inv_def role_ok_def stp_is_root_bridge_def
        stp_get_root_port_def stp_get_designated_root_def stp_get_bridge_id_def stp_port_get_state_def
        split: option.splits)
qed

theorem stp_reachable_inv_witness:
  "stp_is_root_bridge (stp_exec (stp_create ''br0'' 0x8000000000000001) (Tick 5000))
   \<longleftrightarrow> stp_get_root_port (stp_exec (stp_create ''br0'' 0x8000000000000001) (Tick 5000)) = None"
proof -
  let ?s = "stp_create ''br0'' 0x8000000000000001"
  have "stp_reachable ?s" unfolding stp_reachable_def by (rule reachable_start) blast
  then have "stp_reachable (stp_exec ?s (Tick 5000))"
    unfolding stp_reachable_def by (rule reachable_call [where op = "Tick 5000"]) (simp_all add: op_ok_def)
  from stp_reachable_inv [OF this] show ?thesis by blast
qed

text \<open>
  C5: No call makes a port forward before it has been learning: a port that is forwarding after a
  call was learning or forwarding before it, so in particular a blocked or disabled port never starts
  to forward at once, even when a single call of \<open>stp_tick\<close> reports a long time.
\<close>

theorem stp_forwarding_after_learning:
  assumes "op_ok s op" "i < length (st_ports s)"
    and "stp_port_get_state (stp_exec s op) i = STP_FORWARDING"
  shows "stp_port_get_state s i \<in> {STP_LEARNING, STP_FORWARDING}"
proof (cases "\<exists>ms. op = Tick ms")
  case False
  then have "no_promotion s (stp_exec s op)" using exec_keeps [OF assms(1)] by (auto simp: keeps_def)
  with assms show ?thesis by (auto simp: no_promotion_def stp_port_get_state_def)
next
  case True
  then obtain ms where op: "op = Tick ms" by blast
  show ?thesis
  proof (cases rule: tick_cases [of s ms])
    case idle
    with assms op relations_core(3) [OF idle] show ?thesis
      by (auto simp: no_promotion_def stp_port_get_state_def)
  next
    case (work t e)
    have np: "no_promotion s t" using work(1) by (simp add: keeps_def)
    then have "i < length (st_ports t)" using assms(2) by (simp add: no_promotion_def)
    from tick_forward_loop(3) [OF work(2) this] assms(3) op
    have "sp_state (port t i) \<in> {STP_LEARNING, STP_FORWARDING}"
      by (auto simp: one_step_def stp_port_get_state_def)
    with np assms(2) show ?thesis by (auto simp: no_promotion_def stp_port_get_state_def)
  qed
qed

text \<open>A bridge with one port, learning, whose forward delay is about to end.\<close>

definition learning_bridge :: stp where
  "learning_bridge = zero_stp\<lparr>st_bridge_id := 1, st_designated_root := 1, st_forward_delay := 10,
     st_ports := [zero_port\<lparr>sp_state := STP_LEARNING, sp_designated_bridge := 1,
       sp_forward_delay_timer := stp_start_timer 0\<rparr>], st_first_changed_port := 1\<rparr>"

theorem stp_forwarding_after_learning_witness:
  "stp_port_get_state (stp_exec learning_bridge (Tick 1000)) 0 = STP_FORWARDING \<and>
   stp_port_get_state learning_bridge 0 \<in> {STP_LEARNING, STP_FORWARDING}"
proof -
  have "stp_port_get_state (stp_exec learning_bridge (Tick 1000)) 0 = STP_FORWARDING" by code_simp
  moreover have "op_ok learning_bridge (Tick 1000)" "0 < length (st_ports learning_bridge)" by code_simp+
  ultimately show ?thesis using stp_forwarding_after_learning [of learning_bridge "Tick 1000" 0] by blast
qed

end
