(* ===== verification/Stp_Bpdu.thy ===== *)
theory Stp_Bpdu
  imports Stp_Safety
begin

text \<open>
  Messages on the wire, reporting of port state changes to the client, and the protocol's clock.
\<close>

section \<open>Encoding of configuration messages\<close>

lemma length_encode_config [simp]: "length (encode_config c) = 35"
  by (simp add: encode_config_def)

lemma decode_encode_config: "decode_config (encode_config c) = c"
proof -
  have "be_field 0 2 (encode_config c) = cb_protocol_id c" "be_field 5 8 (encode_config c) = cb_root_id c"
      "be_field 13 4 (encode_config c) = cb_root_path_cost c"
      "be_field 17 8 (encode_config c) = cb_bridge_id c" "be_field 25 2 (encode_config c) = cb_port_id c"
      "be_field 27 2 (encode_config c) = cb_message_age c" "be_field 29 2 (encode_config c) = cb_max_age c"
      "be_field 31 2 (encode_config c) = cb_hello_time c"
      "be_field 33 2 (encode_config c) = cb_forward_delay c"
    by (simp_all add: encode_config_def be_field_def)
  moreover have "encode_config c ! 2 = cb_protocol_version c" "encode_config c ! 3 = cb_bpdu_type c"
      "encode_config c ! 4 = cb_flags c"
    by (simp_all add: encode_config_def nth_append)
  ultimately show ?thesis by (simp add: decode_config_def)
qed

text \<open>
  C30: Messages survive the wire. Decoding the 35 bytes of a configuration message gives back the
  message, and a bridge that receives, behind the 17 bytes of Ethernet and LLC headers, the message
  another bridge transmits processes exactly that message and counts it as received.
\<close>

theorem stp_bpdu_roundtrip:
  assumes "sp_state (port s i) \<noteq> STP_DISABLED"
  shows "decode_config (encode_config c) = c \<and>
    stp_received_bpdu i (drop 17 (stp_frame (encode_config (config_message t p)))) s
      = stp_count_rx i (stp_received_config_bpdu i (config_message t p) s)"
proof -
  let ?c = "config_message t p"
  have f: "drop 17 (stp_frame (encode_config ?c)) = encode_config ?c"
    by (simp add: stp_frame_def)
  have "be_field 0 2 (encode_config ?c) = cb_protocol_id ?c" "encode_config ?c ! 3 = cb_bpdu_type ?c"
    using decode_encode_config [of ?c] by (simp_all add: decode_config_def) (metis stp_config_bpdu.ext_inject stp_config_bpdu.surjective)+
  then have "be_field 0 2 (encode_config ?c) = (0 :: u16)" "encode_config ?c ! 3 = 0"
    by (simp_all add: config_message_def)
  then show ?thesis
    using assms decode_encode_config unfolding f by (simp add: stp_received_bpdu_def)
qed

theorem stp_bpdu_roundtrip_witness:
  "stp_received_bpdu 1 (drop 17 (stp_frame (encode_config (config_message learning_bridge (port learning_bridge 0))))) two_paths
     = stp_count_rx 1 (stp_received_config_bpdu 1 (config_message learning_bridge (port learning_bridge 0)) two_paths)"
  using stp_bpdu_roundtrip [of two_paths 1] by (simp add: two_paths_def)

section \<open>Reporting state changes\<close>

text \<open>The loop \<open>while (stp_get_changed_port(...))\<close> of the client, with a bound on its iterations.\<close>

fun stp_drain :: "nat \<Rightarrow> stp \<Rightarrow> nat list \<times> stp" where
  "stp_drain 0 s = ([], s)"
| "stp_drain (Suc n) s =
     (case stp_get_changed_port s of
        (None, s') \<Rightarrow> ([], s')
      | (Some i, s') \<Rightarrow> apfst ((#) i) (stp_drain n s'))"

definition changed_from :: "nat \<Rightarrow> stp \<Rightarrow> nat list" where
  "changed_from k s = filter (\<lambda>i. sp_state_changed (port s i)) [k ..< length (st_ports s)]"

lemma get_changed_port_Some:
  assumes "stp_get_changed_port s = (Some i, s')"
  shows "st_first_changed_port s \<le> i" "i < length (st_ports s)"
    "length (st_ports s') = length (st_ports s)" "st_first_changed_port s' = i + 1"
    "changed_from (st_first_changed_port s) s = i # changed_from (i + 1) s'"
proof -
  have f: "find (\<lambda>i. sp_state_changed (port s i)) [st_first_changed_port s ..< length (st_ports s)] = Some i"
    and s': "s' = upd_port i (\<lambda>p. p\<lparr>sp_state_changed := False\<rparr>) s\<lparr>st_first_changed_port := i + 1\<rparr>"
    using assms by (auto simp: stp_get_changed_port_def Let_def split: option.splits)
  note u = find_upt_Some [OF f]
  show le: "st_first_changed_port s \<le> i" "i < length (st_ports s)" by (rule u)+
  show len: "length (st_ports s') = length (st_ports s)" "st_first_changed_port s' = i + 1"
    by (simp_all add: s')
  have split: "[st_first_changed_port s ..< length (st_ports s)]
      = [st_first_changed_port s ..< i] @ i # [i + 1 ..< length (st_ports s)]"
    using le by (metis Suc_eq_plus1 le_Suc_ex upt_add_eq_append upt_conv_Cons less_or_eq_imp_le)
  have "filter (\<lambda>i. sp_state_changed (port s i)) [st_first_changed_port s ..< i] = []"
    using u(4) by (auto simp: filter_empty_conv)
  moreover have "filter (\<lambda>i. sp_state_changed (port s i)) [i + 1 ..< length (st_ports s)]
      = filter (\<lambda>i. sp_state_changed (port s' i)) [i + 1 ..< length (st_ports s)]"
    by (rule filter_cong) (auto simp: s' upd_port_def)
  ultimately show "changed_from (st_first_changed_port s) s = i # changed_from (i + 1) s'"
    using u(3) by (simp add: changed_from_def split len)
qed

lemma get_changed_port_None:
  assumes "stp_get_changed_port s = (None, s')"
  shows "changed_from (st_first_changed_port s) s = []"
    "st_first_changed_port s' = length (st_ports s')" "length (st_ports s') = length (st_ports s)"
  using assms
  by (auto simp: stp_get_changed_port_def Let_def changed_from_def filter_empty_conv find_upt_None
      split: option.splits)

lemma drain_changed:
  "changed_inv s \<Longrightarrow> length (st_ports s) - st_first_changed_port s < n \<Longrightarrow>
   fst (stp_drain n s) = changed_from (st_first_changed_port s) s \<and>
   changed_inv (snd (stp_drain n s)) \<and>
   st_first_changed_port (snd (stp_drain n s)) = length (st_ports s) \<and>
   length (st_ports (snd (stp_drain n s))) = length (st_ports s)"
proof (induction n arbitrary: s)
  case (Suc n)
  have inv': "changed_inv (snd (stp_get_changed_port s))"
    by (rule get_changed_port_changed_inv [OF Suc.prems(1)])
  show ?case
  proof (cases "fst (stp_get_changed_port s)")
    case None
    then have e: "stp_get_changed_port s = (None, snd (stp_get_changed_port s))" by (metis prod.collapse)
    from get_changed_port_None [OF e] inv' show ?thesis by (subst (1 2 3 4) stp_drain.simps, subst (1 2 3 4) e) simp
  next
    case (Some i)
    then have e: "stp_get_changed_port s = (Some i, snd (stp_get_changed_port s))" by (metis prod.collapse)
    let ?s' = "snd (stp_get_changed_port s)"
    note g = get_changed_port_Some [OF e]
    have "length (st_ports ?s') - st_first_changed_port ?s' < n" using g Suc.prems(2) by simp
    note IH = Suc.IH [OF inv' this]
    have "stp_drain (Suc n) s = apfst ((#) i) (stp_drain n ?s')" by (subst stp_drain.simps, subst e) simp
    with IH g show ?thesis by simp
  qed
qed simp

text \<open>
   change of a port state is reported exactly once: in any reachable state, calling
  \<open>stp_get_changed_port\<close> until it finds nothing yields the changed ports in ascending order, takes at
  most one call more than there are ports, and leaves no changed port behind.
\<close>

theorem stp_changes_reported:
  assumes "stp_reachable s" "length (st_ports s) < n"
  shows "fst (stp_drain n s) = filter (\<lambda>i. sp_state_changed (port s i)) [0 ..< length (st_ports s)] \<and>
    (\<forall>i < length (st_ports s). \<not> sp_state_changed (port (snd (stp_drain n s)) i))"
proof -
  have "stp_inv s" using stp_machine.reachable_inv assms(1) by (simp add: stp_reachable_def)
  then have inv: "changed_inv s" by (simp add: stp_inv_def)
  then have f: "st_first_changed_port s \<le> length (st_ports s)" by (simp add: changed_inv_def)
  have "[0 ..< length (st_ports s)] = [0 ..< st_first_changed_port s] @ [st_first_changed_port s ..< length (st_ports s)]"
    using f by (metis le_add_diff_inverse upt_add_eq_append zero_le)
  moreover have "filter (\<lambda>i. sp_state_changed (port s i)) [0 ..< st_first_changed_port s] = []"
  proof -
    have "\<not> sp_state_changed (port s i)" if "i < st_first_changed_port s" for i
      using inv f that by (meson changed_inv_def leD order_less_le_trans)
    then show ?thesis by (simp add: filter_empty_conv)
  qed
  ultimately have "filter (\<lambda>i. sp_state_changed (port s i)) [0 ..< length (st_ports s)]
      = changed_from (st_first_changed_port s) s" by (simp add: changed_from_def)
  moreover have "length (st_ports s) - st_first_changed_port s < n" using assms(2) by simp
  note drain_changed [OF inv this]
  moreover from this have "\<forall>i < length (st_ports s). \<not> sp_state_changed (port (snd (stp_drain n s)) i)"
    by (auto simp: changed_inv_def)
  ultimately show ?thesis by simp
qed

theorem stp_changes_reported_witness:
  "fst (stp_drain 256 (stp_create ''br0'' 1))
     = filter (\<lambda>i. sp_state_changed (port (stp_create ''br0'' 1) i)) [0 ..< length (st_ports (stp_create ''br0'' 1))]"
proof -
  let ?s = "stp_create ''br0'' 1"
  have r: "stp_reachable ?s" unfolding stp_reachable_def by (rule reachable_start) blast
  have "length (st_ports ?s) = 255" by (rule create_length)
  then show ?thesis using stp_changes_reported [OF r, of 256] by simp
qed

section \<open>Timers\<close>

lemma ms_to_timer_exact: "0 \<le> ms \<Longrightarrow> ms \<le> 8388607 \<Longrightarrow> ms_to_timer ms = ms * 256 div 1000"
  by (simp add: ms_to_timer_def c_div_pos)

lemma timer_to_ms_exact: "0 \<le> t \<Longrightarrow> t \<le> 2147483 \<Longrightarrow> timer_to_ms t = t * 1000 div 256"
  by (simp add: timer_to_ms_def c_div_pos)

text \<open>
  C31: Bridge timers. Whatever times are requested, the bridge hello time is between 1 and 10 s, the
  bridge maximal age between 6 and 40 s and the bridge forward delay between 4 and 30 s (in ticks of
  1/256 s); the maximal age is at least twice the hello time plus 2 s. The second relation that the
  comments promise, 2 * (bridge_forward_delay - 1 s) >= bridge_max_age, holds up to 2 ticks.
\<close>

theorem stp_bridge_timers_bounds:
  assumes "s' = stp_update_bridge_timers s"
  shows "256 \<le> st_bridge_hello_time s' \<and> st_bridge_hello_time s' \<le> 2560 \<and>
    1536 \<le> st_bridge_max_age s' \<and> st_bridge_max_age s' \<le> 10240 \<and>
    1024 \<le> st_bridge_forward_delay s' \<and> st_bridge_forward_delay s' \<le> 7680 \<and>
    2 * (st_bridge_hello_time s' + 256) \<le> st_bridge_max_age s' \<and>
    st_bridge_max_age s' \<le> 2 * (st_bridge_forward_delay s' - 256) + 2"
proof -
  define ht where "ht = clamp (st_rq_hello_time s) 1000 10000"
  define ma where "ma = clamp (st_rq_max_age s) (max (2 * (ht + 1000)) 6000) 40000"
  define fd where "fd = clamp (st_rq_forward_delay s) (c_div ma 2 + 1000) 30000"
  have ht: "1000 \<le> ht" "ht \<le> 10000" by (auto simp: ht_def clamp_def)
  have ma: "6000 \<le> ma" "ma \<le> 40000" "2 * (ht + 1000) \<le> ma" using ht by (auto simp: ma_def clamp_def)
  have "c_div ma 2 = ma div 2" using ma by (simp add: c_div_pos)
  then have fd: "ma div 2 + 1000 \<le> fd" "fd \<le> 30000" using ma by (auto simp: fd_def clamp_def)
  have "st_bridge_hello_time s' = ms_to_timer ht \<and> st_bridge_max_age s' = ms_to_timer ma \<and>
      st_bridge_forward_delay s' = ms_to_timer fd"
    by (simp add: assms stp_update_bridge_timers_def Let_def ht_def ma_def fd_def)
  moreover have "ms_to_timer ht = ht * 256 div 1000" "ms_to_timer ma = ma * 256 div 1000"
      "ms_to_timer fd = fd * 256 div 1000"
    using ht ma fd by (simp_all add: ms_to_timer_exact)
  ultimately have e: "st_bridge_hello_time s' = ht * 256 div 1000" "st_bridge_max_age s' = ma * 256 div 1000"
      "st_bridge_forward_delay s' = fd * 256 div 1000" by simp_all
  have d: "st_bridge_hello_time s' * 1000 \<le> ht * 256" "ht * 256 < st_bridge_hello_time s' * 1000 + 1000"
      "st_bridge_max_age s' * 1000 \<le> ma * 256" "ma * 256 < st_bridge_max_age s' * 1000 + 1000"
      "st_bridge_forward_delay s' * 1000 \<le> fd * 256" "fd * 256 < st_bridge_forward_delay s' * 1000 + 1000"
    unfolding e by (simp_all only: int_div_bounds zero_less_numeral)
  have "ma + 1999 \<le> 2 * fd" using fd(1) int_div_bounds(2) [of 2 ma] by linarith
  moreover have "4000 \<le> fd" using fd(1) ma(1) by linarith
  moreover have "2 * (st_bridge_hello_time s' + 256) \<le> st_bridge_max_age s'"
    using d(1,4) ma(3) by (simp add: distrib_left)
  moreover have "st_bridge_max_age s' \<le> 2 * (st_bridge_forward_delay s' - 256) + 2"
    using d(3,6) \<open>ma + 1999 \<le> 2 * fd\<close> by (simp add: right_diff_distrib)
  ultimately show ?thesis using d ht ma(1,2) fd(2) by (intro conjI) linarith+
qed

text \<open>With a maximal age of 6004 ms the second relation fails by one tick.\<close>

theorem stp_bridge_timers_bounds_witness:
  "st_bridge_max_age (stp_set_forward_delay (stp_set_max_age (stp_set_hello_time zero_stp 1000) 6004) 0)
     = 2 * (st_bridge_forward_delay (stp_set_forward_delay (stp_set_max_age (stp_set_hello_time zero_stp 1000) 6004) 0) - 256) + 1 \<and>
   st_bridge_max_age (stp_set_forward_delay (stp_set_max_age (stp_set_hello_time zero_stp 1000) 6004) 0) \<le> 10240"
proof -
  let ?s = "(stp_set_max_age (stp_set_hello_time zero_stp 1000) 6004)\<lparr>st_rq_forward_delay := 0\<rparr>"
  have "stp_update_bridge_timers ?s = stp_set_forward_delay (stp_set_max_age (stp_set_hello_time zero_stp 1000) 6004) 0"
    by (simp add: stp_set_forward_delay_def)
  moreover have "st_bridge_max_age (stp_update_bridge_timers ?s)
      = 2 * (st_bridge_forward_delay (stp_update_bridge_timers ?s) - 256) + 1"
    by code_simp
  ultimately show ?thesis using stp_bridge_timers_bounds [OF refl, of ?s] by simp
qed

section \<open>Time\<close>

text \<open>The ticks that a sequence of calls of \<open>stp_tick\<close> lets pass, and the remainder it leaves.\<close>

fun tick_total :: "int \<Rightarrow> int list \<Rightarrow> int \<times> int" where
  "tick_total r [] = (0, r)"
| "tick_total r (ms # mss) =
     (let (elapsed, r) = tick_elapsed r ms in apfst ((+) elapsed) (tick_total r mss))"

lemma tick_elapsed_exact:
  assumes "0 \<le> ms" "ms \<le> 8388600" "0 \<le> r" "r \<le> 4"
  shows "tick_elapsed r ms = ((ms + r) * 256 div 1000, ms + r - (ms + r) * 256 div 1000 * 1000 div 256)"
proof -
  let ?e = "(ms + r) * 256 div 1000"
  have "0 \<le> ?e" "?e \<le> 2147483" using assms by auto
  then have "timer_to_ms ?e = ?e * 1000 div 256" "0 \<le> ?e * 1000 div 256" "?e * 1000 div 256 \<le> ms + r"
    using assms by (auto simp: timer_to_ms_exact)
  then show ?thesis using assms
    by (simp add: tick_elapsed_def clamp_def ms_to_timer_exact Let_def)
qed

text \<open>One call: what it lets pass and what it keeps.\<close>

lemma tick_elapsed_drift:
  assumes "0 \<le> ms" "ms \<le> 8388600" "0 \<le> r" "r \<le> 4" "tick_elapsed r ms = (e, r')"
  shows "0 \<le> r'" "r' \<le> 4" "0 \<le> e" "256 * (ms + r - r') \<le> 1000 * e" "1000 * e \<le> 256 * (ms + r - r') + 255"
proof -
  have e: "e = (ms + r) * 256 div 1000" "r' = ms + r - e * 1000 div 256"
    using tick_elapsed_exact [OF assms(1-4)] assms(5) by auto
  have b: "e * 1000 \<le> (ms + r) * 256" "(ms + r) * 256 < e * 1000 + 1000"
    unfolding e(1) by (simp_all only: int_div_bounds zero_less_numeral)
  define q where "q = e * 1000 div 256"
  have "q * 256 \<le> e * 1000" "e * 1000 < q * 256 + 256"
    unfolding q_def by (simp_all only: int_div_bounds zero_less_numeral)
  moreover show "0 \<le> e" using assms unfolding e(1) by simp
  moreover note b [unfolded distrib_right]
  moreover have "r' = ms + r - q" using e(2) by (simp add: q_def)
  ultimately show "0 \<le> r'" "r' \<le> 4" "256 * (ms + r - r') \<le> 1000 * e" "1000 * e \<le> 256 * (ms + r - r') + 255"
    by (simp_all add: right_diff_distrib distrib_left)
qed

text \<open>
  The clock of a bridge. Over any sequence of calls of \<open>stp_tick\<close> no time is lost: the ticks of
  1/256 s that have passed and the remainder that is kept account for all the milliseconds given; and
  the rounding makes the clock run fast by less than one millisecond per call.
\<close>

theorem stp_tick_drift:
  assumes "list_all (\<lambda>ms. 0 \<le> ms \<and> ms \<le> 8388600) mss" "0 \<le> r" "r \<le> 4" "tick_total r mss = (t, r')"
  shows "0 \<le> r' \<and> r' \<le> 4 \<and> 256 * (sum_list mss + r - r') \<le> 1000 * t \<and>
    1000 * t \<le> 256 * (sum_list mss + r - r') + 255 * int (length mss)"
  using assms
proof (induction mss arbitrary: r t)
  case (Cons ms mss)
  obtain e r1 where e: "tick_elapsed r ms = (e, r1)" by (rule prod.exhaust)
  obtain t1 where t: "tick_total r1 mss = (t1, r')" "t = e + t1"
    using Cons.prems(4) e by (auto simp: apfst_def map_prod_def split: prod.splits)
  have b: "0 \<le> ms" "ms \<le> 8388600" "list_all (\<lambda>ms. 0 \<le> ms \<and> ms \<le> 8388600) mss"
    using Cons.prems(1) by simp_all
  note d = tick_elapsed_drift [OF b(1,2) Cons.prems(2,3) e]
  from Cons.IH [OF b(3) d(1,2) t(1)] d show ?case unfolding t(2) by simp
qed simp

text \<open>Five calls of 4 ms each pass 6 ticks, 23.4 ms instead of 20 ms.\<close>

theorem stp_tick_drift_witness:
  "tick_total 0 [4, 4, 4, 4, 4] = (6, 1) \<and> 1000 * 6 \<le> 256 * (20 - 1) + 255 * (5 :: int)"
proof -
  have e: "tick_total 0 [4, 4, 4, 4, 4] = (6, 1)" by (simp add: tick_elapsed_exact)
  show ?thesis using stp_tick_drift [OF _ _ _ e] e by simp
qed



end
