(* ===== verification/Ovs_List.thy ===== *)
theory Ovs_List
  imports OVS_Prelude
begin

text \<open>
  Doubly linked lists through a head node: lib/list.h and the list macros of ofproto/srv_list.h. The
  nodes live in a store from addresses to nodes. \<open>ring nx pv h xs\<close> says that following the pointers
  from the head \<open>h\<close> visits exactly the nodes \<open>xs\<close> and returns to the head, in both directions. The
  locale \<open>ring_list\<close> is the interface that both implementations provide.
\<close>

section \<open>Rings\<close>

fun arc :: "(addr \<Rightarrow> addr) \<Rightarrow> (addr \<Rightarrow> addr) \<Rightarrow> addr \<Rightarrow> addr list \<Rightarrow> addr \<Rightarrow> bool" where
  "arc nx pv x [] y \<longleftrightarrow> nx x = y \<and> pv y = x"
| "arc nx pv x (z # zs) y \<longleftrightarrow> nx x = z \<and> pv z = x \<and> arc nx pv z zs y"

definition ring :: "(addr \<Rightarrow> addr) \<Rightarrow> (addr \<Rightarrow> addr) \<Rightarrow> addr \<Rightarrow> addr list \<Rightarrow> bool" where
  "ring nx pv h xs \<longleftrightarrow> distinct (h # xs) \<and> arc nx pv h xs h"

lemma arc_append [simp]: "arc nx pv x (xs @ z # zs) y \<longleftrightarrow> arc nx pv x xs z \<and> arc nx pv z zs y"
  by (induction xs arbitrary: x) auto

lemma arc_frame:
  assumes "\<And>a. a \<in> insert x (set xs) \<Longrightarrow> nx' a = nx a" "\<And>a. a \<in> insert y (set xs) \<Longrightarrow> pv' a = pv a"
  shows "arc nx' pv' x xs y = arc nx pv x xs y"
  using assms by (induction xs arbitrary: x) auto

lemma arc_upd_next [simp]: "a \<noteq> x \<Longrightarrow> a \<notin> set xs \<Longrightarrow> arc (nx(a := v)) pv x xs y = arc nx pv x xs y"
  by (rule arc_frame) auto

lemma arc_upd_prev [simp]: "a \<noteq> y \<Longrightarrow> a \<notin> set xs \<Longrightarrow> arc nx (pv(a := v)) x xs y = arc nx pv x xs y"
  by (rule arc_frame) auto

lemma arc_prev: "arc nx pv x xs y \<Longrightarrow> pv y = last (x # xs)"
  by (induction xs arbitrary: x) auto

lemma arc_next: "arc nx pv x xs y \<Longrightarrow> nx x = hd (xs @ [y]) \<and> pv (hd (xs @ [y])) = x"
  by (cases xs) auto

lemma ring_frame:
  "(\<And>a. a \<in> insert h (set xs) \<Longrightarrow> nx' a = nx a \<and> pv' a = pv a) \<Longrightarrow> ring nx' pv' h xs = ring nx pv h xs"
  unfolding ring_def by (subst arc_frame [of _ _ nx' nx _ pv' pv]) auto

lemma ring_head: "ring nx pv h xs \<Longrightarrow> nx h = hd (xs @ [h]) \<and> pv h = last (h # xs)"
  unfolding ring_def using arc_next arc_prev by blast

lemma ring_neighbours:
  assumes "ring nx pv h (xs @ e # ys)"
  shows "pv e = last (h # xs)" "nx e = hd (ys @ [h])" "pv e \<noteq> e" "nx e \<noteq> e"
proof -
  show p: "pv e = last (h # xs)" and n: "nx e = hd (ys @ [h])"
    using assms arc_prev [of nx pv h xs e] arc_next [of nx pv e ys h] by (simp_all add: ring_def)
  have "last (h # xs) \<in> insert h (set xs)" "hd (ys @ [h]) \<in> insert h (set ys)"
    using hd_in_set [of "ys @ [h]"] by auto
  with assms show "pv e \<noteq> e" "nx e \<noteq> e" unfolding p n by (auto simp: ring_def)
qed

lemma ring_closed:
  assumes "ring nx pv h xs" "a \<in> insert h (set xs)"
  shows "nx a \<in> insert h (set xs)" "pv a \<in> insert h (set xs)"
proof -
  have "nx a \<in> insert h (set xs) \<and> pv a \<in> insert h (set xs)"
  proof (cases "a = h")
    case True
    then show ?thesis using ring_head [OF assms(1)] by (cases xs) auto
  next
    case False
    then obtain us vs where "xs = us @ a # vs" using assms(2) by (metis insertE split_list)
    with assms(1) ring_neighbours [of nx pv h us a vs]
    have "nx a = hd (vs @ [h])" "pv a = last (h # us)" and xs: "xs = us @ a # vs" by simp_all
    moreover have "hd (vs @ [h]) \<in> insert h (set vs)" by (cases vs) auto
    moreover have "last (h # us) \<in> insert h (set us)" by auto
    ultimately show ?thesis by auto
  qed
  then show "nx a \<in> insert h (set xs)" "pv a \<in> insert h (set xs)" by blast+
qed

text \<open>Inserting a node before another, and bypassing a node.\<close>

lemma ring_insert:
  assumes "ring nx pv h (xs @ ys)" "e \<notin> insert h (set (xs @ ys))" "b = hd (ys @ [h])"
  shows "ring (nx(e := b, pv b := e)) (pv(e := pv b, b := e)) h (xs @ e # ys)"
proof (cases xs rule: rev_exhaust)
  case Nil
  then show ?thesis using assms by (cases ys) (auto simp: ring_def)
next
  case (snoc xs' p)
  then show ?thesis using assms by (cases ys) (auto simp: ring_def)
qed

lemma ring_bypass:
  assumes "ring nx pv h (xs @ e # ys)"
  shows "ring (nx(pv e := nx e)) (pv(nx e := pv e)) h (xs @ ys)"
proof (cases xs rule: rev_exhaust)
  case Nil
  then show ?thesis using assms by (cases ys) (auto simp: ring_def)
next
  case (snoc xs' p)
  then show ?thesis using assms by (cases ys) (auto simp: ring_def)
qed

section \<open>Specification: several plain lists\<close>

text \<open>A collection of lists: each head with the nodes of its list.\<close>

type_synonym lists = "(addr \<times> addr list) list"

definition nodes_of :: "lists \<Rightarrow> addr list" where
  "nodes_of L = concat (map (\<lambda>(h, xs). h # xs) L)"

definition rings :: "(addr \<Rightarrow> addr) \<Rightarrow> (addr \<Rightarrow> addr) \<Rightarrow> lists \<Rightarrow> bool" where
  "rings nx pv L \<longleftrightarrow> distinct (nodes_of L) \<and> list_all (\<lambda>(h, xs). ring nx pv h xs) L"

text \<open>Inserting a node before another one of a list; before the head means at the end.\<close>

fun put_before :: "addr \<Rightarrow> addr \<Rightarrow> addr list \<Rightarrow> addr list" where
  "put_before b e [] = []"
| "put_before b e (x # xs) = (if x = b then e # x # xs else x # put_before b e xs)"

definition put_in :: "addr \<Rightarrow> addr \<Rightarrow> addr \<times> addr list \<Rightarrow> addr \<times> addr list" where
  "put_in b e = (\<lambda>(h, xs). (h, if b = h then xs @ [e] else put_before b e xs))"

datatype list_op = Init addr | Insert addr addr | Push_front addr addr | Push_back addr addr
  | Remove addr | Pop_front addr | Pop_back addr

fun lists_step :: "list_op \<Rightarrow> lists \<Rightarrow> lists option" where
  "lists_step (Init h) L = (if h \<in> set (nodes_of L) then None else Some ((h, []) # L))"
| "lists_step (Insert b e) L =
     (if e \<in> set (nodes_of L) \<or> b \<notin> set (nodes_of L) then None else Some (map (put_in b e) L))"
| "lists_step (Push_front h e) L =
     (if e \<in> set (nodes_of L) \<or> h \<notin> fst ` set L then None
      else Some (map (\<lambda>(h', xs). (h', if h' = h then e # xs else xs)) L))"
| "lists_step (Push_back h e) L =
     (if e \<in> set (nodes_of L) \<or> h \<notin> fst ` set L then None
      else Some (map (\<lambda>(h', xs). (h', if h' = h then xs @ [e] else xs)) L))"
| "lists_step (Remove e) L =
     (if e \<notin> set (nodes_of L) \<or> e \<in> fst ` set L then None
      else Some (map (\<lambda>(h, xs). (h, removeAll e xs)) L))"
| "lists_step (Pop_front h) L =
     (case map_of L h of None \<Rightarrow> None | Some [] \<Rightarrow> None
      | Some (x # xs) \<Rightarrow> Some (map (\<lambda>(h', ys). (h', if h' = h then xs else ys)) L))"
| "lists_step (Pop_back h) L =
     (case map_of L h of None \<Rightarrow> None | Some xs \<Rightarrow>
        if xs = [] then None else Some (map (\<lambda>(h', ys). (h', if h' = h then butlast xs else ys)) L))"

fun lists_run :: "list_op list \<Rightarrow> lists \<Rightarrow> lists option" where
  "lists_run [] L = Some L"
| "lists_run (op # ops) L = Option.bind (lists_step op L) (lists_run ops)"

lemma nodes_of_simps [simp]:
  "nodes_of [] = []" "nodes_of ((h, xs) # L) = h # xs @ nodes_of L"
  "nodes_of (A @ B) = nodes_of A @ nodes_of B"
  by (simp_all add: nodes_of_def)

lemma nodes_of_iff: "a \<in> set (nodes_of L) \<longleftrightarrow> (\<exists>(h, xs) \<in> set L. a \<in> insert h (set xs))"
  by (auto simp: nodes_of_def)

lemma rings_simps:
  "rings nx pv []"
  "rings nx pv (A @ (h, xs) # B) \<longleftrightarrow> ring nx pv h xs \<and> rings nx pv (A @ B) \<and>
     distinct (h # xs) \<and> insert h (set xs) \<inter> set (nodes_of (A @ B)) = {}"
  by (auto simp: rings_def)

text \<open>Changing one list of a collection: the pointers of the others are left alone.\<close>

lemma rings_change:
  assumes "rings nx pv (A @ (h, xs) # B)"
    and "ring nx' pv' h ys" "set ys \<inter> set (nodes_of (A @ B)) = {}"
    and "\<And>a. a \<in> set (nodes_of (A @ B)) \<Longrightarrow> nx' a = nx a \<and> pv' a = pv a"
  shows "rings nx' pv' (A @ (h, ys) # B)"
proof -
  have r: "rings nx pv (A @ B)" "h \<notin> set (nodes_of (A @ B))" using assms(1) by (auto simp: rings_simps)
  have "ring nx' pv' k zs = ring nx pv k zs" if "(k, zs) \<in> set (A @ B)" for k zs
    by (rule ring_frame, rule assms(4)) (use that in \<open>auto simp: nodes_of_iff\<close>)
  with r have "rings nx' pv' (A @ B)" by (fastforce simp: rings_def list_all_iff)
  moreover have "distinct (h # ys)" using assms(2) by (simp add: ring_def)
  ultimately show ?thesis using assms(2,3) r by (auto simp: rings_simps)
qed

lemma put_before_split: "b \<notin> set xs \<Longrightarrow> put_before b e (xs @ b # ys) = xs @ e # b # ys"
  by (induction xs) auto

lemma put_before_notin: "b \<notin> set xs \<Longrightarrow> put_before b e xs = xs"
  by (induction xs) auto

lemma map_unchanged: "(\<And>p. p \<in> set L \<Longrightarrow> f p = p) \<Longrightarrow> map f L = L"
  by (rule map_idI)

lemma put_in_others:
  "b \<notin> set (nodes_of L) \<Longrightarrow> map (put_in b e) L = L"
  by (rule map_unchanged) (auto simp: put_in_def nodes_of_iff intro!: put_before_notin)

lemma remove_others:
  "e \<notin> set (nodes_of L) \<Longrightarrow> map (\<lambda>(h, xs). (h, removeAll e xs)) L = L"
  by (rule map_unchanged) (force simp: nodes_of_iff)

lemma change_others:
  "h \<notin> fst ` set L \<Longrightarrow> map (\<lambda>(h', xs). (h', if h' = h then f xs else xs)) L = L"
  by (rule map_unchanged) force

lemma lists_split:
  assumes "a \<in> set (nodes_of L)"
  obtains A h xs B where "L = A @ (h, xs) # B" "a \<in> insert h (set xs)"
  using assms unfolding nodes_of_iff by (metis case_prodE split_list)

section \<open>Interface\<close>

locale ring_list =
  fixes nxt prv :: "'m \<Rightarrow> addr \<Rightarrow> addr"
    and init :: "addr \<Rightarrow> 'm \<Rightarrow> 'm"
    and insert_before :: "addr \<Rightarrow> addr \<Rightarrow> 'm \<Rightarrow> 'm"
    and unlink :: "addr \<Rightarrow> 'm \<Rightarrow> 'm"
  assumes init_ring: "ring (nxt (init h m)) (prv (init h m)) h []"
    and init_frame: "a \<noteq> h \<Longrightarrow> nxt (init h m) a = nxt m a \<and> prv (init h m) a = prv m a"
    and insert_ring: "ring (nxt m) (prv m) h (xs @ ys) \<Longrightarrow> e \<notin> insert h (set (xs @ ys)) \<Longrightarrow>
      ring (nxt (insert_before (hd (ys @ [h])) e m)) (prv (insert_before (hd (ys @ [h])) e m)) h (xs @ e # ys)"
    and insert_frame: "b \<noteq> e \<Longrightarrow> a \<notin> {b, e, prv m b} \<Longrightarrow>
      nxt (insert_before b e m) a = nxt m a \<and> prv (insert_before b e m) a = prv m a"
    and unlink_ring: "ring (nxt m) (prv m) h (xs @ e # ys) \<Longrightarrow>
      ring (nxt (unlink e m)) (prv (unlink e m)) h (xs @ ys)"
    and unlink_frame: "a \<notin> {e, nxt m e, prv m e} \<Longrightarrow> nxt (unlink e m) a = nxt m a \<and> prv (unlink e m) a = prv m a"
begin

fun list_exec :: "list_op \<Rightarrow> 'm \<Rightarrow> 'm" where
  "list_exec (Init h) m = init h m"
| "list_exec (Insert b e) m = insert_before b e m"
| "list_exec (Push_front h e) m = insert_before (nxt m h) e m"
| "list_exec (Push_back h e) m = insert_before h e m"
| "list_exec (Remove e) m = unlink e m"
| "list_exec (Pop_front h) m = unlink (nxt m h) m"
| "list_exec (Pop_back h) m = unlink (prv m h) m"

fun list_run :: "list_op list \<Rightarrow> 'm \<Rightarrow> 'm" where
  "list_run [] m = m"
| "list_run (op # ops) m = list_run ops (list_exec op m)"

abbreviation holds :: "'m \<Rightarrow> lists \<Rightarrow> bool" where
  "holds m L \<equiv> rings (nxt m) (prv m) L"

lemma insert_holds:
  assumes "holds m (A @ (h, xs @ ys) # B)" "e \<notin> set (nodes_of (A @ (h, xs @ ys) # B))"
  shows "holds (insert_before (hd (ys @ [h])) e m) (A @ (h, xs @ e # ys) # B)"
proof (rule rings_change [OF assms(1)])
  let ?b = "hd (ys @ [h])"
  have r: "ring (nxt m) (prv m) h (xs @ ys)" and d: "insert h (set (xs @ ys)) \<inter> set (nodes_of (A @ B)) = {}"
    using assms(1) by (simp_all add: rings_simps)
  have b: "?b \<in> insert h (set (xs @ ys))" by (cases ys) auto
  show "ring (nxt (insert_before ?b e m)) (prv (insert_before ?b e m)) h (xs @ e # ys)"
    using assms(2) by (intro insert_ring r) auto
  show "set (xs @ e # ys) \<inter> set (nodes_of (A @ B)) = {}" using d assms(2) by auto
  fix a assume a: "a \<in> set (nodes_of (A @ B))"
  have "prv m ?b \<in> insert h (set (xs @ ys))" by (rule ring_closed(2) [OF r b])
  moreover have "a \<notin> insert h (set (xs @ ys))" using a d by blast
  moreover have "e \<notin> insert h (set (xs @ ys))" "a \<noteq> e" using a assms(2) by auto
  ultimately have "?b \<noteq> e" "a \<notin> {?b, e, prv m ?b}" using b by blast+
  then show "nxt (insert_before ?b e m) a = nxt m a \<and> prv (insert_before ?b e m) a = prv m a"
    by (rule insert_frame)
qed

lemma unlink_holds:
  assumes "holds m (A @ (h, xs @ e # ys) # B)"
  shows "holds (unlink e m) (A @ (h, xs @ ys) # B)"
proof (rule rings_change [OF assms(1)])
  have r: "ring (nxt m) (prv m) h (xs @ e # ys)" and d: "insert h (set (xs @ e # ys)) \<inter> set (nodes_of (A @ B)) = {}"
    using assms(1) by (simp_all add: rings_simps)
  show "ring (nxt (unlink e m)) (prv (unlink e m)) h (xs @ ys)" by (rule unlink_ring [OF r])
  show "set (xs @ ys) \<inter> set (nodes_of (A @ B)) = {}" using d by auto
  fix a assume a: "a \<in> set (nodes_of (A @ B))"
  have "nxt m e \<in> insert h (set (xs @ e # ys))" "prv m e \<in> insert h (set (xs @ e # ys))"
    by (rule ring_closed [OF r], simp)+
  moreover have "e \<in> insert h (set (xs @ e # ys))" by simp
  ultimately have "a \<notin> {e, nxt m e, prv m e}" using a d by blast
  then show "nxt (unlink e m) a = nxt m a \<and> prv (unlink e m) a = prv m a" by (rule unlink_frame)
qed

lemma init_holds:
  assumes "holds m L" "h \<notin> set (nodes_of L)"
  shows "holds (init h m) ((h, []) # L)"
proof -
  have "ring (nxt (init h m)) (prv (init h m)) k zs" if "(k, zs) \<in> set L" for k zs
  proof (subst ring_frame [of k zs _ "nxt m" _ "prv m"])
    show "nxt (init h m) a = nxt m a \<and> prv (init h m) a = prv m a" if "a \<in> insert k (set zs)" for a
      using init_frame [of a h m] that \<open>(k, zs) \<in> set L\<close> assms(2) by (auto simp: nodes_of_iff)
    show "ring (nxt m) (prv m) k zs" using assms(1) that by (auto simp: rings_def list_all_iff)
  qed
  then show ?thesis using assms init_ring [of h m] by (auto simp: rings_def list_all_iff)
qed

text \<open>A list of the collection, with the others around it.\<close>

lemma holds_list:
  assumes "holds m L" "map_of L h = Some xs"
  obtains A B where "L = A @ (h, xs) # B" "h \<notin> fst ` set (A @ B)" "ring (nxt m) (prv m) h xs"
proof -
  obtain A B where L: "L = A @ (h, xs) # B" using assms(2) map_of_SomeD by (metis split_list)
  then have r: "ring (nxt m) (prv m) h xs" "h \<notin> set (nodes_of (A @ B))"
    using assms(1) by (auto simp: rings_simps)
  then have "h \<notin> fst ` set (A @ B)" by (force simp: nodes_of_iff)
  with L r show thesis by (intro that)
qed

lemma step_holds:
  assumes "holds m L" "lists_step op L = Some L'"
  shows "holds (list_exec op m) L'"
proof (cases op)
  case (Init h)
  then show ?thesis using assms init_holds [of m L h] by (auto split: if_splits)
next
  case (Insert b e)
  with assms(2) have e: "e \<notin> set (nodes_of L)" and b: "b \<in> set (nodes_of L)" and L': "L' = map (put_in b e) L"
    by (auto split: if_splits)
  from b obtain A h xs B where L: "L = A @ (h, xs) # B" and bx: "b \<in> insert h (set xs)" by (rule lists_split)
  have o: "map (put_in b e) A = A" "map (put_in b e) B = B"
    using assms(1) bx by (auto intro!: put_in_others simp: L rings_simps)
  show ?thesis
  proof (cases "b = h")
    case True
    then have "put_in b e (h, xs) = (h, xs @ [e])" by (simp add: put_in_def)
    then show ?thesis using insert_holds [of m A h xs "[]" B e] assms(1) e
      by (simp add: L L' o Insert) (simp add: True)
  next
    case False
    then obtain us vs where xs: "xs = us @ b # vs" using bx by (metis insertE split_list)
    have "distinct xs" using assms(1) by (simp add: L rings_simps)
    then have "put_in b e (h, xs) = (h, us @ e # b # vs)" using False
      by (simp add: xs put_in_def put_before_split)
    then show ?thesis using insert_holds [of m A h us "b # vs" B e] assms(1) e
      by (simp add: L L' o Insert xs)
  qed
next
  case (Push_front h e)
  with assms(2) have e: "e \<notin> set (nodes_of L)" and "h \<in> fst ` set L"
    and L': "L' = map (\<lambda>(h', xs). (h', if h' = h then e # xs else xs)) L"
    by (simp_all split: if_splits)
  then obtain xs where h: "map_of L h = Some xs" by (metis map_of_eq_None_iff option.exhaust)
  obtain A B where L: "L = A @ (h, xs) # B" "h \<notin> fst ` set (A @ B)" "ring (nxt m) (prv m) h xs"
    by (rule holds_list [OF assms(1) h])
  have "L' = A @ (h, e # xs) # B"
    using L(2) change_others [of h A "(#) e"] change_others [of h B "(#) e"] by (simp add: L' L(1) image_Un)
  then show ?thesis using insert_holds [of m A h "[]" xs B e] assms(1) e L ring_head [OF L(3)]
    by (simp add: Push_front)
next
  case (Push_back h e)
  with assms(2) have e: "e \<notin> set (nodes_of L)" and "h \<in> fst ` set L"
    and L': "L' = map (\<lambda>(h', xs). (h', if h' = h then xs @ [e] else xs)) L"
    by (simp_all split: if_splits)
  then obtain xs where h: "map_of L h = Some xs" by (metis map_of_eq_None_iff option.exhaust)
  obtain A B where L: "L = A @ (h, xs) # B" "h \<notin> fst ` set (A @ B)" "ring (nxt m) (prv m) h xs"
    by (rule holds_list [OF assms(1) h])
  have "L' = A @ (h, xs @ [e]) # B"
    using L(2) change_others [of h A "\<lambda>xs. xs @ [e]"] change_others [of h B "\<lambda>xs. xs @ [e]"]
    by (simp add: L' L(1) image_Un)
  then show ?thesis using insert_holds [of m A h xs "[]" B e] assms(1) e L by (simp add: Push_back)
next
  case (Remove e)
  with assms(2) have e: "e \<in> set (nodes_of L)" "e \<notin> fst ` set L" and L': "L' = map (\<lambda>(h, xs). (h, removeAll e xs)) L"
    by (auto split: if_splits)
  from e(1) obtain A h xs B where L: "L = A @ (h, xs) # B" and ex: "e \<in> insert h (set xs)" by (rule lists_split)
  with e(2) obtain us vs where xs: "xs = us @ e # vs" by (metis fst_conv image_eqI in_set_conv_decomp insertE)
  have d: "distinct xs" "e \<notin> set (nodes_of A)" "e \<notin> set (nodes_of B)"
    using assms(1) ex by (auto simp: L rings_simps)
  then have "L' = A @ (h, us @ vs) # B" by (simp add: L' L remove_others xs)
  then show ?thesis using unlink_holds [of m A h us e vs B] assms(1) by (simp add: Remove L xs)
next
  case (Pop_front h)
  with assms(2) obtain x xs where h: "map_of L h = Some (x # xs)"
    and L': "L' = map (\<lambda>(h', ys). (h', if h' = h then xs else ys)) L"
    by (auto split: option.splits list.splits)
  obtain A B where L: "L = A @ (h, x # xs) # B" "h \<notin> fst ` set (A @ B)" "ring (nxt m) (prv m) h (x # xs)"
    by (rule holds_list [OF assms(1) h])
  have "L' = A @ (h, xs) # B" using L(2) change_others [of h A "\<lambda>_. xs"] change_others [of h B "\<lambda>_. xs"]
    by (simp add: L' L(1) image_Un)
  then show ?thesis using unlink_holds [of m A h "[]" x xs B] assms(1) L ring_head [OF L(3)] by (simp add: Pop_front)
next
  case (Pop_back h)
  with assms(2) obtain xs x where h: "map_of L h = Some (xs @ [x])"
    and L': "L' = map (\<lambda>(h', ys). (h', if h' = h then xs else ys)) L"
    by (auto split: option.splits if_splits) (metis append_butlast_last_id)
  obtain A B where L: "L = A @ (h, xs @ [x]) # B" "h \<notin> fst ` set (A @ B)" "ring (nxt m) (prv m) h (xs @ [x])"
    by (rule holds_list [OF assms(1) h])
  have "L' = A @ (h, xs) # B" using L(2) change_others [of h A "\<lambda>_. xs"] change_others [of h B "\<lambda>_. xs"]
    by (simp add: L' L(1) image_Un)
  then show ?thesis using unlink_holds [of m A h xs x "[]" B] assms(1) L ring_head [OF L(3)] by (simp add: Pop_back)
qed

lemma run_holds: "holds m L \<Longrightarrow> lists_run ops L = Some L' \<Longrightarrow> holds (list_run ops m) L'"
  by (induction ops arbitrary: m L) (auto simp: bind_eq_Some_conv intro: step_holds)

end

section \<open>lib/list.h\<close>

record ovs_list =
  ol_prev :: addr
  ol_next :: addr

type_synonym list_mem = "addr \<Rightarrow> ovs_list"

abbreviation next_of :: "list_mem \<Rightarrow> addr \<Rightarrow> addr" where "next_of m \<equiv> \<lambda>a. ol_next (m a)"
abbreviation prev_of :: "list_mem \<Rightarrow> addr \<Rightarrow> addr" where "prev_of m \<equiv> \<lambda>a. ol_prev (m a)"

definition set_next :: "addr \<Rightarrow> addr \<Rightarrow> list_mem \<Rightarrow> list_mem" where
  "set_next a v m = m(a := m a\<lparr>ol_next := v\<rparr>)"

definition set_prev :: "addr \<Rightarrow> addr \<Rightarrow> list_mem \<Rightarrow> list_mem" where
  "set_prev a v m = m(a := m a\<lparr>ol_prev := v\<rparr>)"

lemma set_fields [simp]:
  "ol_next (set_next a v m x) = (if x = a then v else ol_next (m x))" "ol_prev (set_next a v m x) = ol_prev (m x)"
  "ol_next (set_prev a v m x) = ol_next (m x)" "ol_prev (set_prev a v m x) = (if x = a then v else ol_prev (m x))"
  by (auto simp: set_next_def set_prev_def)

definition list_init :: "addr \<Rightarrow> list_mem \<Rightarrow> list_mem" where
  "list_init list m = set_next list list (set_prev list list m)"

definition list_poison :: "addr \<Rightarrow> list_mem \<Rightarrow> list_mem" where
  "list_poison list m = m(list := \<lparr>ol_prev = 0xcccccccccccccccc, ol_next = 0xcccccccccccccccc\<rparr>)"

definition list_insert :: "addr \<Rightarrow> addr \<Rightarrow> list_mem \<Rightarrow> list_mem" where
  "list_insert before elem m =
     (let m = set_prev elem (prev_of m before) m;
          m = set_next elem before m;
          m = set_next (prev_of m before) elem m
      in set_prev before elem m)"

definition list_splice :: "addr \<Rightarrow> addr \<Rightarrow> addr \<Rightarrow> list_mem \<Rightarrow> list_mem" where
  "list_splice before first final m =
     (if first = final then m
      else
        let final = prev_of m final;
            m = set_next (prev_of m first) (next_of m final) m;
            m = set_prev (next_of m final) (prev_of m first) m;
            m = set_prev first (prev_of m before) m;
            m = set_next final before m;
            m = set_next (prev_of m before) first m
        in set_prev before final m)"

definition list_push_front :: "addr \<Rightarrow> addr \<Rightarrow> list_mem \<Rightarrow> list_mem" where
  "list_push_front list elem m = list_insert (next_of m list) elem m"

definition list_push_back :: "addr \<Rightarrow> addr \<Rightarrow> list_mem \<Rightarrow> list_mem" where
  "list_push_back list elem m = list_insert list elem m"

definition list_replace :: "addr \<Rightarrow> addr \<Rightarrow> list_mem \<Rightarrow> list_mem" where
  "list_replace element position m =
     (let m = set_next element (next_of m position) m;
          m = set_prev (next_of m element) element m;
          m = set_prev element (prev_of m position) m
      in set_next (prev_of m element) element m)"

definition list_moved :: "addr \<Rightarrow> addr \<Rightarrow> list_mem \<Rightarrow> list_mem" where
  "list_moved list orig m =
     (if next_of m list = orig then list_init list m
      else let m = set_prev (next_of m list) list m in set_next (prev_of m list) list m)"

definition list_move :: "addr \<Rightarrow> addr \<Rightarrow> list_mem \<Rightarrow> list_mem" where
  "list_move dst src m = list_moved dst src (m(dst := m src))"

definition list_remove :: "addr \<Rightarrow> list_mem \<Rightarrow> addr \<times> list_mem" where
  "list_remove elem m =
     (let m = set_next (prev_of m elem) (next_of m elem) m;
          m = set_prev (next_of m elem) (prev_of m elem) m
      in (next_of m elem, m))"

definition list_pop_front :: "addr \<Rightarrow> list_mem \<Rightarrow> addr \<times> list_mem" where
  "list_pop_front list m = (let front = next_of m list in (front, snd (list_remove front m)))"

definition list_pop_back :: "addr \<Rightarrow> list_mem \<Rightarrow> addr \<times> list_mem" where
  "list_pop_back list m = (let back = prev_of m list in (back, snd (list_remove back m)))"

definition list_is_empty :: "list_mem \<Rightarrow> addr \<Rightarrow> bool" where
  "list_is_empty m list \<longleftrightarrow> next_of m list = list"

definition list_is_short :: "list_mem \<Rightarrow> addr \<Rightarrow> bool" where
  "list_is_short m list \<longleftrightarrow> next_of m list = prev_of m list"

definition list_is_singleton :: "list_mem \<Rightarrow> addr \<Rightarrow> bool" where
  "list_is_singleton m list \<longleftrightarrow> list_is_short m list \<and> \<not> list_is_empty m list"

definition list_front :: "list_mem \<Rightarrow> addr \<Rightarrow> addr option" where
  "list_front m list = (if list_is_empty m list then None else Some (next_of m list))"

definition list_back :: "list_mem \<Rightarrow> addr \<Rightarrow> addr option" where
  "list_back m list = (if list_is_empty m list then None else Some (prev_of m list))"

text \<open>The loop of \<open>list_size\<close>, which does not end on a damaged list.\<close>

partial_function (option) list_size_from :: "list_mem \<Rightarrow> addr \<Rightarrow> addr \<Rightarrow> nat \<Rightarrow> nat option" where
  "list_size_from m list e cnt =
     (if e = list then Some cnt else list_size_from m list (next_of m e) (cnt + 1))"

definition list_size :: "list_mem \<Rightarrow> addr \<Rightarrow> nat option" where
  "list_size m list = list_size_from m list (next_of m list) 0"

lemma size_from_arc:
  "arc (next_of m) (prev_of m) x xs h \<Longrightarrow> h \<notin> set xs \<Longrightarrow> list_size_from m h (next_of m x) cnt = Some (cnt + length xs)"
proof (induction xs arbitrary: x cnt)
  case Nil
  then show ?case by (subst list_size_from.simps) simp
next
  case (Cons z zs)
  then have "next_of m x = z" "z \<noteq> h" "arc (next_of m) (prev_of m) z zs h" "h \<notin> set zs" by auto
  with Cons.IH [of z "cnt + 1"] show ?case by (subst list_size_from.simps) simp
qed

lemma list_queries:
  assumes "ring (next_of m) (prev_of m) h xs"
  shows "list_size m h = Some (length xs)" "list_is_empty m h \<longleftrightarrow> xs = []"
    "list_is_short m h \<longleftrightarrow> length xs \<le> 1" "list_is_singleton m h \<longleftrightarrow> length xs = 1"
    "list_front m h = (if xs = [] then None else Some (hd xs))"
    "list_back m h = (if xs = [] then None else Some (last xs))"
proof -
  have hd: "next_of m h = hd (xs @ [h])" "prev_of m h = last (h # xs)" and d: "h \<notin> set xs" "distinct xs"
    using ring_head [OF assms] assms by (auto simp: ring_def)
  show "list_size m h = Some (length xs)"
    using assms size_from_arc [of m h xs h 0] by (simp add: list_size_def ring_def)
  show e: "list_is_empty m h \<longleftrightarrow> xs = []" using hd d by (cases xs) (auto simp: list_is_empty_def)
  show s: "list_is_short m h \<longleftrightarrow> length xs \<le> 1"
  proof (cases xs)
    case (Cons x ys)
    then show ?thesis using hd d by (cases ys rule: rev_cases) (auto simp: list_is_short_def)
  qed (use hd in \<open>simp add: list_is_short_def\<close>)
  show "list_is_singleton m h \<longleftrightarrow> length xs = 1"
    using e s by (cases xs) (auto simp: list_is_singleton_def)
  show "list_front m h = (if xs = [] then None else Some (hd xs))"
    "list_back m h = (if xs = [] then None else Some (last xs))"
    using e hd by (auto simp: list_front_def list_back_def)
qed

interpretation ovs: ring_list next_of prev_of list_init list_insert "\<lambda>e m. snd (list_remove e m)"
proof unfold_locales
  fix m h xs ys e assume r: "ring (next_of m) (prev_of m) h (xs @ ys)" and e: "e \<notin> insert h (set (xs @ ys))"
  let ?b = "hd (ys @ [h])"
  have "?b \<noteq> e" using e by (cases ys) auto
  then have "next_of (list_insert ?b e m) = (next_of m)(e := ?b, prev_of m ?b := e)"
    "prev_of (list_insert ?b e m) = (prev_of m)(e := prev_of m ?b, ?b := e)"
    by (auto simp: list_insert_def Let_def fun_eq_iff)
  then show "ring (next_of (list_insert ?b e m)) (prev_of (list_insert ?b e m)) h (xs @ e # ys)"
    using ring_insert [OF r e refl] by simp
next
  fix m h xs e ys assume r: "ring (next_of m) (prev_of m) h (xs @ e # ys)"
  have "ring ((next_of m)(prev_of m e := next_of m e)) ((prev_of m)(next_of m e := prev_of m e)) h (xs @ ys)"
    by (rule ring_bypass [OF r])
  moreover have "prev_of m e \<noteq> e" by (rule ring_neighbours(3) [OF r])
  then have "next_of (snd (list_remove e m)) = (next_of m)(prev_of m e := next_of m e)"
    "prev_of (snd (list_remove e m)) = (prev_of m)(next_of m e := prev_of m e)"
    by (auto simp: list_remove_def Let_def fun_eq_iff)
  ultimately show "ring (next_of (snd (list_remove e m))) (prev_of (snd (list_remove e m))) h (xs @ ys)"
    by simp
qed (auto simp: list_init_def ring_def list_insert_def list_remove_def Let_def set_next_def set_prev_def)

text \<open>The operations of lib/list.h that a client calls.\<close>

fun ovs_list_exec :: "list_op \<Rightarrow> list_mem \<Rightarrow> list_mem" where
  "ovs_list_exec (Init h) m = list_init h m"
| "ovs_list_exec (Insert b e) m = list_insert b e m"
| "ovs_list_exec (Push_front h e) m = list_push_front h e m"
| "ovs_list_exec (Push_back h e) m = list_push_back h e m"
| "ovs_list_exec (Remove e) m = snd (list_remove e m)"
| "ovs_list_exec (Pop_front h) m = snd (list_pop_front h m)"
| "ovs_list_exec (Pop_back h) m = snd (list_pop_back h m)"

lemma ovs_exec_eq: "ovs_list_exec op m = ovs.list_exec op m"
  by (cases op) (simp_all add: list_push_front_def list_push_back_def list_pop_front_def list_pop_back_def Let_def)

lemma ovs_run_eq: "fold ovs_list_exec ops m = ovs.list_run ops m"
  by (induction ops arbitrary: m) (simp_all add: ovs_exec_eq)

text \<open>
  C8: Lists through pointers behave as plain lists: after any sequence of initialisations,
  insertions and removals on any number of lists, whatever the memory held before, every list holds
  exactly the nodes that the same sequence on plain lists gives, in both directions, and
  \<open>list_size\<close> (which ends), \<open>list_is_empty\<close>, \<open>list_is_short\<close>, \<open>list_is_singleton\<close>, \<open>list_front\<close> and
  \<open>list_back\<close> answer accordingly.
\<close>

theorem ovs_list_run_refines:
  assumes "lists_run ops [] = Some L" "(h, xs) \<in> set L" "m' = fold ovs_list_exec ops m"
  shows "ring (next_of m') (prev_of m') h xs \<and> list_size m' h = Some (length xs) \<and>
    (list_is_empty m' h \<longleftrightarrow> xs = []) \<and> (list_is_short m' h \<longleftrightarrow> length xs \<le> 1) \<and>
    (list_is_singleton m' h \<longleftrightarrow> length xs = 1) \<and>
    list_front m' h = (if xs = [] then None else Some (hd xs)) \<and>
    list_back m' h = (if xs = [] then None else Some (last xs))"
proof -
  have "ovs.holds m []" by (simp add: rings_simps)
  from ovs.run_holds [OF this assms(1)] have "ring (next_of m') (prev_of m') h xs"
    using assms(2) by (auto simp: assms(3) ovs_run_eq rings_def list_all_iff)
  with list_queries [OF this] show ?thesis by simp
qed

theorem ovs_list_run_refines_witness:
  "list_size (fold ovs_list_exec [Init 1, Init 2, Push_back 1 10, Push_front 1 11, Push_back 2 12, Remove 10]
     (\<lambda>_. \<lparr>ol_prev = 0, ol_next = 0\<rparr>)) 1 = Some 1"
proof -
  have "lists_run [Init 1, Init 2, Push_back 1 10, Push_front 1 11, Push_back 2 12, Remove 10] [] = Some [(2, [12]), (1, [11])]"
    by simp
  from ovs_list_run_refines [OF this, of 1 "[11]", OF _ refl] show ?thesis by simp
qed

text \<open>Cutting an arc of nodes out of a ring, and inserting one into another ring.\<close>

lemma ring_bypass_arc:
  assumes "ring nx pv h (xs @ f # mid @ l # ys)"
  shows "ring (nx(pv f := nx l)) (pv(nx l := pv f)) h (xs @ ys)"
    "arc (nx(pv f := nx l)) (pv(nx l := pv f)) f mid l"
  using assms by (cases xs rule: rev_exhaust; cases ys; auto simp: ring_def)+

lemma ring_insert_arc:
  assumes "ring nx pv k (us @ vs)" "arc nx pv f mid l" "distinct (f # mid @ [l])"
    "insert f (insert l (set mid)) \<inter> insert k (set (us @ vs)) = {}" "b = hd (vs @ [k])"
  shows "ring (nx(l := b, pv b := f)) (pv(f := pv b, b := l)) k (us @ f # mid @ l # vs)"
  using assms by (cases us rule: rev_exhaust; cases vs; auto simp: ring_def)

lemma list_splice_fields:
  assumes "first \<noteq> final" "prev_of m final = l" "next_of m l = n" "prev_of m first = p" "p \<noteq> l" "b \<noteq> n" "b \<noteq> first"
  shows "next_of (list_splice b first final m) = (next_of m)(p := n, l := b, prev_of m b := first)"
    "prev_of (list_splice b first final m) = (prev_of m)(n := p, first := prev_of m b, b := l)"
  using assms by (auto simp: list_splice_def Let_def fun_eq_iff)

lemma ring_upd_other:
  assumes "ring nx pv h xs" "a \<notin> insert h (set xs)"
  shows "ring (nx(a := v)) pv h xs" "ring nx (pv(a := v)) h xs"
  by (subst ring_frame [of _ _ _ nx _ pv]; use assms in auto)+

lemma list_splice_rings:
  assumes r1: "ring (next_of m) (prev_of m) h (xs @ F @ ys)" and r2: "ring (next_of m) (prev_of m) k (us @ vs)"
    and d: "insert h (set (xs @ F @ ys)) \<inter> insert k (set (us @ vs)) = {}"
    and m': "m' = list_splice (hd (vs @ [k])) (hd (F @ ys @ [h])) (hd (ys @ [h])) m"
  shows "ring (next_of m') (prev_of m') h (xs @ ys) \<and> ring (next_of m') (prev_of m') k (us @ F @ vs)"
proof (cases F)
  case Nil
  then show ?thesis using r1 r2 by (simp add: m' list_splice_def)
next
  case (Cons f G)
  let ?nx = "next_of m" and ?pv = "prev_of m" and ?H = "insert h (set (xs @ ys))" and ?K = "insert k (set (us @ vs))"
  obtain b n l p q where e: "b = hd (vs @ [k])" "n = hd (ys @ [h])" "l = last F" "p = last (h # xs)" "q = ?pv b"
    by blast
  let ?nx1 = "?nx(p := n)" and ?pv1 = "?pv(n := p)"
  have p: "?pv f = p" using r1 Cons arc_prev [of ?nx ?pv h xs f] by (simp add: ring_def e(4))
  have ln: "?nx l = n \<and> ?pv n = l"
  proof (cases F rule: rev_exhaust)
    case (snoc G' l')
    with r1 show ?thesis using arc_next [of ?nx ?pv l' ys h] arc_append [of ?nx ?pv h "xs @ G'" l' ys h]
      by (simp add: ring_def e(2,3))
  qed (simp add: Cons)
  have "b \<in> ?K" using hd_in_set [of "vs @ [k]"] unfolding e(1) by auto
  moreover have "n \<in> ?H" using hd_in_set [of "ys @ [h]"] unfolding e(2) by auto
  moreover have "p \<in> ?H" unfolding e(4) by auto
  moreover have "q \<in> ?K" unfolding e(5) by (rule ring_closed(2) [OF r2]) fact
  moreover have "f \<in> set F" "l \<in> set F" unfolding e(3) using Cons by simp_all
  moreover have "?H \<inter> set F = {}" "?H \<inter> ?K = {}" "set F \<inter> ?K = {}" using r1 d by (auto simp: ring_def)
  ultimately have N: "f \<noteq> n" "p \<noteq> l" "b \<noteq> n" "b \<noteq> f" "p \<notin> ?K" "n \<notin> ?K" "l \<notin> ?H" "q \<notin> ?H" "f \<notin> ?H" "b \<notin> ?H"
    by blast+
  have m'f: "next_of m' = ?nx1(l := b, ?pv1 b := f)" "prev_of m' = ?pv1(f := ?pv1 b, b := l)"
    using list_splice_fields [of f n m l n p b] ln p N(1-4) by (simp_all add: m' Cons e(1,2))
  have r2': "ring ?nx1 ?pv1 k (us @ vs)" using N r2 by (intro ring_upd_other)
  have "?pv1 b = q" using N e(5) by simp
  with m'f have r1': "ring (next_of m') (prev_of m') h (xs @ ys)" if "ring ?nx1 ?pv1 h (xs @ ys)"
    using ring_upd_other(1) [OF ring_upd_other(1) [OF ring_upd_other(2) [OF ring_upd_other(2) [OF that N(9)] N(10)] N(7)] N(8)]
    by metis
  show ?thesis
  proof (cases G rule: rev_exhaust)
    case Nil
    then have "l = f" by (simp add: e(3) Cons)
    have "ring ?nx1 ?pv1 h (xs @ ys)"
      using ring_bypass [of ?nx ?pv h xs f ys] r1 ln p by (simp add: Cons Nil \<open>l = f\<close>)
    moreover have "ring (next_of m') (prev_of m') k (us @ f # vs)"
      using ring_insert [OF r2', of f b] d by (simp add: m'f Cons Nil \<open>l = f\<close> e(1))
    ultimately show ?thesis using r1' by (simp add: Cons Nil)
  next
    case (snoc mid l')
    then have F: "F = f # mid @ [l]" by (simp add: Cons e(3))
    have B: "ring ?nx1 ?pv1 h (xs @ ys)" "arc ?nx1 ?pv1 f mid l"
      using ring_bypass_arc [of ?nx ?pv h xs f mid l ys] r1 ln p by (simp_all add: F)
    have "distinct (f # mid @ [l])" "insert f (insert l (set mid)) \<inter> ?K = {}" using r1 d by (auto simp: F ring_def)
    from ring_insert_arc [OF r2' B(2) this e(1)] r1' [OF B(1)] show ?thesis by (simp add: m'f F)
  qed
qed

lemma list_move_fields:
  assumes "next_of m src = n" "prev_of m src = p" "n \<noteq> src" "n \<noteq> dst" "p \<noteq> dst"
  shows "next_of (list_move dst src m) = (next_of m)(dst := n, p := dst)"
    "prev_of (list_move dst src m) = (prev_of m)(dst := p, n := dst)"
  using assms by (auto simp: list_move_def list_moved_def Let_def fun_eq_iff)

lemma list_move_ring:
  assumes "ring (next_of m) (prev_of m) src xs" "dst \<notin> insert src (set xs)"
  shows "ring (next_of (list_move dst src m)) (prev_of (list_move dst src m)) dst xs"
proof (cases xs)
  case Nil
  then show ?thesis using ring_head [OF assms(1)] by (simp add: list_move_def list_moved_def list_init_def ring_def)
next
  case (Cons x ys)
  then have "last xs \<in> set xs" by simp
  then have "last xs \<noteq> dst" using assms(2) by auto
  then have "next_of (list_move dst src m) = (next_of m)(dst := x, last xs := dst)"
    "prev_of (list_move dst src m) = (prev_of m)(dst := last xs, x := dst)"
    using list_move_fields [of m src x "last xs" dst] assms ring_head [OF assms(1)] Cons by (auto simp: ring_def)
  then show ?thesis using assms Cons by (cases ys rule: rev_exhaust) (auto simp: ring_def)
qed

lemma list_replace_ring:
  assumes "ring (next_of m) (prev_of m) h (xs @ p # ys)" "e \<notin> insert h (set (xs @ p # ys))"
  shows "ring (next_of (list_replace e p m)) (prev_of (list_replace e p m)) h (xs @ e # ys)"
proof -
  have "next_of m p \<noteq> p" "prev_of m p \<noteq> p" "next_of m p \<noteq> e" "prev_of m p \<noteq> e"
    using assms by (cases xs rule: rev_exhaust; cases ys; auto simp: ring_def)+
  then have "next_of (list_replace e p m) = (next_of m)(e := next_of m p, prev_of m p := e)"
    "prev_of (list_replace e p m) = (prev_of m)(e := prev_of m p, next_of m p := e)"
    by (auto simp: list_replace_def Let_def fun_eq_iff)
  then show ?thesis using assms by (cases xs rule: rev_exhaust; cases ys; auto simp: ring_def)
qed

text \<open>
  Moving nodes between lists. \<open>list_splice\<close> takes the nodes from \<open>first\<close> up to but not including
  \<open>last\<close> out of one list and inserts them, in order, before a node (or the head) of another; the rest
  of both lists stays. \<open>list_move\<close> gives a list a new head, and \<open>list_replace\<close> puts a new node in the
  place of another.
\<close>

theorem ovs_list_relocation:
  assumes "ring (next_of m) (prev_of m) h (xs @ F @ ys)" "ring (next_of m) (prev_of m) k (us @ vs)"
    and "insert h (set (xs @ F @ ys)) \<inter> insert k (set (us @ vs)) = {}"
    and "e \<notin> insert k (set (us @ vs))"
  shows "(let m' = list_splice (hd (vs @ [k])) (hd (F @ ys @ [h])) (hd (ys @ [h])) m
       in ring (next_of m') (prev_of m') h (xs @ ys) \<and> ring (next_of m') (prev_of m') k (us @ F @ vs)) \<and>
    (let m' = list_move e k m in ring (next_of m') (prev_of m') e (us @ vs)) \<and>
    (vs \<noteq> [] \<longrightarrow> (let m' = list_replace e (hd vs) m in ring (next_of m') (prev_of m') k (us @ e # tl vs)))"
  using list_splice_rings [OF assms(1-3) refl] list_move_ring [OF assms(2,4)]
    list_replace_ring [of m k us "hd vs" "tl vs" e] assms(2,4)
  by (cases vs) (simp_all add: Let_def)

theorem ovs_list_relocation_witness:
  "\<exists>m. ring (next_of m) (prev_of m) 1 [11, 12, 13] \<and> ring (next_of m) (prev_of m) 2 [21] \<and>
     ring (next_of (list_splice 21 12 1 m)) (prev_of (list_splice 21 12 1 m)) 2 [12, 13, 21]"
proof -
  let ?m = "fold ovs_list_exec [Init 1, Init 2, Push_back 1 11, Push_back 1 12, Push_back 1 13, Push_back 2 21]
     (\<lambda>_. \<lparr>ol_prev = 0, ol_next = 0\<rparr>)"
  have r: "ring (next_of ?m) (prev_of ?m) 1 ([11] @ [12, 13] @ [])" "ring (next_of ?m) (prev_of ?m) 2 ([] @ [21])"
    by code_simp+
  from ovs_list_relocation [OF r, of 99] r show ?thesis by (intro exI [of _ ?m]) (simp add: Let_def)
qed

section \<open>ofproto/srv_list.h\<close>

record srv_list_node =
  sn_pNext :: addr
  sn_pPrev :: addr
  sn_pMySelf :: addr

text \<open>The null pointer is address 0.\<close>

type_synonym srv_mem = "addr \<Rightarrow> srv_list_node"

definition SRV_LIST_INIT_ROOT :: "addr \<Rightarrow> srv_mem \<Rightarrow> srv_mem" where
  "SRV_LIST_INIT_ROOT R m = m(R := \<lparr>sn_pNext = R, sn_pPrev = R, sn_pMySelf = 0\<rparr>)"

definition SRV_LIST_INIT_NODE :: "addr \<Rightarrow> addr \<Rightarrow> srv_mem \<Rightarrow> srv_mem" where
  "SRV_LIST_INIT_NODE E S m = m(E := \<lparr>sn_pNext = 0, sn_pPrev = 0, sn_pMySelf = S\<rparr>)"

definition SRV_LIST_INSERT_AFTER :: "addr \<Rightarrow> addr \<Rightarrow> srv_mem \<Rightarrow> srv_mem" where
  "SRV_LIST_INSERT_AFTER P E m =
     (let m = m(E := m E\<lparr>sn_pNext := sn_pNext (m P)\<rparr>);
          m = m(E := m E\<lparr>sn_pPrev := P\<rparr>);
          p = sn_pPrev (m E); m = m(p := m p\<lparr>sn_pNext := E\<rparr>);
          n = sn_pNext (m E)
      in m(n := m n\<lparr>sn_pPrev := E\<rparr>))"

definition SRV_LIST_INSERT_BEFORE :: "addr \<Rightarrow> addr \<Rightarrow> srv_mem \<Rightarrow> srv_mem" where
  "SRV_LIST_INSERT_BEFORE N E m =
     (let m = m(E := m E\<lparr>sn_pNext := N\<rparr>);
          m = m(E := m E\<lparr>sn_pPrev := sn_pPrev (m N)\<rparr>);
          p = sn_pPrev (m E); m = m(p := m p\<lparr>sn_pNext := E\<rparr>);
          n = sn_pNext (m E)
      in m(n := m n\<lparr>sn_pPrev := E\<rparr>))"

definition SRV_LIST_REMOVE :: "addr \<Rightarrow> srv_mem \<Rightarrow> srv_mem" where
  "SRV_LIST_REMOVE E m =
     (let p = sn_pPrev (m E); m = m(p := m p\<lparr>sn_pNext := sn_pNext (m E)\<rparr>);
          n = sn_pNext (m E); m = m(n := m n\<lparr>sn_pPrev := sn_pPrev (m E)\<rparr>);
          m = m(E := m E\<lparr>sn_pPrev := 0\<rparr>)
      in m(E := m E\<lparr>sn_pNext := 0\<rparr>))"

definition SRV_LIST_IS_EMPTY :: "srv_mem \<Rightarrow> addr \<Rightarrow> bool" where
  "SRV_LIST_IS_EMPTY m R \<longleftrightarrow> sn_pNext (m R) = R"

abbreviation srv_next :: "srv_mem \<Rightarrow> addr \<Rightarrow> addr" where "srv_next m \<equiv> \<lambda>a. sn_pNext (m a)"
abbreviation srv_prev :: "srv_mem \<Rightarrow> addr \<Rightarrow> addr" where "srv_prev m \<equiv> \<lambda>a. sn_pPrev (m a)"

interpretation srv: ring_list srv_next srv_prev SRV_LIST_INIT_ROOT SRV_LIST_INSERT_BEFORE SRV_LIST_REMOVE
proof unfold_locales
  fix m h xs ys e assume r: "ring (srv_next m) (srv_prev m) h (xs @ ys)" and e: "e \<notin> insert h (set (xs @ ys))"
  let ?b = "hd (ys @ [h])"
  have b: "?b \<in> insert h (set (xs @ ys))" using hd_in_set [of "ys @ [h]"] by auto
  then have "?b \<noteq> e" "srv_prev m ?b \<noteq> e" using e ring_closed(2) [OF r b] by auto
  then have "srv_next (SRV_LIST_INSERT_BEFORE ?b e m) = (srv_next m)(e := ?b, srv_prev m ?b := e)"
    "srv_prev (SRV_LIST_INSERT_BEFORE ?b e m) = (srv_prev m)(e := srv_prev m ?b, ?b := e)"
    by (auto simp: SRV_LIST_INSERT_BEFORE_def Let_def fun_eq_iff)
  then show "ring (srv_next (SRV_LIST_INSERT_BEFORE ?b e m)) (srv_prev (SRV_LIST_INSERT_BEFORE ?b e m)) h (xs @ e # ys)"
    using ring_insert [OF r e refl] by simp
next
  fix m h xs e ys assume r: "ring (srv_next m) (srv_prev m) h (xs @ e # ys)"
  have d: "e \<notin> insert h (set (xs @ ys))" using r by (auto simp: ring_def)
  have "ring ((srv_next m)(srv_prev m e := srv_next m e)) ((srv_prev m)(srv_next m e := srv_prev m e)) h (xs @ ys)"
    by (rule ring_bypass [OF r])
  from ring_upd_other(1) [OF ring_upd_other(2) [OF this d, of 0] d, of 0]
  have "ring ((srv_next m)(srv_prev m e := srv_next m e, e := 0)) ((srv_prev m)(srv_next m e := srv_prev m e, e := 0)) h (xs @ ys)" .
  moreover have "srv_prev m e \<noteq> e" "srv_next m e \<noteq> e" by (rule ring_neighbours(3,4) [OF r])+
  then have "srv_next (SRV_LIST_REMOVE e m) = (srv_next m)(srv_prev m e := srv_next m e, e := 0)"
    "srv_prev (SRV_LIST_REMOVE e m) = (srv_prev m)(srv_next m e := srv_prev m e, e := 0)"
    by (auto simp: SRV_LIST_REMOVE_def Let_def fun_eq_iff)
  ultimately show "ring (srv_next (SRV_LIST_REMOVE e m)) (srv_prev (SRV_LIST_REMOVE e m)) h (xs @ ys)"
    by simp
qed (auto simp: SRV_LIST_INIT_ROOT_def ring_def SRV_LIST_INSERT_BEFORE_def SRV_LIST_REMOVE_def Let_def)

end
