(* ===== verification/Srv_Common.thy ===== *)
theory Srv_Common
  imports OVS_Prelude
begin

text \<open>
  What the services of the docker agent share: the result codes of ofproto/srv_common.h, and
  division of C integers that are not negative.
\<close>

abbreviation (input) SRV_OK :: int where "SRV_OK \<equiv> 0"
abbreviation (input) SRV_ERR :: int where "SRV_ERR \<equiv> - 1"

lemma sdiv_pos: "0 \<le> (a :: int) \<Longrightarrow> 0 < b \<Longrightarrow> a sdiv b = a div b"
  by (simp add: signed_divide_int_def sgn_if)

lemma smod_pos: "0 \<le> (a :: int) \<Longrightarrow> 0 < b \<Longrightarrow> a smod b = a mod b"
  by (simp add: signed_modulo_int_def signed_divide_int_def sgn_if minus_div_mult_eq_mod)

end
