(* ===== verification/Msg_Queue.thy ===== *)
theory Msg_Queue
  imports Srv_Common Fifo_Spec State_Machine
begin

text \<open>
  The message queue of ofproto/lnx_msq.c: a circular array of messages under a lock, in which one
  slot stays free. A queue handle is an optional queue (\<open>None\<close> for SRV_INVALID), a message pointer an
  optional address. \<open>srv_msq_rcv\<close> releases and retakes the lock between its check for an empty queue
  and the removal of the message, so it is modelled as two atomic parts that other threads may come
  between: \<open>msq_ready\<close> and \<open>msq_take\<close>.
\<close>

section \<open>Model\<close>

record msg_block =
  mb_id :: int
  mb_size :: int
  mb_body :: nat

record msg_queue =
  mq_size :: int
  mq_front :: int
  mq_rear :: int
  mq_pMsg :: "msg_block list"

text \<open>
  Creation, given which of the allocations and initialisations succeed; the messages of a new array
  are uninitialised.
\<close>

definition srv_msq_create ::
  "bool \<Rightarrow> bool \<Rightarrow> bool \<Rightarrow> bool \<Rightarrow> (nat \<Rightarrow> msg_block) \<Rightarrow> int \<Rightarrow> msg_queue option" where
  "srv_msq_create queue_ok mutex_ok cond_ok array_ok uninit queuesize =
     (if \<not> queue_ok then None
      else if \<not> mutex_ok then None
      else if \<not> cond_ok then None
      else
        let size = c_int (queuesize + 1)
        in if \<not> array_ok then None
           else Some \<lparr>mq_size = size, mq_front = 0, mq_rear = 0, mq_pMsg = map uninit [0 ..< nat size]\<rparr>)"

definition srv_msq_destroy :: "msg_queue option \<Rightarrow> int \<times> msg_queue option" where
  "srv_msq_destroy hMsq = (case hMsq of None \<Rightarrow> (SRV_ERR, None) | Some _ \<Rightarrow> (SRV_OK, None))"

definition srv_msq_snd :: "msg_queue option \<Rightarrow> int \<Rightarrow> int \<Rightarrow> nat option \<Rightarrow> int \<Rightarrow> int \<times> msg_queue option" where
  "srv_msq_snd hMsq prio msgid pMsg msgsize =
     (case (hMsq, pMsg) of
        (Some q, Some body) \<Rightarrow>
          let index = c_int (mq_rear q + 1) smod mq_size q
          in if index = mq_front q then (SRV_ERR, Some q)
             else (SRV_OK, Some (q\<lparr>mq_pMsg := (mq_pMsg q)[nat (mq_rear q) :=
                                     \<lparr>mb_id = msgid, mb_size = msgsize, mb_body = body\<rparr>],
                                   mq_rear := index\<rparr>))
      | _ \<Rightarrow> (SRV_ERR, hMsq))"

text \<open>The first critical section of \<open>srv_msq_rcv\<close> ends only when the queue is not empty.\<close>

definition msq_ready :: "msg_queue \<Rightarrow> bool" where
  "msq_ready q \<longleftrightarrow> mq_front q \<noteq> mq_rear q"

text \<open>The second critical section.\<close>

definition msq_take :: "msg_queue \<Rightarrow> msg_block \<times> msg_queue" where
  "msq_take q = (mq_pMsg q ! nat (mq_front q), q\<lparr>mq_front := c_int (mq_front q + 1) smod mq_size q\<rparr>)"

datatype rcv_result = Rcv_Error | Rcv_Blocked | Rcv_Message msg_block msg_queue

text \<open>
  A call that nothing comes between; \<open>Rcv_Blocked\<close> while it waits for a message. The message carries
  the size returned and the values stored through the pointers pMsgid and ppMsg.
\<close>

definition srv_msq_rcv :: "msg_queue option \<Rightarrow> bool \<Rightarrow> bool \<Rightarrow> rcv_result" where
  "srv_msq_rcv hMsq pMsgid_null ppMsg_null =
     (case hMsq of
        None \<Rightarrow> Rcv_Error
      | Some q \<Rightarrow>
          if pMsgid_null \<or> ppMsg_null then Rcv_Error
          else if \<not> msq_ready q then Rcv_Blocked
          else let (msg, q') = msq_take q in Rcv_Message msg q')"

definition srv_msq_num :: "msg_queue option \<Rightarrow> int" where
  "srv_msq_num hMsq =
     (case hMsq of
        None \<Rightarrow> SRV_ERR
      | Some q \<Rightarrow> c_int (mq_rear q + mq_size q + 1 - mq_front q) smod c_int (mq_size q + 1))"

section \<open>Contents\<close>

definition msq_inv :: "msg_queue \<Rightarrow> bool" where
  "msq_inv q \<longleftrightarrow> 1 < mq_size q \<and> mq_size q \<le> 1073741823 \<and> length (mq_pMsg q) = nat (mq_size q) \<and>
     0 \<le> mq_front q \<and> mq_front q < mq_size q \<and> 0 \<le> mq_rear q \<and> mq_rear q < mq_size q"

definition msq_count :: "msg_queue \<Rightarrow> int" where
  "msq_count q = (mq_rear q - mq_front q) mod mq_size q"

definition msq_slot :: "msg_queue \<Rightarrow> int \<Rightarrow> nat" where
  "msq_slot q i = nat ((mq_front q + i) mod mq_size q)"

definition msq_contents :: "msg_queue \<Rightarrow> msg_block list" where
  "msq_contents q = map (\<lambda>i. mq_pMsg q ! msq_slot q (int i)) [0 ..< nat (msq_count q)]"

lemma mod_offset_inj:
  fixes f :: int
  assumes "0 \<le> a" "a < s" "0 \<le> b" "b < s" "(f + a) mod s = (f + b) mod s"
  shows "a = b"
proof -
  have "s dvd a - b" using assms(5) by (simp add: mod_eq_dvd_iff)
  moreover have "\<bar>a - b\<bar> < s" using assms by linarith
  ultimately show ?thesis using zdvd_imp_le [of s "\<bar>a - b\<bar>"] by (cases "a = b") auto
qed

lemma msq_rear_eq: "msq_inv q \<Longrightarrow> mq_rear q = (mq_front q + msq_count q) mod mq_size q"
  by (simp add: msq_inv_def msq_count_def mod_add_right_eq)

lemma msq_count_range: "msq_inv q \<Longrightarrow> 0 \<le> msq_count q \<and> msq_count q < mq_size q"
  by (simp add: msq_inv_def msq_count_def)

lemma msq_index:
  assumes "msq_inv q"
  shows "c_int (mq_rear q + 1) smod mq_size q = (mq_front q + (msq_count q + 1)) mod mq_size q"
proof -
  have "c_int (mq_rear q + 1) smod mq_size q = (mq_rear q + 1) mod mq_size q"
    using assms by (simp add: msq_inv_def smod_pos)
  also have "\<dots> = (mq_front q + msq_count q + 1) mod mq_size q"
    by (subst msq_rear_eq [OF assms]) (rule mod_add_left_eq)
  finally show ?thesis by (simp add: add.assoc)
qed

lemma msq_full:
  assumes "msq_inv q"
  shows "c_int (mq_rear q + 1) smod mq_size q = mq_front q \<longleftrightarrow> msq_count q + 1 = mq_size q"
proof
  assume "c_int (mq_rear q + 1) smod mq_size q = mq_front q"
  then have e: "(mq_front q + (msq_count q + 1)) mod mq_size q = (mq_front q + 0) mod mq_size q"
    using msq_index [OF assms] assms by (simp add: msq_inv_def)
  show "msq_count q + 1 = mq_size q"
  proof (rule ccontr)
    assume "msq_count q + 1 \<noteq> mq_size q"
    with msq_count_range [OF assms] have "msq_count q + 1 < mq_size q" "0 \<le> msq_count q + 1" by auto
    from mod_offset_inj [OF this(2,1) _ _ e] msq_count_range [OF assms] show False by auto
  qed
next
  assume "msq_count q + 1 = mq_size q"
  then show "c_int (mq_rear q + 1) smod mq_size q = mq_front q"
    unfolding msq_index [OF assms] using assms by (simp add: msq_inv_def)
qed

lemma msq_empty:
  assumes "msq_inv q"
  shows "msq_ready q \<longleftrightarrow> 0 < msq_count q"
proof -
  have "mq_front q = mq_rear q \<longleftrightarrow> msq_count q = 0"
    using msq_rear_eq [OF assms] assms by (auto simp: msq_inv_def msq_count_def)
  then show ?thesis using msq_count_range [OF assms] by (auto simp: msq_ready_def)
qed

lemma length_msq_contents: "length (msq_contents q) = nat (msq_count q)"
  by (simp add: msq_contents_def)

lemma msq_slot_less: "msq_inv q \<Longrightarrow> msq_slot q i < length (mq_pMsg q)"
  by (simp add: msq_inv_def msq_slot_def nat_less_iff)

lemma msq_slot_rear: "msq_inv q \<Longrightarrow> nat (mq_rear q) = msq_slot q (msq_count q)"
  by (simp add: msq_slot_def flip: msq_rear_eq)

lemma msq_slot_inj:
  assumes "msq_inv q" "0 \<le> i" "i < mq_size q" "0 \<le> j" "j < mq_size q" "msq_slot q i = msq_slot q j"
  shows "i = j"
proof (rule mod_offset_inj [OF assms(2-5)])
  show "(mq_front q + i) mod mq_size q = (mq_front q + j) mod mq_size q"
    using assms(1,6) by (simp add: msq_slot_def msq_inv_def eq_nat_nat_iff)
qed

text \<open>Adding a message: the queue with the next slot filled.\<close>

definition msq_add :: "msg_block \<Rightarrow> msg_queue \<Rightarrow> msg_queue" where
  "msq_add x q = q\<lparr>mq_pMsg := (mq_pMsg q)[nat (mq_rear q) := x], mq_rear := c_int (mq_rear q + 1) smod mq_size q\<rparr>"

lemma msq_add_spec:
  assumes i: "msq_inv q" and room: "msq_count q + 1 < mq_size q"
  shows "msq_inv (msq_add x q)" "msq_contents (msq_add x q) = msq_contents q @ [x]" "mq_size (msq_add x q) = mq_size q"
proof -
  let ?q = "msq_add x q"
  have f: "mq_size ?q = mq_size q" "mq_front ?q = mq_front q"
    "mq_rear ?q = (mq_front q + (msq_count q + 1)) mod mq_size q"
    "mq_pMsg ?q = (mq_pMsg q)[msq_slot q (msq_count q) := x]"
    by (simp_all add: msq_add_def msq_index [OF i] msq_slot_rear [OF i])
  show "mq_size ?q = mq_size q" by (rule f)
  show "msq_inv ?q" using i by (simp add: msq_inv_def f)
  have c: "msq_count ?q = msq_count q + 1"
    using room msq_count_range [OF i] by (simp add: msq_count_def f mod_diff_left_eq)
  have s: "msq_slot ?q = msq_slot q" by (rule ext) (simp add: msq_slot_def f)
  have "mq_pMsg ?q ! msq_slot q (int j) = mq_pMsg q ! msq_slot q (int j)" if "int j < msq_count q" for j
  proof -
    have "msq_slot q (msq_count q) \<noteq> msq_slot q (int j)"
      using msq_slot_inj [OF i, of "msq_count q" "int j"] that msq_count_range [OF i] by auto
    then show ?thesis by (simp add: f)
  qed
  moreover have "nat (msq_count ?q) = Suc (nat (msq_count q))" using msq_count_range [OF i] by (simp add: c nat_add_distrib)
  ultimately show "msq_contents ?q = msq_contents q @ [x]"
    using msq_slot_less [OF i] msq_count_range [OF i] by (simp add: msq_contents_def s f)
qed

lemma msq_take_spec:
  assumes i: "msq_inv q" and ne: "0 < msq_count q" and t: "msq_take q = (x, q')"
  shows "msq_inv q'" "msq_contents q = x # msq_contents q'" "mq_size q' = mq_size q"
proof -
  have f: "mq_size q' = mq_size q" "mq_rear q' = mq_rear q" "mq_pMsg q' = mq_pMsg q"
    "mq_front q' = (mq_front q + 1) mod mq_size q" "x = mq_pMsg q ! msq_slot q 0"
    using t i by (auto simp: msq_take_def smod_pos msq_inv_def msq_slot_def)
  show "mq_size q' = mq_size q" by (rule f)
  show "msq_inv q'" using i by (simp add: msq_inv_def f)
  have "msq_count q' = (msq_count q - 1) mod mq_size q"
    by (simp add: msq_count_def f mod_diff_right_eq mod_diff_left_eq diff_diff_eq)
  then have c: "msq_count q' = msq_count q - 1" using ne msq_count_range [OF i] by simp
  have s: "msq_slot q' (int j) = msq_slot q (int (Suc j))" for j
    by (simp add: msq_slot_def f mod_add_left_eq add.assoc)
  have n: "nat (msq_count q) = Suc (nat (msq_count q'))" using ne by (simp add: c)
  show "msq_contents q = x # msq_contents q'"
    unfolding msq_contents_def n upt_conv_Cons [OF zero_less_Suc] map_Suc_upt [symmetric]
    by (simp add: f s comp_def)
qed

section \<open>The queue interface\<close>

definition msq_put :: "msg_queue \<Rightarrow> msg_block \<Rightarrow> msg_queue option" where
  "msq_put q x = (case srv_msq_snd (Some q) 0 (mb_id x) (Some (mb_body x)) (mb_size x) of
     (rc, q') \<Rightarrow> if rc = SRV_OK then q' else None)"

definition msq_get :: "msg_queue \<Rightarrow> (msg_block \<times> msg_queue) option" where
  "msq_get q = (case srv_msq_rcv (Some q) False False of Rcv_Message x q' \<Rightarrow> Some (x, q') | _ \<Rightarrow> None)"

lemma msq_put_eq: "msq_inv q \<Longrightarrow> msq_put q x = (if msq_count q + 1 = mq_size q then None else Some (msq_add x q))"
  by (cases x) (simp add: msq_put_def srv_msq_snd_def Let_def msq_full msq_add_def)

lemma msq_get_eq: "msq_inv q \<Longrightarrow> msq_get q = (if 0 < msq_count q then Some (msq_take q) else None)"
  by (simp add: msq_get_def srv_msq_rcv_def msq_empty split: prod.split)

interpretation msq_fifo: bounded_fifo msq_put msq_get msq_contents "\<lambda>q. nat (mq_size q - 1)" msq_inv
proof
  fix q x assume i: "msq_inv q"
  show "msq_put q x = None \<longleftrightarrow> length (msq_contents q) = nat (mq_size q - 1)"
    using msq_count_range [OF i] by (auto simp: msq_put_eq [OF i] length_msq_contents)
  show "msq_get q = None \<longleftrightarrow> msq_contents q = []"
    using msq_count_range [OF i] length_msq_contents [of q] by (auto simp: msq_get_eq [OF i])
next
  fix q x q' assume i: "msq_inv q" and "msq_put q x = Some q'"
  then have "q' = msq_add x q" "msq_count q + 1 < mq_size q"
    using msq_count_range [OF i] by (auto simp: msq_put_eq split: if_splits)
  then show "msq_inv q' \<and> msq_contents q' = msq_contents q @ [x] \<and> nat (mq_size q' - 1) = nat (mq_size q - 1)"
    using msq_add_spec [OF i] by simp
next
  fix q x q' assume i: "msq_inv q" and "msq_get q = Some (x, q')"
  then have "0 < msq_count q" "msq_take q = (x, q')" by (auto simp: msq_get_eq split: if_splits)
  from msq_take_spec [OF i this] show "msq_inv q' \<and> msq_contents q = x # msq_contents q' \<and> nat (mq_size q' - 1) = nat (mq_size q - 1)"
    by simp
qed

lemma msq_create_inv:
  assumes "0 < n" "n < 1073741823" "srv_msq_create a b c d u n = Some q"
  shows "msq_inv q" "msq_contents q = []" "mq_size q = n + 1"
  using assms by (auto simp: srv_msq_create_def Let_def msq_inv_def msq_contents_def msq_count_def split: if_splits)

text \<open>
  A message queue created for n messages behaves, for every sequence of \<open>srv_msq_snd\<close> and
  \<open>srv_msq_rcv\<close> that nothing comes between, as a first-in first-out list of at most n messages: sending
  fails exactly when n messages are queued, and receiving waits exactly when there is none.
\<close>

theorem msq_run_refines:
  assumes "0 < n" "n < 1073741823" "srv_msq_create a b c d u n = Some q"
  shows "map_option (apsnd msq_contents) (run_queue msq_put msq_get q ops)
    = run_queue (list_put (nat n)) list_get [] ops"
  using msq_fifo.run_refines [OF msq_create_inv(1) [OF assms], of ops] msq_create_inv(2,3) [OF assms] by simp

theorem msq_run_refines_witness:
  "\<exists>q x. srv_msq_create True True True True (\<lambda>_. x) 1 = Some q \<and>
     map_option (apsnd msq_contents) (run_queue msq_put msq_get q [Put x, Get, Put x]) = Some ([x], [x]) \<and>
     run_queue msq_put msq_get q [Put x, Put x] = None"
proof -
  let ?x = "\<lparr>mb_id = 1, mb_size = 2, mb_body = 3\<rparr>"
  obtain q where q: "srv_msq_create True True True True (\<lambda>_. ?x) 1 = Some q" by (simp add: srv_msq_create_def)
  note r = msq_run_refines [OF _ _ q]
  have "run_queue msq_put msq_get q [Put ?x, Put ?x] = None"
    using r [of "[Put ?x, Put ?x]"] by (simp add: list_put_def)
  moreover have "map_option (apsnd msq_contents) (run_queue msq_put msq_get q [Put ?x, Get, Put ?x]) = Some ([?x], [?x])"
    using r [of "[Put ?x, Get, Put ?x]"] by (simp add: list_put_def list_get_def)
  ultimately show ?thesis using q by blast
qed

text \<open>
  C39: \<open>srv_msq_num\<close> returns the number of queued messages while the array has not wrapped around, and
  one more than that when it has: it reduces modulo size + 1, but size is already the requested
  number of messages plus one.
\<close>

theorem srv_msq_num_wrong:
  assumes "msq_inv q"
  shows "srv_msq_num (Some q) = int (length (msq_contents q)) + (if mq_rear q < mq_front q then 1 else 0)"
proof -
  let ?n = "mq_rear q + mq_size q + 1 - mq_front q"
  have n: "srv_msq_num (Some q) = ?n mod (mq_size q + 1)"
    using assms by (simp add: srv_msq_num_def msq_inv_def smod_pos)
  have c: "int (length (msq_contents q)) = (mq_rear q - mq_front q) mod mq_size q"
    using msq_count_range [OF assms] by (simp add: length_msq_contents msq_count_def)
  show ?thesis
  proof (cases "mq_rear q < mq_front q")
    case True
    have "(mq_rear q - mq_front q) mod mq_size q = (mq_rear q - mq_front q + mq_size q) mod mq_size q" by simp
    also have "\<dots> = mq_rear q - mq_front q + mq_size q"
      using True assms by (intro mod_pos_pos_trivial) (auto simp: msq_inv_def)
    finally show ?thesis using True assms unfolding n c by (simp add: msq_inv_def)
  next
    case False
    have "?n mod (mq_size q + 1) = (mq_rear q - mq_front q + (mq_size q + 1)) mod (mq_size q + 1)"
      by (simp add: algebra_simps)
    also have "\<dots> = mq_rear q - mq_front q"
      unfolding mod_add_self2 using False assms by (intro mod_pos_pos_trivial) (auto simp: msq_inv_def)
    finally show ?thesis using False assms unfolding n c by (simp add: msq_inv_def)
  qed
qed

theorem srv_msq_num_wrong_witness:
  "\<exists>q. length (msq_contents q) = 1 \<and> srv_msq_num (Some q) = 2"
proof -
  let ?x = "\<lparr>mb_id = 1, mb_size = 2, mb_body = 3\<rparr>"
  let ?q = "\<lparr>mq_size = 3, mq_front = 2, mq_rear = 0, mq_pMsg = [?x, ?x, ?x]\<rparr>"
  have "msq_inv ?q" by (simp add: msq_inv_def)
  moreover have "length (msq_contents ?q) = 1" by (simp add: length_msq_contents msq_count_def)
  ultimately show ?thesis using srv_msq_num_wrong [of ?q] by (intro exI [of _ ?q]) simp
qed

section \<open>Several threads\<close>

text \<open>
  Threads that share a queue. A receiver in the middle of \<open>srv_msq_rcv\<close>, between its two critical
  sections, is marked; the system records the messages accepted and the messages delivered.
\<close>

record msq_system =
  ms_queue :: msg_queue
  ms_checked :: "bool list"
  ms_sent :: "msg_block list"
  ms_got :: "msg_block list"

datatype msq_event = Send msg_block | Check nat | Take nat

fun msq_exec :: "msq_system \<Rightarrow> msq_event \<Rightarrow> msq_system option" where
  "msq_exec s (Send x) = Some (case msq_put (ms_queue s) x of
     None \<Rightarrow> s | Some q \<Rightarrow> s\<lparr>ms_queue := q, ms_sent := ms_sent s @ [x]\<rparr>)"
| "msq_exec s (Check i) =
     (if i < length (ms_checked s) \<and> \<not> ms_checked s ! i \<and> msq_ready (ms_queue s)
      then Some (s\<lparr>ms_checked := (ms_checked s)[i := True]\<rparr>) else None)"
| "msq_exec s (Take i) =
     (if i < length (ms_checked s) \<and> ms_checked s ! i
      then let (x, q) = msq_take (ms_queue s)
           in Some (s\<lparr>ms_queue := q, ms_checked := (ms_checked s)[i := False], ms_got := ms_got s @ [x]\<rparr>)
      else None)"

definition msq_start :: "int \<Rightarrow> nat \<Rightarrow> msq_system \<Rightarrow> bool" where
  "msq_start n receivers s \<longleftrightarrow> 0 < n \<and> n < 1073741823 \<and>
     (\<exists>a b c d u. srv_msq_create a b c d u n = Some (ms_queue s)) \<and>
     ms_checked s = replicate receivers False \<and> ms_sent s = [] \<and> ms_got s = []"

definition msq_reachable :: "int \<Rightarrow> nat \<Rightarrow> msq_system \<Rightarrow> bool" where
  "msq_reachable n receivers = reachable_by (msq_start n receivers) (\<lambda>_ _. True) msq_exec"

definition one_receiver_inv :: "msq_system \<Rightarrow> bool" where
  "one_receiver_inv s \<longleftrightarrow> msq_inv (ms_queue s) \<and> length (ms_checked s) = 1 \<and>
     (ms_checked s ! 0 \<longrightarrow> msq_contents (ms_queue s) \<noteq> []) \<and>
     ms_sent s = ms_got s @ msq_contents (ms_queue s)"

lemma contents_ne: "msq_contents q \<noteq> [] \<longleftrightarrow> 0 < msq_count q"
  by (metis length_msq_contents length_greater_0_conv zero_less_nat_eq)

lemma msq_reachable_start:
  assumes "srv_msq_create a b c d u n = Some q" "0 < n" "n < 1073741823"
  shows "msq_reachable n k \<lparr>ms_queue = q, ms_checked = replicate k False, ms_sent = [], ms_got = []\<rparr>"
  unfolding msq_reachable_def using assms by (intro reachable_start) (simp add: msq_start_def, blast)

lemma msq_reachable_step: "msq_reachable n k s \<Longrightarrow> msq_exec s e = Some s' \<Longrightarrow> msq_reachable n k s'"
  unfolding msq_reachable_def by (rule reachable_call) simp_all

interpretation msq_machine: call_machine "msq_start n 1" "\<lambda>_ _. True" msq_exec one_receiver_inv for n
proof
  fix s assume "msq_start n 1 s"
  then show "one_receiver_inv s"
    by (auto simp: msq_start_def one_receiver_inv_def msq_create_inv)
next
  fix s e s' assume i: "one_receiver_inv s" and e: "msq_exec s e = Some s'"
  then have q: "msq_inv (ms_queue s)" by (simp add: one_receiver_inv_def)
  show "one_receiver_inv s'"
  proof (cases e)
    case (Send x)
    then show ?thesis using i e msq_fifo.put_Some [OF q, of x]
      by (auto simp: one_receiver_inv_def split: option.splits)
  next
    case (Check k)
    with e have "s' = s\<lparr>ms_checked := (ms_checked s)[k := True]\<rparr>" "msq_ready (ms_queue s)"
      by (auto split: if_splits)
    with i msq_empty [OF q] contents_ne [of "ms_queue s"] show ?thesis by (simp add: one_receiver_inv_def)
  next
    case (Take k)
    obtain x q' where t: "msq_take (ms_queue s) = (x, q')" by fastforce
    have k: "k = 0" "ms_checked s ! 0" using e Take i by (auto simp: one_receiver_inv_def split: if_splits)
    with i have "0 < msq_count (ms_queue s)" by (simp add: one_receiver_inv_def contents_ne)
    from msq_take_spec [OF q this t] show ?thesis using i e k
      by (auto simp: Take t one_receiver_inv_def split: if_splits)
  qed
qed

text \<open>
  With a single receiver the gap in \<open>srv_msq_rcv\<close> between its two critical sections is harmless:
  however sending and receiving interleave, the messages delivered, followed by those still queued,
  are exactly the messages accepted, in order.
\<close>

theorem msq_single_receiver_fifo:
  assumes "msq_reachable n 1 s"
  shows "ms_sent s = ms_got s @ msq_contents (ms_queue s)"
  using msq_machine.reachable_inv [of n s] assms by (simp add: msq_reachable_def one_receiver_inv_def)

theorem msq_single_receiver_fifo_witness:
  "\<exists>s x. msq_reachable 2 1 s \<and> ms_checked s = [True] \<and> ms_sent s = [x] \<and> ms_sent s = ms_got s @ msq_contents (ms_queue s)"
proof -
  let ?x = "\<lparr>mb_id = 1, mb_size = 2, mb_body = 3\<rparr>"
  let ?q = "\<lparr>mq_size = 3, mq_front = 0, mq_rear = 0, mq_pMsg = [?x, ?x, ?x]\<rparr>"
  have "srv_msq_create True True True True (\<lambda>_. ?x) 2 = Some ?q"
    by (simp add: srv_msq_create_def numeral_eq_Suc)
  note r = msq_reachable_start [OF this, of 1]
  obtain t where t: "msq_exec \<lparr>ms_queue = ?q, ms_checked = replicate 1 False, ms_sent = [], ms_got = []\<rparr> (Send ?x) = Some t"
      "ms_sent t = [?x]" "ms_checked t = [False]" "msq_ready (ms_queue t)"
    by (simp add: msq_put_def srv_msq_snd_def smod_pos msq_ready_def)
  have "msq_reachable 2 1 t" using msq_reachable_step [OF r t(1)] by simp
  then have u: "msq_reachable 2 1 (t\<lparr>ms_checked := [True]\<rparr>)"
    by (rule msq_reachable_step [where e = "Check 0"]) (simp add: t)
  from msq_single_receiver_fifo [OF this] u t(2) show ?thesis
    by (intro exI [of _ "t\<lparr>ms_checked := [True]\<rparr>"] exI [of _ ?x]) simp
qed

text \<open>
  C38: With two receivers the gap loses the queue. Both can pass the check while one message is
  queued; the second then takes a message out of the empty queue. It delivers a message that was
  never sent (uninitialised memory here), and the queue afterwards counts as full.
\<close>

theorem msq_two_receivers_underflow:
  fixes uninit :: "nat \<Rightarrow> msg_block"
  shows "\<exists>s. msq_reachable 2 2 s \<and> ms_sent s = [x] \<and> ms_got s = [x, uninit 1] \<and>
     length (msq_contents (ms_queue s)) = 2 \<and> msq_put (ms_queue s) y = None"
proof -
  let ?q = "\<lparr>mq_size = 3, mq_front = 0, mq_rear = 0, mq_pMsg = [uninit 0, uninit 1, uninit 2]\<rparr>"
  let ?q1 = "?q\<lparr>mq_pMsg := [x, uninit 1, uninit 2], mq_rear := 1\<rparr>"
  let ?s = "\<lambda>q cs sent got. \<lparr>ms_queue = q, ms_checked = cs, ms_sent = sent, ms_got = got\<rparr>"
  have "srv_msq_create True True True True uninit 2 = Some ?q"
    by (simp add: srv_msq_create_def numeral_eq_Suc)
  from msq_reachable_start [OF this, of 2] have "msq_reachable 2 2 (?s ?q [False, False] [] [])"
    by (simp add: numeral_eq_Suc)
  then have "msq_reachable 2 2 (?s ?q1 [False, False] [x] [])"
    by (rule msq_reachable_step [where e = "Send x"]) (cases x, simp add: msq_put_def srv_msq_snd_def smod_pos)
  then have "msq_reachable 2 2 (?s ?q1 [True, False] [x] [])"
    by (rule msq_reachable_step [where e = "Check 0"]) (simp add: msq_ready_def)
  then have "msq_reachable 2 2 (?s ?q1 [True, True] [x] [])"
    by (rule msq_reachable_step [where e = "Check 1"]) (simp add: msq_ready_def)
  then have "msq_reachable 2 2 (?s (?q1\<lparr>mq_front := 1\<rparr>) [False, True] [x] [x])"
    by (rule msq_reachable_step [where e = "Take 0"]) (simp add: msq_take_def smod_pos)
  then have "msq_reachable 2 2 (?s (?q1\<lparr>mq_front := 2\<rparr>) [False, False] [x] [x, uninit 1])"
    by (rule msq_reachable_step [where e = "Take 1"]) (simp add: msq_take_def smod_pos)
  moreover have "length (msq_contents (?q1\<lparr>mq_front := 2\<rparr>)) = 2" by (simp add: length_msq_contents msq_count_def)
  moreover have "msq_put (?q1\<lparr>mq_front := 2\<rparr>) y = None" by (simp add: msq_put_def srv_msq_snd_def smod_pos)
  ultimately show ?thesis by (intro exI [of _ "?s (?q1\<lparr>mq_front := 2\<rparr>) [False, False] [x] [x, uninit 1]"]) simp
qed

end
