(* ===== verification/Mac_Learning.thy ===== *)
theory Mac_Learning
  imports Heap_Queue Ovs_List State_Machine
begin

text \<open>
  The MAC learning table of lib/mac-learning.c and lib/mac-learning.h. Entries and ports are objects
  at addresses. The two hash tables are the lists of the objects they hold (a lookup compares keys,
  and equal keys have equal hashes, so neither the hash function nor the secret matters); the lists
  of recently used entries are the plain lists that \<open>Ovs_List\<close> shows the pointers to implement; and
  the heap of ports by usage is the heap of \<open>Heap_Queue\<close>. The time is an argument, as are the
  addresses that xmalloc and xzalloc return. A failed assertion gives \<open>None\<close>.
\<close>

section \<open>State\<close>

record mac_entry =
  me_expires :: int
  me_grat_arp_lock :: int
  me_mac :: "u8 list"
  me_vlan :: u16
  me_mlport :: "addr option"

record mac_learning_port =
  mp_port :: nat
  mp_port_lrus :: "addr list"

record mac_learning =
  ml_table :: "addr list"
  ml_entry :: "addr \<Rightarrow> mac_entry"
  ml_lrus :: "addr list"
  ml_flood_vlans :: "bool list option"
  ml_idle_time :: u32
  ml_max_entries :: nat
  ml_ref_cnt :: nat
  ml_need_revalidate :: bool
  ml_ports_by_ptr :: "addr list"
  ml_port :: "addr \<Rightarrow> mac_learning_port"
  ml_ports_by_usage :: heap

abbreviation TIME_MIN :: int where "TIME_MIN \<equiv> LLONG_MIN"
abbreviation MAC_DEFAULT_MAX :: nat where "MAC_DEFAULT_MAX \<equiv> 2048"
abbreviation MAC_GRAT_ARP_LOCK_TIME :: int where "MAC_GRAT_ARP_LOCK_TIME \<equiv> 5"

definition upd_entry :: "addr \<Rightarrow> (mac_entry \<Rightarrow> mac_entry) \<Rightarrow> mac_learning \<Rightarrow> mac_learning" where
  "upd_entry e f ml = ml\<lparr>ml_entry := (ml_entry ml)(e := f (ml_entry ml e))\<rparr>"

definition upd_mlport :: "addr \<Rightarrow> (mac_learning_port \<Rightarrow> mac_learning_port) \<Rightarrow> mac_learning \<Rightarrow> mac_learning" where
  "upd_mlport p f ml = ml\<lparr>ml_port := (ml_port ml)(p := f (ml_port ml p))\<rparr>"

section \<open>Entries\<close>

definition mac_entry_set_grat_arp_lock :: "addr \<Rightarrow> int \<Rightarrow> mac_learning \<Rightarrow> mac_learning" where
  "mac_entry_set_grat_arp_lock e now = upd_entry e (\<lambda>m. m\<lparr>me_grat_arp_lock := now + MAC_GRAT_ARP_LOCK_TIME\<rparr>)"

definition mac_entry_is_grat_arp_locked :: "mac_learning \<Rightarrow> addr \<Rightarrow> int \<Rightarrow> bool" where
  "mac_entry_is_grat_arp_locked ml e now \<longleftrightarrow> now < me_grat_arp_lock (ml_entry ml e)"

definition mac_entry_get_port :: "mac_learning \<Rightarrow> addr \<Rightarrow> nat option" where
  "mac_entry_get_port ml e = (case me_mlport (ml_entry ml e) of None \<Rightarrow> None | Some p \<Rightarrow> Some (mp_port (ml_port ml p)))"

definition mac_entry_age :: "mac_learning \<Rightarrow> addr \<Rightarrow> int \<Rightarrow> int" where
  "mac_entry_age ml e now =
     (let remaining = me_expires (ml_entry ml e) - now in c_int (uint (ml_idle_time ml) - remaining))"

definition mac_entry_lookup :: "mac_learning \<Rightarrow> u8 list \<Rightarrow> u16 \<Rightarrow> addr option" where
  "mac_entry_lookup ml mac vlan =
     find (\<lambda>e. me_vlan (ml_entry ml e) = vlan \<and> me_mac (ml_entry ml e) = mac) (ml_table ml)"

definition mac_learning_port_lookup :: "mac_learning \<Rightarrow> nat \<Rightarrow> addr option" where
  "mac_learning_port_lookup ml port = find (\<lambda>p. mp_port (ml_port ml p) = port) (ml_ports_by_ptr ml)"

text \<open>The priority of the heap node of a port.\<close>

abbreviation usage :: "mac_learning \<Rightarrow> addr \<Rightarrow> u64" where
  "usage ml p \<equiv> nd_priority (hp_store (ml_ports_by_usage ml) p)"

text \<open>The part of \<open>mac_entry_set_port\<close> that takes an entry off its old port.\<close>

definition leave_port :: "mac_learning \<Rightarrow> addr \<Rightarrow> mac_learning option" where
  "leave_port ml e =
     (case me_mlport (ml_entry ml e) of
        None \<Rightarrow> Some ml
      | Some p \<Rightarrow>
          let ml = upd_mlport p (\<lambda>m. m\<lparr>mp_port_lrus := remove1 e (mp_port_lrus m)\<rparr>) ml
          in if mp_port_lrus (ml_port ml p) = [] then
               if usage ml p = 1 then
                 Some (upd_entry e (\<lambda>m. m\<lparr>me_mlport := None\<rparr>)
                   (ml\<lparr>ml_ports_by_ptr := remove1 p (ml_ports_by_ptr ml),
                       ml_ports_by_usage := heap_remove (ml_ports_by_usage ml) p\<rparr>))
               else None
             else if usage ml p > 1 then
               Some (upd_entry e (\<lambda>m. m\<lparr>me_mlport := None\<rparr>)
                 (ml\<lparr>ml_ports_by_usage := heap_change (ml_ports_by_usage ml) p (usage ml p - 1)\<rparr>))
             else None)"

text \<open>The part of \<open>mac_entry_set_port\<close> that puts an entry on a port; \<open>new\<close> is a new port object.\<close>

definition join_port :: "mac_learning \<Rightarrow> addr \<Rightarrow> nat \<Rightarrow> addr \<Rightarrow> mac_learning" where
  "join_port ml e port new =
     (let (p, ml) =
        (case mac_learning_port_lookup ml port of
           None \<Rightarrow>
             (new, ml\<lparr>ml_ports_by_ptr := new # ml_ports_by_ptr ml,
                      ml_ports_by_usage := heap_insert (ml_ports_by_usage ml) new 1,
                      ml_port := (ml_port ml)(new := \<lparr>mp_port = port, mp_port_lrus = []\<rparr>)\<rparr>)
         | Some p \<Rightarrow> (p, ml\<lparr>ml_ports_by_usage := heap_change (ml_ports_by_usage ml) p (usage ml p + 1)\<rparr>))
      in upd_entry e (\<lambda>m. m\<lparr>me_mlport := Some p\<rparr>)
           (upd_mlport p (\<lambda>m. m\<lparr>mp_port_lrus := mp_port_lrus m @ [e]\<rparr>) ml))"

definition mac_entry_set_port :: "mac_learning \<Rightarrow> addr \<Rightarrow> nat option \<Rightarrow> addr \<Rightarrow> mac_learning option" where
  "mac_entry_set_port ml e port new =
     (if mac_entry_get_port ml e \<noteq> port then
        case leave_port (ml\<lparr>ml_need_revalidate := True\<rparr>) e of
          None \<Rightarrow> None
        | Some ml \<Rightarrow> (case port of None \<Rightarrow> Some ml | Some port \<Rightarrow> Some (join_port ml e port new))
      else Some ml)"

definition mac_learning_expire :: "mac_learning \<Rightarrow> addr \<Rightarrow> mac_learning option" where
  "mac_learning_expire ml e =
     (case mac_entry_set_port (ml\<lparr>ml_need_revalidate := True\<rparr>) e None 0 of
        None \<Rightarrow> None
      | Some ml \<Rightarrow> Some (ml\<lparr>ml_table := remove1 e (ml_table ml), ml_lrus := remove1 e (ml_lrus ml)\<rparr>))"

definition evict_mac_entry_fairly :: "mac_learning \<Rightarrow> mac_learning option" where
  "evict_mac_entry_fairly ml =
     (case mp_port_lrus (ml_port ml (heap_max (ml_ports_by_usage ml))) of
        [] \<Rightarrow> None
      | e # _ \<Rightarrow> mac_learning_expire ml e)"

definition get_lru :: "mac_learning \<Rightarrow> addr option" where
  "get_lru ml = (case ml_lrus ml of [] \<Rightarrow> None | e # _ \<Rightarrow> Some e)"

section \<open>Table\<close>

definition normalize_idle_time :: "u32 \<Rightarrow> u32" where
  "normalize_idle_time idle_time = (if idle_time < 15 then 15 else if idle_time > 3600 then 3600 else idle_time)"

text \<open>Memory as it is when the table is created.\<close>

definition mac_learning_create :: "(addr \<Rightarrow> mac_entry) \<Rightarrow> (addr \<Rightarrow> mac_learning_port) \<Rightarrow> heap \<Rightarrow> u32 \<Rightarrow> mac_learning" where
  "mac_learning_create entries ports mem idle_time =
     \<lparr>ml_table = [], ml_entry = entries, ml_lrus = [], ml_flood_vlans = None,
      ml_idle_time = normalize_idle_time idle_time, ml_max_entries = MAC_DEFAULT_MAX, ml_ref_cnt = 1,
      ml_need_revalidate = False, ml_ports_by_ptr = [], ml_port = ports, ml_ports_by_usage = heap_init mem\<rparr>"

definition mac_learning_ref :: "mac_learning option \<Rightarrow> mac_learning option" where
  "mac_learning_ref ml = map_option (\<lambda>ml. ml\<lparr>ml_ref_cnt := ml_ref_cnt ml + 1\<rparr>) ml"

fun expire_all :: "mac_learning \<Rightarrow> addr list \<Rightarrow> mac_learning option" where
  "expire_all ml [] = Some ml"
| "expire_all ml (e # es) = Option.bind (mac_learning_expire ml e) (\<lambda>ml. expire_all ml es)"

text \<open>The inner \<open>None\<close> says that the table has been freed.\<close>

definition mac_learning_unref :: "mac_learning option \<Rightarrow> mac_learning option option" where
  "mac_learning_unref ml =
     (case ml of
        None \<Rightarrow> Some None
      | Some ml \<Rightarrow>
          if ml_ref_cnt ml = 1
          then map_option (\<lambda>_. None) (expire_all (ml\<lparr>ml_ref_cnt := 0\<rparr>) (ml_table ml))
          else Some (Some (ml\<lparr>ml_ref_cnt := ml_ref_cnt ml - 1\<rparr>)))"

definition mac_learning_set_flood_vlans :: "mac_learning \<Rightarrow> bool list option \<Rightarrow> bool \<times> mac_learning" where
  "mac_learning_set_flood_vlans ml bitmap =
     (if ml_flood_vlans ml = bitmap then (False, ml) else (True, ml\<lparr>ml_flood_vlans := bitmap\<rparr>))"

definition mac_learning_set_idle_time :: "mac_learning \<Rightarrow> u32 \<Rightarrow> mac_learning" where
  "mac_learning_set_idle_time ml idle_time =
     (let idle_time = normalize_idle_time idle_time
      in if idle_time \<noteq> ml_idle_time ml then
           let delta = uint idle_time - uint (ml_idle_time ml)
           in fold (\<lambda>e. upd_entry e (\<lambda>m. m\<lparr>me_expires := me_expires m + delta\<rparr>)) (ml_lrus ml) ml\<lparr>ml_idle_time := idle_time\<rparr>
         else ml)"

definition mac_learning_set_max_entries :: "mac_learning \<Rightarrow> nat \<Rightarrow> mac_learning" where
  "mac_learning_set_max_entries ml max_entries =
     ml\<lparr>ml_max_entries := (if max_entries < 10 then 10 else if max_entries > 1000 * 1000 then 1000 * 1000 else max_entries)\<rparr>"

definition is_learning_vlan :: "mac_learning \<Rightarrow> u16 \<Rightarrow> bool" where
  "is_learning_vlan ml vlan \<longleftrightarrow> (case ml_flood_vlans ml of None \<Rightarrow> True | Some b \<Rightarrow> \<not> b ! unat vlan)"

definition eth_addr_is_multicast :: "u8 list \<Rightarrow> bool" where
  "eth_addr_is_multicast ea \<longleftrightarrow> ea ! 0 AND 1 \<noteq> 0"

definition mac_learning_may_learn :: "mac_learning option \<Rightarrow> u8 list \<Rightarrow> u16 \<Rightarrow> bool" where
  "mac_learning_may_learn ml src_mac vlan \<longleftrightarrow>
     (case ml of None \<Rightarrow> False | Some ml \<Rightarrow> is_learning_vlan ml vlan \<and> \<not> eth_addr_is_multicast src_mac)"

text \<open>The end of \<open>mac_learning_insert\<close>: an entry becomes the most recently used one.\<close>

definition mark_used :: "mac_learning \<Rightarrow> addr \<Rightarrow> int \<Rightarrow> mac_learning" where
  "mark_used ml e now =
     (let ml = ml\<lparr>ml_lrus := ml_lrus ml @ [e]\<rparr>;
          ml = (case me_mlport (ml_entry ml e) of
                  None \<Rightarrow> ml
                | Some p \<Rightarrow> upd_mlport p (\<lambda>m. m\<lparr>mp_port_lrus := remove1 e (mp_port_lrus m) @ [e]\<rparr>) ml)
      in upd_entry e (\<lambda>m. m\<lparr>me_expires := now + uint (ml_idle_time ml)\<rparr>) ml)"

definition mac_learning_insert :: "mac_learning \<Rightarrow> u8 list \<Rightarrow> u16 \<Rightarrow> addr \<Rightarrow> int \<Rightarrow> (addr \<times> mac_learning) option" where
  "mac_learning_insert ml src_mac vlan new now =
     (case mac_entry_lookup ml src_mac vlan of
        None \<Rightarrow>
          (case (if length (ml_table ml) \<ge> ml_max_entries ml then evict_mac_entry_fairly ml else Some ml) of
             None \<Rightarrow> None
           | Some ml \<Rightarrow>
               let ml = upd_entry new (\<lambda>m. m\<lparr>me_mac := src_mac, me_vlan := vlan, me_grat_arp_lock := TIME_MIN, me_mlport := None\<rparr>)
                          (ml\<lparr>ml_table := new # ml_table ml\<rparr>)
               in Some (new, mark_used ml new now))
      | Some e \<Rightarrow> Some (e, mark_used (ml\<lparr>ml_lrus := remove1 e (ml_lrus ml)\<rparr>) e now))"

text \<open>The outer \<open>None\<close> is a failed assertion.\<close>

definition mac_learning_lookup :: "mac_learning \<Rightarrow> u8 list \<Rightarrow> u16 \<Rightarrow> addr option option" where
  "mac_learning_lookup ml dst vlan =
     (if eth_addr_is_multicast dst then Some None
      else if \<not> is_learning_vlan ml vlan then Some None
      else
        case mac_entry_lookup ml dst vlan of
          None \<Rightarrow> Some None
        | Some e \<Rightarrow> if mac_entry_get_port ml e \<noteq> None then Some (Some e) else None)"

lemma set_port_lrus [simp]: "mac_entry_set_port ml e port new = Some ml' \<Longrightarrow> ml_lrus ml' = ml_lrus ml"
  by (auto simp: mac_entry_set_port_def leave_port_def join_port_def upd_entry_def upd_mlport_def Let_def
      split: option.splits if_splits prod.splits)

lemma expire_lrus: "mac_learning_expire ml e = Some ml' \<Longrightarrow> ml_lrus ml' = remove1 e (ml_lrus ml)"
  using set_port_lrus by (fastforce simp: mac_learning_expire_def split: option.splits)

function mac_learning_flush :: "mac_learning \<Rightarrow> mac_learning option" where
  "mac_learning_flush ml =
     (case get_lru ml of None \<Rightarrow> Some ml | Some e \<Rightarrow> Option.bind (mac_learning_expire ml e) mac_learning_flush)"
  by pat_completeness auto
termination
  by (relation "measure (\<lambda>ml. length (ml_lrus ml))")
     (auto simp: get_lru_def expire_lrus split: list.splits)

text \<open>The loop of \<open>mac_learning_run\<close>.\<close>

function run_expire :: "mac_learning \<Rightarrow> int \<Rightarrow> mac_learning option" where
  "run_expire ml now =
     (case get_lru ml of
        None \<Rightarrow> Some ml
      | Some e \<Rightarrow>
          if length (ml_table ml) > ml_max_entries ml \<or> now \<ge> me_expires (ml_entry ml e)
          then Option.bind (mac_learning_expire ml e) (\<lambda>ml. run_expire ml now)
          else Some ml)"
  by pat_completeness auto
termination
  by (relation "measure (\<lambda>(ml, now). length (ml_lrus ml))")
     (auto simp: get_lru_def expire_lrus split: list.splits)

declare mac_learning_flush.simps [simp del] run_expire.simps [simp del]

definition mac_learning_run :: "mac_learning \<Rightarrow> int \<Rightarrow> (bool \<times> mac_learning) option" where
  "mac_learning_run ml now =
     map_option (\<lambda>ml. (ml_need_revalidate ml, ml\<lparr>ml_need_revalidate := False\<rparr>)) (run_expire ml now)"

datatype ml_wake = Wake_Never | Wake_Immediate | Wake_At int

definition mac_learning_wait :: "mac_learning \<Rightarrow> ml_wake" where
  "mac_learning_wait ml =
     (if length (ml_table ml) > ml_max_entries ml \<or> ml_need_revalidate ml then Wake_Immediate
      else case ml_lrus ml of [] \<Rightarrow> Wake_Never | e # _ \<Rightarrow> Wake_At (me_expires (ml_entry ml e) * 1000))"

end
