(* ===== verification/Mac_Learning_Inv.thy ===== *)
theory Mac_Learning_Inv
  imports Mac_Learning
begin

text \<open>
  The invariant of the MAC learning table: the table, the list of recently used entries, the lists
  per port, the table of ports and the heap of ports by usage describe the same entries, and the
  priority of a port in the heap is the number of its entries. Every operation keeps it and passes
  its assertions. On it rest the correctness of learning and lookup, the fairness of eviction and
  the expiration of entries.
\<close>

section \<open>Invariant\<close>

abbreviation lrus_of :: "mac_learning \<Rightarrow> addr \<Rightarrow> addr list" where
  "lrus_of ml p \<equiv> mp_port_lrus (ml_port ml p)"

abbreviation mlport_of :: "mac_learning \<Rightarrow> addr \<Rightarrow> addr option" where
  "mlport_of ml e \<equiv> me_mlport (ml_entry ml e)"

definition entry_key :: "mac_learning \<Rightarrow> addr \<Rightarrow> u8 list \<times> u16" where
  "entry_key ml e = (me_mac (ml_entry ml e), me_vlan (ml_entry ml e))"

definition table_inv :: "mac_learning \<Rightarrow> bool" where
  "table_inv ml \<longleftrightarrow> distinct (ml_table ml) \<and> distinct (ml_lrus ml) \<and> set (ml_lrus ml) = set (ml_table ml) \<and>
     inj_on (entry_key ml) (set (ml_table ml)) \<and> length (ml_table ml) \<le> 1000000 \<and>
     10 \<le> ml_max_entries ml \<and> ml_max_entries ml \<le> 1000000"

definition port_inv :: "mac_learning \<Rightarrow> bool" where
  "port_inv ml \<longleftrightarrow> distinct (ml_ports_by_ptr ml) \<and>
     inj_on (\<lambda>p. mp_port (ml_port ml p)) (set (ml_ports_by_ptr ml)) \<and>
     heap_inv (ml_ports_by_usage ml) \<and>
     (\<forall>p. heap_abs (ml_ports_by_usage ml) p
        = (if p \<in> set (ml_ports_by_ptr ml) then Some (of_nat (length (lrus_of ml p))) else None)) \<and>
     (\<forall>p \<in> set (ml_ports_by_ptr ml). lrus_of ml p \<noteq> [] \<and> distinct (lrus_of ml p) \<and>
        set (lrus_of ml p) = {e \<in> set (ml_table ml). mlport_of ml e = Some p}) \<and>
     (\<forall>e \<in> set (ml_table ml). \<forall>p. mlport_of ml e = Some p \<longrightarrow> p \<in> set (ml_ports_by_ptr ml))"

lemma port_invD:
  assumes "port_inv ml"
  shows "distinct (ml_ports_by_ptr ml)" "inj_on (\<lambda>p. mp_port (ml_port ml p)) (set (ml_ports_by_ptr ml))"
    "heap_inv (ml_ports_by_usage ml)"
    "heap_abs (ml_ports_by_usage ml) p
       = (if p \<in> set (ml_ports_by_ptr ml) then Some (of_nat (length (lrus_of ml p))) else None)"
    "p \<in> set (ml_ports_by_ptr ml) \<Longrightarrow> lrus_of ml p \<noteq> [] \<and> distinct (lrus_of ml p) \<and>
       set (lrus_of ml p) = {e \<in> set (ml_table ml). mlport_of ml e = Some p}"
    "e \<in> set (ml_table ml) \<Longrightarrow> mlport_of ml e = Some p \<Longrightarrow> p \<in> set (ml_ports_by_ptr ml)"
  using assms by (auto simp: port_inv_def)

lemma port_invI:
  assumes "distinct (ml_ports_by_ptr ml)" "inj_on (\<lambda>p. mp_port (ml_port ml p)) (set (ml_ports_by_ptr ml))"
    "heap_inv (ml_ports_by_usage ml)"
    "\<And>p. heap_abs (ml_ports_by_usage ml) p
       = (if p \<in> set (ml_ports_by_ptr ml) then Some (of_nat (length (lrus_of ml p))) else None)"
    "\<And>p. p \<in> set (ml_ports_by_ptr ml) \<Longrightarrow> lrus_of ml p \<noteq> [] \<and> distinct (lrus_of ml p)"
    "\<And>p. p \<in> set (ml_ports_by_ptr ml) \<Longrightarrow>
       set (lrus_of ml p) = {e \<in> set (ml_table ml). mlport_of ml e = Some p}"
    "\<And>e p. e \<in> set (ml_table ml) \<Longrightarrow> mlport_of ml e = Some p \<Longrightarrow> p \<in> set (ml_ports_by_ptr ml)"
  shows "port_inv ml"
  using assms by (simp add: port_inv_def)

lemma port_lrus_bound:
  assumes "port_inv ml" "p \<in> set (ml_ports_by_ptr ml)"
  shows "length (lrus_of ml p) \<le> length (ml_table ml)"
proof -
  have "length (lrus_of ml p) = card (set (lrus_of ml p))"
    using port_invD(5) [OF assms] by (metis distinct_card)
  also have "\<dots> \<le> card (set (ml_table ml))"
    using port_invD(5) [OF assms] by (intro card_mono) auto
  also have "\<dots> \<le> length (ml_table ml)" by (rule card_length)
  finally show ?thesis .
qed

lemma usage_eq:
  assumes "port_inv ml" "p \<in> set (ml_ports_by_ptr ml)"
  shows "usage ml p = of_nat (length (lrus_of ml p))"
  using port_invD(4) [OF assms(1), of p] assms(2) by (auto simp: heap_abs_def heap_prio_def split: if_splits)

lemma unat_small_u64: "n \<le> 1000000 \<Longrightarrow> unat (of_nat n :: u64) = n"
  by (rule unat_of_nat_small) simp

text \<open>Changing the list of one port and its priority.\<close>

lemma heap_abs_change:
  assumes "heap_inv h" "heap_abs h p \<noteq> None"
  shows "heap_inv (heap_change h p x)" "heap_abs (heap_change h p x) = (heap_abs h)(p \<mapsto> x)"
  using heap_step_refines [of h "HChange p x"] assms by auto

lemma heap_abs_remove:
  assumes "heap_inv h" "heap_abs h p \<noteq> None"
  shows "heap_inv (heap_remove h p)" "heap_abs (heap_remove h p) = (heap_abs h)(p := None)"
  using heap_step_refines [of h "HRemove p"] assms by auto

lemma heap_abs_insert:
  assumes "heap_inv h" "heap_abs h p = None"
  shows "heap_inv (heap_insert h p x)" "heap_abs (heap_insert h p x) = (heap_abs h)(p \<mapsto> x)"
  using heap_step_refines [of h "HInsert p x"] assms by auto

section \<open>Leaving and joining a port\<close>

text \<open>What the change of an entry's port leaves alone.\<close>

definition same_table :: "mac_learning \<Rightarrow> mac_learning \<Rightarrow> bool" where
  "same_table ml ml' \<longleftrightarrow> ml_table ml' = ml_table ml \<and> ml_lrus ml' = ml_lrus ml \<and>
     ml_flood_vlans ml' = ml_flood_vlans ml \<and> ml_idle_time ml' = ml_idle_time ml \<and>
     ml_max_entries ml' = ml_max_entries ml \<and>
     (\<forall>e. me_expires (ml_entry ml' e) = me_expires (ml_entry ml e) \<and>
          me_grat_arp_lock (ml_entry ml' e) = me_grat_arp_lock (ml_entry ml e) \<and>
          me_mac (ml_entry ml' e) = me_mac (ml_entry ml e) \<and> me_vlan (ml_entry ml' e) = me_vlan (ml_entry ml e))"

lemma same_table_refl: "same_table ml ml"
  by (simp add: same_table_def)

lemma same_table_trans: "same_table a b \<Longrightarrow> same_table b c \<Longrightarrow> same_table a c"
  by (simp add: same_table_def)

lemma same_table_key: "same_table ml ml' \<Longrightarrow> entry_key ml' = entry_key ml"
  by (rule ext) (simp add: entry_key_def same_table_def)

lemma same_table_inv: "same_table ml ml' \<Longrightarrow> table_inv ml \<Longrightarrow> table_inv ml'"
  using same_table_key [of ml ml'] by (simp add: table_inv_def same_table_def)

text \<open>The state after an entry has left its port.\<close>

definition left_port :: "mac_learning \<Rightarrow> addr \<Rightarrow> mac_learning \<Rightarrow> bool" where
  "left_port ml e ml' \<longleftrightarrow> port_inv ml' \<and> same_table ml ml' \<and> mlport_of ml' e = None \<and>
     (\<forall>e'. e' \<noteq> e \<longrightarrow> mlport_of ml' e' = mlport_of ml e') \<and>
     (\<forall>p. mp_port (ml_port ml' p) = mp_port (ml_port ml p)) \<and>
     set (ml_ports_by_ptr ml') \<subseteq> set (ml_ports_by_ptr ml) \<and> ml_need_revalidate ml' = ml_need_revalidate ml"

lemma member_facts:
  assumes inv: "port_inv ml" "table_inv ml" and e: "e \<in> set (ml_table ml)" and p: "mlport_of ml e = Some p"
  shows "p \<in> set (ml_ports_by_ptr ml)" "distinct (lrus_of ml p)"
    "set (lrus_of ml p) = {e \<in> set (ml_table ml). mlport_of ml e = Some p}" "e \<in> set (lrus_of ml p)"
    "length (lrus_of ml p) \<le> 1000000" "usage ml p = of_nat (length (lrus_of ml p))"
    "length (remove1 e (lrus_of ml p)) = length (lrus_of ml p) - 1"
proof -
  show p': "p \<in> set (ml_ports_by_ptr ml)" by (rule port_invD(6) [OF inv(1) e p])
  show "distinct (lrus_of ml p)" "set (lrus_of ml p) = {e \<in> set (ml_table ml). mlport_of ml e = Some p}"
    and m: "e \<in> set (lrus_of ml p)"
    using port_invD(5) [OF inv(1) p'] e p by auto
  show "length (lrus_of ml p) \<le> 1000000"
    using port_lrus_bound [OF inv(1) p'] inv(2) by (simp add: table_inv_def)
  show "usage ml p = of_nat (length (lrus_of ml p))" by (rule usage_eq [OF inv(1) p'])
  show "length (remove1 e (lrus_of ml p)) = length (lrus_of ml p) - 1" using m by (simp add: length_remove1)
qed

lemma leave_port_last:
  assumes inv: "port_inv ml" "table_inv ml" and e: "e \<in> set (ml_table ml)" and p: "mlport_of ml e = Some p"
    and last: "remove1 e (lrus_of ml p) = []"
  shows "\<exists>ml'. leave_port ml e = Some ml' \<and> left_port ml e ml'"
proof -
  let ?L = "lrus_of ml p" and ?h = "ml_ports_by_usage ml"
  let ?n = "length ?L"
  note f = member_facts [OF inv e p]
  have ha: "heap_inv ?h" "heap_abs ?h p \<noteq> None" using port_invD(3,4) [OF inv(1)] f(1) by auto
  have "?n = 1" using f(4,7) last by (cases ?L) auto
  then have "usage ml p = 1" using f(6) by simp
  then have eq: "leave_port ml e = Some (upd_entry e (\<lambda>m. m\<lparr>me_mlport := None\<rparr>)
      (upd_mlport p (\<lambda>m. m\<lparr>mp_port_lrus := []\<rparr>) ml
         \<lparr>ml_ports_by_ptr := remove1 p (ml_ports_by_ptr ml), ml_ports_by_usage := heap_remove ?h p\<rparr>))"
    (is "_ = Some ?ml") using last p by (simp add: leave_port_def Let_def upd_mlport_def)
  have only: "e' = e" if "e' \<in> set (ml_table ml)" "mlport_of ml e' = Some p" for e'
  proof -
    obtain a where "?L = [a]" using \<open>?n = 1\<close> by (cases ?L) auto
    moreover have "e' \<in> set ?L" using that f(3) by simp
    ultimately show ?thesis using f(4) by simp
  qed
  have F: "ml_table ?ml = ml_table ml" "set (ml_ports_by_ptr ?ml) = set (ml_ports_by_ptr ml) - {p}"
    "q \<noteq> p \<Longrightarrow> lrus_of ?ml q = lrus_of ml q" "mp_port (ml_port ?ml q) = mp_port (ml_port ml q)"
    "mlport_of ?ml x = (if x = e then None else mlport_of ml x)" "ml_ports_by_usage ?ml = heap_remove ?h p" for q x
    using port_invD(1) [OF inv(1)] by (simp_all add: upd_entry_def upd_mlport_def)
  have "port_inv ?ml"
  proof (rule port_invI)
    show "distinct (ml_ports_by_ptr ?ml)"
      using port_invD(1) [OF inv(1)] by (simp add: upd_entry_def upd_mlport_def)
    show "inj_on (\<lambda>p. mp_port (ml_port ?ml p)) (set (ml_ports_by_ptr ?ml))"
      using port_invD(2) [OF inv(1)] unfolding F by (rule inj_on_subset) auto
    show "heap_inv (ml_ports_by_usage ?ml)" unfolding F by (rule heap_abs_remove [OF ha])
    show "heap_abs (ml_ports_by_usage ?ml) q
        = (if q \<in> set (ml_ports_by_ptr ?ml) then Some (of_nat (length (lrus_of ?ml q))) else None)" for q
      using port_invD(4) [OF inv(1), of q] F(3) [of q] unfolding F(2,6) heap_abs_remove [OF ha] by simp
    show "lrus_of ?ml q \<noteq> [] \<and> distinct (lrus_of ?ml q)" if "q \<in> set (ml_ports_by_ptr ?ml)" for q
      using that port_invD(5) [OF inv(1), of q] F(3) [of q] unfolding F(2) by simp
    show "set (lrus_of ?ml q) = {x \<in> set (ml_table ?ml). mlport_of ?ml x = Some q}"
      if "q \<in> set (ml_ports_by_ptr ?ml)" for q
      using that port_invD(5) [OF inv(1), of q] F(3) [of q] p unfolding F(1,2,5) by auto
    show "q \<in> set (ml_ports_by_ptr ?ml)" if "x \<in> set (ml_table ?ml)" "mlport_of ?ml x = Some q" for x q
      using that port_invD(6) [OF inv(1), of x q] only [of x] unfolding F(1,2,5) by (auto split: if_splits)
  qed
  then show ?thesis using eq
    by (auto simp: left_port_def same_table_def upd_entry_def upd_mlport_def dest: set_remove1_subset [THEN subsetD])
qed

lemma leave_port_more:
  assumes inv: "port_inv ml" "table_inv ml" and e: "e \<in> set (ml_table ml)" and p: "mlport_of ml e = Some p"
    and more: "remove1 e (lrus_of ml p) \<noteq> []"
  shows "\<exists>ml'. leave_port ml e = Some ml' \<and> left_port ml e ml'"
proof -
  let ?L = "lrus_of ml p" and ?h = "ml_ports_by_usage ml"
  let ?n = "length ?L"
  note f = member_facts [OF inv e p]
  have ha: "heap_inv ?h" "heap_abs ?h p \<noteq> None" using port_invD(3,4) [OF inv(1)] f(1) by auto
  have "2 \<le> ?n" using f(4,7) more by (cases "remove1 e ?L") auto
  then have "1 < usage ml p" "usage ml p - 1 = of_nat (?n - 1)"
    using f(5,6) by (simp_all add: word_less_nat_alt unat_small_u64 of_nat_diff)
  then have eq: "leave_port ml e = Some (upd_entry e (\<lambda>m. m\<lparr>me_mlport := None\<rparr>)
      (upd_mlport p (\<lambda>m. m\<lparr>mp_port_lrus := remove1 e ?L\<rparr>) ml
         \<lparr>ml_ports_by_usage := heap_change ?h p (of_nat (?n - 1))\<rparr>))"
    (is "_ = Some ?ml") using more p by (simp add: leave_port_def Let_def upd_mlport_def)
  have F: "ml_table ?ml = ml_table ml" "ml_ports_by_ptr ?ml = ml_ports_by_ptr ml"
    "lrus_of ?ml q = (if q = p then remove1 e ?L else lrus_of ml q)" "mp_port (ml_port ?ml q) = mp_port (ml_port ml q)"
    "mlport_of ?ml x = (if x = e then None else mlport_of ml x)"
    "ml_ports_by_usage ?ml = heap_change ?h p (of_nat (?n - 1))" for q x
    by (simp_all add: upd_entry_def upd_mlport_def)
  have "port_inv ?ml"
  proof (rule port_invI)
    show "distinct (ml_ports_by_ptr ?ml)" unfolding F by (rule port_invD(1) [OF inv(1)])
    show "inj_on (\<lambda>p. mp_port (ml_port ?ml p)) (set (ml_ports_by_ptr ?ml))"
      unfolding F by (rule port_invD(2) [OF inv(1)])
    show "heap_inv (ml_ports_by_usage ?ml)" unfolding F by (rule heap_abs_change [OF ha])
    show "heap_abs (ml_ports_by_usage ?ml) q
        = (if q \<in> set (ml_ports_by_ptr ?ml) then Some (of_nat (length (lrus_of ?ml q))) else None)" for q
      using port_invD(4) [OF inv(1), of q] f(1,7) unfolding F heap_abs_change [OF ha] by simp
    show "lrus_of ?ml q \<noteq> [] \<and> distinct (lrus_of ?ml q)" if "q \<in> set (ml_ports_by_ptr ?ml)" for q
      using that port_invD(5) [OF inv(1), of q] more f(2) unfolding F by (simp add: distinct_remove1)
    show "set (lrus_of ?ml q) = {x \<in> set (ml_table ?ml). mlport_of ?ml x = Some q}"
      if "q \<in> set (ml_ports_by_ptr ?ml)" for q
      using that port_invD(5) [OF inv(1), of q] p f(2,3,4) unfolding F by (auto simp: set_remove1_eq)
    show "q \<in> set (ml_ports_by_ptr ?ml)" if "x \<in> set (ml_table ?ml)" "mlport_of ?ml x = Some q" for x q
      using that port_invD(6) [OF inv(1), of x q] unfolding F by (auto split: if_splits)
  qed
  then show ?thesis using eq by (auto simp: left_port_def same_table_def upd_entry_def upd_mlport_def)
qed

lemma leave_port_spec:
  assumes "port_inv ml" "table_inv ml" "e \<in> set (ml_table ml)"
  shows "\<exists>ml'. leave_port ml e = Some ml' \<and> left_port ml e ml'"
proof (cases "mlport_of ml e")
  case None
  then show ?thesis using assms(1) same_table_refl by (simp add: leave_port_def left_port_def)
next
  case (Some p)
  then show ?thesis using leave_port_last leave_port_more assms by blast
qed

text \<open>The state after an entry without a port has joined one.\<close>

definition joined_port :: "mac_learning \<Rightarrow> addr \<Rightarrow> nat \<Rightarrow> mac_learning \<Rightarrow> bool" where
  "joined_port ml e port ml' \<longleftrightarrow> port_inv ml' \<and> same_table ml ml' \<and> mac_entry_get_port ml' e = Some port \<and>
     (\<forall>e'. e' \<noteq> e \<longrightarrow> mlport_of ml' e' = mlport_of ml e') \<and>
     (\<forall>p \<in> set (ml_ports_by_ptr ml). mp_port (ml_port ml' p) = mp_port (ml_port ml p)) \<and>
     ml_need_revalidate ml' = ml_need_revalidate ml"

lemma port_lookup:
  assumes "port_inv ml"
  shows "mac_learning_port_lookup ml port = Some p \<longleftrightarrow> p \<in> set (ml_ports_by_ptr ml) \<and> mp_port (ml_port ml p) = port"
    "mac_learning_port_lookup ml port = None \<longleftrightarrow> (\<forall>p \<in> set (ml_ports_by_ptr ml). mp_port (ml_port ml p) \<noteq> port)"
proof -
  show "mac_learning_port_lookup ml port = None \<longleftrightarrow> (\<forall>p \<in> set (ml_ports_by_ptr ml). mp_port (ml_port ml p) \<noteq> port)"
    by (auto simp: mac_learning_port_lookup_def find_None_iff)
  have "mac_learning_port_lookup ml port = Some p \<Longrightarrow> p \<in> set (ml_ports_by_ptr ml) \<and> mp_port (ml_port ml p) = port" for p
    by (auto simp: mac_learning_port_lookup_def find_Some_iff)
  then show "mac_learning_port_lookup ml port = Some p \<longleftrightarrow> p \<in> set (ml_ports_by_ptr ml) \<and> mp_port (ml_port ml p) = port"
    using port_invD(2) [OF assms] by (metis (mono_tags, lifting) find_None_iff inj_onD mac_learning_port_lookup_def option.exhaust)
qed

lemma join_new_port:
  assumes inv: "port_inv ml" and e: "e \<in> set (ml_table ml)" "mlport_of ml e = None"
    and new: "new \<notin> set (ml_ports_by_ptr ml)" and lk: "mac_learning_port_lookup ml port = None"
  shows "joined_port ml e port (join_port ml e port new)"
proof -
  let ?h = "ml_ports_by_usage ml" and ?ml = "join_port ml e port new"
  have ha: "heap_inv ?h" "heap_abs ?h new = None" using port_invD(3,4) [OF inv] new by auto
  have F: "ml_table ?ml = ml_table ml" "ml_ports_by_ptr ?ml = new # ml_ports_by_ptr ml"
    "lrus_of ?ml q = (if q = new then [e] else lrus_of ml q)"
    "mp_port (ml_port ?ml q) = (if q = new then port else mp_port (ml_port ml q))"
    "mlport_of ?ml x = (if x = e then Some new else mlport_of ml x)"
    "ml_ports_by_usage ?ml = heap_insert ?h new 1" for q x
    using lk by (simp_all add: join_port_def upd_entry_def upd_mlport_def)
  have "port_inv ?ml"
  proof (rule port_invI)
    show "distinct (ml_ports_by_ptr ?ml)" using port_invD(1) [OF inv] new unfolding F by simp
    show "inj_on (\<lambda>p. mp_port (ml_port ?ml p)) (set (ml_ports_by_ptr ?ml))"
      using port_invD(2) [OF inv] new lk unfolding F port_lookup(2) [OF inv] by (auto simp: inj_on_def)
    show "heap_inv (ml_ports_by_usage ?ml)" unfolding F by (rule heap_abs_insert [OF ha])
    show "heap_abs (ml_ports_by_usage ?ml) q
        = (if q \<in> set (ml_ports_by_ptr ?ml) then Some (of_nat (length (lrus_of ?ml q))) else None)" for q
      using port_invD(4) [OF inv, of q] unfolding F heap_abs_insert [OF ha] by simp
    show "lrus_of ?ml q \<noteq> [] \<and> distinct (lrus_of ?ml q)" if "q \<in> set (ml_ports_by_ptr ?ml)" for q
      using that port_invD(5) [OF inv, of q] unfolding F by auto
    show "set (lrus_of ?ml q) = {x \<in> set (ml_table ?ml). mlport_of ?ml x = Some q}"
      if "q \<in> set (ml_ports_by_ptr ?ml)" for q
      using that port_invD(5) [OF inv, of q] port_invD(6) [OF inv, of _ new] e new unfolding F by auto
    show "q \<in> set (ml_ports_by_ptr ?ml)" if "x \<in> set (ml_table ?ml)" "mlport_of ?ml x = Some q" for x q
      using that port_invD(6) [OF inv, of x q] unfolding F by (auto split: if_splits)
  qed
  then show ?thesis using new lk
    by (auto simp: joined_port_def same_table_def mac_entry_get_port_def join_port_def upd_entry_def upd_mlport_def)
qed

lemma join_old_port:
  assumes inv: "port_inv ml" and e: "e \<in> set (ml_table ml)" "mlport_of ml e = None"
    and lk: "mac_learning_port_lookup ml port = Some p"
  shows "joined_port ml e port (join_port ml e port new)"
proof -
  let ?h = "ml_ports_by_usage ml" and ?ml = "join_port ml e port new"
  have p: "p \<in> set (ml_ports_by_ptr ml)" "mp_port (ml_port ml p) = port" using lk unfolding port_lookup(1) [OF inv] by auto
  have ha: "heap_inv ?h" "heap_abs ?h p \<noteq> None" using port_invD(3,4) [OF inv] p by auto
  have F: "ml_table ?ml = ml_table ml" "ml_ports_by_ptr ?ml = ml_ports_by_ptr ml"
    "lrus_of ?ml q = (if q = p then lrus_of ml p @ [e] else lrus_of ml q)"
    "mp_port (ml_port ?ml q) = mp_port (ml_port ml q)"
    "mlport_of ?ml x = (if x = e then Some p else mlport_of ml x)"
    "ml_ports_by_usage ?ml = heap_change ?h p (of_nat (length (lrus_of ml p) + 1))" for q x
    using lk usage_eq [OF inv p(1)] by (simp_all add: join_port_def upd_entry_def upd_mlport_def add.commute)
  have "port_inv ?ml"
  proof (rule port_invI)
    show "distinct (ml_ports_by_ptr ?ml)" unfolding F by (rule port_invD(1) [OF inv])
    show "inj_on (\<lambda>p. mp_port (ml_port ?ml p)) (set (ml_ports_by_ptr ?ml))"
      unfolding F by (rule port_invD(2) [OF inv])
    show "heap_inv (ml_ports_by_usage ?ml)" unfolding F by (rule heap_abs_change [OF ha])
    show "heap_abs (ml_ports_by_usage ?ml) q
        = (if q \<in> set (ml_ports_by_ptr ?ml) then Some (of_nat (length (lrus_of ?ml q))) else None)" for q
      using port_invD(4) [OF inv, of q] p unfolding F heap_abs_change [OF ha] by simp
    show "lrus_of ?ml q \<noteq> [] \<and> distinct (lrus_of ?ml q)" if "q \<in> set (ml_ports_by_ptr ?ml)" for q
      using that port_invD(5) [OF inv, of q] e unfolding F by auto
    show "set (lrus_of ?ml q) = {x \<in> set (ml_table ?ml). mlport_of ?ml x = Some q}"
      if "q \<in> set (ml_ports_by_ptr ?ml)" for q
      using that port_invD(5) [OF inv, of q] e unfolding F by auto
    show "q \<in> set (ml_ports_by_ptr ?ml)" if "x \<in> set (ml_table ?ml)" "mlport_of ?ml x = Some q" for x q
      using that port_invD(6) [OF inv, of x q] p unfolding F by (auto split: if_splits)
  qed
  then show ?thesis using p lk
    by (auto simp: joined_port_def same_table_def mac_entry_get_port_def join_port_def upd_entry_def upd_mlport_def)
qed

text \<open>A change of an entry's port: nothing else of the table changes.\<close>

definition moved_entry :: "mac_learning \<Rightarrow> addr \<Rightarrow> nat option \<Rightarrow> mac_learning \<Rightarrow> bool" where
  "moved_entry ml e port ml' \<longleftrightarrow> port_inv ml' \<and> same_table ml ml' \<and> mac_entry_get_port ml' e = port \<and>
     (\<forall>e' \<in> set (ml_table ml). e' \<noteq> e \<longrightarrow> mac_entry_get_port ml' e' = mac_entry_get_port ml e') \<and>
     (ml_need_revalidate ml \<longrightarrow> ml_need_revalidate ml') \<and>
     (port = None \<longrightarrow> set (ml_ports_by_ptr ml') \<subseteq> set (ml_ports_by_ptr ml))"

lemma set_port_spec:
  assumes inv: "port_inv ml" "table_inv ml" and e: "e \<in> set (ml_table ml)"
    and new: "port \<noteq> None \<Longrightarrow> new \<notin> set (ml_ports_by_ptr ml)"
  shows "\<exists>ml'. mac_entry_set_port ml e port new = Some ml' \<and> moved_entry ml e port ml'"
proof (cases "mac_entry_get_port ml e = port")
  case True
  then show ?thesis using inv same_table_refl by (simp add: mac_entry_set_port_def moved_entry_def)
next
  case False
  let ?ml = "ml\<lparr>ml_need_revalidate := True\<rparr>"
  have inv': "port_inv ?ml" "table_inv ?ml" "e \<in> set (ml_table ?ml)"
    using inv e by (simp_all add: port_inv_def table_inv_def entry_key_def [abs_def])
  obtain m where m: "leave_port ?ml e = Some m" "left_port ?ml e m" using leave_port_spec [OF inv'] by blast
  have st: "same_table ml m" using m(2) by (simp add: left_port_def same_table_def)
  show ?thesis
  proof (cases port)
    case None
    then show ?thesis using False m st
      by (auto simp: mac_entry_set_port_def moved_entry_def left_port_def mac_entry_get_port_def split: option.splits)
  next
    case (Some q)
    have "e \<in> set (ml_table m)" "mlport_of m e = None" "port_inv m" "new \<notin> set (ml_ports_by_ptr m)"
      using m(2) e new Some by (auto simp: left_port_def same_table_def)
    then have j: "joined_port m e q (join_port m e q new)"
      using join_new_port join_old_port by (cases "mac_learning_port_lookup m q") blast+
    have "mac_entry_get_port (join_port m e q new) e' = mac_entry_get_port ml e'"
      if "e' \<in> set (ml_table ml)" "e' \<noteq> e" for e'
      using j m(2) that port_invD(6) [of m e']
      by (auto simp: joined_port_def left_port_def same_table_def mac_entry_get_port_def split: option.splits)
    moreover have "same_table ml (join_port m e q new)" using j st same_table_trans by (auto simp: joined_port_def)
    ultimately show ?thesis using False m j Some
      by (auto simp: mac_entry_set_port_def moved_entry_def joined_port_def left_port_def)
  qed
qed

section \<open>Removing and adding entries\<close>

definition ml_inv :: "mac_learning \<Rightarrow> bool" where
  "ml_inv ml \<longleftrightarrow> table_inv ml \<and> port_inv ml"

text \<open>What two tables agree on about an entry.\<close>

definition same_entry :: "mac_learning \<Rightarrow> mac_learning \<Rightarrow> addr \<Rightarrow> bool" where
  "same_entry ml ml' e \<longleftrightarrow> entry_key ml' e = entry_key ml e \<and>
     me_expires (ml_entry ml' e) = me_expires (ml_entry ml e) \<and> mac_entry_get_port ml' e = mac_entry_get_port ml e"

definition same_config :: "mac_learning \<Rightarrow> mac_learning \<Rightarrow> bool" where
  "same_config ml ml' \<longleftrightarrow> ml_flood_vlans ml' = ml_flood_vlans ml \<and> ml_idle_time ml' = ml_idle_time ml \<and>
     ml_max_entries ml' = ml_max_entries ml"

definition expired_entry :: "mac_learning \<Rightarrow> addr \<Rightarrow> mac_learning \<Rightarrow> bool" where
  "expired_entry ml e ml' \<longleftrightarrow> ml_inv ml' \<and> same_config ml ml' \<and>
     ml_table ml' = remove1 e (ml_table ml) \<and> ml_lrus ml' = remove1 e (ml_lrus ml) \<and>
     (\<forall>e' \<in> set (ml_table ml). e' \<noteq> e \<longrightarrow> same_entry ml ml' e') \<and> ml_need_revalidate ml' \<and>
     set (ml_ports_by_ptr ml') \<subseteq> set (ml_ports_by_ptr ml)"

lemma get_port_None: "mac_entry_get_port ml e = None \<longleftrightarrow> mlport_of ml e = None"
  by (simp add: mac_entry_get_port_def split: option.splits)

lemma frame_updates [simp]:
  "mac_entry_get_port (ml\<lparr>ml_need_revalidate := b\<rparr>) e = mac_entry_get_port ml e"
  "mac_entry_get_port (ml\<lparr>ml_table := t\<rparr>) e = mac_entry_get_port ml e"
  "mac_entry_get_port (ml\<lparr>ml_lrus := l\<rparr>) e = mac_entry_get_port ml e"
  "entry_key (ml\<lparr>ml_need_revalidate := b\<rparr>) e = entry_key ml e"
  "entry_key (ml\<lparr>ml_table := t\<rparr>) e = entry_key ml e"
  "entry_key (ml\<lparr>ml_lrus := l\<rparr>) e = entry_key ml e"
  by (simp_all add: mac_entry_get_port_def entry_key_def split: option.split)

lemma expire_spec:
  assumes inv: "ml_inv ml" and e: "e \<in> set (ml_table ml)"
  shows "\<exists>ml'. mac_learning_expire ml e = Some ml' \<and> expired_entry ml e ml'"
proof -
  let ?ml = "ml\<lparr>ml_need_revalidate := True\<rparr>"
  have "port_inv ?ml" "table_inv ?ml" "e \<in> set (ml_table ?ml)"
    using inv e by (simp_all add: ml_inv_def port_inv_def table_inv_def entry_key_def [abs_def])
  from set_port_spec [OF this, of None 0]
  obtain m where m: "mac_entry_set_port ?ml e None 0 = Some m" "moved_entry ?ml e None m" by blast
  let ?m = "m\<lparr>ml_table := remove1 e (ml_table m), ml_lrus := remove1 e (ml_lrus m)\<rparr>"
  have st: "same_table ?ml m" and pi: "port_inv m" and np: "mlport_of m e = None"
    using m(2) by (simp_all add: moved_entry_def get_port_None)
  have ti: "table_inv m" by (rule same_table_inv [OF st]) fact
  have k: "entry_key ?m = entry_key m" by (simp add: entry_key_def [abs_def])
  have "table_inv ?m"
    using ti unfolding table_inv_def k by (auto simp: length_remove1 inj_on_def)
  moreover have "port_inv ?m"
    using pi np by (intro port_invI) (auto simp: port_inv_def table_inv_def ti [unfolded table_inv_def])
  moreover have "entry_key m e' = entry_key ml e'" for e'
    using same_table_key [OF st] by (simp add: entry_key_def [abs_def] fun_eq_iff)
  ultimately have "expired_entry ml e ?m"
    using m(2) st by (auto simp: expired_entry_def ml_inv_def same_config_def same_entry_def moved_entry_def
        same_table_def)
  then show ?thesis using m(1) by (auto simp: mac_learning_expire_def)
qed

text \<open>The port with the most entries, and its least recently used entry.\<close>

lemma evict_choice:
  assumes inv: "ml_inv ml" and ne: "ml_ports_by_ptr ml \<noteq> []"
  shows "\<exists>p e es. p = heap_max (ml_ports_by_usage ml) \<and> p \<in> set (ml_ports_by_ptr ml) \<and>
    (\<forall>q \<in> set (ml_ports_by_ptr ml). length (lrus_of ml q) \<le> length (lrus_of ml p)) \<and>
    lrus_of ml p = e # es \<and> e \<in> set (ml_table ml) \<and> mlport_of ml e = Some p \<and>
    evict_mac_entry_fairly ml = mac_learning_expire ml e"
proof -
  let ?h = "ml_ports_by_usage ml" and ?p = "heap_max (ml_ports_by_usage ml)"
  have pi: "port_inv ml" using inv by (simp add: ml_inv_def)
  have nodes: "heap_nodes ?h = set (ml_ports_by_ptr ml)"
  proof (rule set_eqI)
    fix q
    show "q \<in> heap_nodes ?h \<longleftrightarrow> q \<in> set (ml_ports_by_ptr ml)"
      using port_invD(4) [OF pi, of q] by (auto simp: heap_abs_def split: if_splits)
  qed
  have p: "?p \<in> set (ml_ports_by_ptr ml)"
    using ne port_invD(3) [OF pi] ovs_heap.top_in [of ?h] unfolding nodes by auto
  have "length (lrus_of ml q) \<le> length (lrus_of ml ?p)" if q: "q \<in> set (ml_ports_by_ptr ml)" for q
  proof -
    have "usage ml q \<le> usage ml ?p"
      using heap_inv_top [OF port_invD(3) [OF pi], of q] q unfolding nodes by (simp add: heap_prio_def)
    moreover have "length (lrus_of ml q) \<le> 1000000" "length (lrus_of ml ?p) \<le> 1000000"
      using port_lrus_bound [OF pi] p q inv by (auto simp: ml_inv_def table_inv_def intro: order_trans)
    ultimately show ?thesis
      using usage_eq [OF pi p] usage_eq [OF pi q] by (simp add: word_le_nat_alt unat_small_u64)
  qed
  moreover obtain e es where "lrus_of ml ?p = e # es" using port_invD(5) [OF pi p] by (cases "lrus_of ml ?p") auto
  moreover from this have "e \<in> set (ml_table ml)" "mlport_of ml e = Some ?p" using port_invD(5) [OF pi p] by auto
  ultimately show ?thesis using p
    by - (rule exI [of _ ?p], rule exI [of _ e], rule exI [of _ es], simp add: evict_mac_entry_fairly_def)
qed

lemma entry_lookup:
  assumes "table_inv ml"
  shows "mac_entry_lookup ml mac vlan = Some e \<longleftrightarrow> e \<in> set (ml_table ml) \<and> entry_key ml e = (mac, vlan)"
    "mac_entry_lookup ml mac vlan = None \<longleftrightarrow> (\<forall>e \<in> set (ml_table ml). entry_key ml e \<noteq> (mac, vlan))"
proof -
  show "mac_entry_lookup ml mac vlan = None \<longleftrightarrow> (\<forall>e \<in> set (ml_table ml). entry_key ml e \<noteq> (mac, vlan))"
    by (auto simp: mac_entry_lookup_def find_None_iff entry_key_def)
  have "mac_entry_lookup ml mac vlan = Some e \<Longrightarrow> e \<in> set (ml_table ml) \<and> entry_key ml e = (mac, vlan)" for e
    by (auto simp: mac_entry_lookup_def find_Some_iff entry_key_def)
  moreover have "inj_on (entry_key ml) (set (ml_table ml))" using assms by (simp add: table_inv_def)
  ultimately show "mac_entry_lookup ml mac vlan = Some e \<longleftrightarrow> e \<in> set (ml_table ml) \<and> entry_key ml e = (mac, vlan)"
    using \<open>mac_entry_lookup ml mac vlan = None \<longleftrightarrow> (\<forall>e \<in> set (ml_table ml). entry_key ml e \<noteq> (mac, vlan))\<close>
    by (metis inj_onD option.exhaust)
qed

text \<open>Marking an entry as used, once it has been taken off the list of recently used entries.\<close>

lemma mark_used_inv:
  assumes pi: "port_inv ml" and e: "e \<in> set (ml_table ml)"
    and ti: "table_inv (ml\<lparr>ml_lrus := ml_lrus ml @ [e]\<rparr>)"
  shows "ml_inv (mark_used ml e now)" "same_config ml (mark_used ml e now)"
    "ml_table (mark_used ml e now) = ml_table ml" "ml_lrus (mark_used ml e now) = ml_lrus ml @ [e]"
    "entry_key (mark_used ml e now) x = entry_key ml x"
    "mac_entry_get_port (mark_used ml e now) x = mac_entry_get_port ml x"
    "me_expires (ml_entry (mark_used ml e now) x)
       = (if x = e then now + uint (ml_idle_time ml) else me_expires (ml_entry ml x))"
    "ml_need_revalidate (mark_used ml e now) = ml_need_revalidate ml"
    "ml_ports_by_ptr (mark_used ml e now) = ml_ports_by_ptr ml"
proof -
  let ?ml = "mark_used ml e now"
  have F: "ml_table ?ml = ml_table ml" "ml_ports_by_ptr ?ml = ml_ports_by_ptr ml"
    "mp_port (ml_port ?ml q) = mp_port (ml_port ml q)" "mlport_of ?ml x = mlport_of ml x"
    "ml_ports_by_usage ?ml = ml_ports_by_usage ml"
    "lrus_of ?ml q = (if mlport_of ml e = Some q then remove1 e (lrus_of ml q) @ [e] else lrus_of ml q)" for q x
    by (auto simp: mark_used_def Let_def upd_entry_def upd_mlport_def split: option.splits)
  show R: "ml_table ?ml = ml_table ml" "ml_lrus ?ml = ml_lrus ml @ [e]" "same_config ml ?ml"
    "entry_key ?ml x = entry_key ml x" "mac_entry_get_port ?ml x = mac_entry_get_port ml x"
    "me_expires (ml_entry ?ml x) = (if x = e then now + uint (ml_idle_time ml) else me_expires (ml_entry ml x))"
    "ml_need_revalidate ?ml = ml_need_revalidate ml" for x
    by (auto simp: mark_used_def Let_def upd_entry_def upd_mlport_def same_config_def entry_key_def
        mac_entry_get_port_def split: option.splits)
  show "ml_ports_by_ptr ?ml = ml_ports_by_ptr ml" by (rule F)
  have lr: "length (lrus_of ?ml q) = length (lrus_of ml q)" "set (lrus_of ?ml q) = set (lrus_of ml q)"
    "distinct (lrus_of ?ml q)" if "q \<in> set (ml_ports_by_ptr ml)" for q
  proof -
    have "mlport_of ml e = Some q \<Longrightarrow> e \<in> set (lrus_of ml q)" using port_invD(5) [OF pi that] e by simp
    moreover have "distinct (lrus_of ml q)" "0 < length (lrus_of ml q)" using port_invD(5) [OF pi that] by simp_all
    ultimately show "length (lrus_of ?ml q) = length (lrus_of ml q)" "set (lrus_of ?ml q) = set (lrus_of ml q)"
      "distinct (lrus_of ?ml q)"
      unfolding F by (auto simp: length_remove1 set_remove1_eq distinct_remove1)
  qed
  have "port_inv ?ml"
  proof (rule port_invI)
    show "lrus_of ?ml q \<noteq> [] \<and> distinct (lrus_of ?ml q)" if "q \<in> set (ml_ports_by_ptr ?ml)" for q
      using that lr [of q] port_invD(5) [OF pi, of q] unfolding F(2) by (metis length_0_conv)
    show "set (lrus_of ?ml q) = {x \<in> set (ml_table ?ml). mlport_of ?ml x = Some q}"
      if "q \<in> set (ml_ports_by_ptr ?ml)" for q
      using that lr(2) [of q] port_invD(5) [OF pi, of q] unfolding F(1,2,4) by simp
    show "heap_abs (ml_ports_by_usage ?ml) q
        = (if q \<in> set (ml_ports_by_ptr ?ml) then Some (of_nat (length (lrus_of ?ml q))) else None)" for q
      using lr(1) [of q] port_invD(4) [OF pi, of q] unfolding F(2,5) by simp
  qed (use pi in \<open>auto simp: port_inv_def F(1-5)\<close>)
  moreover have "table_inv ?ml"
    using ti R by (simp add: table_inv_def same_config_def inj_on_def)
  ultimately show "ml_inv ?ml" by (simp add: ml_inv_def)
qed

text \<open>Adding a new entry, without a port, to a table that has room for it.\<close>

definition add_entry :: "mac_learning \<Rightarrow> u8 list \<Rightarrow> u16 \<Rightarrow> addr \<Rightarrow> mac_learning" where
  "add_entry ml mac vlan new = upd_entry new
     (\<lambda>m. m\<lparr>me_mac := mac, me_vlan := vlan, me_grat_arp_lock := TIME_MIN, me_mlport := None\<rparr>)
     (ml\<lparr>ml_table := new # ml_table ml\<rparr>)"

lemma add_entry_fields:
  "ml_table (add_entry ml mac vlan new) = new # ml_table ml" "ml_lrus (add_entry ml mac vlan new) = ml_lrus ml"
  "same_config ml (add_entry ml mac vlan new)" "ml_need_revalidate (add_entry ml mac vlan new) = ml_need_revalidate ml"
  "entry_key (add_entry ml mac vlan new) x = (if x = new then (mac, vlan) else entry_key ml x)"
  "mac_entry_get_port (add_entry ml mac vlan new) x = (if x = new then None else mac_entry_get_port ml x)"
  "me_expires (ml_entry (add_entry ml mac vlan new) x) = me_expires (ml_entry ml x)"
  "ml_ports_by_ptr (add_entry ml mac vlan new) = ml_ports_by_ptr ml"
  by (auto simp: add_entry_def upd_entry_def same_config_def entry_key_def mac_entry_get_port_def split: option.splits)

lemma add_entry_inv:
  assumes inv: "ml_inv ml" and room: "length (ml_table ml) < 1000000"
    and new: "new \<notin> set (ml_table ml)" "\<forall>e \<in> set (ml_table ml). entry_key ml e \<noteq> (mac, vlan)"
  shows "port_inv (add_entry ml mac vlan new)"
    "table_inv (add_entry ml mac vlan new\<lparr>ml_lrus := ml_lrus (add_entry ml mac vlan new) @ [new]\<rparr>)"
proof -
  let ?ml = "add_entry ml mac vlan new"
  have F: "ml_table ?ml = new # ml_table ml" "ml_ports_by_ptr ?ml = ml_ports_by_ptr ml"
    "ml_port ?ml = ml_port ml" "mlport_of ?ml x = (if x = new then None else mlport_of ml x)"
    "ml_ports_by_usage ?ml = ml_ports_by_usage ml" for x
    by (simp_all add: add_entry_def upd_entry_def)
  have "port_inv ml" using inv by (simp add: ml_inv_def)
  note D = port_invD [OF this]
  show "port_inv ?ml"
    by (rule port_invI) (use D new in \<open>auto simp: F split: if_splits\<close>)
  show "table_inv (?ml\<lparr>ml_lrus := ml_lrus ?ml @ [new]\<rparr>)"
    using inv room new add_entry_fields [of ml mac vlan new]
    by (auto simp: ml_inv_def table_inv_def inj_on_def same_config_def)
qed

text \<open>The table after a new entry has been inserted into \<open>m\<close>.\<close>

definition inserted :: "mac_learning \<Rightarrow> u8 list \<Rightarrow> u16 \<Rightarrow> addr \<Rightarrow> int \<Rightarrow> mac_learning \<Rightarrow> bool" where
  "inserted m mac vlan new now ml' \<longleftrightarrow> ml_inv ml' \<and> same_config m ml' \<and> ml_table ml' = new # ml_table m \<and>
     ml_lrus ml' = ml_lrus m @ [new] \<and> entry_key ml' new = (mac, vlan) \<and> mac_entry_get_port ml' new = None \<and>
     me_expires (ml_entry ml' new) = now + uint (ml_idle_time m) \<and>
     (\<forall>e \<in> set (ml_table m). same_entry m ml' e) \<and> ml_ports_by_ptr ml' = ml_ports_by_ptr m"

lemma insert_room:
  assumes "ml_inv m" "length (ml_table m) < 1000000" "new \<notin> set (ml_table m)"
    "\<forall>e \<in> set (ml_table m). entry_key m e \<noteq> (mac, vlan)"
  shows "inserted m mac vlan new now (mark_used (add_entry m mac vlan new) new now)"
proof -
  let ?a = "add_entry m mac vlan new"
  note a = add_entry_inv [OF assms]
  have "new \<in> set (ml_table ?a)" by (simp add: add_entry_fields)
  note u = mark_used_inv [OF a(1) this a(2), where now = now]
  show ?thesis using u add_entry_fields [of m mac vlan new] assms(3)
    by (auto simp: inserted_def same_config_def same_entry_def)
qed

lemma insert_new_room:
  assumes inv: "ml_inv ml" and lk: "mac_entry_lookup ml mac vlan = None" and new: "new \<notin> set (ml_table ml)"
    and room: "length (ml_table ml) < ml_max_entries ml"
  shows "\<exists>ml'. mac_learning_insert ml mac vlan new now = Some (new, ml') \<and> inserted ml mac vlan new now ml'"
proof -
  have t: "table_inv ml" using inv by (simp add: ml_inv_def)
  have "length (ml_table ml) < 1000000" using t room by (simp add: table_inv_def)
  from insert_room [OF inv this new, of mac vlan now] lk [unfolded entry_lookup(2) [OF t]]
  have "inserted ml mac vlan new now (mark_used (add_entry ml mac vlan new) new now)" by simp
  with lk room show ?thesis by (simp add: mac_learning_insert_def add_entry_def Let_def)
qed

lemma insert_new_full:
  assumes inv: "ml_inv ml" and lk: "mac_entry_lookup ml mac vlan = None" and new: "new \<notin> set (ml_table ml)"
    and full: "ml_max_entries ml \<le> length (ml_table ml)" and ev: "evict_mac_entry_fairly ml = Some m" "expired_entry ml e m"
    and e: "e \<in> set (ml_table ml)"
  shows "\<exists>ml'. mac_learning_insert ml mac vlan new now = Some (new, ml') \<and> inserted m mac vlan new now ml'"
proof -
  have t: "table_inv ml" using inv by (simp add: ml_inv_def)
  have m: "ml_inv m" "ml_table m = remove1 e (ml_table ml)" using ev(2) by (auto simp: expired_entry_def)
  have sub: "set (ml_table m) = set (ml_table ml) - {e}" using t m(2) by (simp add: table_inv_def)
  have "length (ml_table m) < 1000000"
    using t m(2) e full by (auto simp: table_inv_def length_remove1)
  moreover have "new \<notin> set (ml_table m)" using new sub by auto
  moreover have "\<forall>x \<in> set (ml_table m). entry_key m x \<noteq> (mac, vlan)"
    using lk ev(2) sub unfolding entry_lookup(2) [OF t] by (auto simp: expired_entry_def same_entry_def)
  ultimately show ?thesis using insert_room [OF m(1), of new mac vlan now] lk full ev(1)
    by (simp add: mac_learning_insert_def add_entry_def Let_def)
qed

lemma insert_old:
  assumes inv: "ml_inv ml" and lk: "mac_entry_lookup ml mac vlan = Some e"
  shows "\<exists>ml'. mac_learning_insert ml mac vlan new now = Some (e, ml') \<and> ml_inv ml' \<and> same_config ml ml' \<and>
    ml_table ml' = ml_table ml \<and> ml_lrus ml' = remove1 e (ml_lrus ml) @ [e] \<and>
    ml_ports_by_ptr ml' = ml_ports_by_ptr ml \<and>
    me_expires (ml_entry ml' e) = now + uint (ml_idle_time ml) \<and>
    (\<forall>x. entry_key ml' x = entry_key ml x \<and> mac_entry_get_port ml' x = mac_entry_get_port ml x) \<and>
    (\<forall>x. x \<noteq> e \<longrightarrow> me_expires (ml_entry ml' x) = me_expires (ml_entry ml x))"
proof -
  let ?m = "ml\<lparr>ml_lrus := remove1 e (ml_lrus ml)\<rparr>"
  have t: "table_inv ml" "port_inv ml" using inv by (simp_all add: ml_inv_def)
  have e: "e \<in> set (ml_table ml)" using lk unfolding entry_lookup(1) [OF t(1)] by simp
  have "port_inv ?m" using t(2) by (simp add: port_inv_def)
  moreover have "e \<in> set (ml_table ?m)" using e by simp
  moreover have "table_inv (?m\<lparr>ml_lrus := ml_lrus ?m @ [e]\<rparr>)"
    using t(1) e by (auto simp: table_inv_def inj_on_def)
  ultimately have "ml_inv (mark_used ?m e now)" "same_config ml (mark_used ?m e now)"
      "ml_table (mark_used ?m e now) = ml_table ml" "ml_lrus (mark_used ?m e now) = remove1 e (ml_lrus ml) @ [e]"
      "entry_key (mark_used ?m e now) x = entry_key ml x"
      "mac_entry_get_port (mark_used ?m e now) x = mac_entry_get_port ml x"
      "me_expires (ml_entry (mark_used ?m e now) x)
        = (if x = e then now + uint (ml_idle_time ml) else me_expires (ml_entry ml x))"
      "ml_ports_by_ptr (mark_used ?m e now) = ml_ports_by_ptr ml" for x
    using mark_used_inv [of ?m e, where now = now] by (auto simp: same_config_def)
  then show ?thesis using lk by (simp add: mac_learning_insert_def)
qed

end
