(* ===== verification/Mac_Learning_Props.thy ===== *)
theory Mac_Learning_Props
  imports Mac_Learning_Inv
begin

text \<open>
  What the MAC learning table guarantees its clients, for every sequence of calls: no assertion
  fails, a learned address is found on its port, an overfull table evicts fairly, and expired entries
  go. A client learns an address as ofproto/ofproto-dpif-xlate.c does: \<open>mac_learning_insert\<close> followed
  by \<open>mac_entry_set_port\<close> with a port.
\<close>

section \<open>Calls\<close>

abbreviation expires_of :: "mac_learning \<Rightarrow> addr \<Rightarrow> int" where
  "expires_of ml e \<equiv> me_expires (ml_entry ml e)"

text \<open>Every entry has a port, and the list of recently used entries is ordered by expiration time.\<close>

definition all_ported :: "mac_learning \<Rightarrow> bool" where
  "all_ported ml \<longleftrightarrow> (\<forall>e \<in> set (ml_table ml). mac_entry_get_port ml e \<noteq> None)"

definition time_inv :: "mac_learning \<Rightarrow> int \<Rightarrow> bool" where
  "time_inv ml t \<longleftrightarrow> sorted (map (expires_of ml) (ml_lrus ml)) \<and>
     (\<forall>e \<in> set (ml_lrus ml). expires_of ml e \<le> t + uint (ml_idle_time ml))"

definition mac_learn :: "mac_learning \<Rightarrow> u8 list \<Rightarrow> u16 \<Rightarrow> nat \<Rightarrow> addr \<Rightarrow> addr \<Rightarrow> int \<Rightarrow> mac_learning option" where
  "mac_learn ml mac vlan port new new_port now =
     (case mac_learning_insert ml mac vlan new now of
        None \<Rightarrow> None
      | Some (e, ml) \<Rightarrow> mac_entry_set_port ml e (Some port) new_port)"

datatype ml_op = Learn "u8 list" u16 nat addr addr | Run | Flush | Expire addr | Set_Idle_Time u32
  | Set_Max_Entries nat | Set_Flood_Vlans "bool list option" | Set_Grat_Arp_Lock addr

text \<open>A call at a given time; the state carries the time of the last call.\<close>

fun ml_exec :: "mac_learning \<times> int \<Rightarrow> int \<times> ml_op \<Rightarrow> (mac_learning \<times> int) option" where
  "ml_exec (ml, t) (now, Learn mac vlan port new new_port) =
     map_option (\<lambda>ml. (ml, now)) (mac_learn ml mac vlan port new new_port now)"
| "ml_exec (ml, t) (now, Run) = map_option (\<lambda>(_, ml). (ml, now)) (mac_learning_run ml now)"
| "ml_exec (ml, t) (now, Flush) = map_option (\<lambda>ml. (ml, now)) (mac_learning_flush ml)"
| "ml_exec (ml, t) (now, Expire e) = map_option (\<lambda>ml. (ml, now)) (mac_learning_expire ml e)"
| "ml_exec (ml, t) (now, Set_Idle_Time s) = Some (mac_learning_set_idle_time ml s, now)"
| "ml_exec (ml, t) (now, Set_Max_Entries n) = Some (mac_learning_set_max_entries ml n, now)"
| "ml_exec (ml, t) (now, Set_Flood_Vlans b) = Some (snd (mac_learning_set_flood_vlans ml b), now)"
| "ml_exec (ml, t) (now, Set_Grat_Arp_Lock e) = Some (mac_entry_set_grat_arp_lock e now ml, now)"

text \<open>Time does not go back, new objects are at free addresses, and entries expired are in the table.\<close>

fun ml_allowed :: "mac_learning \<times> int \<Rightarrow> int \<times> ml_op \<Rightarrow> bool" where
  "ml_allowed (ml, t) (now, op) \<longleftrightarrow> t \<le> now \<and>
     (case op of
        Learn mac vlan port new new_port \<Rightarrow>
          mac_learning_may_learn (Some ml) mac vlan \<and> new \<notin> set (ml_table ml) \<and> new_port \<notin> set (ml_ports_by_ptr ml)
      | Expire e \<Rightarrow> e \<in> set (ml_table ml)
      | Set_Grat_Arp_Lock e \<Rightarrow> e \<in> set (ml_table ml)
      | _ \<Rightarrow> True)"

definition ml_ok :: "mac_learning \<times> int \<Rightarrow> bool" where
  "ml_ok = (\<lambda>(ml, t). ml_inv ml \<and> all_ported ml \<and> time_inv ml t)"

section \<open>Each call keeps the invariant\<close>

lemma sorted_remove1_map: "distinct xs \<Longrightarrow> sorted (map f xs) \<Longrightarrow> sorted (map f (remove1 e xs))"
  by (simp add: distinct_remove1_removeAll removeAll_filter_not_eq sorted_filter)

lemma sorted_map_cong: "(\<And>x. x \<in> set xs \<Longrightarrow> f x = g x) \<Longrightarrow> sorted (map f xs) = sorted (map g xs)"
  by (metis map_cong)

lemma time_inv_later: "time_inv ml t \<Longrightarrow> t \<le> now \<Longrightarrow> time_inv ml now"
  by (force simp: time_inv_def)

lemma time_inv_cong:
  assumes "ml_lrus ml' = ml_lrus ml" "ml_idle_time ml' = ml_idle_time ml"
    "\<And>e. e \<in> set (ml_lrus ml) \<Longrightarrow> expires_of ml' e = expires_of ml e"
  shows "time_inv ml' t = time_inv ml t"
  using sorted_map_cong [of "ml_lrus ml" "expires_of ml'" "expires_of ml"] assms by (simp add: time_inv_def)

lemma expired_ok:
  assumes "expired_entry ml e ml'" "ml_ok (ml, t)" "e \<in> set (ml_table ml)"
  shows "ml_ok (ml', t)"
proof -
  have x: "ml_inv ml'" "same_config ml ml'" "ml_table ml' = remove1 e (ml_table ml)" "ml_lrus ml' = remove1 e (ml_lrus ml)"
      "\<And>x. x \<in> set (ml_table ml) \<Longrightarrow> x \<noteq> e \<Longrightarrow> same_entry ml ml' x"
    using assms(1) by (auto simp: expired_entry_def)
  have t: "table_inv ml" "all_ported ml" "time_inv ml t" using assms(2) by (auto simp: ml_ok_def ml_inv_def)
  have s: "set (ml_lrus ml') = set (ml_table ml) - {e}" "set (ml_table ml') = set (ml_table ml) - {e}"
    using x(3,4) t(1) by (auto simp: table_inv_def)
  have "sorted (map (expires_of ml) (ml_lrus ml'))"
    unfolding x(4) using t(1,3) by (intro sorted_remove1_map) (auto simp: table_inv_def time_inv_def)
  moreover have "sorted (map (expires_of ml') (ml_lrus ml')) = sorted (map (expires_of ml) (ml_lrus ml'))"
    by (rule sorted_map_cong) (use s(1) x(5) in \<open>auto simp: same_entry_def\<close>)
  ultimately have "time_inv ml' t"
    using x(2,5) s(1) t(1,3) by (auto simp: time_inv_def same_config_def same_entry_def table_inv_def)
  moreover have "all_ported ml'" using t(2) s(2) x(5) by (auto simp: all_ported_def same_entry_def)
  ultimately show ?thesis using x(1) by (simp add: ml_ok_def)
qed

lemma moved_ok:
  assumes "moved_entry ml e (Some port) ml'" "ml_inv ml" "time_inv ml t"
    "\<And>x. x \<in> set (ml_table ml) \<Longrightarrow> x \<noteq> e \<Longrightarrow> mac_entry_get_port ml x \<noteq> None"
  shows "ml_ok (ml', t)"
proof -
  have st: "same_table ml ml'" "port_inv ml'" using assms(1) by (auto simp: moved_entry_def)
  have "time_inv ml' t" using assms(3) time_inv_cong [of ml' ml] st(1) by (auto simp: same_table_def)
  moreover have "ml_inv ml'" using assms(2) same_table_inv [OF st(1)] st(2) by (simp add: ml_inv_def)
  moreover have "all_ported ml'"
    using assms(1,4) st(1) unfolding all_ported_def moved_entry_def same_table_def by (metis option.distinct(1))
  ultimately show ?thesis by (simp add: ml_ok_def)
qed

text \<open>Inserting gives a table in order, in which at most the entry returned lacks a port.\<close>

definition insert_ok :: "mac_learning \<Rightarrow> addr \<Rightarrow> int \<Rightarrow> bool" where
  "insert_ok ml e now \<longleftrightarrow> ml_inv ml \<and> time_inv ml now \<and> e \<in> set (ml_table ml) \<and>
     (\<forall>x \<in> set (ml_table ml). x \<noteq> e \<longrightarrow> mac_entry_get_port ml x \<noteq> None)"

lemma time_inv_append:
  assumes "time_inv ml t" "t \<le> now" "distinct (ml_lrus ml)"
    "ml_lrus ml' = remove1 e (ml_lrus ml) @ [e]" "ml_idle_time ml' = ml_idle_time ml"
    "\<And>x. x \<in> set (ml_lrus ml) \<Longrightarrow> x \<noteq> e \<Longrightarrow> expires_of ml' x = expires_of ml x"
    "expires_of ml' e = now + uint (ml_idle_time ml)"
  shows "time_inv ml' now"
proof -
  have s: "set (remove1 e (ml_lrus ml)) = set (ml_lrus ml) - {e}" using assms(3) by simp
  have "sorted (map (expires_of ml') (remove1 e (ml_lrus ml))) = sorted (map (expires_of ml) (remove1 e (ml_lrus ml)))"
    by (rule sorted_map_cong) (use s assms(6) in auto)
  moreover have "sorted (map (expires_of ml) (remove1 e (ml_lrus ml)))"
    using assms(1,3) by (intro sorted_remove1_map) (auto simp: time_inv_def)
  moreover have "\<forall>x \<in> set (ml_lrus ml). expires_of ml x \<le> now + uint (ml_idle_time ml)"
    using assms(1,2) by (force simp: time_inv_def)
  moreover have "expires_of ml' x \<le> now + uint (ml_idle_time ml)" if "x \<in> set (ml_lrus ml)" for x
    using calculation(3) assms(6) [OF that] assms(7) that by (cases "x = e") auto
  ultimately show ?thesis using assms(4,5,7) s by (auto simp: time_inv_def sorted_append)
qed

lemma inserted_ok:
  assumes "inserted m mac vlan new now ml'" "ml_ok (m, t)" "t \<le> now" "new \<notin> set (ml_table m)"
  shows "insert_ok ml' new now"
proof -
  have m: "table_inv m" "all_ported m" "time_inv m t" using assms(2) by (auto simp: ml_ok_def ml_inv_def)
  have "new \<notin> set (ml_lrus m)" "distinct (ml_lrus m)" using m(1) assms(4) by (auto simp: table_inv_def)
  then have "time_inv ml' now"
    using assms(1) m(1) by (intro time_inv_append [OF m(3) assms(3), of ml' new])
      (auto simp: inserted_def same_config_def same_entry_def remove1_idem table_inv_def)
  then show ?thesis using assms(1) m(2) by (auto simp: insert_ok_def inserted_def all_ported_def same_entry_def)
qed

lemma ported_nonempty:
  assumes "ml_ok (ml, t)" "ml_table ml \<noteq> []"
  shows "ml_ports_by_ptr ml \<noteq> []"
proof -
  let ?e = "hd (ml_table ml)"
  have "?e \<in> set (ml_table ml)" using assms(2) by simp
  then obtain p where "mlport_of ml ?e = Some p"
    using assms(1) by (auto simp: ml_ok_def all_ported_def get_port_None)
  from port_invD(6) [OF _ \<open>?e \<in> set (ml_table ml)\<close> this] show ?thesis
    using assms(1) by (auto simp: ml_ok_def ml_inv_def)
qed

lemma full_nonempty: "ml_ok (ml, t) \<Longrightarrow> ml_max_entries ml \<le> length (ml_table ml) \<Longrightarrow> ml_table ml \<noteq> []"
  by (auto simp: ml_ok_def ml_inv_def table_inv_def)

lemma evict_ok:
  assumes "ml_ok (ml, t)" "ml_max_entries ml \<le> length (ml_table ml)"
  shows "\<exists>p e es m. p = heap_max (ml_ports_by_usage ml) \<and> p \<in> set (ml_ports_by_ptr ml) \<and>
    (\<forall>q \<in> set (ml_ports_by_ptr ml). length (lrus_of ml q) \<le> length (lrus_of ml p)) \<and>
    lrus_of ml p = e # es \<and> e \<in> set (ml_table ml) \<and> mlport_of ml e = Some p \<and>
    evict_mac_entry_fairly ml = Some m \<and> expired_entry ml e m"
proof -
  have inv: "ml_inv ml" using assms(1) by (simp add: ml_ok_def)
  have "ml_ports_by_ptr ml \<noteq> []" by (rule ported_nonempty [OF assms(1) full_nonempty [OF assms]])
  from evict_choice [OF inv this] expire_spec [OF inv] show ?thesis by metis
qed

lemma insert_ok_spec:
  assumes ok: "ml_ok (ml, t)" and t: "t \<le> now" and new: "new \<notin> set (ml_table ml)"
  shows "\<exists>e ml'. mac_learning_insert ml mac vlan new now = Some (e, ml') \<and> insert_ok ml' e now \<and>
    set (ml_ports_by_ptr ml') \<subseteq> set (ml_ports_by_ptr ml)"
proof (cases "mac_entry_lookup ml mac vlan")
  case None
  have inv: "ml_inv ml" using ok by (simp add: ml_ok_def)
  show ?thesis
  proof (cases "length (ml_table ml) < ml_max_entries ml")
    case True
    from insert_new_room [OF inv None new True, of now] obtain ml'
      where "mac_learning_insert ml mac vlan new now = Some (new, ml')" "inserted ml mac vlan new now ml'" by blast
    with inserted_ok [OF _ ok t new] show ?thesis by (auto simp: inserted_def)
  next
    case False
    then have full: "ml_max_entries ml \<le> length (ml_table ml)" by simp
    from evict_ok [OF ok this] obtain e m where e: "e \<in> set (ml_table ml)"
      "evict_mac_entry_fairly ml = Some m" "expired_entry ml e m" by blast
    have "new \<notin> set (ml_table m)" using new e(3) set_remove1_subset by (fastforce simp: expired_entry_def)
    with insert_new_full [OF inv None new full e(2,3,1), of now] inserted_ok [OF _ expired_ok [OF e(3) ok e(1)] t]
    show ?thesis using e(3) by (fastforce simp: inserted_def expired_entry_def)
  qed
next
  case (Some e)
  have inv: "ml_inv ml" using ok by (simp add: ml_ok_def)
  then have "e \<in> set (ml_table ml)" using Some entry_lookup(1) by (auto simp: ml_inv_def)
  obtain ml' where m: "mac_learning_insert ml mac vlan new now = Some (e, ml')" "ml_inv ml'" "same_config ml ml'"
    "ml_table ml' = ml_table ml" "ml_lrus ml' = remove1 e (ml_lrus ml) @ [e]" "ml_ports_by_ptr ml' = ml_ports_by_ptr ml"
    "expires_of ml' e = now + uint (ml_idle_time ml)" "\<And>x. mac_entry_get_port ml' x = mac_entry_get_port ml x"
    "\<And>x. x \<noteq> e \<Longrightarrow> expires_of ml' x = expires_of ml x"
    using insert_old [OF inv Some, of new now] by blast
  have "time_inv ml' now"
    using ok inv m by (intro time_inv_append [of ml t now ml' e])
      (auto simp: ml_ok_def same_config_def ml_inv_def table_inv_def t)
  then have "insert_ok ml' e now"
    using m ok \<open>e \<in> set (ml_table ml)\<close> by (auto simp: insert_ok_def ml_ok_def all_ported_def)
  then show ?thesis using m by auto
qed

lemma learn_ok:
  assumes "ml_ok (ml, t)" "t \<le> now" "new \<notin> set (ml_table ml)" "new_port \<notin> set (ml_ports_by_ptr ml)"
  shows "\<exists>ml'. mac_learn ml mac vlan port new new_port now = Some ml' \<and> ml_ok (ml', now)"
proof -
  obtain e m where m: "mac_learning_insert ml mac vlan new now = Some (e, m)" "insert_ok m e now"
    "set (ml_ports_by_ptr m) \<subseteq> set (ml_ports_by_ptr ml)"
    using insert_ok_spec [OF assms(1-3)] by blast
  then have i: "port_inv m" "table_inv m" "e \<in> set (ml_table m)" by (auto simp: insert_ok_def ml_inv_def)
  have "new_port \<notin> set (ml_ports_by_ptr m)" using m(3) assms(4) by blast
  then obtain ml' where "mac_entry_set_port m e (Some port) new_port = Some ml'" "moved_entry m e (Some port) ml'"
    using set_port_spec [OF i, of "Some port" new_port] by blast
  with m moved_ok [of m e port ml' now] show ?thesis by (auto simp: mac_learn_def insert_ok_def)
qed

lemma run_expire_ok:
  "ml_ok (ml, t) \<Longrightarrow> \<exists>ml'. run_expire ml now = Some ml' \<and> ml_ok (ml', t)"
proof (induction ml now rule: run_expire.induct)
  case (1 ml now)
  show ?case
  proof (cases "ml_lrus ml")
    case Nil
    then show ?thesis using 1 by (subst run_expire.simps) (auto simp: get_lru_def)
  next
    case (Cons e es)
    then have e: "e \<in> set (ml_table ml)" "ml_inv ml" "get_lru ml = Some e"
      using 1(2) by (auto simp: ml_ok_def ml_inv_def table_inv_def get_lru_def)
    obtain m where m: "mac_learning_expire ml e = Some m" "expired_entry ml e m" using expire_spec [OF e(2,1)] by blast
    have "ml_ok (m, t)" by (rule expired_ok [OF m(2) 1(2) e(1)])
    with 1(1) [OF e(3) _ m(1)] m(1) 1(2) show ?thesis by (subst run_expire.simps) (auto simp: e(3))
  qed
qed

lemma flush_ok:
  "ml_ok (ml, t) \<Longrightarrow> \<exists>ml'. mac_learning_flush ml = Some ml' \<and> ml_ok (ml', t) \<and> ml_lrus ml' = []"
proof (induction ml rule: mac_learning_flush.induct)
  case (1 ml)
  show ?case
  proof (cases "ml_lrus ml")
    case Nil
    then show ?thesis using 1 by (subst mac_learning_flush.simps) (auto simp: get_lru_def)
  next
    case (Cons e es)
    then have e: "e \<in> set (ml_table ml)" "ml_inv ml" "get_lru ml = Some e"
      using 1(2) by (auto simp: ml_ok_def ml_inv_def table_inv_def get_lru_def)
    obtain m where m: "mac_learning_expire ml e = Some m" "expired_entry ml e m" using expire_spec [OF e(2,1)] by blast
    have "ml_ok (m, t)" by (rule expired_ok [OF m(2) 1(2) e(1)])
    with 1(1) [OF e(3) m(1)] m(1) show ?thesis by (subst mac_learning_flush.simps) (auto simp: e(3))
  qed
qed

lemma ok_cong:
  assumes "ml_table ml' = ml_table ml" "ml_lrus ml' = ml_lrus ml" "ml_ports_by_ptr ml' = ml_ports_by_ptr ml"
    "ml_port ml' = ml_port ml" "ml_ports_by_usage ml' = ml_ports_by_usage ml"
    "\<And>e. mlport_of ml' e = mlport_of ml e" "\<And>e. entry_key ml' e = entry_key ml e"
    "10 \<le> ml_max_entries ml'" "ml_max_entries ml' \<le> 1000000" "time_inv ml' now" "ml_ok (ml, t)"
  shows "ml_ok (ml', now)"
  using assms
  by (auto simp: ml_ok_def ml_inv_def table_inv_def port_inv_def all_ported_def get_port_None inj_on_def)

lemma fold_upd_entry:
  "distinct xs \<Longrightarrow> ml_entry (fold (\<lambda>e. upd_entry e f) xs ml) x = (if x \<in> set xs then f (ml_entry ml x) else ml_entry ml x)"
  "ml_table (fold (\<lambda>e. upd_entry e f) xs ml) = ml_table ml" "ml_lrus (fold (\<lambda>e. upd_entry e f) xs ml) = ml_lrus ml"
  "ml_ports_by_ptr (fold (\<lambda>e. upd_entry e f) xs ml) = ml_ports_by_ptr ml"
  "ml_port (fold (\<lambda>e. upd_entry e f) xs ml) = ml_port ml"
  "ml_ports_by_usage (fold (\<lambda>e. upd_entry e f) xs ml) = ml_ports_by_usage ml"
  "ml_max_entries (fold (\<lambda>e. upd_entry e f) xs ml) = ml_max_entries ml"
  "ml_idle_time (fold (\<lambda>e. upd_entry e f) xs ml) = ml_idle_time ml"
  by (induction xs arbitrary: ml) (auto simp: upd_entry_def)

lemma sorted_shift: "sorted (map f xs) \<Longrightarrow> (\<And>x. x \<in> set xs \<Longrightarrow> g x = f x + (d :: int)) \<Longrightarrow> sorted (map g xs)"
  by (induction xs) auto

lemma set_idle_time_ok:
  assumes ok: "ml_ok (ml, t)" and t: "t \<le> now"
  shows "ml_ok (mac_learning_set_idle_time ml s, now)"
proof (cases "normalize_idle_time s = ml_idle_time ml")
  case True
  then show ?thesis using ok time_inv_later [OF _ t] by (simp add: mac_learning_set_idle_time_def ml_ok_def)
next
  case False
  let ?d = "uint (normalize_idle_time s) - uint (ml_idle_time ml)"
  let ?f = "\<lambda>m. m\<lparr>me_expires := me_expires m + ?d\<rparr>"
  let ?ml = "fold (\<lambda>e. upd_entry e ?f) (ml_lrus ml) ml\<lparr>ml_idle_time := normalize_idle_time s\<rparr>"
  have eq: "mac_learning_set_idle_time ml s = ?ml" using False by (simp add: mac_learning_set_idle_time_def Let_def)
  have d: "distinct (ml_lrus ml)" and ti: "time_inv ml now"
    using ok time_inv_later [OF _ t] by (auto simp: ml_ok_def ml_inv_def table_inv_def)
  have e: "ml_entry ?ml x = (if x \<in> set (ml_lrus ml) then ?f (ml_entry ml x) else ml_entry ml x)" for x
    using fold_upd_entry(1) [OF d, of ?f ml x] by simp
  have "time_inv ?ml now"
    using ti sorted_shift [of "expires_of ml" "ml_lrus ml" "expires_of ?ml" ?d] e
    by (auto simp: time_inv_def fold_upd_entry)
  then show ?thesis unfolding eq
    using ok by (intro ok_cong [OF _ _ _ _ _ _ _ _ _ _ ok])
      (auto simp: fold_upd_entry e entry_key_def ml_ok_def ml_inv_def table_inv_def)
qed

lemma config_ok:
  assumes ok: "ml_ok (ml, t)" and t: "t \<le> now"
  shows "ml_ok (mac_learning_set_max_entries ml n, now)" "ml_ok (snd (mac_learning_set_flood_vlans ml b), now)"
    "ml_ok (mac_entry_set_grat_arp_lock e now ml, now)"
proof -
  have ti: "time_inv ml now" "10 \<le> ml_max_entries ml" "ml_max_entries ml \<le> 1000000"
    using ok time_inv_later [OF _ t] by (auto simp: ml_ok_def ml_inv_def table_inv_def)
  show "ml_ok (mac_learning_set_max_entries ml n, now)"
    using ti by (intro ok_cong [OF _ _ _ _ _ _ _ _ _ _ ok])
      (auto simp: mac_learning_set_max_entries_def entry_key_def time_inv_def)
  show "ml_ok (snd (mac_learning_set_flood_vlans ml b), now)"
    using ti by (intro ok_cong [OF _ _ _ _ _ _ _ _ _ _ ok])
      (auto simp: mac_learning_set_flood_vlans_def entry_key_def time_inv_def)
  have x: "expires_of (mac_entry_set_grat_arp_lock e now ml) x = expires_of ml x" for x
    by (simp add: mac_entry_set_grat_arp_lock_def upd_entry_def)
  have "time_inv (mac_entry_set_grat_arp_lock e now ml) now"
    using ti time_inv_cong [of "mac_entry_set_grat_arp_lock e now ml" ml] x
    by (auto simp: mac_entry_set_grat_arp_lock_def upd_entry_def)
  then show "ml_ok (mac_entry_set_grat_arp_lock e now ml, now)"
    using ti by (intro ok_cong [OF _ _ _ _ _ _ _ _ _ _ ok])
      (auto simp: mac_entry_set_grat_arp_lock_def upd_entry_def entry_key_def)
qed

lemma ok_later: "ml_ok (ml, t) \<Longrightarrow> t \<le> now \<Longrightarrow> ml_ok (ml, now)"
  using time_inv_later by (auto simp: ml_ok_def)

lemma exec_ok:
  assumes "ml_ok s" "ml_allowed s op"
  shows "\<exists>s'. ml_exec s op = Some s' \<and> ml_ok s'"
proof -
  obtain ml t now c where s: "s = (ml, t)" "op = (now, c)" by (cases s, cases op) blast
  have ok: "ml_ok (ml, t)" "ml_ok (ml, now)" "t \<le> now" using assms s ok_later by auto
  have inv: "ml_inv ml" using ok by (simp add: ml_ok_def)
  show ?thesis
  proof (cases c)
    case (Learn mac vlan port new new_port)
    then show ?thesis using learn_ok [OF ok(1,3)] assms(2) by (fastforce simp: s)
  next
    case Run
    obtain m where "run_expire ml now = Some m" "ml_ok (m, now)" using run_expire_ok [OF ok(2)] by blast
    moreover from this(2) have "ml_ok (m\<lparr>ml_need_revalidate := False\<rparr>, now)"
      by (intro ok_cong [OF _ _ _ _ _ _ _ _ _ _ \<open>ml_ok (m, now)\<close>])
         (auto simp: ml_ok_def ml_inv_def table_inv_def time_inv_def)
    ultimately show ?thesis by (simp add: s Run mac_learning_run_def)
  next
    case Flush
    then show ?thesis using flush_ok [OF ok(2)] by (auto simp: s)
  next
    case (Expire e)
    then have e: "e \<in> set (ml_table ml)" using assms(2) by (simp add: s)
    from expire_spec [OF inv e] expired_ok [OF _ ok(2) e] show ?thesis by (auto simp: s Expire)
  qed (use ok set_idle_time_ok config_ok in \<open>auto simp: s\<close>)
qed

section \<open>Reachable states\<close>

definition ml_start :: "mac_learning \<times> int \<Rightarrow> bool" where
  "ml_start = (\<lambda>(ml, t). \<exists>entries ports mem idle_time. ml = mac_learning_create entries ports mem idle_time)"

definition ml_reachable :: "mac_learning \<times> int \<Rightarrow> bool" where
  "ml_reachable = reachable_by ml_start ml_allowed ml_exec"

lemma create_ok: "ml_ok (mac_learning_create entries ports mem idle_time, t)"
  using heap_inv_init [of mem]
  by (simp add: ml_ok_def ml_inv_def table_inv_def port_inv_def all_ported_def time_inv_def mac_learning_create_def)

interpretation ml_machine: call_machine ml_start ml_allowed ml_exec ml_ok
proof
  show "ml_ok s" if "ml_start s" for s using that create_ok by (auto simp: ml_start_def)
  show "ml_ok s'" if "ml_ok s" "ml_allowed s op" "ml_exec s op = Some s'" for s op s'
    using exec_ok [OF that(1,2)] that(3) by auto
qed

lemma live_removed:
  fixes f g :: "'a \<Rightarrow> int"
  assumes "A' = A - {e}" "\<And>x. x \<in> A' \<Longrightarrow> f x = g x" "\<not> now < g e"
  shows "{x \<in> A'. now < f x} = {x \<in> A. now < g x}"
proof (rule set_eqI)
  show "x \<in> {x \<in> A'. now < f x} \<longleftrightarrow> x \<in> {x \<in> A. now < g x}" for x
    using assms(1,3) assms(2) [of x] by (cases "x = e") (simp_all, metis)
qed

lemma run_expire_spec:
  "ml_ok (ml, t) \<Longrightarrow> run_expire ml now = Some ml' \<Longrightarrow>
   (\<forall>e \<in> set (ml_table ml'). e \<in> set (ml_table ml) \<and> now < expires_of ml e \<and> same_entry ml ml' e) \<and>
   length (ml_table ml') \<le> ml_max_entries ml \<and>
   (length (ml_table ml) \<le> ml_max_entries ml \<longrightarrow> set (ml_table ml') = {e \<in> set (ml_table ml). now < expires_of ml e})"
proof (induction ml now rule: run_expire.induct)
  case (1 ml now)
  have t: "set (ml_lrus ml) = set (ml_table ml)" "distinct (ml_table ml)" "ml_inv ml"
    and srt: "sorted (map (expires_of ml) (ml_lrus ml))"
    using 1(2) by (auto simp: ml_ok_def ml_inv_def table_inv_def time_inv_def)
  show ?case
  proof (cases "ml_lrus ml")
    case Nil
    then have "ml' = ml" "ml_table ml = []" using 1(3) t(1) by (auto simp: run_expire.simps [of ml] get_lru_def)
    then show ?thesis by simp
  next
    case (Cons e es)
    then have e: "e \<in> set (ml_table ml)" "get_lru ml = Some e" using t(1) by (auto simp: get_lru_def)
    show ?thesis
    proof (cases "length (ml_table ml) > ml_max_entries ml \<or> now \<ge> expires_of ml e")
      case False
      then have "ml' = ml" using 1(3) by (simp add: run_expire.simps [of ml] e(2))
      moreover have "now < expires_of ml x" if "x \<in> set (ml_table ml)" for x
      proof -
        have "x \<in> insert e (set es)" using that t(1) by (simp add: Cons)
        then have "expires_of ml e \<le> expires_of ml x" using srt by (auto simp: Cons)
        then show ?thesis using False by simp
      qed
      ultimately show ?thesis using False by (auto simp: same_entry_def)
    next
      case True
      obtain m where m: "mac_learning_expire ml e = Some m" "expired_entry ml e m" using expire_spec [OF t(3) e(1)] by blast
      have ok: "ml_ok (m, t)" by (rule expired_ok [OF m(2) 1(2) e(1)])
      have "run_expire m now = Some ml'" using 1(3) True m(1) by (simp add: run_expire.simps [of ml] e(2))
      note IH = 1(1) [OF e(2) True m(1) ok this]
      have x: "set (ml_table m) = set (ml_table ml) - {e}" "ml_max_entries m = ml_max_entries ml"
          "length (ml_table m) = length (ml_table ml) - 1"
        using m(2) t(2) e(1) by (auto simp: expired_entry_def same_config_def length_remove1)
      have se: "same_entry ml m x" if "x \<in> set (ml_table m)" for x
        using that m(2) x(1) by (auto simp: expired_entry_def)
      have kept: "\<forall>x \<in> set (ml_table ml'). x \<in> set (ml_table ml) \<and> now < expires_of ml x \<and> same_entry ml ml' x"
      proof
        fix x assume "x \<in> set (ml_table ml')"
        with IH have i: "x \<in> set (ml_table m)" "now < expires_of m x" "same_entry m ml' x" by blast+
        show "x \<in> set (ml_table ml) \<and> now < expires_of ml x \<and> same_entry ml ml' x"
          using i se [OF i(1)] x(1) by (simp add: same_entry_def)
      qed
      have live: "set (ml_table ml') = {x \<in> set (ml_table ml). now < expires_of ml x}"
        if "length (ml_table ml) \<le> ml_max_entries ml"
      proof -
        have "length (ml_table m) \<le> ml_max_entries m" using that x(2,3) by simp
        with IH have "set (ml_table ml') = {x \<in> set (ml_table m). now < expires_of m x}" by blast
        also have "\<dots> = {x \<in> set (ml_table ml). now < expires_of ml x}"
        proof (rule live_removed [OF x(1)])
          show "expires_of m y = expires_of ml y" if "y \<in> set (ml_table m)" for y
            using se [OF that] by (simp add: same_entry_def)
          show "\<not> now < expires_of ml e" using True that by simp
        qed
        finally show ?thesis .
      qed
      show ?thesis
        by (intro conjI impI kept live IH [THEN conjunct2, THEN conjunct1, unfolded x(2)])
    qed
  qed
qed

text \<open>The entry that learning leaves.\<close>

lemma insert_result:
  assumes ok: "ml_ok (ml, t)" and new: "new \<notin> set (ml_table ml)"
    and i: "mac_learning_insert ml mac vlan new now = Some (e, m)"
  shows "e \<in> set (ml_table m) \<and> entry_key m e = (mac, vlan) \<and> same_config ml m \<and>
    (mac_entry_lookup ml mac vlan = None \<longrightarrow> e = new) \<and> expires_of m e = now + uint (ml_idle_time ml) \<and>
    (length (ml_table ml) < ml_max_entries ml \<or> mac_entry_lookup ml mac vlan \<noteq> None \<longrightarrow>
       set (ml_table m) = insert e (set (ml_table ml)) \<and> (\<forall>x \<in> set (ml_table ml). x \<noteq> e \<longrightarrow> same_entry ml m x))"
proof (cases "mac_entry_lookup ml mac vlan")
  case None
  have inv: "ml_inv ml" using ok by (simp add: ml_ok_def)
  show ?thesis
  proof (cases "length (ml_table ml) < ml_max_entries ml")
    case True
    from insert_new_room [OF inv None new True, of now] i show ?thesis by (auto simp: inserted_def)
  next
    case False
    then have full: "ml_max_entries ml \<le> length (ml_table ml)" by simp
    from evict_ok [OF ok this] obtain x m' where x: "x \<in> set (ml_table ml)"
      "evict_mac_entry_fairly ml = Some m'" "expired_entry ml x m'" by blast
    from insert_new_full [OF inv None new full x(2,3,1), of now] i x(3) show ?thesis
      using False None by (auto simp: inserted_def expired_entry_def same_config_def)
  qed
next
  case (Some x)
  have inv: "ml_inv ml" using ok by (simp add: ml_ok_def)
  then have "x \<in> set (ml_table ml) \<and> entry_key ml x = (mac, vlan)" using Some entry_lookup(1) by (auto simp: ml_inv_def)
  with insert_old [OF inv Some, of new now] i Some show ?thesis by (auto simp: same_entry_def)
qed

lemma learn_result:
  assumes ok: "ml_ok (ml, t)" and t: "t \<le> now"
    and new: "new \<notin> set (ml_table ml)" "new_port \<notin> set (ml_ports_by_ptr ml)"
  shows "\<exists>ml' e. mac_learn ml mac vlan port new new_port now = Some ml' \<and> ml_ok (ml', now) \<and> same_config ml ml' \<and>
    e \<in> set (ml_table ml') \<and> entry_key ml' e = (mac, vlan) \<and> mac_entry_get_port ml' e = Some port \<and>
    (mac_entry_lookup ml mac vlan = None \<longrightarrow> e = new) \<and> expires_of ml' e = now + uint (ml_idle_time ml) \<and>
    (length (ml_table ml) < ml_max_entries ml \<or> mac_entry_lookup ml mac vlan \<noteq> None \<longrightarrow>
       set (ml_table ml') = insert e (set (ml_table ml)) \<and> (\<forall>x \<in> set (ml_table ml). x \<noteq> e \<longrightarrow> same_entry ml ml' x))"
proof -
  obtain e m where m: "mac_learning_insert ml mac vlan new now = Some (e, m)" "insert_ok m e now"
    "set (ml_ports_by_ptr m) \<subseteq> set (ml_ports_by_ptr ml)"
    using insert_ok_spec [OF ok t new(1)] by blast
  note r = insert_result [OF ok new(1) m(1)]
  have i: "port_inv m" "table_inv m" "e \<in> set (ml_table m)" using m(2) by (auto simp: insert_ok_def ml_inv_def)
  have "new_port \<notin> set (ml_ports_by_ptr m)" using m(3) new(2) by blast
  then obtain ml' where s: "mac_entry_set_port m e (Some port) new_port = Some ml'" "moved_entry m e (Some port) ml'"
    using set_port_spec [OF i, of "Some port" new_port] by blast
  have st: "same_table m ml'" using s(2) by (simp add: moved_entry_def)
  have "ml_ok (ml', now)" using m(2) by (intro moved_ok [OF s(2)]) (auto simp: insert_ok_def)
  moreover have "entry_key ml' x = entry_key m x" "expires_of ml' x = expires_of m x" "ml_table ml' = ml_table m" for x
    using same_table_key [OF st] st by (auto simp: same_table_def)
  moreover have "same_config m ml'" using st by (simp add: same_table_def same_config_def)
  moreover have "mac_learn ml mac vlan port new new_port now = Some ml'" using m(1) s(1) by (simp add: mac_learn_def)
  moreover have "mac_entry_get_port ml' e = Some port"
      "\<And>x. x \<in> set (ml_table m) \<Longrightarrow> x \<noteq> e \<Longrightarrow> mac_entry_get_port ml' x = mac_entry_get_port m x"
    using s(2) by (auto simp: moved_entry_def)
  moreover have "same_config ml ml'" using r \<open>same_config m ml'\<close> by (simp add: same_config_def)
  moreover have "same_entry ml ml' x" if "same_entry ml m x" "x \<in> set (ml_table m)" "x \<noteq> e" for x
    using that calculation by (simp add: same_entry_def)
  ultimately show ?thesis using r by (intro exI [of _ ml'] exI [of _ e]) (metis insertI2)
qed

text \<open>Adding or refreshing one entry leaves the lookups of the other addresses alone.\<close>

lemma lookup_others:
  assumes inv: "table_inv ml" "table_inv ml'" and e: "entry_key ml' e = (mac, vlan)"
    and new: "mac_entry_lookup ml mac vlan = None \<longrightarrow> e = new" "new \<notin> set (ml_table ml)"
    and s: "set (ml_table ml') = insert e (set (ml_table ml))" "\<forall>x \<in> set (ml_table ml). x \<noteq> e \<longrightarrow> same_entry ml ml' x"
    and other: "(mac', vlan') \<noteq> (mac, vlan)"
  shows "mac_entry_lookup ml' mac' vlan' = mac_entry_lookup ml mac' vlan' \<and>
    (\<forall>x. mac_entry_lookup ml mac' vlan' = Some x \<longrightarrow> mac_entry_get_port ml' x = mac_entry_get_port ml x)"
proof -
  note look = entry_lookup(1) [OF inv(1)] entry_lookup(1) [OF inv(2)]
  have found: "mac_entry_lookup ml' mac vlan = Some e" using s(1) e by (simp add: look)
  have "entry_key ml e = (mac, vlan)" if old: "e \<in> set (ml_table ml)"
  proof (cases "mac_entry_lookup ml mac vlan")
    case (Some x)
    then have x: "x \<in> set (ml_table ml)" "entry_key ml x = (mac, vlan)" by (auto simp: look)
    have "mac_entry_lookup ml' mac vlan = Some x" if "x \<noteq> e" using that s x by (simp add: look same_entry_def)
    then show ?thesis using found x(2) by fastforce
  qed (use old new in blast)
  then have neq: "entry_key ml e \<noteq> (mac', vlan')" if "e \<in> set (ml_table ml)" using that other by auto
  have same: "mac_entry_lookup ml' mac' vlan' = Some x \<longleftrightarrow> mac_entry_lookup ml mac' vlan' = Some x" for x
    using neq s e other by (cases "x = e") (auto simp: look same_entry_def)
  have "same_entry ml ml' x" if "mac_entry_lookup ml mac' vlan' = Some x" for x
    using that neq s(2) by (auto simp: look)
  then show ?thesis using same by (metis not_Some_eq same_entry_def)
qed

text \<open>Tables that calls can build, for the examples below.\<close>

lemma reachable_learn:
  assumes "ml_reachable (ml, t)" "ml_allowed (ml, t) (now, Learn mac vlan port new new_port)"
    "mac_learn ml mac vlan port new new_port now = Some ml'"
  shows "ml_reachable (ml', now)"
  using assms(1) unfolding ml_reachable_def
  by (rule reachable_call [where op = "(now, Learn mac vlan port new new_port)"]) (use assms(2,3) in simp_all)

definition demo_mac :: "nat \<Rightarrow> u8 list" where
  "demo_mac i = [2, 0, 0, 0, 0, of_nat i]"

lemma demo_mac_inj: "i < 256 \<Longrightarrow> j < 256 \<Longrightarrow> demo_mac i = demo_mac j \<longleftrightarrow> i = j"
  by (auto simp: demo_mac_def word_of_nat_eq_iff take_bit_eq_mod)

lemma demo_mac_unicast: "\<not> eth_addr_is_multicast (demo_mac i)"
  by (simp add: eth_addr_is_multicast_def demo_mac_def)

lemma table_of_size:
  "n \<le> 10 \<Longrightarrow> \<exists>ml. ml_reachable (ml, 0) \<and> ml_max_entries ml = 10 \<and> ml_idle_time ml = 300 \<and>
     ml_flood_vlans ml = None \<and> length (ml_table ml) = n \<and>
     entry_key ml ` set (ml_table ml) = (\<lambda>i. (demo_mac i, 0)) ` {..<n}"
proof (induction n)
  case 0
  define mem :: heap where "mem = undefined"
  define ml where "ml = mac_learning_create undefined undefined mem 300"
  have "ml_reachable (mac_learning_set_max_entries ml 10, 0)"
    unfolding ml_reachable_def
    by (rule reachable_call [where s = "(ml, 0)" and op = "(0, Set_Max_Entries 10)"])
       (auto simp: ml_def ml_start_def intro!: reachable_start)
  then show ?case
    by (intro exI [of _ "mac_learning_set_max_entries ml 10"])
       (simp add: ml_def mac_learning_set_max_entries_def mac_learning_create_def normalize_idle_time_def)
next
  case (Suc n)
  then obtain ml where ml: "ml_reachable (ml, 0)" "ml_max_entries ml = 10" "ml_idle_time ml = 300"
    "ml_flood_vlans ml = None" "length (ml_table ml) = n" "entry_key ml ` set (ml_table ml) = (\<lambda>i. (demo_mac i, 0)) ` {..<n}"
    by auto
  obtain new new_port where new: "new \<notin> set (ml_table ml)" "new_port \<notin> set (ml_ports_by_ptr ml)"
    by (meson ex_new_if_finite infinite_UNIV_nat List.finite_set)
  have ok: "ml_ok (ml, 0)" using ml_machine.reachable_inv ml(1) by (simp add: ml_reachable_def)
  have "(demo_mac n, 0) \<notin> entry_key ml ` set (ml_table ml)"
    unfolding ml(6) using Suc.prems demo_mac_inj by fastforce
  then have none: "mac_entry_lookup ml (demo_mac n) 0 = None"
    using ok by (force simp: ml_ok_def ml_inv_def entry_lookup(2))
  obtain ml' where ml': "mac_learn ml (demo_mac n) 0 7 new new_port 0 = Some ml'" "ml_ok (ml', 0)" "same_config ml ml'"
    "entry_key ml' new = (demo_mac n, 0)" "set (ml_table ml') = insert new (set (ml_table ml))"
    "\<forall>x \<in> set (ml_table ml). x \<noteq> new \<longrightarrow> same_entry ml ml' x"
    using learn_result [OF ok order.refl new, of "demo_mac n" 0 7] none ml(2,5) Suc.prems by auto
  have "ml_allowed (ml, 0) (0, Learn (demo_mac n) 0 7 new new_port)"
    using new ml(4) by (simp add: mac_learning_may_learn_def is_learning_vlan_def demo_mac_unicast)
  then have "ml_reachable (ml', 0)" using reachable_learn ml(1) ml'(1) by blast
  moreover have "length (ml_table ml') = Suc n"
    using ml'(2,5) ok new(1) ml(5) by (auto simp: ml_ok_def ml_inv_def table_inv_def dest!: distinct_card)
  moreover have "entry_key ml' ` set (ml_table ml) = entry_key ml ` set (ml_table ml)"
    using ml'(6) new(1) by (intro image_cong) (auto simp: same_entry_def)
  ultimately show ?case using ml'(3,4,5) ml by (intro exI [of _ ml']) (simp add: same_config_def lessThan_Suc)
qed

section \<open>Properties\<close>

text \<open>
  C21: Learning an address on a port works: whenever the table may learn it, the call succeeds, and a
  lookup of the address then finds an entry with that port and age 0. Unless a full table had to
  make room, lookups of all other addresses find the same entries, with the same ports, as before.
\<close>

theorem mac_learning_learns:
  assumes "ml_reachable (ml, t)" "ml_allowed (ml, t) (now, Learn mac vlan port new new_port)"
  shows "\<exists>ml' e. mac_learn ml mac vlan port new new_port now = Some ml' \<and>
    mac_learning_lookup ml' mac vlan = Some (Some e) \<and> mac_entry_get_port ml' e = Some port \<and>
    mac_entry_age ml' e now = 0 \<and>
    (length (ml_table ml) < ml_max_entries ml \<or> mac_entry_lookup ml mac vlan \<noteq> None \<longrightarrow>
       (\<forall>mac' vlan'. (mac', vlan') \<noteq> (mac, vlan) \<longrightarrow>
          mac_entry_lookup ml' mac' vlan' = mac_entry_lookup ml mac' vlan' \<and>
          (\<forall>x. mac_entry_lookup ml mac' vlan' = Some x \<longrightarrow> mac_entry_get_port ml' x = mac_entry_get_port ml x)))"
proof -
  have ok: "ml_ok (ml, t)" using ml_machine.reachable_inv assms(1) by (simp add: ml_reachable_def)
  have a: "t \<le> now" "new \<notin> set (ml_table ml)" "new_port \<notin> set (ml_ports_by_ptr ml)"
      "is_learning_vlan ml vlan" "\<not> eth_addr_is_multicast mac"
    using assms(2) by (auto simp: mac_learning_may_learn_def)
  obtain ml' e where l: "mac_learn ml mac vlan port new new_port now = Some ml'" "ml_ok (ml', now)" "same_config ml ml'"
    "e \<in> set (ml_table ml')" "entry_key ml' e = (mac, vlan)" "mac_entry_get_port ml' e = Some port"
    "mac_entry_lookup ml mac vlan = None \<longrightarrow> e = new" "expires_of ml' e = now + uint (ml_idle_time ml)"
    "length (ml_table ml) < ml_max_entries ml \<or> mac_entry_lookup ml mac vlan \<noteq> None \<longrightarrow>
       set (ml_table ml') = insert e (set (ml_table ml)) \<and> (\<forall>x \<in> set (ml_table ml). x \<noteq> e \<longrightarrow> same_entry ml ml' x)"
    using learn_result [OF ok a(1-3)] by metis
  have inv: "table_inv ml" "table_inv ml'" using ok l(2) by (auto simp: ml_ok_def ml_inv_def)
  have found: "mac_entry_lookup ml' mac vlan = Some e" using l(4,5) by (simp add: entry_lookup(1) [OF inv(2)])
  have "is_learning_vlan ml' vlan" using a(4) l(3) by (simp add: is_learning_vlan_def same_config_def)
  then have "mac_learning_lookup ml' mac vlan = Some (Some e)"
    using a(5) found l(6) by (simp add: mac_learning_lookup_def)
  moreover have "mac_entry_age ml' e now = 0" using l(3,8) by (simp add: mac_entry_age_def same_config_def c_int_def)
  moreover have "\<forall>mac' vlan'. (mac', vlan') \<noteq> (mac, vlan) \<longrightarrow>
      mac_entry_lookup ml' mac' vlan' = mac_entry_lookup ml mac' vlan' \<and>
      (\<forall>x. mac_entry_lookup ml mac' vlan' = Some x \<longrightarrow> mac_entry_get_port ml' x = mac_entry_get_port ml x)"
    if "length (ml_table ml) < ml_max_entries ml \<or> mac_entry_lookup ml mac vlan \<noteq> None"
    by (intro allI impI) (rule lookup_others [OF inv l(5,7) a(2) mp [OF l(9) that, THEN conjunct1]
          mp [OF l(9) that, THEN conjunct2]])
  ultimately show ?thesis using l(1,6) by blast
qed

theorem mac_learning_learns_witness:
  "\<exists>ml ml' e new new_port. ml_reachable (ml, 0) \<and> length (ml_table ml) = 2 \<and>
     mac_learn ml (demo_mac 5) 0 3 new new_port 8 = Some ml' \<and>
     mac_learning_lookup ml' (demo_mac 5) 0 = Some (Some e) \<and> mac_entry_get_port ml' e = Some 3 \<and>
     mac_entry_lookup ml' (demo_mac 1) 0 = mac_entry_lookup ml (demo_mac 1) 0"
proof -
  obtain ml where ml: "ml_reachable (ml, 0)" "ml_max_entries ml = 10" "ml_flood_vlans ml = None" "length (ml_table ml) = 2"
    using table_of_size [of 2] by auto
  obtain new new_port where new: "new \<notin> set (ml_table ml)" "new_port \<notin> set (ml_ports_by_ptr ml)"
    by (meson ex_new_if_finite infinite_UNIV_nat List.finite_set)
  have "ml_allowed (ml, 0) (8, Learn (demo_mac 5) 0 3 new new_port)"
    using new ml(3) by (simp add: mac_learning_may_learn_def is_learning_vlan_def demo_mac_unicast)
  from mac_learning_learns [OF ml(1) this] ml demo_mac_inj [of 1 5] show ?thesis by fastforce
qed

text \<open>
  C2: In every state that calls of the client can reach, the next call passes all its assertions, and
  the indexes agree: the list of recently used entries holds the entries of the table, no two of
  which have the same address and VLAN, and the heap gives every port the number of its entries.
\<close>

theorem mac_learning_consistent:
  assumes "ml_reachable (ml, t)" "ml_allowed (ml, t) op"
  shows "ml_exec (ml, t) op \<noteq> None \<and> set (ml_lrus ml) = set (ml_table ml) \<and>
    inj_on (entry_key ml) (set (ml_table ml)) \<and>
    (\<forall>p \<in> set (ml_ports_by_ptr ml).
       unat (usage ml p) = card {e \<in> set (ml_table ml). mac_entry_get_port ml e = Some (mp_port (ml_port ml p))})"
proof -
  have ok: "ml_ok (ml, t)" using ml_machine.reachable_inv assms(1) by (simp add: ml_reachable_def)
  then have inv: "table_inv ml" "port_inv ml" by (auto simp: ml_ok_def ml_inv_def)
  have "unat (usage ml p) = card {e \<in> set (ml_table ml). mac_entry_get_port ml e = Some (mp_port (ml_port ml p))}"
    if p: "p \<in> set (ml_ports_by_ptr ml)" for p
  proof -
    have "{e \<in> set (ml_table ml). mac_entry_get_port ml e = Some (mp_port (ml_port ml p))} = set (lrus_of ml p)"
      using port_invD(5) [OF inv(2) p] port_invD(6) [OF inv(2)] inj_onD [OF port_invD(2) [OF inv(2)] _ _ p]
      by (fastforce simp: mac_entry_get_port_def split: option.splits)
    moreover have "length (lrus_of ml p) \<le> 1000000"
      using port_lrus_bound [OF inv(2) p] inv(1) by (simp add: table_inv_def)
    moreover have "card (set (lrus_of ml p)) = length (lrus_of ml p)"
      using port_invD(5) [OF inv(2) p] by (metis distinct_card)
    ultimately show ?thesis using usage_eq [OF inv(2) p] by (simp only: unat_small_u64)
  qed
  then show ?thesis using exec_ok [OF ok assms(2)] inv(1) by (auto simp: table_inv_def)
qed

theorem mac_learning_consistent_witness:
  "\<exists>ml. ml_reachable (ml, 0) \<and> length (ml_table ml) = 3 \<and> ml_exec (ml, 0) (7, Flush) \<noteq> None \<and>
     set (ml_lrus ml) = set (ml_table ml)"
proof -
  obtain ml where ml: "ml_reachable (ml, 0)" "length (ml_table ml) = 3" using table_of_size [of 3] by auto
  have "ml_allowed (ml, 0) (7, Flush)" by simp
  from mac_learning_consistent [OF ml(1) this] ml show ?thesis by blast
qed

text \<open>
  C22: A table that is full makes room fairly. Inserting an unknown address evicts exactly one entry,
  the first of the list of a port that has at least as many entries as any other, and leaves every
  other entry with its address, its port and its expiration time.
\<close>

theorem mac_learning_evicts_fairly:
  assumes "ml_reachable (ml, t)" "t \<le> now" "new \<notin> set (ml_table ml)"
    and "mac_entry_lookup ml mac vlan = None" "ml_max_entries ml \<le> length (ml_table ml)"
  shows "\<exists>p e es ml'. p \<in> set (ml_ports_by_ptr ml) \<and> mp_port_lrus (ml_port ml p) = e # es \<and>
    (\<forall>q \<in> set (ml_ports_by_ptr ml). length (mp_port_lrus (ml_port ml q)) \<le> length (mp_port_lrus (ml_port ml p))) \<and>
    mac_learning_insert ml mac vlan new now = Some (new, ml') \<and>
    set (ml_table ml') = insert new (set (ml_table ml) - {e}) \<and> length (ml_table ml') = length (ml_table ml) \<and>
    (\<forall>x \<in> set (ml_table ml) - {e}. same_entry ml ml' x)"
proof -
  have ok: "ml_ok (ml, t)" using ml_machine.reachable_inv assms(1) by (simp add: ml_reachable_def)
  then have inv: "ml_inv ml" "distinct (ml_table ml)" by (auto simp: ml_ok_def ml_inv_def table_inv_def)
  obtain p e es m where c: "p \<in> set (ml_ports_by_ptr ml)"
    "\<forall>q \<in> set (ml_ports_by_ptr ml). length (lrus_of ml q) \<le> length (lrus_of ml p)"
    "lrus_of ml p = e # es" "e \<in> set (ml_table ml)" "evict_mac_entry_fairly ml = Some m" "expired_entry ml e m"
    using evict_ok [OF ok assms(5)] by blast
  obtain ml' where i: "mac_learning_insert ml mac vlan new now = Some (new, ml')" "inserted m mac vlan new now ml'"
    using insert_new_full [OF inv(1) assms(4,3,5) c(5,6,4), of now] by blast
  have m: "ml_table m = remove1 e (ml_table ml)" "\<And>x. x \<in> set (ml_table ml) \<Longrightarrow> x \<noteq> e \<Longrightarrow> same_entry ml m x"
    using c(6) by (auto simp: expired_entry_def)
  have "ml_table ml \<noteq> []" using c(4) by auto
  with m i(2) inv(2) c(4) have "set (ml_table ml') = insert new (set (ml_table ml) - {e})" "length (ml_table ml') = length (ml_table ml)"
      "\<forall>x \<in> set (ml_table ml) - {e}. same_entry ml ml' x"
    by (auto simp: inserted_def length_remove1 same_entry_def Suc_diff_1)
  with c i(1) show ?thesis by blast
qed

theorem mac_learning_evicts_fairly_witness:
  "\<exists>ml e new ml'. ml_reachable (ml, 0) \<and> length (ml_table ml) = 10 \<and> ml_max_entries ml = 10 \<and>
     mac_learning_insert ml (demo_mac 77) 0 new 5 = Some (new, ml') \<and>
     set (ml_table ml') = insert new (set (ml_table ml) - {e}) \<and> length (ml_table ml') = 10"
proof -
  obtain ml where ml: "ml_reachable (ml, 0)" "ml_max_entries ml = 10" "length (ml_table ml) = 10"
    "entry_key ml ` set (ml_table ml) = (\<lambda>i. (demo_mac i, 0)) ` {..<10}"
    using table_of_size [of 10] by auto
  obtain new where new: "new \<notin> set (ml_table ml)" by (meson ex_new_if_finite infinite_UNIV_nat List.finite_set)
  have "ml_ok (ml, 0)" using ml_machine.reachable_inv ml(1) by (simp add: ml_reachable_def)
  moreover have "(demo_mac 77, 0) \<notin> entry_key ml ` set (ml_table ml)"
    unfolding ml(4) using demo_mac_inj by fastforce
  ultimately have none: "mac_entry_lookup ml (demo_mac 77) 0 = None"
    by (force simp: ml_ok_def ml_inv_def entry_lookup(2))
  show ?thesis
    using mac_learning_evicts_fairly [OF ml(1) _ new none, of 5] ml(1-3) by (auto 4 3)
qed

text \<open>
  C23: \<open>mac_learning_run\<close> leaves no expired entry and no more entries than allowed; from a table that
  is not overfull it removes exactly the expired entries, and it changes no entry that it leaves.
\<close>

theorem mac_learning_run_expires:
  assumes "ml_reachable (ml, t)" "t \<le> now"
  shows "\<exists>r ml'. mac_learning_run ml now = Some (r, ml') \<and> length (ml_table ml') \<le> ml_max_entries ml \<and>
    (\<forall>e \<in> set (ml_table ml'). now < me_expires (ml_entry ml' e) \<and> same_entry ml ml' e) \<and>
    (length (ml_table ml) \<le> ml_max_entries ml \<longrightarrow>
       set (ml_table ml') = {e \<in> set (ml_table ml). now < me_expires (ml_entry ml e)})"
proof -
  have ok: "ml_ok (ml, t)" using ml_machine.reachable_inv assms(1) by (simp add: ml_reachable_def)
  obtain m where m: "run_expire ml now = Some m" using run_expire_ok [OF ok] by blast
  note r = run_expire_spec [OF ok m]
  let ?m = "m\<lparr>ml_need_revalidate := False\<rparr>"
  show ?thesis
  proof (intro exI conjI ballI impI)
    show "mac_learning_run ml now = Some (ml_need_revalidate m, ?m)" by (simp add: mac_learning_run_def m)
    show "length (ml_table ?m) \<le> ml_max_entries ml" using r [THEN conjunct2, THEN conjunct1] by simp
    show "now < me_expires (ml_entry ?m e)" "same_entry ml ?m e" if "e \<in> set (ml_table ?m)" for e
      using r that by (auto simp: same_entry_def)
    show "set (ml_table ?m) = {e \<in> set (ml_table ml). now < me_expires (ml_entry ml e)}"
      if "length (ml_table ml) \<le> ml_max_entries ml"
      using r [THEN conjunct2, THEN conjunct2, rule_format, OF that] by simp
  qed
qed

theorem mac_learning_run_expires_witness:
  "\<exists>ml r ml'. ml_reachable (ml, 0) \<and> length (ml_table ml) = 4 \<and>
     mac_learning_run ml 300 = Some (r, ml') \<and> ml_table ml' = []"
proof -
  obtain ml where ml: "ml_reachable (ml, 0)" "ml_max_entries ml = 10" "ml_idle_time ml = 300" "length (ml_table ml) = 4"
    using table_of_size [of 4] by auto
  have "ml_ok (ml, 0)" using ml_machine.reachable_inv ml(1) by (simp add: ml_reachable_def)
  then have "expires_of ml e \<le> 300" if "e \<in> set (ml_table ml)" for e
    using that ml(3) by (auto simp: ml_ok_def ml_inv_def table_inv_def time_inv_def)
  moreover obtain r ml' where "mac_learning_run ml 300 = Some (r, ml')"
    "set (ml_table ml') = {e \<in> set (ml_table ml). 300 < me_expires (ml_entry ml e)}"
    using mac_learning_run_expires [OF ml(1), of 300] ml(2,4) by auto
  ultimately have "set (ml_table ml') = {}" by (metis (no_types, lifting) empty_Collect_eq not_less)
  with ml \<open>mac_learning_run ml 300 = Some (r, ml')\<close> show ?thesis by auto
qed

end
