(* ===== verification/Hmap.thy ===== *)
theory Hmap
  imports Byte_Queue
begin

text \<open>
  The hash table of lib/hmap.c and lib/hmap.h: an array of buckets, each the head of a chain of nodes
  that the client embeds in its objects. Nodes are at addresses, address 0 is NULL, and the table
  carries the memory of the nodes. The buckets are a list of \<open>mask + 1\<close> heads; the word \<open>one\<close> inside
  the table that serves as the array while \<open>mask\<close> is 0 is that list of length 1, so moving a table in
  memory (\<open>hmap_moved\<close>) and freeing the array (\<open>hmap_destroy\<close>) do nothing here. Loops along a
  chain are \<open>partial_function\<close>s: \<open>None\<close> is a failed assertion, a NULL dereference, or a loop that does
  not end. Debug output about long chains is not kept.
\<close>

section \<open>Model\<close>

record hmap_node =
  hn_hash :: u64
  hn_next :: addr

record hmap =
  hm_node :: "addr \<Rightarrow> hmap_node"
  hm_buckets :: "addr list"
  hm_mask :: u64
  hm_n :: u64

abbreviation node_hash :: "hmap \<Rightarrow> addr \<Rightarrow> u64" where
  "node_hash hm x \<equiv> hn_hash (hm_node hm x)"

abbreviation node_next :: "hmap \<Rightarrow> addr \<Rightarrow> addr" where
  "node_next hm x \<equiv> hn_next (hm_node hm x)"

definition bucket_of :: "hmap \<Rightarrow> u64 \<Rightarrow> nat" where
  "bucket_of hm hash = unat (hash AND hm_mask hm)"

text \<open>Memory cells that hold a pointer to a node.\<close>

datatype link = Bucket nat | Next addr

fun get_link :: "hmap \<Rightarrow> link \<Rightarrow> addr" where
  "get_link hm (Bucket i) = hm_buckets hm ! i"
| "get_link hm (Next x) = node_next hm x"

fun set_link :: "hmap \<Rightarrow> link \<Rightarrow> addr \<Rightarrow> hmap" where
  "set_link hm (Bucket i) v = hm\<lparr>hm_buckets := (hm_buckets hm)[i := v]\<rparr>"
| "set_link hm (Next x) v = hm\<lparr>hm_node := (hm_node hm)(x := (hm_node hm x)\<lparr>hn_next := v\<rparr>)\<rparr>"

definition hmap_node_is_null :: "hmap \<Rightarrow> addr \<Rightarrow> bool" where
  "hmap_node_is_null hm x \<longleftrightarrow> node_next hm x = 1"

definition hmap_node_nullify :: "hmap \<Rightarrow> addr \<Rightarrow> hmap" where
  "hmap_node_nullify hm x = set_link hm (Next x) 1"

definition hmap_init :: "hmap \<Rightarrow> hmap" where
  "hmap_init hm = hm\<lparr>hm_buckets := [0], hm_mask := 0, hm_n := 0\<rparr>"

definition hmap_clear :: "hmap \<Rightarrow> hmap" where
  "hmap_clear hm =
     (if hm_n hm > 0 then hm\<lparr>hm_n := 0, hm_buckets := replicate (unat (hm_mask hm + 1)) 0\<rparr> else hm)"

definition hmap_swap :: "hmap \<Rightarrow> hmap \<Rightarrow> hmap \<times> hmap" where
  "hmap_swap a b = (b, a)"

definition hmap_count :: "hmap \<Rightarrow> u64" where
  "hmap_count hm = hm_n hm"

definition hmap_capacity :: "hmap \<Rightarrow> u64" where
  "hmap_capacity hm = hm_mask hm * 2 + 1"

definition hmap_is_empty :: "hmap \<Rightarrow> bool" where
  "hmap_is_empty hm \<longleftrightarrow> hm_n hm = 0"

definition hmap_insert_fast :: "hmap \<Rightarrow> addr \<Rightarrow> u64 \<Rightarrow> hmap" where
  "hmap_insert_fast hm x hash =
     (let i = bucket_of hm hash
      in hm\<lparr>hm_node := (hm_node hm)(x := \<lparr>hn_hash = hash, hn_next = hm_buckets hm ! i\<rparr>),
            hm_buckets := (hm_buckets hm)[i := x],
            hm_n := hm_n hm + 1\<rparr>)"

text \<open>The loops of \<open>resize\<close>: along one chain, and over the buckets.\<close>

partial_function (option) resize_chain :: "addr \<Rightarrow> hmap \<Rightarrow> hmap option" where
  "resize_chain x tmp =
     (if x = 0 then Some tmp
      else let next = node_next tmp x
           in resize_chain next (hmap_insert_fast tmp x (node_hash tmp x)))"

fun resize_buckets :: "addr list \<Rightarrow> hmap \<Rightarrow> hmap option" where
  "resize_buckets [] tmp = Some tmp"
| "resize_buckets (b # bs) tmp = Option.bind (resize_chain b tmp) (resize_buckets bs)"

definition resize :: "hmap \<Rightarrow> u64 \<Rightarrow> hmap option" where
  "resize hm new_mask =
     (if is_pow2 (new_mask + 1) then
        let tmp = hmap_init hm;
            tmp = (if new_mask \<noteq> 0 then tmp\<lparr>hm_buckets := replicate (unat (new_mask + 1)) 0, hm_mask := new_mask\<rparr> else tmp)
        in map_option (\<lambda>tmp. fst (hmap_swap hm tmp)) (resize_buckets (hm_buckets hm) tmp)
      else None)"

definition calc_mask :: "u64 \<Rightarrow> u64" where
  "calc_mask capacity =
     (let mask = capacity div 2;
          mask = mask OR drop_bit 1 mask;
          mask = mask OR drop_bit 2 mask;
          mask = mask OR drop_bit 4 mask;
          mask = mask OR drop_bit 8 mask;
          mask = mask OR drop_bit 16 mask;
          mask = mask OR drop_bit 32 mask
      in mask OR push_bit 1 (mask AND 1))"

definition hmap_expand :: "hmap \<Rightarrow> hmap option" where
  "hmap_expand hm = (let new_mask = calc_mask (hm_n hm) in if new_mask > hm_mask hm then resize hm new_mask else Some hm)"

definition hmap_shrink :: "hmap \<Rightarrow> hmap option" where
  "hmap_shrink hm = (let new_mask = calc_mask (hm_n hm) in if new_mask < hm_mask hm then resize hm new_mask else Some hm)"

definition hmap_reserve :: "hmap \<Rightarrow> u64 \<Rightarrow> hmap option" where
  "hmap_reserve hm n = (let new_mask = calc_mask n in if new_mask > hm_mask hm then resize hm new_mask else Some hm)"

definition hmap_insert :: "hmap \<Rightarrow> addr \<Rightarrow> u64 \<Rightarrow> hmap option" where
  "hmap_insert hm x hash =
     (let hm = hmap_insert_fast hm x hash in if hm_n hm div 2 > hm_mask hm then hmap_expand hm else Some hm)"

text \<open>The loop \<open>while (*bucket != node) bucket = &(*bucket)->next\<close>.\<close>

partial_function (option) find_link :: "hmap \<Rightarrow> addr \<Rightarrow> link \<Rightarrow> link option" where
  "find_link hm x l =
     (if get_link hm l = x then Some l
      else if get_link hm l = 0 then None
      else find_link hm x (Next (get_link hm l)))"

definition hmap_remove :: "hmap \<Rightarrow> addr \<Rightarrow> hmap option" where
  "hmap_remove hm x =
     map_option (\<lambda>l. (set_link hm l (node_next hm x))\<lparr>hm_n := hm_n hm - 1\<rparr>)
       (find_link hm x (Bucket (bucket_of hm (node_hash hm x))))"

definition hmap_node_moved :: "hmap \<Rightarrow> addr \<Rightarrow> addr \<Rightarrow> hmap option" where
  "hmap_node_moved hm old_node x =
     map_option (\<lambda>l. set_link hm l x) (find_link hm old_node (Bucket (bucket_of hm (node_hash hm x))))"

definition hmap_replace :: "hmap \<Rightarrow> addr \<Rightarrow> addr \<Rightarrow> hmap option" where
  "hmap_replace hm old_node new_node =
     map_option
       (\<lambda>l. let hm = set_link hm l new_node
            in hm\<lparr>hm_node := (hm_node hm)(new_node := \<lparr>hn_hash = node_hash hm old_node, hn_next = node_next hm old_node\<rparr>)\<rparr>)
       (find_link hm old_node (Bucket (bucket_of hm (node_hash hm old_node))))"

subsection \<open>Search\<close>

text \<open>\<open>Some 0\<close> is the result NULL.\<close>

partial_function (option) next_with_hash :: "hmap \<Rightarrow> addr \<Rightarrow> u64 \<Rightarrow> addr option" where
  "next_with_hash hm x hash =
     (if x \<noteq> 0 \<and> node_hash hm x \<noteq> hash then next_with_hash hm (node_next hm x) hash else Some x)"

definition hmap_first_in_bucket :: "hmap \<Rightarrow> u64 \<Rightarrow> addr" where
  "hmap_first_in_bucket hm hash = hm_buckets hm ! bucket_of hm hash"

definition hmap_next_in_bucket :: "hmap \<Rightarrow> addr \<Rightarrow> addr" where
  "hmap_next_in_bucket hm x = node_next hm x"

definition hmap_first_with_hash :: "hmap \<Rightarrow> u64 \<Rightarrow> addr option" where
  "hmap_first_with_hash hm hash = next_with_hash hm (hm_buckets hm ! bucket_of hm hash) hash"

definition hmap_next_with_hash :: "hmap \<Rightarrow> addr \<Rightarrow> addr option" where
  "hmap_next_with_hash hm x = next_with_hash hm (node_next hm x) (node_hash hm x)"

text \<open>
  The loop HMAP_FOR_EACH_WITH_HASH with a body that stops at the first node satisfying \<open>P\<close>, from a
  node on.
\<close>

partial_function (option) for_each_with_hash :: "hmap \<Rightarrow> (addr \<Rightarrow> bool) \<Rightarrow> addr \<Rightarrow> addr option" where
  "for_each_with_hash hm P x =
     (if x = 0 \<or> P x then Some x
      else Option.bind (hmap_next_with_hash hm x) (for_each_with_hash hm P))"

definition hmap_find :: "hmap \<Rightarrow> u64 \<Rightarrow> (addr \<Rightarrow> bool) \<Rightarrow> addr option" where
  "hmap_find hm hash P = Option.bind (hmap_first_with_hash hm hash) (for_each_with_hash hm P)"

text \<open>The same for HMAP_FOR_EACH_IN_BUCKET, which does not compare hash values.\<close>

partial_function (option) for_each_in_bucket :: "hmap \<Rightarrow> (addr \<Rightarrow> bool) \<Rightarrow> addr \<Rightarrow> addr option" where
  "for_each_in_bucket hm P x =
     (if x = 0 \<or> P x then Some x else for_each_in_bucket hm P (hmap_next_in_bucket hm x))"

definition hmap_find_in_bucket :: "hmap \<Rightarrow> u64 \<Rightarrow> (addr \<Rightarrow> bool) \<Rightarrow> addr option" where
  "hmap_find_in_bucket hm hash P = for_each_in_bucket hm P (hmap_first_in_bucket hm hash)"

partial_function (option) contains_from :: "hmap \<Rightarrow> addr \<Rightarrow> addr \<Rightarrow> bool option" where
  "contains_from hm x p = (if p = 0 then Some False else if p = x then Some True else contains_from hm x (node_next hm p))"

definition hmap_contains :: "hmap \<Rightarrow> addr \<Rightarrow> bool option" where
  "hmap_contains hm x = contains_from hm x (hmap_first_in_bucket hm (node_hash hm x))"

subsection \<open>Iteration\<close>

function first_from :: "hmap \<Rightarrow> nat \<Rightarrow> addr" where
  "first_from hm i =
     (if i \<le> unat (hm_mask hm) then if hm_buckets hm ! i \<noteq> 0 then hm_buckets hm ! i else first_from hm (i + 1) else 0)"
  by pat_completeness auto
termination by (relation "measure (\<lambda>(hm, i). Suc (unat (hm_mask hm)) - i)") auto

declare first_from.simps [simp del]

definition hmap_first :: "hmap \<Rightarrow> addr" where
  "hmap_first hm = first_from hm 0"

definition hmap_next :: "hmap \<Rightarrow> addr \<Rightarrow> addr" where
  "hmap_next hm x = (if node_next hm x \<noteq> 0 then node_next hm x else first_from hm (bucket_of hm (node_hash hm x) + 1))"

text \<open>The nodes that HMAP_FOR_EACH visits, from a node on.\<close>

partial_function (option) for_each :: "hmap \<Rightarrow> addr \<Rightarrow> addr list option" where
  "for_each hm x = (if x = 0 then Some [] else Option.bind (for_each hm (hmap_next hm x)) (\<lambda>xs. Some (x # xs)))"

text \<open>
  \<open>hmap_at_position\<close>: the loop along a chain, which gives the node and the new position when it
  finds the offset, and the loop over the buckets.
\<close>

partial_function (option) at_offset :: "hmap \<Rightarrow> addr \<Rightarrow> u64 \<Rightarrow> u64 \<Rightarrow> (addr \<times> u32 \<times> u32) option option" where
  "at_offset hm x n_idx offset =
     (if x = 0 then Some None
      else if n_idx = offset then
        Some (Some (x, if node_next hm x \<noteq> 0 then (ucast (node_hash hm x AND hm_mask hm), ucast (offset + 1))
                       else (ucast ((node_hash hm x AND hm_mask hm) + 1), 0)))
      else at_offset hm (node_next hm x) (n_idx + 1) offset)"

function at_bucket :: "hmap \<Rightarrow> nat \<Rightarrow> u64 \<Rightarrow> (addr \<times> u32 \<times> u32) option" where
  "at_bucket hm i offset =
     (if i \<le> unat (hm_mask hm) then
        case at_offset hm (hm_buckets hm ! i) 0 offset of
          None \<Rightarrow> None
        | Some (Some r) \<Rightarrow> Some r
        | Some None \<Rightarrow> at_bucket hm (i + 1) 0
      else Some (0, 0, 0))"
  by pat_completeness auto
termination by (relation "measure (\<lambda>(hm, i, offset). Suc (unat (hm_mask hm)) - i)") auto

declare at_bucket.simps [simp del]

definition hmap_at_position :: "hmap \<Rightarrow> u32 \<Rightarrow> u32 \<Rightarrow> (addr \<times> u32 \<times> u32) option" where
  "hmap_at_position hm bucket offset = at_bucket hm (unat bucket) (ucast offset)"

text \<open>
  \<open>hmap_random_node\<close>, where \<open>rnd k\<close> is the value of the \<open>k\<close>-th call of \<open>random_uint32\<close>. The result
  is the node and the number of calls made so far.
\<close>

partial_function (option) random_bucket :: "hmap \<Rightarrow> (nat \<Rightarrow> u32) \<Rightarrow> nat \<Rightarrow> (addr \<times> nat) option" where
  "random_bucket hm rnd k =
     (let b = hm_buckets hm ! unat (ucast (rnd k) AND hm_mask hm)
      in if b \<noteq> 0 then Some (b, k + 1) else random_bucket hm rnd (k + 1))"

partial_function (option) count_chain :: "hmap \<Rightarrow> addr \<Rightarrow> u64 \<Rightarrow> u64 option" where
  "count_chain hm x n = (if x = 0 then Some n else count_chain hm (node_next hm x) (n + 1))"

primrec walk_chain :: "hmap \<Rightarrow> addr \<Rightarrow> nat \<Rightarrow> addr" where
  "walk_chain hm x 0 = x"
| "walk_chain hm x (Suc i) = walk_chain hm (node_next hm x) i"

definition hmap_random_node :: "hmap \<Rightarrow> (nat \<Rightarrow> u32) \<Rightarrow> nat \<Rightarrow> (addr \<times> nat) option" where
  "hmap_random_node hm rnd k =
     Option.bind (random_bucket hm rnd k) (\<lambda>(b, k).
       map_option (\<lambda>n. (walk_chain hm b (unat (scast (rnd k mod ucast n) :: u64)), k + 1)) (count_chain hm b 0))"

section \<open>Masks\<close>

lemma smear_step:
  fixes m m0 :: u64
  assumes "\<And>i. bit m i \<longleftrightarrow> (\<exists>d < k. bit m0 (i + d))"
  shows "bit (m OR drop_bit k m) i \<longleftrightarrow> (\<exists>d < 2 * k. bit m0 (i + d))"
proof -
  have "bit (drop_bit k m) i \<longleftrightarrow> (\<exists>d < k. bit m0 (i + (k + d)))"
    by (simp add: bit_drop_bit_eq assms add.assoc add.left_commute)
  also have "\<dots> \<longleftrightarrow> (\<exists>d. k \<le> d \<and> d < 2 * k \<and> bit m0 (i + d))"
    by (metis add_less_cancel_left le_add1 le_iff_add mult_2)
  finally show ?thesis by (auto simp: bit_or_iff assms) (meson not_less order_less_le_trans)+
qed

lemma smear_bits:
  fixes c :: u64
  defines "m0 \<equiv> drop_bit 1 c"
  defines "m1 \<equiv> m0 OR drop_bit 1 m0"
  defines "m2 \<equiv> m1 OR drop_bit 2 m1"
  defines "m3 \<equiv> m2 OR drop_bit 4 m2"
  defines "m4 \<equiv> m3 OR drop_bit 8 m3"
  defines "m5 \<equiv> m4 OR drop_bit 16 m4"
  shows "bit (m5 OR drop_bit 32 m5) i \<longleftrightarrow> (\<exists>d < 64. bit m0 (i + d))"
proof -
  have 1: "bit m1 i \<longleftrightarrow> (\<exists>d < 2. bit m0 (i + d))" for i
    unfolding m1_def using smear_step [of m0 1 m0] by simp
  have 2: "bit m2 i \<longleftrightarrow> (\<exists>d < 4. bit m0 (i + d))" for i
    unfolding m2_def using smear_step [OF 1] by simp
  have 3: "bit m3 i \<longleftrightarrow> (\<exists>d < 8. bit m0 (i + d))" for i
    unfolding m3_def using smear_step [OF 2] by simp
  have 4: "bit m4 i \<longleftrightarrow> (\<exists>d < 16. bit m0 (i + d))" for i
    unfolding m4_def using smear_step [OF 3] by simp
  have 5: "bit m5 i \<longleftrightarrow> (\<exists>d < 32. bit m0 (i + d))" for i
    unfolding m5_def using smear_step [OF 4] by simp
  show ?thesis using smear_step [OF 5] by simp
qed

lemma down_closed_mask:
  fixes w :: u64
  assumes "\<And>i j. bit w i \<Longrightarrow> j \<le> i \<Longrightarrow> bit w j"
  shows "\<exists>k \<le> 64. w = mask k"
proof -
  define k where "k = (LEAST i. \<not> bit w i)"
  have ex: "\<not> bit w 64" using bit_imp_le_length [of w 64] by auto
  then have k: "\<not> bit w k" "k \<le> 64" unfolding k_def
    using LeastI [of "\<lambda>i. \<not> bit w i" 64] Least_le [of "\<lambda>i. \<not> bit w i" 64] by blast+
  have "bit w i \<longleftrightarrow> i < k" for i
    using assms k(1) not_less_Least [of i "\<lambda>i. \<not> bit w i"] by (metis k_def not_le)
  then have "w = mask k" using k(2) by (intro bit_eqI) (auto simp: bit_mask_iff)
  with k(2) show ?thesis by blast
qed

lemma calc_mask_bit:
  "bit (calc_mask c) i \<longleftrightarrow> (\<exists>d < 64. bit c (i + d + 1)) \<or> (i = 1 \<and> (\<exists>d < 64. bit c (d + 1)))"
proof -
  have half: "c div 2 = drop_bit 1 c" by (simp add: drop_bit_eq_div)
  define m :: u64 where "m = (let m = drop_bit 1 c; m = m OR drop_bit 1 m; m = m OR drop_bit 2 m;
      m = m OR drop_bit 4 m; m = m OR drop_bit 8 m; m = m OR drop_bit 16 m in m OR drop_bit 32 m)"
  have m: "bit m i \<longleftrightarrow> (\<exists>d < 64. bit c (i + d + 1))" for i
    unfolding m_def Let_def smear_bits by (simp add: bit_drop_bit_eq add.commute)
  have "calc_mask c = m OR push_bit 1 (m AND 1)" by (simp only: calc_mask_def m_def half Let_def)
  moreover have "bit (push_bit 1 (m AND 1)) i \<longleftrightarrow> i = 1 \<and> bit m 0"
    unfolding bit_push_bit_iff bit_and_iff bit_1_iff by (cases "i = 1") auto
  ultimately have "bit (calc_mask c) i \<longleftrightarrow> bit m i \<or> (i = 1 \<and> bit m 0)" by (simp only: bit_or_iff)
  then show ?thesis by (simp add: m)
qed

lemma calc_mask_shape: "\<exists>k < 64. calc_mask c = mask k"
proof -
  have "bit (calc_mask c) j" if "bit (calc_mask c) i" "j \<le> i" for i j
  proof -
    obtain d where d: "bit c (d + 1)" "j \<le> d \<or> j = 1"
    proof (cases "\<exists>d < 64. bit c (i + d + 1)")
      case True
      then obtain d where "bit c (i + d + 1)" by blast
      then show ?thesis using that [of "i + d"] \<open>j \<le> i\<close> by simp
    next
      case False
      then obtain d where "i = 1" "bit c (d + 1)" using \<open>bit (calc_mask c) i\<close> by (auto simp: calc_mask_bit)
      then show ?thesis using that [of d] \<open>j \<le> i\<close> by (cases j) auto
    qed
    have "d < 64" using bit_imp_le_length [OF d(1)] by simp
    then have "\<exists>d' < 64. bit c (j + d' + 1)" if "j \<le> d" using that d(1) by (intro exI [of _ "d - j"]) simp
    moreover have "\<exists>d' < 64. bit c (d' + 1)" using \<open>d < 64\<close> d(1) by blast
    ultimately show ?thesis using d(2) unfolding calc_mask_bit by blast
  qed
  then obtain k where k: "k \<le> 64" "calc_mask c = mask k" using down_closed_mask [of "calc_mask c"] by blast
  have "\<not> bit (calc_mask c) 63"
    using bit_imp_le_length [where w = c] by (fastforce simp: calc_mask_bit)
  then have "k \<noteq> 64" using k(2) by (auto simp: bit_mask_iff)
  with k show ?thesis by (metis le_neq_implies_less)
qed

lemma is_pow2_mask: "k < 64 \<Longrightarrow> is_pow2 (mask k + 1)"
proof -
  assume k: "k < 64"
  have m: "(mask k :: u64) + 1 = 2 ^ k" by (simp add: mask_eq_exp_minus_1)
  have "(2 ^ k :: u64) AND mask k = 0" by (rule bit_eqI) (auto simp: bit_and_iff bit_exp_iff bit_mask_iff)
  then show ?thesis using k by (simp add: is_pow2_def m flip: mask_eq_exp_minus_1)
qed

lemma calc_mask_pow2: "is_pow2 (calc_mask c + 1)"
  using calc_mask_shape is_pow2_mask by metis

lemma calc_mask_ge: "c div 2 \<le> calc_mask c"
proof -
  have "bit (calc_mask c) i" if "bit (c div 2) i" for i
    using that by (auto simp: calc_mask_bit drop_bit_eq_div [of 1, simplified, symmetric] bit_drop_bit_eq intro!: exI [of _ 0])
  then have "c div 2 AND calc_mask c = c div 2" by (intro bit_eqI) (auto simp: bit_and_iff)
  then show ?thesis by (metis word_and_le1)
qed

end
