(* ===== verification/Hmap_Table.thy ===== *)
theory Hmap_Table
  imports Hmap
begin

text \<open>
  The hash table of \<open>Hmap\<close> represents a finite map from the nodes in it to their hash values. Each
  operation returns, whatever the hash values, and changes the map as its comment says; searching
  and iterating visit the right nodes, once each.
\<close>

section \<open>Chains\<close>

primrec chain :: "(addr \<Rightarrow> hmap_node) \<Rightarrow> addr \<Rightarrow> addr list \<Rightarrow> bool" where
  "chain st p [] \<longleftrightarrow> p = 0"
| "chain st p (x # xs) \<longleftrightarrow> p = x \<and> x \<noteq> 0 \<and> chain st (hn_next (st x)) xs"

lemma chain_frame: "(\<And>x. x \<in> set xs \<Longrightarrow> st' x = st x) \<Longrightarrow> chain st' p xs = chain st p xs"
  by (induction xs arbitrary: p) auto

lemma chain_unique: "chain st p xs \<Longrightarrow> chain st p ys \<Longrightarrow> xs = ys"
proof (induction xs arbitrary: p ys)
  case Nil
  then show ?case by (cases ys) auto
next
  case (Cons x xs)
  then show ?case by (cases ys) auto
qed

lemma chain_append: "chain st p (us @ x # vs) \<Longrightarrow> x \<noteq> 0 \<and> chain st x (x # vs)"
  by (induction us arbitrary: p) auto

lemma chain_nonzero: "chain st p xs \<Longrightarrow> 0 \<notin> set xs"
  by (induction xs arbitrary: p) auto

lemma chain_distinct: "chain st p xs \<Longrightarrow> distinct xs"
proof (induction xs arbitrary: p)
  case (Cons x xs)
  have "x \<notin> set xs"
  proof
    assume "x \<in> set xs"
    then obtain us vs where xs: "xs = us @ x # vs" by (meson split_list)
    have "chain st x (x # xs)" using Cons.prems by simp
    moreover have "chain st x (x # vs)" using Cons.prems chain_append unfolding xs by (metis chain.simps(2))
    ultimately have "x # xs = x # vs" by (rule chain_unique)
    then show False by (simp add: xs)
  qed
  then show ?case using Cons by auto
qed simp

lemma chain_relink:
  "us \<noteq> [] \<Longrightarrow> distinct us \<Longrightarrow> set us \<inter> set zs = {} \<Longrightarrow> chain st p (us @ ws) \<Longrightarrow> chain st q zs \<Longrightarrow>
   chain (st(last us := (st (last us))\<lparr>hn_next := q\<rparr>)) p (us @ zs)"
proof (induction us arbitrary: p)
  case (Cons u us)
  show ?case
  proof (cases "us = []")
    case True
    have "chain (st(u := (st u)\<lparr>hn_next := q\<rparr>)) q zs = chain st q zs" using Cons.prems(3) by (intro chain_frame) auto
    then show ?thesis using True Cons.prems by (simp add: fun_upd_def)
  next
    case False
    then have "last us \<noteq> u" using Cons.prems(2) by auto
    then show ?thesis using Cons False by auto
  qed
qed simp

section \<open>Tables\<close>

definition hmap_rep :: "hmap \<Rightarrow> (addr \<Rightarrow> u64 option) \<Rightarrow> bool" where
  "hmap_rep hm M \<longleftrightarrow> finite (dom M) \<and> length (hm_buckets hm) = unat (hm_mask hm) + 1 \<and>
     unat (hm_n hm) = card (dom M) \<and> (\<forall>x h. M x = Some h \<longrightarrow> node_hash hm x = h) \<and>
     (\<forall>i \<le> unat (hm_mask hm). \<exists>xs. chain (hm_node hm) (hm_buckets hm ! i) xs \<and>
        set xs = {x. \<exists>h. M x = Some h \<and> bucket_of hm h = i})"

lemma bucket_bound: "bucket_of hm h \<le> unat (hm_mask hm)"
  using word_and_le1 [of h "hm_mask hm"] by (simp add: bucket_of_def word_le_nat_alt)

lemma hmap_repD:
  assumes "hmap_rep hm M"
  shows "finite (dom M)" "length (hm_buckets hm) = unat (hm_mask hm) + 1" "unat (hm_n hm) = card (dom M)"
    "\<And>x h. M x = Some h \<Longrightarrow> node_hash hm x = h"
  using assms by (auto simp: hmap_rep_def)

lemma hmap_rep_bucket:
  assumes "hmap_rep hm M" "i \<le> unat (hm_mask hm)"
  obtains xs where "chain (hm_node hm) (hm_buckets hm ! i) xs"
    "set xs = {x. \<exists>h. M x = Some h \<and> bucket_of hm h = i}"
  using assms by (auto simp: hmap_rep_def)

lemma hmap_rep_nonzero: "hmap_rep hm M \<Longrightarrow> M 0 = None"
proof (rule ccontr)
  assume r: "hmap_rep hm M" and "M 0 \<noteq> None"
  then obtain h where h: "M 0 = Some h" by blast
  obtain xs where "chain (hm_node hm) (hm_buckets hm ! bucket_of hm h) xs"
    "set xs = {x. \<exists>h'. M x = Some h' \<and> bucket_of hm h' = bucket_of hm h}"
    using hmap_rep_bucket [OF r bucket_bound] by blast
  then show False using h chain_nonzero by fastforce
qed

text \<open>A change of one bucket and of the nodes in it.\<close>

lemma hmap_rep_update:
  assumes "hmap_rep hm M" "i \<le> unat (hm_mask hm)" "hm_mask hm' = hm_mask hm"
    "hm_buckets hm' = (hm_buckets hm)[i := p]" "chain (hm_node hm') p ys"
    "\<And>x h. M x = Some h \<Longrightarrow> bucket_of hm h \<noteq> i \<Longrightarrow> hm_node hm' x = hm_node hm x \<and> M' x = Some h"
    "\<And>x h. M' x = Some h \<Longrightarrow> node_hash hm' x = h \<and> (bucket_of hm h \<noteq> i \<longrightarrow> M x = Some h)"
    "set ys = {x. \<exists>h. M' x = Some h \<and> bucket_of hm h = i}"
    "finite (dom M')" "unat (hm_n hm') = card (dom M')"
  shows "hmap_rep hm' M'"
  unfolding hmap_rep_def
proof (intro conjI allI impI)
  have b: "bucket_of hm' = bucket_of hm" using assms(3) by (simp add: bucket_of_def fun_eq_iff)
  show "length (hm_buckets hm') = unat (hm_mask hm') + 1" using hmap_repD(2) [OF assms(1)] assms(3,4) by simp
  show "\<exists>xs. chain (hm_node hm') (hm_buckets hm' ! j) xs \<and> set xs = {x. \<exists>h. M' x = Some h \<and> bucket_of hm' h = j}"
    if j: "j \<le> unat (hm_mask hm')" for j
  proof (cases "j = i")
    case True
    have "hm_buckets hm' ! i = p" using assms(2,4) hmap_repD(2) [OF assms(1)] by simp
    then show ?thesis using True assms(5,8) b by auto
  next
    case False
    obtain xs where xs: "chain (hm_node hm) (hm_buckets hm ! j) xs" "set xs = {x. \<exists>h. M x = Some h \<and> bucket_of hm h = j}"
      using hmap_rep_bucket [OF assms(1), of j] j unfolding assms(3) by blast
    have "chain (hm_node hm') (hm_buckets hm ! j) xs = chain (hm_node hm) (hm_buckets hm ! j) xs"
      using xs(2) assms(6) False by (intro chain_frame) auto
    moreover have "{x. \<exists>h. M x = Some h \<and> bucket_of hm h = j} = {x. \<exists>h. M' x = Some h \<and> bucket_of hm h = j}"
      using assms(6,7) False by fast
    moreover have "hm_buckets hm' ! j = hm_buckets hm ! j" using assms(4) False by simp
    ultimately show ?thesis using xs b by auto
  qed
  show "node_hash hm' x = h" if "M' x = Some h" for x h using assms(7) that by blast
qed (use assms(9,10) in blast)+

section \<open>Operations\<close>

lemma hmap_init_rep: "hmap_rep (hmap_init hm) Map.empty"
  by (auto simp: hmap_rep_def hmap_init_def intro!: exI [of _ "[]"])

lemma unat_Suc: "unat (w :: u64) + 1 < 2 ^ 64 \<Longrightarrow> unat (w + 1) = unat w + 1"
  by (simp add: unat_word_ariths)

lemma unat_lt_u64: "unat (w :: u64) < 18446744073709551616"
  using unsigned_less [where ?'a = nat, of w] by simp

lemma empty_table_rep:
  assumes "length (hm_buckets hm) = unat (hm_mask hm) + 1" "hm_n hm = 0" "\<forall>b \<in> set (hm_buckets hm). b = 0"
  shows "hmap_rep hm Map.empty"
  using assms by (auto simp: hmap_rep_def less_Suc_eq_le intro!: exI [of _ "[]"])

lemma is_pow2_Suc: "is_pow2 (w + 1) \<Longrightarrow> unat (w + 1) = unat w + 1"
  by (metis Suc_eq_plus1 is_pow2_def unatSuc add.commute)

lemma hmap_clear_rep:
  assumes "hmap_rep hm M" "is_pow2 (hm_mask hm + 1)"
  shows "hmap_rep (hmap_clear hm) Map.empty"
proof (cases "hm_n hm = 0")
  case True
  then have "M = Map.empty" using hmap_repD(1,3) [OF assms(1)] by (simp add: dom_eq_empty_conv)
  then show ?thesis using assms True by (simp add: hmap_clear_def)
next
  case False
  then show ?thesis using is_pow2_Suc [OF assms(2)]
    by (intro empty_table_rep) (auto simp: hmap_clear_def word_gt_0)
qed

lemma hmap_insert_fast_rep:
  assumes r: "hmap_rep hm M" and x: "M x = None" "x \<noteq> 0" and n: "card (dom M) + 1 < 2 ^ 64"
  shows "hmap_rep (hmap_insert_fast hm x h) (M(x \<mapsto> h))"
proof -
  let ?i = "bucket_of hm h"
  obtain xs where xs: "chain (hm_node hm) (hm_buckets hm ! ?i) xs" "set xs = {y. \<exists>h'. M y = Some h' \<and> bucket_of hm h' = ?i}"
    using hmap_rep_bucket [OF r bucket_bound] by blast
  have "x \<notin> set xs" using xs(2) x(1) by auto
  then have "chain (hm_node (hmap_insert_fast hm x h)) (hm_buckets hm ! ?i) xs = chain (hm_node hm) (hm_buckets hm ! ?i) xs"
    by (intro chain_frame) (auto simp: hmap_insert_fast_def Let_def)
  then have "chain (hm_node (hmap_insert_fast hm x h)) x (x # xs)"
    using xs(1) x(2) by (simp add: hmap_insert_fast_def Let_def)
  then show ?thesis
    by (rule hmap_rep_update [OF r bucket_bound [of hm h], rotated 2])
       (use x xs(2) hmap_repD [OF r] n in \<open>auto simp: hmap_insert_fast_def Let_def unat_Suc domIff\<close>)
qed

lemma insert_fast_frame [simp]:
  "hm_mask (hmap_insert_fast hm x h) = hm_mask hm"
  "y \<noteq> x \<Longrightarrow> hm_node (hmap_insert_fast hm x h) y = hm_node hm y"
  by (auto simp: hmap_insert_fast_def Let_def)

subsection \<open>Resizing\<close>

definition with_hashes :: "hmap \<Rightarrow> addr set \<Rightarrow> (addr \<Rightarrow> u64 option) \<Rightarrow> addr \<Rightarrow> u64 option" where
  "with_hashes hm X M = (\<lambda>y. if y \<in> X then Some (node_hash hm y) else M y)"

lemma with_hashes_dom: "dom (with_hashes hm X M) = X \<union> dom M"
  by (auto simp: with_hashes_def split: if_splits)

lemma resize_chain_rep:
  "hmap_rep tmp M \<Longrightarrow> chain (hm_node tmp) p xs \<Longrightarrow> set xs \<inter> dom M = {} \<Longrightarrow> card (dom M) + length xs < 2 ^ 64 \<Longrightarrow>
   \<exists>tmp'. resize_chain p tmp = Some tmp' \<and> hmap_rep tmp' (with_hashes tmp (set xs) M) \<and> hm_mask tmp' = hm_mask tmp \<and>
     (\<forall>y. y \<notin> set xs \<longrightarrow> hm_node tmp' y = hm_node tmp y)"
proof (induction xs arbitrary: p tmp M)
  case Nil
  then show ?case by (simp add: resize_chain.simps [of 0] with_hashes_def)
next
  case (Cons x xs)
  let ?h = "node_hash tmp x" and ?t = "hmap_insert_fast tmp x (node_hash tmp x)"
  have x: "p = x" "x \<noteq> 0" "chain (hm_node tmp) (node_next tmp x) xs" "M x = None"
    using Cons.prems by (auto simp: domIff)
  have d: "x \<notin> set xs" using chain_distinct [OF Cons.prems(2)] by simp
  have "hmap_rep ?t (M(x \<mapsto> ?h))" using Cons.prems x by (intro hmap_insert_fast_rep) auto
  moreover have "chain (hm_node ?t) (node_next tmp x) xs = chain (hm_node tmp) (node_next tmp x) xs"
    using d by (intro chain_frame insert_fast_frame(2)) auto
  moreover have "card (dom (M(x \<mapsto> ?h))) + length xs < 2 ^ 64"
    using Cons.prems(4) x(4) hmap_repD(1) [OF Cons.prems(1)] by (simp add: domIff)
  moreover have "set xs \<inter> dom (M(x \<mapsto> ?h)) = {}" using d Cons.prems(3) by auto
  ultimately obtain t where t: "resize_chain (node_next tmp x) ?t = Some t"
    "hmap_rep t (with_hashes ?t (set xs) (M(x \<mapsto> ?h)))" "hm_mask t = hm_mask ?t" "\<forall>y. y \<notin> set xs \<longrightarrow> hm_node t y = hm_node ?t y"
    using Cons.IH [of ?t "M(x \<mapsto> ?h)" "node_next tmp x"] x(3) by blast
  have "hm_node ?t y = hm_node tmp y" if "y \<in> set xs" for y using that d by (metis insert_fast_frame(2))
  then have "with_hashes ?t (set xs) (M(x \<mapsto> ?h)) = with_hashes tmp (set (x # xs)) M"
    by (simp add: with_hashes_def fun_eq_iff)
  moreover have "resize_chain p tmp = Some t" using t(1) x(1,2) by (simp add: resize_chain.simps [of x] Let_def)
  ultimately show ?case using t(2,3,4) by auto
qed

lemma resize_buckets_rep:
  "list_all2 (chain (hm_node tmp)) bs xss \<Longrightarrow> hmap_rep tmp M \<Longrightarrow> distinct (concat xss) \<Longrightarrow> set (concat xss) \<inter> dom M = {} \<Longrightarrow>
   card (dom M) + length (concat xss) < 2 ^ 64 \<Longrightarrow>
   \<exists>tmp'. resize_buckets bs tmp = Some tmp' \<and> hmap_rep tmp' (with_hashes tmp (set (concat xss)) M) \<and> hm_mask tmp' = hm_mask tmp \<and>
     (\<forall>y. y \<notin> set (concat xss) \<longrightarrow> hm_node tmp' y = hm_node tmp y)"
proof (induction xss arbitrary: bs tmp M)
  case Nil
  then show ?case by (simp add: with_hashes_def)
next
  case (Cons xs xss)
  then obtain b bs' where b: "bs = b # bs'" "chain (hm_node tmp) b xs" "list_all2 (chain (hm_node tmp)) bs' xss"
    by (auto simp: list_all2_Cons2)
  obtain t where t: "resize_chain b tmp = Some t" "hmap_rep t (with_hashes tmp (set xs) M)" "hm_mask t = hm_mask tmp"
    "\<forall>y. y \<notin> set xs \<longrightarrow> hm_node t y = hm_node tmp y"
    using resize_chain_rep [OF Cons.prems(2) b(2)] Cons.prems(4,5) by auto
  have c: "chain (hm_node t) p ys = chain (hm_node tmp) p ys" if "ys \<in> set xss" for p ys
    using that t(4) Cons.prems(3) by (intro chain_frame) auto
  have "list_all2 (chain (hm_node t)) bs' xss" using b(3) c by (auto simp: list_all2_conv_all_nth)
  moreover have "card (set xs \<union> dom M) = length xs + card (dom M)"
    using Cons.prems(3,4) hmap_repD(1) [OF Cons.prems(2)] by (subst card_Un_disjoint) (auto simp: distinct_card)
  moreover have "set (concat xss) \<inter> (set xs \<union> dom M) = {}" using Cons.prems(3,4) by auto
  ultimately obtain t' where t': "resize_buckets bs' t = Some t'"
    "hmap_rep t' (with_hashes t (set (concat xss)) (with_hashes tmp (set xs) M))" "hm_mask t' = hm_mask t"
    "\<forall>y. y \<notin> set (concat xss) \<longrightarrow> hm_node t' y = hm_node t y"
    using Cons.IH [OF _ t(2), of bs', unfolded with_hashes_dom] Cons.prems(3,5) by auto
  have "hm_node t y = hm_node tmp y" if "y \<in> set (concat xss)" for y
    using that t(4) Cons.prems(3) unfolding concat.simps distinct_append by blast
  then have "with_hashes t (set (concat xss)) (with_hashes tmp (set xs) M) = with_hashes tmp (set (concat (xs # xss))) M"
    using t(4) by (simp add: with_hashes_def fun_eq_iff)
  then show ?case using t t' b(1) by auto
qed

lemma distinct_concat_upt:
  "(\<And>i. i < n \<Longrightarrow> distinct (f i)) \<Longrightarrow> (\<And>i j. i < j \<Longrightarrow> j < n \<Longrightarrow> set (f i) \<inter> set (f j) = {}) \<Longrightarrow>
   distinct (concat (map f [0..<n]))"
  by (induction n) (auto, fastforce)

text \<open>The chains of a table, and the list of its nodes in the order of iteration.\<close>

definition chains_of :: "hmap \<Rightarrow> (addr \<Rightarrow> u64 option) \<Rightarrow> (nat \<Rightarrow> addr list) \<Rightarrow> bool" where
  "chains_of hm M f \<longleftrightarrow> (\<forall>i \<le> unat (hm_mask hm). chain (hm_node hm) (hm_buckets hm ! i) (f i) \<and>
     set (f i) = {x. \<exists>h. M x = Some h \<and> bucket_of hm h = i})"

abbreviation all_nodes :: "hmap \<Rightarrow> (nat \<Rightarrow> addr list) \<Rightarrow> addr list" where
  "all_nodes hm f \<equiv> concat (map f [0..<Suc (unat (hm_mask hm))])"

lemma hmap_rep_chains:
  assumes "hmap_rep hm M"
  shows "\<exists>f. chains_of hm M f"
proof -
  have "\<forall>i. \<exists>xs. i \<le> unat (hm_mask hm) \<longrightarrow> chain (hm_node hm) (hm_buckets hm ! i) xs \<and>
      set xs = {x. \<exists>h. M x = Some h \<and> bucket_of hm h = i}"
    using assms by (simp add: hmap_rep_def)
  from choice [OF this] show ?thesis by (auto simp: chains_of_def)
qed

lemma all_nodes_rep:
  assumes "chains_of hm M f"
  shows "distinct (all_nodes hm f)" "set (all_nodes hm f) = dom M"
proof -
  show "distinct (all_nodes hm f)"
    using assms by (intro distinct_concat_upt) (auto simp: chains_of_def less_Suc_eq_le intro: chain_distinct)
  show "set (all_nodes hm f) = dom M"
    using assms bucket_bound [of hm] by (auto simp: chains_of_def less_Suc_eq_le simp del: upt_Suc)
qed

lemma resize_rep:
  assumes r: "hmap_rep hm M" and p: "is_pow2 (m + 1)"
  shows "\<exists>hm'. resize hm m = Some hm' \<and> hmap_rep hm' M \<and> hm_mask hm' = m \<and> (\<forall>y. y \<notin> dom M \<longrightarrow> hm_node hm' y = hm_node hm y)"
proof -
  define tmp where "tmp = (hmap_init hm)\<lparr>hm_buckets := replicate (unat (m + 1)) 0, hm_mask := m\<rparr>"
  have tmp: "resize hm m = resize_buckets (hm_buckets hm) tmp"
    using p by (cases "m = 0"; cases hm) (simp_all add: resize_def tmp_def Let_def hmap_init_def hmap_swap_def option.map_ident)
  have t: "hmap_rep tmp Map.empty" "hm_node tmp = hm_node hm" "hm_mask tmp = m"
    using is_pow2_Suc [OF p] by (auto simp: tmp_def hmap_init_def intro!: empty_table_rep)
  obtain f where f: "chains_of hm M f" using hmap_rep_chains [OF r] by blast
  note a = all_nodes_rep [OF f]
  let ?xss = "map f [0..<Suc (unat (hm_mask hm))]"
  have "list_all2 (chain (hm_node tmp)) (hm_buckets hm) ?xss"
    using f hmap_repD(2) [OF r] t(2) by (auto simp: chains_of_def list_all2_conv_all_nth less_Suc_eq_le simp del: upt_Suc)
  moreover have "length (concat ?xss) < 2 ^ 64"
    using distinct_card [OF a(1)] unfolding a(2) using hmap_repD(3) [OF r] unat_lt_u64 [of "hm_n hm"] by simp
  ultimately obtain t' where "resize_buckets (hm_buckets hm) tmp = Some t'"
    "hmap_rep t' (with_hashes tmp (dom M) Map.empty)" "hm_mask t' = hm_mask tmp" "\<forall>y. y \<notin> dom M \<longrightarrow> hm_node t' y = hm_node tmp y"
    using resize_buckets_rep [of tmp "hm_buckets hm" ?xss Map.empty] t(1) a(1) unfolding a(2) by (auto simp del: upt_Suc)
  moreover have "with_hashes tmp (dom M) Map.empty = M"
    using hmap_repD(4) [OF r] t(2) by (auto simp: with_hashes_def fun_eq_iff domIff)
  ultimately show ?thesis using tmp t by auto
qed

lemma hmap_insert_rep:
  assumes r: "hmap_rep hm M" and x: "M x = None" "x \<noteq> 0" and n: "card (dom M) + 1 < 2 ^ 64"
  shows "\<exists>hm'. hmap_insert hm x h = Some hm' \<and> hmap_rep hm' (M(x \<mapsto> h)) \<and>
    hm_n hm' div 2 \<le> hm_mask hm' \<and> (hm_mask hm' = hm_mask hm \<or> is_pow2 (hm_mask hm' + 1)) \<and>
    (\<forall>y. y \<notin> dom M \<and> y \<noteq> x \<longrightarrow> hm_node hm' y = hm_node hm y)"
proof -
  let ?hm = "hmap_insert_fast hm x h"
  note i = hmap_insert_fast_rep [OF r x n, of h]
  show ?thesis
  proof (cases "hm_n ?hm div 2 > hm_mask ?hm")
    case True
    then have "calc_mask (hm_n ?hm) > hm_mask ?hm" using calc_mask_ge [of "hm_n ?hm"] by simp
    then have e: "hmap_insert hm x h = resize ?hm (calc_mask (hm_n ?hm))"
      using True by (simp add: hmap_insert_def hmap_expand_def Let_def)
    obtain hm' where hm': "resize ?hm (calc_mask (hm_n ?hm)) = Some hm'" "hmap_rep hm' (M(x \<mapsto> h))"
      "hm_mask hm' = calc_mask (hm_n ?hm)" "\<forall>y. y \<notin> dom (M(x \<mapsto> h)) \<longrightarrow> hm_node hm' y = hm_node ?hm y"
      using resize_rep [OF i calc_mask_pow2] by blast
    have "unat (hm_n hm') = unat (hm_n ?hm)" using hmap_repD(3) [OF i] hmap_repD(3) [OF hm'(2)] by simp
    then have "hm_n hm' = hm_n ?hm" by (simp only: word_unat_eq_iff)
    then show ?thesis using e hm' calc_mask_ge [of "hm_n ?hm"] calc_mask_pow2 by auto
  next
    case False
    then have "hmap_insert hm x h = Some ?hm" by (simp add: hmap_insert_def Let_def)
    then show ?thesis using i False by auto
  qed
qed

lemma hmap_expand_rep:
  assumes "hmap_rep hm M"
  shows "\<exists>hm'. hmap_expand hm = Some hm' \<and> hmap_rep hm' M \<and> (hm_mask hm' = hm_mask hm \<or> is_pow2 (hm_mask hm' + 1))"
  using resize_rep [OF assms calc_mask_pow2 [of "hm_n hm"]] calc_mask_pow2 assms by (auto simp: hmap_expand_def Let_def)

lemma hmap_shrink_rep:
  assumes "hmap_rep hm M"
  shows "\<exists>hm'. hmap_shrink hm = Some hm' \<and> hmap_rep hm' M \<and> (hm_mask hm' = hm_mask hm \<or> is_pow2 (hm_mask hm' + 1))"
  using resize_rep [OF assms calc_mask_pow2 [of "hm_n hm"]] calc_mask_pow2 assms by (auto simp: hmap_shrink_def Let_def)

lemma hmap_reserve_rep:
  assumes "hmap_rep hm M"
  shows "\<exists>hm'. hmap_reserve hm n = Some hm' \<and> hmap_rep hm' M \<and> (hm_mask hm' = hm_mask hm \<or> is_pow2 (hm_mask hm' + 1))"
  using resize_rep [OF assms calc_mask_pow2 [of n]] calc_mask_pow2 assms by (auto simp: hmap_reserve_def Let_def)

subsection \<open>Removal and replacement\<close>

lemma find_link_chain:
  "chain (hm_node hm) (get_link hm l) (us @ x # vs) \<Longrightarrow> x \<notin> set us \<Longrightarrow>
   find_link hm x l = Some (if us = [] then l else Next (last us))"
proof (induction us arbitrary: l)
  case Nil
  then show ?case by (simp add: find_link.simps [of hm x l])
next
  case (Cons u us)
  then have u: "get_link hm l = u" "u \<noteq> 0" "u \<noteq> x" "chain (hm_node hm) (get_link hm (Next u)) (us @ x # vs)" by auto
  then have "find_link hm x l = find_link hm x (Next u)" by (simp add: find_link.simps [of hm x l])
  also have "\<dots> = Some (if us = [] then Next u else Next (last us))" using Cons.IH [OF u(4)] Cons.prems(2) by simp
  finally show ?case by simp
qed

text \<open>The bucket of a node, split at the node, and the link that leads to it.\<close>

lemma hmap_split_bucket:
  assumes r: "hmap_rep hm M" and x: "M x = Some h"
  obtains us vs where "chain (hm_node hm) (hm_buckets hm ! bucket_of hm h) (us @ x # vs)" "distinct (us @ x # vs)"
    "set (us @ x # vs) = {y. \<exists>h'. M y = Some h' \<and> bucket_of hm h' = bucket_of hm h}"
    "find_link hm x (Bucket (bucket_of hm h)) = Some (if us = [] then Bucket (bucket_of hm h) else Next (last us))"
proof -
  obtain xs where xs: "chain (hm_node hm) (hm_buckets hm ! bucket_of hm h) xs"
    "set xs = {y. \<exists>h'. M y = Some h' \<and> bucket_of hm h' = bucket_of hm h}"
    using hmap_rep_bucket [OF r bucket_bound] by blast
  have "x \<in> set xs" using xs(2) x by auto
  then obtain us vs where uv: "xs = us @ x # vs" "x \<notin> set us" by (meson split_list_first)
  show ?thesis
    using that [of us vs] xs uv chain_distinct [OF xs(1)] find_link_chain [of hm "Bucket (bucket_of hm h)" us x vs] by simp
qed

text \<open>Redirecting that link to another chain that shares no node with the part before it.\<close>

lemma set_link_chain:
  assumes "chain (hm_node hm) (hm_buckets hm ! i) (us @ ws)" "distinct us" "set us \<inter> set zs = {}"
    "chain (hm_node hm) q zs" "i < length (hm_buckets hm)"
    "hm' = set_link hm (if us = [] then Bucket i else Next (last us)) q"
  shows "\<exists>p. hm_buckets hm' = (hm_buckets hm)[i := p] \<and> chain (hm_node hm') p (us @ zs)"
    "hm_mask hm' = hm_mask hm" "hm_n hm' = hm_n hm" "\<And>y. node_hash hm' y = node_hash hm y"
    "\<And>y. y \<notin> set us \<Longrightarrow> hm_node hm' y = hm_node hm y"
proof -
  show "\<exists>p. hm_buckets hm' = (hm_buckets hm)[i := p] \<and> chain (hm_node hm') p (us @ zs)"
  proof (cases "us = []")
    case False
    then have "chain (hm_node hm') (hm_buckets hm ! i) (us @ zs)"
      using chain_relink [OF False assms(2,3,1,4)] assms(6) by simp
    then show ?thesis using False assms(6) by (intro exI [of _ "hm_buckets hm ! i"]) simp
  qed (use assms in auto)
qed (use assms(6) in \<open>auto split: if_splits\<close>)

lemma other_bucket:
  "set us \<subseteq> {y. \<exists>h'. M y = Some h' \<and> bucket_of hm h' = i} \<Longrightarrow> M y = Some h' \<Longrightarrow> bucket_of hm h' \<noteq> i \<Longrightarrow> y \<notin> set us"
  by auto

lemma hmap_remove_rep:
  assumes r: "hmap_rep hm M" and x: "M x = Some h"
  shows "\<exists>hm'. hmap_remove hm x = Some hm' \<and> hmap_rep hm' (M(x := None)) \<and> hm_mask hm' = hm_mask hm \<and>
    (\<forall>y. y \<notin> dom M \<or> y = x \<longrightarrow> hm_node hm' y = hm_node hm y)"
proof -
  let ?i = "bucket_of hm h"
  obtain us vs where uv: "chain (hm_node hm) (hm_buckets hm ! ?i) (us @ x # vs)" "distinct (us @ x # vs)"
    "set (us @ x # vs) = {y. \<exists>h'. M y = Some h' \<and> bucket_of hm h' = ?i}"
    "find_link hm x (Bucket ?i) = Some (if us = [] then Bucket ?i else Next (last us))"
    by (rule hmap_split_bucket [OF r x])
  define hm' where "hm' = set_link hm (if us = [] then Bucket ?i else Next (last us)) (node_next hm x)"
  have "chain (hm_node hm) (node_next hm x) vs" using chain_append [OF uv(1)] by simp
  from set_link_chain [OF uv(1) _ _ this _ hm'_def] uv(2) hmap_repD(2) [OF r] bucket_bound [of hm h]
  obtain p where p: "hm_buckets hm' = (hm_buckets hm)[?i := p]" "chain (hm_node hm') p (us @ vs)"
    and f: "hm_mask hm' = hm_mask hm" "hm_n hm' = hm_n hm" "\<And>y. node_hash hm' y = node_hash hm y"
      "\<And>y. y \<notin> set us \<Longrightarrow> hm_node hm' y = hm_node hm y"
    by (auto simp: less_Suc_eq_le)
  have us: "set us \<subseteq> {y. \<exists>h'. M y = Some h' \<and> bucket_of hm h' = ?i}" using uv(3) by auto
  have o: "hm_node hm' y = hm_node hm y" if "M y = Some h'" "bucket_of hm h' \<noteq> ?i" for y h'
    using f(4) other_bucket [OF us that] by blast
  have n: "unat (hm_n hm - 1) = card (dom M - {x})"
    using hmap_repD(1,3) [OF r] x by (subst unat_minus_one) (auto simp: card_Diff_singleton_if domIff card_gt_0_iff)
  have "hmap_rep (hm'\<lparr>hm_n := hm_n hm - 1\<rparr>) (M(x := None))"
  proof (rule hmap_rep_update [OF r bucket_bound [of hm h], where p = p and ys = "us @ vs"])
    show "set (us @ vs) = {y. \<exists>h'. (M(x := None)) y = Some h' \<and> bucket_of hm h' = ?i}"
      using uv(2,3) by (auto simp: set_eq_iff split: if_splits)
  qed (use p f o n hmap_repD [OF r] x in \<open>auto simp: domIff split: if_splits\<close>)
  moreover have "hmap_remove hm x = Some (hm'\<lparr>hm_n := hm_n hm - 1\<rparr>)"
    using uv(4) hmap_repD(4) [OF r x] by (simp add: hmap_remove_def hm'_def)
  moreover have "hm_node hm' y = hm_node hm y" if "y \<notin> dom M \<or> y = x" for y
    using that uv(2) us by (intro f(4)) auto
  ultimately show ?thesis using f(1) by auto
qed

lemma hmap_replace_rep:
  assumes r: "hmap_rep hm M" and x: "M x = Some h" and z: "M z = None" "z \<noteq> 0"
  shows "\<exists>hm'. hmap_replace hm x z = Some hm' \<and> hmap_rep hm' (M(x := None, z \<mapsto> h)) \<and> hm_mask hm' = hm_mask hm"
proof -
  let ?i = "bucket_of hm h"
  obtain us vs where uv: "chain (hm_node hm) (hm_buckets hm ! ?i) (us @ x # vs)" "distinct (us @ x # vs)"
    "set (us @ x # vs) = {y. \<exists>h'. M y = Some h' \<and> bucket_of hm h' = ?i}"
    "find_link hm x (Bucket ?i) = Some (if us = [] then Bucket ?i else Next (last us))"
    by (rule hmap_split_bucket [OF r x])
  have zx: "z \<notin> set (us @ x # vs)" using uv(3) z(1) by auto
  \<comment> \<open>the code writes the new node last; writing it first gives the same memory\<close>
  define hm0 where "hm0 = hm\<lparr>hm_node := (hm_node hm)(z := \<lparr>hn_hash = h, hn_next = node_next hm x\<rparr>)\<rparr>"
  define hm' where "hm' = set_link hm0 (if us = [] then Bucket ?i else Next (last us)) z"
  have c0: "chain (hm_node hm0) p ys = chain (hm_node hm) p ys" if "z \<notin> set ys" for p ys
    using that by (intro chain_frame) (auto simp: hm0_def)
  have "chain (hm_node hm0) (node_next hm x) vs" using chain_append [OF uv(1)] c0 zx by simp
  then have "chain (hm_node hm0) z (z # vs)" using z(2) by (simp add: hm0_def)
  moreover have "chain (hm_node hm0) (hm_buckets hm0 ! ?i) (us @ x # vs)" using uv(1) c0 [OF zx] by (simp add: hm0_def)
  ultimately obtain p where p: "hm_buckets hm' = (hm_buckets hm)[?i := p]" "chain (hm_node hm') p (us @ z # vs)"
    and f: "hm_mask hm' = hm_mask hm" "hm_n hm' = hm_n hm" "\<And>y. node_hash hm' y = node_hash hm0 y"
      "\<And>y. y \<notin> set us \<Longrightarrow> hm_node hm' y = hm_node hm0 y"
    using set_link_chain [of hm0 ?i us "x # vs" "z # vs" z hm'] uv(2) zx hmap_repD(2) [OF r] bucket_bound [of hm h]
    by (auto simp: less_Suc_eq_le hm0_def hm'_def)
  have us: "set us \<subseteq> {y. \<exists>h'. M y = Some h' \<and> bucket_of hm h' = ?i}" using uv(3) by auto
  have o: "hm_node hm' y = hm_node hm y" if "M y = Some h'" "bucket_of hm h' \<noteq> ?i" for y h'
    using f(4) [OF other_bucket [OF us that]] that z(1) by (auto simp: hm0_def)
  have "dom (M(x := None, z \<mapsto> h)) = insert z (dom M - {x})" by auto
  then have n: "card (dom (M(x := None, z \<mapsto> h))) = card (dom M)"
    using z(1) x hmap_repD(1) [OF r] card_Suc_Diff1 [of "dom M" x] by (auto simp: domIff)
  have "hmap_rep hm' (M(x := None, z \<mapsto> h))"
  proof (rule hmap_rep_update [OF r bucket_bound [of hm h], where p = p and ys = "us @ z # vs"])
    show "set (us @ z # vs) = {y. \<exists>h'. (M(x := None, z \<mapsto> h)) y = Some h' \<and> bucket_of hm h' = ?i}"
      using uv(2,3) zx by (auto simp: set_eq_iff split: if_splits)
  qed (use p f(1-3) o n hmap_repD [OF r] x z in \<open>auto simp: hm0_def split: if_splits\<close>)
  moreover have "hmap_replace hm x z = Some hm'"
    using uv(2,4) hmap_repD(4) [OF r x] zx last_in_set [of us]
    by (cases "us = []") (auto simp: hmap_replace_def hm'_def hm0_def Let_def fun_upd_twist)
  ultimately show ?thesis using f by blast
qed

section \<open>Searches\<close>

lemma next_with_hash_chain:
  "chain (hm_node hm) p xs \<Longrightarrow>
   next_with_hash hm p h = Some (case dropWhile (\<lambda>x. node_hash hm x \<noteq> h) xs of [] \<Rightarrow> 0 | y # _ \<Rightarrow> y)"
proof (induction xs arbitrary: p)
  case Nil
  then show ?case by (simp add: next_with_hash.simps [of hm 0])
next
  case (Cons x xs)
  then show ?case by (cases "node_hash hm x = h") (auto simp: next_with_hash.simps [of hm x])
qed

lemma for_each_with_hash_chain:
  "chain (hm_node hm) p xs \<Longrightarrow>
   Option.bind (next_with_hash hm p h) (for_each_with_hash hm P) =
     Some (case find (\<lambda>x. node_hash hm x = h \<and> P x) xs of None \<Rightarrow> 0 | Some x \<Rightarrow> x)"
proof (induction xs arbitrary: p)
  case Nil
  then show ?case by (simp add: next_with_hash.simps [of hm 0] for_each_with_hash.simps [of hm P 0])
next
  case (Cons x xs)
  then have x: "p = x" "x \<noteq> 0" "chain (hm_node hm) (node_next hm x) xs" by auto
  show ?case
  proof (cases "node_hash hm x = h")
    case True
    then have n: "next_with_hash hm p h = Some x" using x by (simp add: next_with_hash.simps [of hm x])
    show ?thesis
    proof (cases "P x")
      case False
      then have "for_each_with_hash hm P x = Option.bind (next_with_hash hm (node_next hm x) h) (for_each_with_hash hm P)"
        using x True by (simp add: for_each_with_hash.simps [of hm P x] hmap_next_with_hash_def)
      then show ?thesis using Cons.IH [OF x(3)] n False by simp
    qed (use n True x in \<open>simp add: for_each_with_hash.simps [of hm P x]\<close>)
  next
    case False
    then have "next_with_hash hm p h = next_with_hash hm (node_next hm x) h"
      using x by (simp add: next_with_hash.simps [of hm x])
    then show ?thesis using Cons.IH [OF x(3)] False by simp
  qed
qed

lemma hmap_find_rep:
  assumes r: "hmap_rep hm M"
  shows "\<exists>x. hmap_find hm h P = Some x \<and> (if x = 0 then \<forall>y. M y = Some h \<longrightarrow> \<not> P y else M x = Some h \<and> P x)"
proof -
  obtain xs where xs: "chain (hm_node hm) (hm_buckets hm ! bucket_of hm h) xs"
    "set xs = {y. \<exists>h'. M y = Some h' \<and> bucket_of hm h' = bucket_of hm h}"
    using hmap_rep_bucket [OF r bucket_bound] by blast
  have in_xs: "y \<in> set xs \<and> node_hash hm y = h \<longleftrightarrow> M y = Some h" for y
    using xs(2) hmap_repD(4) [OF r] by auto
  have f: "hmap_find hm h P = Some (case find (\<lambda>x. node_hash hm x = h \<and> P x) xs of None \<Rightarrow> 0 | Some x \<Rightarrow> x)"
    using for_each_with_hash_chain [OF xs(1)] by (simp add: hmap_find_def hmap_first_with_hash_def)
  show ?thesis
  proof (cases "find (\<lambda>x. node_hash hm x = h \<and> P x) xs")
    case None
    then have "\<forall>y. M y = Some h \<longrightarrow> \<not> P y" unfolding find_None_iff in_xs [symmetric] by blast
    then show ?thesis using f None by simp
  next
    case (Some x)
    then have "x \<in> set xs" "node_hash hm x = h" "P x" by (auto simp: find_Some_iff)
    moreover from this have "x \<noteq> 0" using chain_nonzero [OF xs(1)] by metis
    ultimately show ?thesis using f Some in_xs [of x] by simp
  qed
qed

lemma for_each_in_bucket_chain:
  "chain (hm_node hm) p xs \<Longrightarrow>
   \<exists>x. for_each_in_bucket hm P p = Some x \<and> (if x = 0 then \<forall>y \<in> set xs. \<not> P y else x \<in> set xs \<and> P x)"
proof (induction xs arbitrary: p)
  case Nil
  then show ?case by (simp add: for_each_in_bucket.simps [of hm P 0])
next
  case (Cons y ys)
  then have y: "p = y" "y \<noteq> 0" "chain (hm_node hm) (node_next hm y) ys" by auto
  then obtain x where "for_each_in_bucket hm P (node_next hm y) = Some x" "if x = 0 then \<forall>y \<in> set ys. \<not> P y else x \<in> set ys \<and> P x"
    using Cons.IH by blast
  then show ?case using y by (auto simp: for_each_in_bucket.simps [of hm P y] hmap_next_in_bucket_def split: if_splits)
qed

lemma hmap_find_in_bucket_rep:
  assumes r: "hmap_rep hm M"
  shows "\<exists>x. hmap_find_in_bucket hm h P = Some x \<and> (if x = 0 then \<forall>y. M y = Some h \<longrightarrow> \<not> P y else M x \<noteq> None \<and> P x)"
proof -
  obtain xs where xs: "chain (hm_node hm) (hm_buckets hm ! bucket_of hm h) xs"
    "set xs = {y. \<exists>h'. M y = Some h' \<and> bucket_of hm h' = bucket_of hm h}"
    using hmap_rep_bucket [OF r bucket_bound] by blast
  obtain x where "hmap_find_in_bucket hm h P = Some x" "if x = 0 then \<forall>y \<in> set xs. \<not> P y else x \<in> set xs \<and> P x"
    using for_each_in_bucket_chain [OF xs(1), of P] by (auto simp: hmap_find_in_bucket_def hmap_first_in_bucket_def)
  then show ?thesis using xs(2) by (intro exI [of _ x]) (auto split: if_splits)
qed

lemma contains_from_chain: "chain (hm_node hm) p xs \<Longrightarrow> contains_from hm x p = Some (x \<in> set xs)"
proof (induction xs arbitrary: p)
  case Nil
  then show ?case by (simp add: contains_from.simps [of hm x 0])
next
  case (Cons y ys)
  then show ?case by (auto simp: contains_from.simps [of hm x y])
qed

lemma hmap_contains_rep:
  assumes r: "hmap_rep hm M"
  shows "hmap_contains hm x = Some (M x \<noteq> None)"
proof -
  obtain xs where xs: "chain (hm_node hm) (hm_buckets hm ! bucket_of hm (node_hash hm x)) xs"
    "set xs = {y. \<exists>h'. M y = Some h' \<and> bucket_of hm h' = bucket_of hm (node_hash hm x)}"
    using hmap_rep_bucket [OF r bucket_bound] by blast
  have "x \<in> set xs \<longleftrightarrow> M x \<noteq> None" using xs(2) hmap_repD(4) [OF r] by auto
  then show ?thesis using contains_from_chain [OF xs(1)] by (simp add: hmap_contains_def hmap_first_in_bucket_def)
qed

section \<open>Iteration\<close>

lemma for_each_chain:
  "chain (hm_node hm) p xs \<Longrightarrow> (\<And>x. x \<in> set xs \<Longrightarrow> bucket_of hm (node_hash hm x) = i) \<Longrightarrow>
   for_each hm (first_from hm (i + 1)) = Some rest \<Longrightarrow>
   for_each hm (if p = 0 then first_from hm (i + 1) else p) = Some (xs @ rest)"
proof (induction xs arbitrary: p)
  case Nil
  then show ?case by simp
next
  case (Cons x xs)
  then have x: "p = x" "x \<noteq> 0" "chain (hm_node hm) (node_next hm x) xs" by auto
  have "hmap_next hm x = (if node_next hm x = 0 then first_from hm (i + 1) else node_next hm x)"
    using Cons.prems(2) [of x] by (simp add: hmap_next_def)
  then have "for_each hm (hmap_next hm x) = Some (xs @ rest)" using Cons.IH [OF x(3)] Cons.prems(2,3) by simp
  then show ?case using x by (simp add: for_each.simps [of hm x])
qed

lemma for_each_from:
  assumes r: "hmap_rep hm M" and f: "chains_of hm M f"
  shows "i \<le> Suc (unat (hm_mask hm)) \<Longrightarrow>
    for_each hm (first_from hm i) = Some (concat (map f [i..<Suc (unat (hm_mask hm))]))"
proof (induction "Suc (unat (hm_mask hm)) - i" arbitrary: i)
  case 0
  then have "first_from hm i = 0" by (simp add: first_from.simps [of hm i])
  then show ?case using 0 by (simp add: for_each.simps [of hm 0])
next
  case (Suc n)
  then have i: "i \<le> unat (hm_mask hm)" by simp
  have IH: "for_each hm (first_from hm (i + 1)) = Some (concat (map f [i + 1..<Suc (unat (hm_mask hm))]))"
    using Suc by simp
  have c: "chain (hm_node hm) (hm_buckets hm ! i) (f i)" "\<And>x. x \<in> set (f i) \<Longrightarrow> bucket_of hm (node_hash hm x) = i"
    using f i hmap_repD(4) [OF r] by (auto simp: chains_of_def)
  have "first_from hm i = (if hm_buckets hm ! i = 0 then first_from hm (i + 1) else hm_buckets hm ! i)"
    using i by (simp add: first_from.simps [of hm i])
  then have "for_each hm (first_from hm i) = Some (f i @ concat (map f [i + 1..<Suc (unat (hm_mask hm))]))"
    using for_each_chain [OF c IH] by simp
  then show ?case using i by (simp add: upt_conv_Cons del: upt_Suc)
qed

lemma for_each_rep:
  assumes "hmap_rep hm M"
  shows "\<exists>xs. for_each hm (hmap_first hm) = Some xs \<and> distinct xs \<and> set xs = dom M"
proof -
  obtain f where f: "chains_of hm M f" using hmap_rep_chains [OF assms] by blast
  have "for_each hm (hmap_first hm) = Some (all_nodes hm f)"
    using for_each_from [OF assms f, of 0] by (simp only: hmap_first_def le0)
  then show ?thesis using all_nodes_rep [OF f] by blast
qed

section \<open>Well-formed tables\<close>

text \<open>
  The bucket array has a power of two of cells, as many as the mask says, and the table is not
  overloaded.
\<close>

definition hmap_wf :: "hmap \<Rightarrow> bool" where
  "hmap_wf hm \<longleftrightarrow> is_pow2 (hm_mask hm + 1) \<and> length (hm_buckets hm) = unat (hm_mask hm) + 1 \<and>
     hmap_count hm \<le> hmap_capacity hm"

lemma top_bit: "2 ^ 63 \<le> unat (w :: u64) \<Longrightarrow> bit w 63"
proof -
  assume "2 ^ 63 \<le> unat w"
  then have "unat w div 2 ^ 63 = 1" using unat_lt_u64 [of w] by (intro div_nat_eqI) auto
  then have "bit (unat w) 63" by (simp add: bit_iff_odd)
  then show "bit w 63" by (simp add: bit_unsigned_iff)
qed

lemma mask_bound: "is_pow2 (m + 1) \<Longrightarrow> unat (m :: u64) < 2 ^ 63"
proof (rule ccontr)
  assume p: "is_pow2 (m + 1)" and m: "\<not> unat m < 2 ^ 63"
  then have "bit m 63" "bit (m + 1) 63" using is_pow2_Suc [OF p] by (auto intro!: top_bit)
  then have "bit ((m + 1) AND m) 63" by (simp only: bit_and_iff)
  then show False using p by (simp add: is_pow2_def)
qed

lemma capacity_half:
  assumes "is_pow2 (hm_mask hm + 1)"
  shows "hmap_count hm \<le> hmap_capacity hm \<longleftrightarrow> hm_n hm div 2 \<le> hm_mask hm"
proof -
  have "unat (hmap_capacity hm) = unat (hm_mask hm) * 2 + 1"
    using mask_bound [OF assms] by (simp add: hmap_capacity_def unat_word_ariths)
  then show ?thesis by (auto simp: hmap_count_def word_le_nat_alt unat_div)
qed

definition hmap_ok :: "hmap \<Rightarrow> (addr \<Rightarrow> u64 option) \<Rightarrow> bool" where
  "hmap_ok hm M \<longleftrightarrow> hmap_rep hm M \<and> hmap_wf hm"

lemma hmap_okI:
  "hmap_rep hm M \<Longrightarrow> is_pow2 (hm_mask hm + 1) \<Longrightarrow> hm_n hm div 2 \<le> hm_mask hm \<Longrightarrow> hmap_ok hm M"
  by (simp add: hmap_ok_def hmap_wf_def capacity_half hmap_repD(2))

lemma hmap_okD:
  assumes "hmap_ok hm M"
  shows "hmap_rep hm M" "is_pow2 (hm_mask hm + 1)" "hm_n hm div 2 \<le> hm_mask hm"
  using assms by (auto simp: hmap_ok_def hmap_wf_def capacity_half)

lemma hmap_rep_n: "hmap_rep hm M \<Longrightarrow> hmap_rep hm' M \<Longrightarrow> hm_n hm' = hm_n hm"
  using hmap_repD(3) by (metis word_unat_eq_iff)

lemma resize_ok:
  assumes "hmap_ok hm M" "calc_mask k \<ge> calc_mask (hm_n hm) \<or> calc_mask k > hm_mask hm"
  shows "\<exists>hm'. resize hm (calc_mask k) = Some hm' \<and> hmap_ok hm' M"
proof -
  obtain hm' where hm': "resize hm (calc_mask k) = Some hm'" "hmap_rep hm' M" "hm_mask hm' = calc_mask k"
    using resize_rep [OF hmap_okD(1) [OF assms(1)] calc_mask_pow2] by blast
  have "hm_n hm div 2 \<le> calc_mask k"
    using assms(2) calc_mask_ge [of "hm_n hm"] hmap_okD(3) [OF assms(1)] by auto
  then have "hmap_ok hm' M"
    using hm' hmap_rep_n [OF hmap_okD(1) [OF assms(1)] hm'(2)] calc_mask_pow2 by (intro hmap_okI) auto
  then show ?thesis using hm'(1) by blast
qed

lemma hmap_init_ok: "hmap_ok (hmap_init hm) Map.empty"
  using hmap_init_rep by (rule hmap_okI) (auto simp: hmap_init_def is_pow2_def)

lemma hmap_insert_ok:
  assumes "hmap_ok hm M" "M x = None" "x \<noteq> 0" "card (dom M) + 1 < 2 ^ 64"
  shows "\<exists>hm'. hmap_insert hm x h = Some hm' \<and> hmap_ok hm' (M(x \<mapsto> h))"
  using hmap_insert_rep [OF hmap_okD(1) [OF assms(1)] assms(2-4), of h] hmap_okD(2) [OF assms(1)]
  by (auto intro!: hmap_okI)

lemma hmap_remove_ok:
  assumes "hmap_ok hm M" "M x \<noteq> None"
  shows "\<exists>hm'. hmap_remove hm x = Some hm' \<and> hmap_ok hm' (M(x := None))"
proof -
  obtain h where h: "M x = Some h" using assms(2) by blast
  obtain hm' where hm': "hmap_remove hm x = Some hm'" "hmap_rep hm' (M(x := None))" "hm_mask hm' = hm_mask hm"
    using hmap_remove_rep [OF hmap_okD(1) [OF assms(1)] h] by blast
  have "unat (hm_n hm') \<le> unat (hm_n hm)"
    using hmap_repD(1,3) [OF hmap_okD(1) [OF assms(1)]] hmap_repD(3) [OF hm'(2)] by (simp add: card_Diff1_le)
  then have "unat (hm_n hm' div 2) \<le> unat (hm_mask hm)"
    using hmap_okD(3) [OF assms(1)] by (simp add: word_le_nat_alt unat_div div_le_mono order_trans [OF div_le_mono])
  then show ?thesis using hm' hmap_okD(2) [OF assms(1)] by (auto intro!: hmap_okI simp: word_le_nat_alt)
qed

lemma hmap_replace_ok:
  assumes "hmap_ok hm M" "M x = Some h" "M z = None" "z \<noteq> 0"
  shows "\<exists>hm'. hmap_replace hm x z = Some hm' \<and> hmap_ok hm' (M(x := None, z \<mapsto> h))"
proof -
  note r = hmap_okD(1) [OF assms(1)]
  obtain hm' where hm': "hmap_replace hm x z = Some hm'" "hmap_rep hm' (M(x := None, z \<mapsto> h))" "hm_mask hm' = hm_mask hm"
    using hmap_replace_rep [OF r assms(2-4)] by blast
  have "dom (M(x := None, z \<mapsto> h)) = insert z (dom M - {x})" by auto
  then have "card (dom (M(x := None, z \<mapsto> h))) = card (dom M)"
    using assms(2,3) hmap_repD(1) [OF r] card_Suc_Diff1 [of "dom M" x] by (auto simp: domIff)
  then have "hm_n hm' = hm_n hm" using hmap_repD(3) [OF r] hmap_repD(3) [OF hm'(2)] by (simp add: word_unat_eq_iff)
  then show ?thesis using hm' hmap_okD(2,3) [OF assms(1)] by (auto intro!: hmap_okI)
qed

lemma hmap_clear_ok: "hmap_ok hm M \<Longrightarrow> hmap_ok (hmap_clear hm) Map.empty"
  using hmap_clear_rep [OF hmap_okD(1,2)] hmap_okD(2,3)
  by (intro hmap_okI) (auto simp: hmap_clear_def word_gt_0)

section \<open>The interface of the table\<close>

text \<open>
  What a client of the table relies on, and the lookup by key that clients build on it: every
  object is stored under the hash of its key.
\<close>

locale node_table =
  fixes table :: "'t \<Rightarrow> (addr \<Rightarrow> u64 option) \<Rightarrow> bool"
    and insert_node :: "'t \<Rightarrow> addr \<Rightarrow> u64 \<Rightarrow> 't option"
    and remove_node :: "'t \<Rightarrow> addr \<Rightarrow> 't option"
    and find_node :: "'t \<Rightarrow> u64 \<Rightarrow> (addr \<Rightarrow> bool) \<Rightarrow> addr option"
  assumes table_nonzero: "table t M \<Longrightarrow> M 0 = None"
    and insert_node: "table t M \<Longrightarrow> M x = None \<Longrightarrow> x \<noteq> 0 \<Longrightarrow> card (dom M) + 1 < 2 ^ 64 \<Longrightarrow>
      \<exists>t'. insert_node t x h = Some t' \<and> table t' (M(x \<mapsto> h))"
    and remove_node: "table t M \<Longrightarrow> M x \<noteq> None \<Longrightarrow> \<exists>t'. remove_node t x = Some t' \<and> table t' (M(x := None))"
    and find_node: "table t M \<Longrightarrow>
      \<exists>x. find_node t h P = Some x \<and> (if x = 0 then \<forall>y. M y = Some h \<longrightarrow> \<not> P y else M x = Some h \<and> P x)"
begin

definition keyed :: "'t \<Rightarrow> ('k \<Rightarrow> u64) \<Rightarrow> (addr \<Rightarrow> 'k) \<Rightarrow> addr set \<Rightarrow> bool" where
  "keyed t hash key X \<longleftrightarrow> table t (\<lambda>x. if x \<in> X then Some (hash (key x)) else None)"

lemma keyed_nonzero: "keyed t hash key X \<Longrightarrow> 0 \<notin> X"
  using table_nonzero by (fastforce simp: keyed_def)

lemma keyed_find:
  assumes "keyed t hash key X"
  shows "\<exists>x. find_node t (hash k) (\<lambda>x. key x = k) = Some x \<and> (if x = 0 then k \<notin> key ` X else x \<in> X \<and> key x = k)"
proof -
  obtain x where x: "find_node t (hash k) (\<lambda>x. key x = k) = Some x"
    "if x = 0 then \<forall>y. (if y \<in> X then Some (hash (key y)) else None) = Some (hash k) \<longrightarrow> key y \<noteq> k
     else (if x \<in> X then Some (hash (key x)) else None) = Some (hash k) \<and> key x = k"
    using find_node [of t _ "hash k" "\<lambda>x. key x = k"] assms unfolding keyed_def by blast
  then show ?thesis by (intro exI [of _ x]) (auto split: if_splits)
qed

lemma keyed_insert:
  assumes "keyed t hash key X" "x \<notin> X" "x \<noteq> 0" "finite X" "card X + 1 < 2 ^ 64"
  shows "\<exists>t'. insert_node t x (hash k) = Some t' \<and> keyed t' hash (key(x := k)) (insert x X)"
proof -
  let ?M = "\<lambda>x. if x \<in> X then Some (hash (key x)) else None"
  have "dom ?M = X" by (auto simp: domIff split: if_splits)
  then obtain t' where "insert_node t x (hash k) = Some t'" "table t' (?M(x \<mapsto> hash k))"
    using insert_node [of t ?M x "hash k"] assms by (auto simp: keyed_def)
  moreover have "?M(x \<mapsto> hash k) = (\<lambda>y. if y \<in> insert x X then Some (hash ((key(x := k)) y)) else None)"
    using assms(2) by (auto simp: fun_eq_iff)
  ultimately show ?thesis by (auto simp: keyed_def)
qed

lemma keyed_remove:
  assumes "keyed t hash key X" "x \<in> X"
  shows "\<exists>t'. remove_node t x = Some t' \<and> keyed t' hash key (X - {x})"
proof -
  let ?M = "\<lambda>x. if x \<in> X then Some (hash (key x)) else None"
  obtain t' where "remove_node t x = Some t'" "table t' (?M(x := None))"
    using remove_node [of t ?M x] assms by (auto simp: keyed_def)
  moreover have "?M(x := None) = (\<lambda>y. if y \<in> X - {x} then Some (hash (key y)) else None)"
    by (auto simp: fun_eq_iff)
  ultimately show ?thesis by (auto simp: keyed_def)
qed

end

text \<open>A table that can also be searched without comparing hash values, and iterated over.\<close>

locale iterable_table = node_table table insert_node remove_node find_node
  for table :: "'t \<Rightarrow> (addr \<Rightarrow> u64 option) \<Rightarrow> bool" and insert_node remove_node find_node +
  fixes find_in_bucket :: "'t \<Rightarrow> u64 \<Rightarrow> (addr \<Rightarrow> bool) \<Rightarrow> addr option"
    and all_of :: "'t \<Rightarrow> addr list option"
    and first_of :: "'t \<Rightarrow> addr"
  assumes find_in_bucket: "table t M \<Longrightarrow>
      \<exists>x. find_in_bucket t h P = Some x \<and> (if x = 0 then \<forall>y. M y = Some h \<longrightarrow> \<not> P y else M x \<noteq> None \<and> P x)"
    and all_of: "table t M \<Longrightarrow> \<exists>xs. all_of t = Some xs \<and> distinct xs \<and> set xs = dom M"
    and first_of: "table t M \<Longrightarrow> if dom M = {} then first_of t = 0 else M (first_of t) \<noteq> None"
begin

lemma keyed_find_in_bucket:
  assumes "keyed t hash key X"
  shows "\<exists>x. find_in_bucket t (hash k) (\<lambda>x. key x = k) = Some x \<and> (if x = 0 then k \<notin> key ` X else x \<in> X \<and> key x = k)"
proof -
  obtain x where x: "find_in_bucket t (hash k) (\<lambda>x. key x = k) = Some x"
    "if x = 0 then \<forall>y. (if y \<in> X then Some (hash (key y)) else None) = Some (hash k) \<longrightarrow> key y \<noteq> k
     else (if x \<in> X then Some (hash (key x)) else None) \<noteq> None \<and> key x = k"
    using find_in_bucket [of t _ "hash k" "\<lambda>x. key x = k"] assms unfolding keyed_def by blast
  then show ?thesis by (intro exI [of _ x]) (auto split: if_splits)
qed

lemma keyed_all:
  assumes "keyed t hash key X"
  shows "\<exists>xs. all_of t = Some xs \<and> distinct xs \<and> set xs = X"
proof -
  have "dom (\<lambda>x. if x \<in> X then Some (hash (key x)) else None) = X" by (auto simp: domIff split: if_splits)
  then show ?thesis using all_of assms unfolding keyed_def by fastforce
qed

lemma keyed_first:
  assumes "keyed t hash key X"
  shows "if X = {} then first_of t = 0 else first_of t \<in> X"
proof -
  have "dom (\<lambda>x. if x \<in> X then Some (hash (key x)) else None) = X" by (auto simp: domIff split: if_splits)
  then show ?thesis using first_of [OF assms [unfolded keyed_def]] by (simp split: if_splits)
qed

end

interpretation hmap_table: node_table hmap_ok hmap_insert hmap_remove hmap_find
proof
  show "M 0 = None" if "hmap_ok t M" for t M using hmap_rep_nonzero [OF hmap_okD(1) [OF that]] .
qed (use hmap_insert_ok hmap_remove_ok hmap_find_rep [OF hmap_okD(1)] in blast)+

abbreviation hmap_nodes :: "hmap \<Rightarrow> addr list option" where
  "hmap_nodes hm \<equiv> for_each hm (hmap_first hm)"

lemma hmap_first_rep:
  assumes "hmap_rep hm M"
  shows "if dom M = {} then hmap_first hm = 0 else M (hmap_first hm) \<noteq> None"
proof -
  obtain xs where xs: "hmap_nodes hm = Some xs" "set xs = dom M" using for_each_rep [OF assms] by blast
  show ?thesis
  proof (cases "hmap_first hm = 0")
    case True
    then have "xs = []" using xs(1) by (simp add: for_each.simps [of hm 0])
    then show ?thesis using xs(2) True by simp
  next
    case False
    then obtain ys where "xs = hmap_first hm # ys"
      using xs(1) unfolding for_each.simps [of hm "hmap_first hm"] by (auto simp: bind_eq_Some_conv)
    then show ?thesis using xs(2) by auto
  qed
qed

interpretation hmap_iter: iterable_table hmap_ok hmap_insert hmap_remove hmap_find hmap_find_in_bucket hmap_nodes hmap_first
proof
  fix t M h P assume "hmap_ok t M"
  then have r: "hmap_rep t M" by (rule hmap_okD(1))
  show "\<exists>x. hmap_find_in_bucket t h P = Some x \<and> (if x = 0 then \<forall>y. M y = Some h \<longrightarrow> \<not> P y else M x \<noteq> None \<and> P x)"
    by (rule hmap_find_in_bucket_rep [OF r])
  show "\<exists>xs. hmap_nodes t = Some xs \<and> distinct xs \<and> set xs = dom M" by (rule for_each_rep [OF r])
  show "if dom M = {} then hmap_first t = 0 else M (hmap_first t) \<noteq> None" by (rule hmap_first_rep [OF r])
qed

section \<open>Sequences of calls\<close>

datatype hm_op = Hm_Insert addr u64 | Hm_Remove addr | Hm_Replace addr addr | Hm_Clear | Hm_Expand | Hm_Shrink | Hm_Reserve u64

fun hm_exec :: "hmap \<Rightarrow> hm_op \<Rightarrow> hmap option" where
  "hm_exec hm (Hm_Insert x h) = hmap_insert hm x h"
| "hm_exec hm (Hm_Remove x) = hmap_remove hm x"
| "hm_exec hm (Hm_Replace x z) = hmap_replace hm x z"
| "hm_exec hm Hm_Clear = Some (hmap_clear hm)"
| "hm_exec hm Hm_Expand = hmap_expand hm"
| "hm_exec hm Hm_Shrink = hmap_shrink hm"
| "hm_exec hm (Hm_Reserve n) = hmap_reserve hm n"

text \<open>The map of the specification: which calls are allowed, and their effect.\<close>

fun hm_pre :: "(addr \<Rightarrow> u64 option) \<Rightarrow> hm_op \<Rightarrow> bool" where
  "hm_pre M (Hm_Insert x h) \<longleftrightarrow> x \<noteq> 0 \<and> M x = None"
| "hm_pre M (Hm_Remove x) \<longleftrightarrow> M x \<noteq> None"
| "hm_pre M (Hm_Replace x z) \<longleftrightarrow> M x \<noteq> None \<and> M z = None \<and> z \<noteq> 0"
| "hm_pre M _ \<longleftrightarrow> True"

fun hm_spec :: "(addr \<Rightarrow> u64 option) \<Rightarrow> hm_op \<Rightarrow> (addr \<Rightarrow> u64 option)" where
  "hm_spec M (Hm_Insert x h) = M(x \<mapsto> h)"
| "hm_spec M (Hm_Remove x) = M(x := None)"
| "hm_spec M (Hm_Replace x z) = M(x := None, z := M x)"
| "hm_spec M Hm_Clear = Map.empty"
| "hm_spec M _ = M"

fun hm_run :: "hmap \<Rightarrow> hm_op list \<Rightarrow> hmap option" where
  "hm_run hm [] = Some hm"
| "hm_run hm (op # ops) = Option.bind (hm_exec hm op) (\<lambda>hm. hm_run hm ops)"

fun hm_allowed :: "(addr \<Rightarrow> u64 option) \<Rightarrow> hm_op list \<Rightarrow> bool" where
  "hm_allowed M [] \<longleftrightarrow> True"
| "hm_allowed M (op # ops) \<longleftrightarrow> hm_pre M op \<and> hm_allowed (hm_spec M op) ops"

lemma hm_exec_ok:
  assumes "hmap_ok hm M" "hm_pre M op" "card (dom M) + 1 < 2 ^ 64"
  shows "\<exists>hm'. hm_exec hm op = Some hm' \<and> hmap_ok hm' (hm_spec M op)"
proof (cases op)
  case Hm_Expand
  then show ?thesis using resize_ok [OF assms(1), of "hm_n hm"] assms(1) by (auto simp: hmap_expand_def Let_def)
next
  case Hm_Shrink
  then show ?thesis using resize_ok [OF assms(1), of "hm_n hm"] assms(1) by (auto simp: hmap_shrink_def Let_def)
next
  case (Hm_Reserve n)
  then show ?thesis using resize_ok [OF assms(1), of n] assms(1) by (auto simp: hmap_reserve_def Let_def)
next
  case (Hm_Replace x z)
  then show ?thesis using hmap_replace_ok [OF assms(1)] assms(2) by auto
qed (use hmap_insert_ok [OF assms(1)] hmap_remove_ok [OF assms(1)] hmap_clear_ok [OF assms(1)] assms(2,3) in auto)

lemma hm_run_ok:
  "hmap_ok hm M \<Longrightarrow> hm_allowed M ops \<Longrightarrow> card (dom M) + length ops < 2 ^ 64 \<Longrightarrow>
   \<exists>hm'. hm_run hm ops = Some hm' \<and> hmap_ok hm' (foldl hm_spec M ops)"
proof (induction ops arbitrary: hm M)
  case (Cons op ops)
  obtain hm' where hm': "hm_exec hm op = Some hm'" "hmap_ok hm' (hm_spec M op)"
    using hm_exec_ok [OF Cons.prems(1)] Cons.prems(2,3) by auto
  have fin: "finite (dom M)" using hmap_repD(1) [OF hmap_okD(1) [OF Cons.prems(1)]] .
  obtain a where "dom (hm_spec M op) \<subseteq> insert a (dom M)"
  proof (cases op)
    case (Hm_Replace x z)
    then have "dom (hm_spec M op) \<subseteq> insert z (dom M)" by (auto split: if_splits)
    then show ?thesis by (rule that)
  qed auto
  then have "card (dom (hm_spec M op)) \<le> card (insert a (dom M))" using fin by (intro card_mono) auto
  then have "card (dom (hm_spec M op)) \<le> card (dom M) + 1" using fin by (simp add: card_insert_if split: if_splits)
  then show ?case using Cons.IH [OF hm'(2)] Cons.prems(2,3) hm'(1) by auto
qed simp

text \<open>
  C3: Starting from an empty table, any sequence of up to 2^64 - 1 insertions, removals, replacements,
  clearings and changes of capacity returns - no assertion fails, no loop runs on, no null pointer
  is followed, whatever the hash values - and leaves the set of nodes and hash values that the
  specification gives: hmap_count counts them, hmap_contains tests for them, and searching with a
  hash and a predicate finds a node exactly if there is one.
\<close>

theorem hmap_run_refines:
  assumes "hm_allowed Map.empty ops" "length ops < 2 ^ 64"
  shows "\<exists>hm. hm_run (hmap_init mem) ops = Some hm \<and>
    (let M = foldl hm_spec Map.empty ops
     in unat (hmap_count hm) = card (dom M) \<and>
        (\<forall>x. hmap_contains hm x = Some (M x \<noteq> None)) \<and>
        (\<forall>h P. \<exists>x. hmap_find hm h P = Some x \<and>
           (if x = 0 then \<forall>y. M y = Some h \<longrightarrow> \<not> P y else M x = Some h \<and> P x)))"
proof -
  obtain hm where hm: "hm_run (hmap_init mem) ops = Some hm" "hmap_ok hm (foldl hm_spec Map.empty ops)"
    using hm_run_ok [OF hmap_init_ok assms(1)] assms(2) by auto
  note r = hmap_okD(1) [OF hm(2)]
  show ?thesis
    using hm(1) hmap_repD(3) [OF r] hmap_contains_rep [OF r] hmap_find_rep [OF r] by (simp add: hmap_count_def)
qed

theorem hmap_run_refines_witness:
  "\<exists>hm. hm_run (hmap_init \<lparr>hm_node = (\<lambda>_. \<lparr>hn_hash = 0, hn_next = 0\<rparr>), hm_buckets = [], hm_mask = 7, hm_n = 3\<rparr>)
       [Hm_Insert 10 5, Hm_Insert 20 5, Hm_Shrink, Hm_Replace 10 30, Hm_Remove 20] = Some hm \<and>
     unat (hmap_count hm) = 1 \<and> hmap_contains hm 30 = Some True \<and> hmap_contains hm 20 = Some False"
  using hmap_run_refines [of "[Hm_Insert 10 5, Hm_Insert 20 5, Hm_Shrink, Hm_Replace 10 30, Hm_Remove 20]"
      "\<lparr>hm_node = (\<lambda>_. \<lparr>hn_hash = 0, hn_next = 0\<rparr>), hm_buckets = [], hm_mask = 7, hm_n = 3\<rparr>"]
  by (auto simp: Let_def)

text \<open>
  C24: Iterating over a table ends and visits each of its nodes exactly once, after any such sequence
  of calls.
\<close>

theorem hmap_iteration_terminates:
  assumes "hm_allowed Map.empty ops" "length ops < 2 ^ 64"
  shows "\<exists>hm xs. hm_run (hmap_init mem) ops = Some hm \<and> for_each hm (hmap_first hm) = Some xs \<and> distinct xs \<and>
    set xs = dom (foldl hm_spec Map.empty ops)"
proof -
  obtain hm where hm: "hm_run (hmap_init mem) ops = Some hm" "hmap_ok hm (foldl hm_spec Map.empty ops)"
    using hm_run_ok [OF hmap_init_ok assms(1)] assms(2) by auto
  then show ?thesis using for_each_rep [OF hmap_okD(1) [OF hm(2)]] by blast
qed

theorem hmap_iteration_terminates_witness:
  "\<exists>hm xs. hm_run (hmap_init \<lparr>hm_node = (\<lambda>_. \<lparr>hn_hash = 0, hn_next = 0\<rparr>), hm_buckets = [], hm_mask = 7, hm_n = 3\<rparr>)
       [Hm_Insert 10 5, Hm_Insert 20 5, Hm_Insert 30 6, Hm_Remove 20] = Some hm \<and>
     for_each hm (hmap_first hm) = Some xs \<and> distinct xs \<and> set xs = {10, 30}"
proof -
  have "dom (foldl hm_spec Map.empty [Hm_Insert 10 5, Hm_Insert 20 5, Hm_Insert 30 6, Hm_Remove 20]) = {10, 30}" by auto
  then show ?thesis
    using hmap_iteration_terminates [of "[Hm_Insert 10 5, Hm_Insert 20 5, Hm_Insert 30 6, Hm_Remove 20]"
      "\<lparr>hm_node = (\<lambda>_. \<lparr>hn_hash = 0, hn_next = 0\<rparr>), hm_buckets = [], hm_mask = 7, hm_n = 3\<rparr>"]
    by auto
qed

text \<open>
  C25: Tables stay well-formed: after any such sequence of calls the mask is one less than a power of
  two, the bucket array has mask + 1 cells, and the table holds no more nodes than its capacity.
\<close>

theorem hmap_wellformed:
  assumes "hm_allowed Map.empty ops" "length ops < 2 ^ 64"
  shows "\<exists>hm. hm_run (hmap_init mem) ops = Some hm \<and> is_pow2 (hm_mask hm + 1) \<and>
    length (hm_buckets hm) = unat (hm_mask hm) + 1 \<and> hmap_count hm \<le> hmap_capacity hm"
proof -
  obtain hm where "hm_run (hmap_init mem) ops = Some hm" "hmap_ok hm (foldl hm_spec Map.empty ops)"
    using hm_run_ok [OF hmap_init_ok assms(1)] assms(2) by auto
  then show ?thesis by (auto simp: hmap_ok_def hmap_wf_def)
qed

theorem hmap_wellformed_witness:
  "\<exists>hm. hm_run (hmap_init \<lparr>hm_node = (\<lambda>_. \<lparr>hn_hash = 0, hn_next = 0\<rparr>), hm_buckets = [], hm_mask = 7, hm_n = 3\<rparr>)
       [Hm_Insert 10 5, Hm_Insert 20 6, Hm_Insert 30 7, Hm_Shrink] = Some hm \<and>
     length (hm_buckets hm) = unat (hm_mask hm) + 1 \<and> hmap_count hm \<le> hmap_capacity hm"
  using hmap_wellformed [of "[Hm_Insert 10 5, Hm_Insert 20 6, Hm_Insert 30 7, Hm_Shrink]"
      "\<lparr>hm_node = (\<lambda>_. \<lparr>hn_hash = 0, hn_next = 0\<rparr>), hm_buckets = [], hm_mask = 7, hm_n = 3\<rparr>"]
  by auto

end
