(* ===== verification/Hash.thy ===== *)
theory Hash
  imports OVS_Prelude
begin

text \<open>
  The hash functions of lib/hash.h and lib/hash.c, in the portable build that computes MurmurHash3
  (the build for processors with the crc32 instruction uses other mixing steps). Arrays of words and
  bytes are lists. Every mixing step is a bijection in the running hash, so that functions of one
  word give different hashes for different words.
\<close>

section \<open>Model\<close>

definition hash_rot :: "u32 \<Rightarrow> nat \<Rightarrow> u32" where
  "hash_rot x k = push_bit k x OR drop_bit (32 - k) x"

definition mhash_add_raw :: "u32 \<Rightarrow> u32 \<Rightarrow> u32" where
  "mhash_add_raw hash data =
     (let data = data * 0xcc9e2d51; data = hash_rot data 15; data = data * 0x1b873593 in hash XOR data)"

definition mhash_add :: "u32 \<Rightarrow> u32 \<Rightarrow> u32" where
  "mhash_add hash data = (let hash = mhash_add_raw hash data; hash = hash_rot hash 13 in hash * 5 + 0xe6546b64)"

definition mhash_finish :: "u32 \<Rightarrow> u32" where
  "mhash_finish hash =
     (let hash = hash XOR drop_bit 16 hash;
          hash = hash * 0x85ebca6b;
          hash = hash XOR drop_bit 13 hash;
          hash = hash * 0xc2b2ae35
      in hash XOR drop_bit 16 hash)"

definition hash_add :: "u32 \<Rightarrow> u32 \<Rightarrow> u32" where
  "hash_add hash data = mhash_add hash data"

definition hash_add64 :: "u32 \<Rightarrow> u64 \<Rightarrow> u32" where
  "hash_add64 hash data = hash_add (hash_add hash (ucast data)) (ucast (drop_bit 32 data))"

definition hash_finish :: "u32 \<Rightarrow> u32 \<Rightarrow> u32" where
  "hash_finish hash final = mhash_finish (hash XOR final)"

definition hash_words_inline :: "u32 list \<Rightarrow> u32 \<Rightarrow> u32" where
  "hash_words_inline p basis = hash_finish (foldl hash_add basis p) (of_nat (length p * 4))"

definition hash_words64_inline :: "u64 list \<Rightarrow> u32 \<Rightarrow> u32" where
  "hash_words64_inline p basis = hash_finish (foldl hash_add64 basis p) (of_nat (length p * 8))"

definition hash_2words :: "u32 \<Rightarrow> u32 \<Rightarrow> u32" where
  "hash_2words x y = hash_finish (hash_add (hash_add x 0) y) 8"

definition hash_uint64_basis :: "u64 \<Rightarrow> u32 \<Rightarrow> u32" where
  "hash_uint64_basis x basis = hash_finish (hash_add64 basis x) 8"

definition hash_uint64 :: "u64 \<Rightarrow> u32" where
  "hash_uint64 x = hash_uint64_basis x 0"

definition hash_int :: "u32 \<Rightarrow> u32 \<Rightarrow> u32" where
  "hash_int x basis = hash_2words x basis"

definition hash_3words :: "u32 \<Rightarrow> u32 \<Rightarrow> u32 \<Rightarrow> u32" where
  "hash_3words a b c = hash_finish (hash_add (hash_add (hash_add a 0) b) c) 12"

definition hash_boolean :: "bool \<Rightarrow> u32 \<Rightarrow> u32" where
  "hash_boolean x basis = (if x then 0xc2b73583 else 0xe90f1258) XOR hash_rot basis 1"

text \<open>
  \<open>hash_bytes\<close> on a host with a way \<open>load\<close> of reading four bytes as a word; \<open>memcpy\<close> of the last
  bytes into a zero word pads them with zero bytes.
\<close>

fun hash_bytes_loop :: "(u8 list \<Rightarrow> u32) \<Rightarrow> u8 list \<Rightarrow> u32 \<Rightarrow> u32" where
  "hash_bytes_loop load (a # b # c # d # p) hash = hash_bytes_loop load p (hash_add hash (load [a, b, c, d]))"
| "hash_bytes_loop load [] hash = hash"
| "hash_bytes_loop load p hash = hash_add hash (load (take 4 (p @ replicate 4 0)))"

definition hash_bytes :: "(u8 list \<Rightarrow> u32) \<Rightarrow> u8 list \<Rightarrow> u32 \<Rightarrow> u32" where
  "hash_bytes load p basis = hash_finish (hash_bytes_loop load p basis) (of_nat (length p))"

section \<open>Mixing loses nothing\<close>

lemma bits_u32: "(\<And>i. i < 32 \<Longrightarrow> bit a i \<longleftrightarrow> bit b i) \<Longrightarrow> a = (b :: u32)"
  by (rule bit_word_eqI) simp

lemma hash_rot_bit: "0 < k \<Longrightarrow> k < 32 \<Longrightarrow> i < 32 \<Longrightarrow> bit (hash_rot x k) i \<longleftrightarrow> bit x (if k \<le> i then i - k else i + 32 - k)"
  unfolding hash_rot_def bit_or_iff bit_push_bit_iff bit_drop_bit_eq comp_def
  by (auto simp: bit_imp_le_length add.commute dest: bit_imp_le_length)

lemma hash_rot_inverse:
  assumes "0 < k" "k < 32"
  shows "hash_rot (hash_rot x k) (32 - k) = x"
proof (rule bits_u32)
  show "bit (hash_rot (hash_rot x k) (32 - k)) i \<longleftrightarrow> bit x i" if "i < 32" for i
    using assms that by (auto simp: hash_rot_bit)
qed

lemma xorshift_bit: "bit (w XOR drop_bit k w) i \<longleftrightarrow> bit (w :: u32) i \<noteq> bit w (k + i)"
  by (simp add: bit_xor_iff bit_drop_bit_eq)

lemma xorshift16_inverse: "(w XOR drop_bit 16 w) XOR drop_bit 16 (w XOR drop_bit 16 w) = (w :: u32)"
proof (rule bits_u32)
  show "bit ((w XOR drop_bit 16 w) XOR drop_bit 16 (w XOR drop_bit 16 w)) i \<longleftrightarrow> bit w i" if "i < 32" for i
    unfolding xorshift_bit using that bit_imp_le_length [of w "16 + (16 + i)"] by auto
qed

lemma xorshift13_inverse:
  fixes w :: u32
  defines "v \<equiv> w XOR drop_bit 13 w"
  shows "v XOR drop_bit 13 v XOR drop_bit 26 v = w"
proof (rule bits_u32)
  have v: "bit v i \<longleftrightarrow> bit w i \<noteq> bit w (13 + i)" for i unfolding v_def by (rule xorshift_bit)
  show "bit (v XOR drop_bit 13 v XOR drop_bit 26 v) i \<longleftrightarrow> bit w i" if "i < 32" for i
    using that bit_imp_le_length [of w "13 + (26 + i)"]
    by (simp add: bit_xor_iff bit_drop_bit_eq v add.assoc [symmetric]) (auto simp: add.assoc)
qed

lemma odd_mult_eq:
  fixes x y :: u32
  assumes "c * d = 1"
  shows "x * c = y * c \<longleftrightarrow> x = y"
proof
  assume "x * c = y * c"
  then have "x * c * d = y * c * d" by simp
  then show "x = y" using assms by (simp only: mult.assoc mult_1_right)
qed simp

lemma xor_eq: "x XOR c = y XOR c \<longleftrightarrow> x = (y :: u32)"
proof
  assume "x XOR c = y XOR c"
  then have "(x XOR c) XOR c = (y XOR c) XOR c" by simp
  then show "x = y" by (simp only: xor.assoc xor_self_eq xor.right_neutral)
qed simp

lemma xorshift_eq:
  "x XOR drop_bit 16 x = y XOR drop_bit 16 y \<longleftrightarrow> x = (y :: u32)"
  "x XOR drop_bit 13 x = y XOR drop_bit 13 y \<longleftrightarrow> x = (y :: u32)"
  using xorshift16_inverse xorshift13_inverse by metis+

lemma murmur_mult_eq:
  fixes x y :: u32
  shows "x * 0x85ebca6b = y * 0x85ebca6b \<longleftrightarrow> x = y" "x * 0xc2b2ae35 = y * 0xc2b2ae35 \<longleftrightarrow> x = y" "x * 5 = y * 5 \<longleftrightarrow> x = y"
    "x * 0x1b873593 = y * 0x1b873593 \<longleftrightarrow> x = y" "x * 0xcc9e2d51 = y * 0xcc9e2d51 \<longleftrightarrow> x = y"
  by (rule odd_mult_eq [of _ "0xa5cb9243"], simp) (rule odd_mult_eq [of _ "0x7ed1b41d"], simp,
      rule odd_mult_eq [of _ "0xcccccccd"], simp, rule odd_mult_eq [of _ "0x56ed309b"], simp,
      rule odd_mult_eq [of _ "0xdee13bb1"], simp)

lemma hash_rot_eq: "0 < k \<Longrightarrow> k < 32 \<Longrightarrow> hash_rot x k = hash_rot y k \<longleftrightarrow> x = y"
  by (metis hash_rot_inverse)

lemma hash_finish_eq: "hash_finish x f = hash_finish y f \<longleftrightarrow> x = y"
  unfolding hash_finish_def mhash_finish_def Let_def by (simp only: xorshift_eq murmur_mult_eq xor_eq)

lemma mhash_add_eq: "mhash_add x d = mhash_add y e \<longleftrightarrow> mhash_add_raw x d = mhash_add_raw y e"
  by (simp add: mhash_add_def Let_def hash_rot_eq murmur_mult_eq)

lemma hash_add_eq: "hash_add x d = hash_add y d \<longleftrightarrow> x = y"
  unfolding hash_add_def mhash_add_eq mhash_add_raw_def Let_def by (rule xor_eq)

lemma hash_add_data_eq: "hash_add x d = hash_add x e \<longleftrightarrow> d = e"
  unfolding hash_add_def mhash_add_eq mhash_add_raw_def Let_def xor.commute [of x] xor_eq
  by (simp add: murmur_mult_eq hash_rot_eq)

text \<open>
  Hashing one word together with a basis never collides: two different words with the same
  basis, or the same word with two different bases, have different hashes. The same holds when one
  of the words of a longer array is changed.
\<close>

theorem hash_words_no_collision:
  "(hash_int x basis = hash_int y basis) = (x = y) \<and>
   (hash_int x basis = hash_int x basis') = (basis = basis') \<and>
   (hash_words_inline (us @ x # vs) basis = hash_words_inline (us @ y # vs) basis) = (x = y)"
proof -
  have "foldl hash_add a vs = foldl hash_add b vs \<longleftrightarrow> a = b" for a b
    by (induction vs arbitrary: a b) (auto simp: hash_add_eq)
  then show ?thesis
    by (simp add: hash_int_def hash_2words_def hash_words_inline_def hash_finish_eq hash_add_eq hash_add_data_eq)
qed

text \<open>The constants of \<open>hash_boolean\<close> are not the hashes of 1 and 2 that its comment names.\<close>

lemma hash_boolean_constants: "hash_boolean True 0 \<noteq> hash_int 1 0" "hash_boolean False 0 \<noteq> hash_int 2 0"
  by code_simp+

end
