(* ===== verification/Id_Pool.thy ===== *)
theory Id_Pool
  imports Hmap_Table Hash State_Machine
begin

text \<open>
  The pool of 32-bit identifiers of lib/id-pool.c on the hash table of \<open>Hmap\<close>, and the pool of
  recirculation identifiers that ofproto/ofproto-dpif-rid.c makes of it (its mutex makes each call
  one step). An \<open>id_node\<close> and the hash table node in it have the same address; the addresses that
  xmalloc returns are arguments. \<open>None\<close> is a failed assertion or a loop without end of the hash
  table.
\<close>

section \<open>Model\<close>

record id_pool =
  ip_map :: hmap
  ip_id :: "addr \<Rightarrow> u32"
  ip_base :: u32
  ip_n_ids :: u32
  ip_next_free_id :: u32

definition id_hash :: "u32 \<Rightarrow> u64" where
  "id_hash idn = ucast (hash_int idn 0)"

text \<open>\<open>id_pool_create\<close> and \<open>id_pool_init\<close>, in memory \<open>mem\<close>.\<close>

definition id_pool_init :: "id_pool \<Rightarrow> u32 \<Rightarrow> u32 \<Rightarrow> id_pool" where
  "id_pool_init mem base n_ids =
     mem\<lparr>ip_base := base, ip_n_ids := n_ids, ip_next_free_id := base, ip_map := hmap_init (ip_map mem)\<rparr>"

definition id_pool_find :: "id_pool \<Rightarrow> u32 \<Rightarrow> addr option" where
  "id_pool_find pool idn = hmap_find (ip_map pool) (id_hash idn) (\<lambda>x. ip_id pool x = idn)"

definition id_pool_add :: "id_pool \<Rightarrow> u32 \<Rightarrow> addr \<Rightarrow> id_pool option" where
  "id_pool_add pool idn new =
     map_option (\<lambda>m. pool\<lparr>ip_id := (ip_id pool)(new := idn), ip_map := m\<rparr>) (hmap_insert (ip_map pool) new (id_hash idn))"

lemma u32_Suc: "a < (b :: u32) \<Longrightarrow> unat (a + 1) = unat a + 1"
  using unsigned_less [where ?'a = nat, of b] by (simp add: word_less_nat_alt unat_word_ariths)

text \<open>The loop of \<open>id_pool_alloc_id\<close>: the first identifier from \<open>idn\<close> on that is free, if any.\<close>

function scan_free :: "id_pool \<Rightarrow> u32 \<Rightarrow> u32 option option" where
  "scan_free pool idn =
     (if idn < ip_base pool + ip_n_ids pool then
        case id_pool_find pool idn of
          None \<Rightarrow> None
        | Some x \<Rightarrow> if x = 0 then Some (Some idn) else scan_free pool (idn + 1)
      else Some None)"
  by pat_completeness auto
termination
proof (relation "measure (\<lambda>(pool, idn). unat (ip_base pool + ip_n_ids pool) - unat idn)", goal_cases)
  case (2 pool idn x)
  then show ?case by (simp add: u32_Suc word_less_nat_alt)
qed simp

declare scan_free.simps [simp del]

text \<open>Taking an identifier that was found free.\<close>

definition take_id :: "id_pool \<Rightarrow> u32 \<Rightarrow> addr \<Rightarrow> (id_pool \<times> u32 option) option" where
  "take_id pool idn new =
     map_option
       (\<lambda>pool. (pool\<lparr>ip_next_free_id := (if idn < ip_base pool + ip_n_ids pool then idn + 1 else ip_base pool)\<rparr>, Some idn))
       (id_pool_add pool idn new)"

definition id_pool_alloc_id :: "id_pool \<Rightarrow> addr \<Rightarrow> (id_pool \<times> u32 option) option" where
  "id_pool_alloc_id pool new =
     (if ip_n_ids pool = 0 then Some (pool, None)
      else
        case id_pool_find pool (ip_next_free_id pool) of
          None \<Rightarrow> None
        | Some x \<Rightarrow>
            if x = 0 then take_id pool (ip_next_free_id pool) new
            else
              (case scan_free pool (ip_base pool) of
                 None \<Rightarrow> None
               | Some None \<Rightarrow> Some (pool, None)
               | Some (Some idn) \<Rightarrow> take_id pool idn new))"

definition id_pool_free_id :: "id_pool \<Rightarrow> u32 \<Rightarrow> id_pool option" where
  "id_pool_free_id pool idn =
     (if idn > ip_base pool \<and> idn \<le> ip_base pool + ip_n_ids pool then
        case id_pool_find pool idn of
          None \<Rightarrow> None
        | Some x \<Rightarrow> if x \<noteq> 0 then map_option (\<lambda>m. pool\<lparr>ip_map := m\<rparr>) (hmap_remove (ip_map pool) x) else Some pool
      else Some pool)"

text \<open>The loop of \<open>id_pool_uninit\<close>, HMAP_FOR_EACH_SAFE with the removal of every node.\<close>

partial_function (option) uninit_from :: "hmap \<Rightarrow> addr \<Rightarrow> hmap option" where
  "uninit_from m x =
     (if x = 0 then Some m
      else let next = hmap_next m x in Option.bind (hmap_remove m x) (\<lambda>m. uninit_from m next))"

definition id_pool_uninit :: "id_pool \<Rightarrow> id_pool option" where
  "id_pool_uninit pool = map_option (\<lambda>m. pool\<lparr>ip_map := m\<rparr>) (uninit_from (ip_map pool) (hmap_first (ip_map pool)))"

definition recirc_id_pool_create :: "id_pool \<Rightarrow> id_pool" where
  "recirc_id_pool_create mem = id_pool_init mem 300 1024"

definition recirc_id_alloc :: "id_pool \<Rightarrow> addr \<Rightarrow> (id_pool \<times> u32) option" where
  "recirc_id_alloc pool new =
     map_option (\<lambda>(pool, ret). (pool, case ret of None \<Rightarrow> 0 | Some idn \<Rightarrow> idn)) (id_pool_alloc_id pool new)"

definition recirc_id_free :: "id_pool \<Rightarrow> u32 \<Rightarrow> id_pool option" where
  "recirc_id_free pool idn = id_pool_free_id pool idn"

section \<open>Operations on the set of identifiers in use\<close>

text \<open>\<open>X\<close> are the nodes in the table; their identifiers are those in use.\<close>

definition pool_inv :: "id_pool \<Rightarrow> addr set \<Rightarrow> bool" where
  "pool_inv pool X \<longleftrightarrow> hmap_table.keyed (ip_map pool) id_hash (ip_id pool) X \<and> inj_on (ip_id pool) X \<and> finite X \<and>
     unat (ip_base pool) + unat (ip_n_ids pool) < 2 ^ 32 \<and> ip_base pool \<le> ip_next_free_id pool \<and>
     ip_next_free_id pool \<le> ip_base pool + ip_n_ids pool \<and>
     ip_id pool ` X \<subseteq> {ip_base pool..ip_base pool + ip_n_ids pool}"

abbreviation in_use :: "id_pool \<Rightarrow> addr set \<Rightarrow> u32 set" where
  "in_use pool X \<equiv> ip_id pool ` X"

lemma u32_plus: "unat a + unat b < 2 ^ 32 \<Longrightarrow> unat (a + b :: u32) = unat a + unat b"
  by (simp add: unat_word_ariths)

lemma pool_find:
  assumes "pool_inv pool X"
  shows "\<exists>x. id_pool_find pool idn = Some x \<and> (if x = 0 then idn \<notin> in_use pool X else x \<in> X \<and> ip_id pool x = idn)"
  using hmap_table.keyed_find [of "ip_map pool" id_hash "ip_id pool" X idn] assms
  by (simp add: pool_inv_def id_pool_find_def)

lemma pool_card:
  assumes "pool_inv pool X"
  shows "card X \<le> 2 ^ 32"
proof -
  have "card X = card (in_use pool X)" using assms by (simp add: pool_inv_def card_image)
  also have "\<dots> \<le> card (UNIV :: u32 set)" by (rule card_mono) auto
  finally show ?thesis by (simp add: card_word)
qed

lemma pool_add:
  assumes inv: "pool_inv pool X" and new: "new \<notin> X" "new \<noteq> 0" and idn: "idn \<notin> in_use pool X"
    "ip_base pool \<le> idn" "idn \<le> ip_base pool + ip_n_ids pool"
  shows "\<exists>pool'. id_pool_add pool idn new = Some pool' \<and> pool_inv pool' (insert new X) \<and>
    in_use pool' (insert new X) = insert idn (in_use pool X) \<and> ip_base pool' = ip_base pool \<and>
    ip_n_ids pool' = ip_n_ids pool \<and> ip_next_free_id pool' = ip_next_free_id pool"
proof -
  have k: "hmap_table.keyed (ip_map pool) id_hash (ip_id pool) X" "finite X" "card X + 1 < 2 ^ 64"
    using inv pool_card [OF inv] by (auto simp: pool_inv_def)
  obtain m where m: "hmap_insert (ip_map pool) new (id_hash idn) = Some m"
    "hmap_table.keyed m id_hash ((ip_id pool)(new := idn)) (insert new X)"
    using hmap_table.keyed_insert [OF k(1) new k(2,3), of idn] by blast
  have "((ip_id pool)(new := idn)) ` X = in_use pool X" using new(1) by (auto intro!: image_cong)
  then show ?thesis using m inv idn new(1) by (auto simp: id_pool_add_def pool_inv_def inj_on_fun_updI)
qed

lemma take_id_spec:
  assumes "pool_inv pool X" "new \<notin> X" "new \<noteq> 0" "idn \<notin> in_use pool X" "ip_base pool \<le> idn" "idn \<le> ip_base pool + ip_n_ids pool"
  shows "\<exists>pool'. take_id pool idn new = Some (pool', Some idn) \<and> pool_inv pool' (insert new X) \<and>
    in_use pool' (insert new X) = insert idn (in_use pool X) \<and> ip_base pool' = ip_base pool \<and> ip_n_ids pool' = ip_n_ids pool \<and>
    ip_next_free_id pool' = (if idn < ip_base pool + ip_n_ids pool then idn + 1 else ip_base pool)"
proof -
  obtain p where p: "id_pool_add pool idn new = Some p" "pool_inv p (insert new X)"
    "in_use p (insert new X) = insert idn (in_use pool X)" "ip_base p = ip_base pool" "ip_n_ids p = ip_n_ids pool"
    using pool_add [OF assms] by blast
  let ?n = "if idn < ip_base pool + ip_n_ids pool then idn + 1 else ip_base pool"
  have sum: "unat (ip_base pool + ip_n_ids pool) = unat (ip_base pool) + unat (ip_n_ids pool)"
    using assms(1) by (intro u32_plus) (simp add: pool_inv_def)
  have "ip_base pool \<le> ?n" "?n \<le> ip_base pool + ip_n_ids pool"
    using assms(5) sum u32_Suc [of idn "ip_base pool + ip_n_ids pool"] by (auto simp: word_le_nat_alt word_less_nat_alt)
  then have "pool_inv (p\<lparr>ip_next_free_id := ?n\<rparr>) (insert new X)" using p(2,4,5) by (simp add: pool_inv_def)
  then show ?thesis using p by (intro exI [of _ "p\<lparr>ip_next_free_id := ?n\<rparr>"] conjI) (simp_all add: take_id_def)
qed

lemma scan_free_spec:
  assumes "pool_inv pool X"
  shows "\<exists>r. scan_free pool idn = Some r \<and>
    (case r of None \<Rightarrow> \<forall>i. idn \<le> i \<and> i < ip_base pool + ip_n_ids pool \<longrightarrow> i \<in> in_use pool X
     | Some i \<Rightarrow> idn \<le> i \<and> i < ip_base pool + ip_n_ids pool \<and> i \<notin> in_use pool X)"
  using assms
proof (induction pool idn rule: scan_free.induct)
  case (1 pool idn)
  show ?case
  proof (cases "idn < ip_base pool + ip_n_ids pool")
    case False
    then have "scan_free pool idn = Some None" by (simp add: scan_free.simps [of pool idn])
    then show ?thesis using False by auto
  next
    case True
    obtain x where x: "id_pool_find pool idn = Some x" "if x = 0 then idn \<notin> in_use pool X else x \<in> X \<and> ip_id pool x = idn"
      using pool_find [OF 1(2)] by blast
    show ?thesis
    proof (cases "x = 0")
      case True
      then show ?thesis using x \<open>idn < _\<close> by (simp add: scan_free.simps [of pool idn])
    next
      case False
      then have s: "scan_free pool idn = scan_free pool (idn + 1)" using x True by (simp add: scan_free.simps [of pool idn])
      have used: "idn \<in> in_use pool X" using x(2) False by auto
      have le: "idn + 1 \<le> i \<longleftrightarrow> idn \<le> i \<and> idn \<noteq> i" for i
        using u32_Suc [OF True] by (auto simp: word_le_nat_alt word_unat_eq_iff)
      obtain r where r: "scan_free pool (idn + 1) = Some r"
        "case r of None \<Rightarrow> \<forall>i. idn + 1 \<le> i \<and> i < ip_base pool + ip_n_ids pool \<longrightarrow> i \<in> in_use pool X
         | Some i \<Rightarrow> idn + 1 \<le> i \<and> i < ip_base pool + ip_n_ids pool \<and> i \<notin> in_use pool X"
        using 1(1) [OF True x(1) False 1(2)] by blast
      show ?thesis
      proof (cases r)
        case None
        then have "i \<in> in_use pool X" if "idn \<le> i" "i < ip_base pool + ip_n_ids pool" for i
          using r(2) le that used by (cases "i = idn") auto
        then show ?thesis using s r(1) None by simp
      qed (use s r le in auto)
    qed
  qed
qed

lemma alloc_next:
  assumes "pool_inv pool X" "new \<notin> X" "new \<noteq> 0" "ip_n_ids pool \<noteq> 0" "ip_next_free_id pool \<notin> in_use pool X"
  shows "\<exists>pool'. id_pool_alloc_id pool new = Some (pool', Some (ip_next_free_id pool)) \<and> pool_inv pool' (insert new X) \<and>
    in_use pool' (insert new X) = insert (ip_next_free_id pool) (in_use pool X) \<and> ip_base pool' = ip_base pool \<and>
    ip_n_ids pool' = ip_n_ids pool \<and> ip_next_free_id pool' =
      (if ip_next_free_id pool < ip_base pool + ip_n_ids pool then ip_next_free_id pool + 1 else ip_base pool)"
proof -
  have "id_pool_find pool (ip_next_free_id pool) = Some 0"
    using pool_find [OF assms(1), of "ip_next_free_id pool"] assms(5) by (metis image_eqI)
  then have "id_pool_alloc_id pool new = take_id pool (ip_next_free_id pool) new" using assms(4) by (simp add: id_pool_alloc_id_def)
  then show ?thesis using take_id_spec [OF assms(1,2,3,5)] assms(1) by (simp add: pool_inv_def)
qed

lemma alloc_spec:
  assumes inv: "pool_inv pool X" and new: "new \<notin> X" "new \<noteq> 0"
  shows "\<exists>pool' r. id_pool_alloc_id pool new = Some (pool', r) \<and>
    (case r of None \<Rightarrow> pool' = pool \<and> {ip_base pool..<ip_base pool + ip_n_ids pool} \<subseteq> in_use pool X
     | Some i \<Rightarrow> i \<notin> in_use pool X \<and> pool_inv pool' (insert new X) \<and> in_use pool' (insert new X) = insert i (in_use pool X) \<and>
         ip_base pool' = ip_base pool \<and> ip_n_ids pool' = ip_n_ids pool)"
proof (cases "ip_n_ids pool = 0 \<or> ip_next_free_id pool \<notin> in_use pool X")
  case True
  then show ?thesis using alloc_next [OF inv new] by (cases "ip_n_ids pool = 0") (auto simp: id_pool_alloc_id_def)
next
  case False
  then obtain x where x: "id_pool_find pool (ip_next_free_id pool) = Some x" "x \<noteq> 0"
    using pool_find [OF inv, of "ip_next_free_id pool"] by (auto split: if_splits)
  obtain r where r: "scan_free pool (ip_base pool) = Some r"
    "case r of None \<Rightarrow> \<forall>i. ip_base pool \<le> i \<and> i < ip_base pool + ip_n_ids pool \<longrightarrow> i \<in> in_use pool X
     | Some i \<Rightarrow> ip_base pool \<le> i \<and> i < ip_base pool + ip_n_ids pool \<and> i \<notin> in_use pool X"
    using scan_free_spec [OF inv] by blast
  show ?thesis
  proof (cases r)
    case None
    then show ?thesis using False x r by (auto simp: id_pool_alloc_id_def)
  next
    case (Some i)
    then have i: "i \<notin> in_use pool X" "ip_base pool \<le> i" "i \<le> ip_base pool + ip_n_ids pool" using r(2) by auto
    then show ?thesis using take_id_spec [OF inv new i] False x r(1) Some by (auto simp: id_pool_alloc_id_def)
  qed
qed

lemma free_spec:
  assumes inv: "pool_inv pool X"
  shows "\<exists>pool' X'. id_pool_free_id pool idn = Some pool' \<and> X' \<subseteq> X \<and> pool_inv pool' X' \<and>
    in_use pool' X' = in_use pool X - (if idn = ip_base pool then {} else {idn}) \<and>
    ip_base pool' = ip_base pool \<and> ip_n_ids pool' = ip_n_ids pool"
proof -
  obtain x where x: "id_pool_find pool idn = Some x" "if x = 0 then idn \<notin> in_use pool X else x \<in> X \<and> ip_id pool x = idn"
    using pool_find [OF inv] by blast
  show ?thesis
  proof (cases "idn > ip_base pool \<and> idn \<le> ip_base pool + ip_n_ids pool \<and> x \<noteq> 0")
    case False
    then have "id_pool_free_id pool idn = Some pool" using x(1) by (auto simp: id_pool_free_id_def)
    moreover have "idn = ip_base pool \<or> idn \<notin> in_use pool X"
    proof (rule ccontr)
      assume a: "\<not> (idn = ip_base pool \<or> idn \<notin> in_use pool X)"
      then have "idn \<in> {ip_base pool..ip_base pool + ip_n_ids pool}" using inv unfolding pool_inv_def by blast
      then have "x = 0" using a False by auto
      then show False using a x(2) by simp
    qed
    ultimately show ?thesis using inv by (intro exI [of _ pool] exI [of _ X]) auto
  next
    case True
    then have xX: "x \<in> X" "ip_id pool x = idn" using x(2) by auto
    obtain m where m: "hmap_remove (ip_map pool) x = Some m" "hmap_table.keyed m id_hash (ip_id pool) (X - {x})"
      using hmap_table.keyed_remove [of "ip_map pool" id_hash "ip_id pool" X x] inv xX(1) by (auto simp: pool_inv_def)
    have "in_use pool (X - {x}) = in_use pool X - {idn}"
      using inv xX by (auto simp: pool_inv_def inj_on_def)
    moreover have "pool_inv (pool\<lparr>ip_map := m\<rparr>) (X - {x})" using inv m(2) by (auto simp: pool_inv_def inj_on_diff)
    moreover have "id_pool_free_id pool idn = Some (pool\<lparr>ip_map := m\<rparr>)" using True x(1) m(1) by (simp add: id_pool_free_id_def)
    ultimately show ?thesis using True by (intro exI [of _ "pool\<lparr>ip_map := m\<rparr>"] exI [of _ "X - {x}"]) auto
  qed
qed

section \<open>Destruction\<close>

lemma first_from_head:
  "first_from hm i \<noteq> 0 \<Longrightarrow> \<exists>j \<ge> i. j \<le> unat (hm_mask hm) \<and> hm_buckets hm ! j = first_from hm i \<and>
     (\<forall>k. i \<le> k \<and> k < j \<longrightarrow> hm_buckets hm ! k = 0)"
proof (induction hm i rule: first_from.induct)
  case (1 hm i)
  then have i: "i \<le> unat (hm_mask hm)" by (auto simp: first_from.simps [of hm i] split: if_splits)
  show ?case
  proof (cases "hm_buckets hm ! i = 0")
    case True
    then have "first_from hm i = first_from hm (i + 1)" using i by (simp add: first_from.simps [of hm i])
    then obtain j where "j \<ge> i + 1" "j \<le> unat (hm_mask hm)" "hm_buckets hm ! j = first_from hm i"
      "\<forall>k. i + 1 \<le> k \<and> k < j \<longrightarrow> hm_buckets hm ! k = 0"
      using 1(1) [OF i] 1(2) True by auto
    then show ?thesis using True by (intro exI [of _ j]) (metis Suc_eq_plus1 Suc_leI le_neq_implies_less Suc_leD)
  next
    case False
    then show ?thesis using i by (intro exI [of _ i]) (simp add: first_from.simps [of hm i])
  qed
qed

lemma first_from_cong:
  "hm_mask hm' = hm_mask hm \<Longrightarrow> (\<And>k. i \<le> k \<Longrightarrow> hm_buckets hm' ! k = hm_buckets hm ! k) \<Longrightarrow> first_from hm' i = first_from hm i"
proof (induction hm i rule: first_from.induct)
  case (1 hm i)
  have "first_from hm' (i + 1) = first_from hm (i + 1)" if "i \<le> unat (hm_mask hm)" "\<not> hm_buckets hm ! i \<noteq> 0"
    using 1(1) [OF that] 1(2,3) by simp
  then show ?case using 1(2) 1(3) [of i] by (simp add: first_from.simps [of hm i] first_from.simps [of hm' i])
qed

lemma first_from_skip:
  "(\<And>k. i \<le> k \<Longrightarrow> k < i + d \<Longrightarrow> hm_buckets hm ! k = 0) \<Longrightarrow> i + d \<le> unat (hm_mask hm) + 1 \<Longrightarrow>
   first_from hm i = first_from hm (i + d)"
proof (induction d)
  case (Suc d)
  then have "first_from hm i = first_from hm (i + d)" by simp
  also have "\<dots> = first_from hm (i + Suc d)"
    using Suc.prems by (simp add: first_from.simps [of hm "i + d"])
  finally show ?case .
qed simp

text \<open>Removing the first node leaves a table whose first node is the one that followed it.\<close>

lemma hmap_remove_first:
  assumes ok: "hmap_ok m M" and x: "hmap_first m \<noteq> 0"
  shows "M (hmap_first m) \<noteq> None \<and> (\<exists>m'. hmap_remove m (hmap_first m) = Some m' \<and>
    hmap_ok m' (M(hmap_first m := None)) \<and> hmap_first m' = hmap_next m (hmap_first m))"
proof -
  let ?x = "hmap_first m"
  obtain i where i: "i \<le> unat (hm_mask m)" "hm_buckets m ! i = ?x" "\<forall>k < i. hm_buckets m ! k = 0"
    using first_from_head [of m 0] x unfolding hmap_first_def by auto
  obtain xs where xs: "chain (hm_node m) ?x xs" "set xs = {y. \<exists>h. M y = Some h \<and> bucket_of m h = i}"
    using hmap_rep_bucket [OF hmap_okD(1) [OF ok] i(1)] i(2) by auto
  then have "?x \<in> set xs" using x by (cases xs) auto
  then obtain h where h: "M ?x = Some h" "bucket_of m h = i" using xs(2) by auto
  have nh: "node_hash m ?x = h" using hmap_repD(4) [OF hmap_okD(1) [OF ok] h(1)] .
  have "find_link m ?x (Bucket i) = Some (Bucket i)" using i(2) by (simp add: find_link.simps)
  then have r: "hmap_remove m ?x = Some (m\<lparr>hm_buckets := (hm_buckets m)[i := node_next m ?x], hm_n := hm_n m - 1\<rparr>)"
    (is "_ = Some ?m") by (simp add: hmap_remove_def nh h(2))
  have len: "i < length (hm_buckets m)" using i(1) hmap_repD(2) [OF hmap_okD(1) [OF ok]] by simp
  have "hmap_first ?m = first_from ?m i"
    using first_from_skip [of 0 i ?m] i(1,3) by (simp add: hmap_first_def [of ?m])
  also have "\<dots> = (if node_next m ?x \<noteq> 0 then node_next m ?x else first_from ?m (i + 1))"
    using i(1) len by (simp add: first_from.simps [of ?m i])
  also have "first_from ?m (i + 1) = first_from m (i + 1)" by (intro first_from_cong) auto
  finally have "hmap_first ?m = hmap_next m ?x" by (simp add: hmap_next_def nh h(2))
  then show ?thesis using hmap_remove_ok [OF ok, of ?x] h(1) r by auto
qed

lemma uninit_empties: "hmap_ok m M \<Longrightarrow> \<exists>m'. uninit_from m (hmap_first m) = Some m' \<and> hmap_ok m' Map.empty"
proof (induction "card (dom M)" arbitrary: m M rule: less_induct)
  case less
  show ?case
  proof (cases "hmap_first m = 0")
    case True
    obtain xs where "for_each m (hmap_first m) = Some xs" "set xs = dom M" using for_each_rep [OF hmap_okD(1) [OF less.prems]] by blast
    then have "dom M = {}" using True by (simp add: for_each.simps [of m 0])
    then show ?thesis using True less.prems by (simp add: uninit_from.simps [of m 0])
  next
    case False
    let ?x = "hmap_first m"
    obtain m' where m': "M ?x \<noteq> None" "hmap_remove m ?x = Some m'" "hmap_ok m' (M(?x := None))" "hmap_first m' = hmap_next m ?x"
      using hmap_remove_first [OF less.prems False] by blast
    have "card (dom M - {?x}) < card (dom M)"
      using m'(1) hmap_repD(1) [OF hmap_okD(1) [OF less.prems]] by (intro card_Diff1_less) auto
    then obtain m'' where "uninit_from m' (hmap_first m') = Some m''" "hmap_ok m'' Map.empty"
      using less.hyps [OF _ m'(3)] by auto
    then show ?thesis using m'(2,4) False by (simp add: uninit_from.simps [of m ?x])
  qed
qed

lemma id_pool_uninit_empties:
  assumes "pool_inv pool X"
  shows "\<exists>pool'. id_pool_uninit pool = Some pool' \<and> hmap_is_empty (ip_map pool')"
proof -
  obtain m where m: "uninit_from (ip_map pool) (hmap_first (ip_map pool)) = Some m" "hmap_ok m Map.empty"
    using uninit_empties [of "ip_map pool"] assms unfolding pool_inv_def hmap_table.keyed_def by blast
  then have "hm_n m = 0" using hmap_repD(3) [OF hmap_okD(1) [OF m(2)]] by (simp add: unat_eq_zero)
  then show ?thesis using m(1) by (simp add: id_pool_uninit_def hmap_is_empty_def)
qed

section \<open>Reachable pools\<close>

datatype id_op = Id_Alloc addr | Id_Free u32

fun id_exec :: "id_pool \<Rightarrow> id_op \<Rightarrow> id_pool option" where
  "id_exec pool (Id_Alloc new) = map_option fst (id_pool_alloc_id pool new)"
| "id_exec pool (Id_Free i) = id_pool_free_id pool i"

text \<open>xmalloc returns an address that is not in use.\<close>

fun id_allowed :: "id_pool \<Rightarrow> id_op \<Rightarrow> bool" where
  "id_allowed pool (Id_Alloc new) \<longleftrightarrow> new \<noteq> 0 \<and> hmap_contains (ip_map pool) new = Some False"
| "id_allowed pool (Id_Free i) \<longleftrightarrow> True"

definition id_start :: "id_pool \<Rightarrow> bool" where
  "id_start pool \<longleftrightarrow> (\<exists>mem base n_ids. unat base + unat n_ids < 2 ^ 32 \<and> pool = id_pool_init mem base n_ids)"

definition id_reachable :: "id_pool \<Rightarrow> bool" where
  "id_reachable = reachable_by id_start id_allowed id_exec"

definition id_used :: "id_pool \<Rightarrow> u32 \<Rightarrow> bool" where
  "id_used pool i \<longleftrightarrow> id_pool_find pool i \<noteq> Some 0"

lemma id_used_iff: "pool_inv pool X \<Longrightarrow> id_used pool i \<longleftrightarrow> i \<in> in_use pool X"
  using pool_find [of pool X i] hmap_table.keyed_nonzero [of "ip_map pool" id_hash "ip_id pool" X]
  by (auto simp: id_used_def pool_inv_def split: if_splits)

lemma contains_node: "pool_inv pool X \<Longrightarrow> hmap_contains (ip_map pool) x = Some (x \<in> X)"
  using hmap_contains_rep [OF hmap_okD(1)] by (fastforce simp: pool_inv_def hmap_table.keyed_def)

lemma id_init_inv: "unat base + unat n_ids < 2 ^ 32 \<Longrightarrow> pool_inv (id_pool_init mem base n_ids) {}"
  using hmap_init_ok u32_plus [of base n_ids]
  by (simp add: pool_inv_def id_pool_init_def hmap_table.keyed_def word_le_nat_alt)

lemma id_exec_inv:
  assumes "pool_inv pool X" "id_allowed pool op"
  shows "\<exists>pool' X'. id_exec pool op = Some pool' \<and> pool_inv pool' X'"
proof (cases op)
  case (Id_Alloc new)
  then have "new \<notin> X" "new \<noteq> 0" using assms contains_node [OF assms(1)] by auto
  from alloc_spec [OF assms(1) this] show ?thesis using Id_Alloc assms(1) by (auto split: option.splits)
next
  case (Id_Free i)
  then show ?thesis using free_spec [OF assms(1), of i] by auto
qed

interpretation id_machine: call_machine id_start id_allowed id_exec "\<lambda>pool. \<exists>X. pool_inv pool X"
proof
  show "\<exists>X. pool_inv s X" if "id_start s" for s using that id_init_inv by (auto simp: id_start_def)
  show "\<exists>X. pool_inv s' X" if "\<exists>X. pool_inv s X" "id_allowed s op" "id_exec s op = Some s'" for s op s'
    using that id_exec_inv by fastforce
qed

text \<open>Allocations in a row.\<close>

fun id_allocs :: "id_pool \<Rightarrow> addr list \<Rightarrow> (id_pool \<times> u32 option list) option" where
  "id_allocs pool [] = Some (pool, [])"
| "id_allocs pool (new # news) =
     (case id_pool_alloc_id pool new of
        None \<Rightarrow> None
      | Some (pool, r) \<Rightarrow> map_option (\<lambda>(pool, rs). (pool, r # rs)) (id_allocs pool news))"

lemma id_allocs_snoc:
  "id_allocs pool (news @ [new]) =
     (case id_allocs pool news of
        None \<Rightarrow> None
      | Some (pool', rs) \<Rightarrow> map_option (\<lambda>(p, r). (p, rs @ [r])) (id_pool_alloc_id pool' new))"
  by (induction news arbitrary: pool) (auto split: option.splits simp: option.map_comp comp_def split_def)

lemma u32_of_nat: "unat base + k < 2 ^ 32 \<Longrightarrow> unat (base + of_nat k :: u32) = unat base + k"
  by (simp add: unat_word_ariths unat_of_nat)

text \<open>The first \<open>k\<close> allocations of a new pool give \<open>k\<close> consecutive identifiers.\<close>

lemma id_allocs_fresh:
  assumes n: "n_ids \<noteq> 0" "unat base + unat n_ids < 2 ^ 32"
  shows "distinct news \<Longrightarrow> 0 \<notin> set news \<Longrightarrow> length news \<le> unat n_ids + 1 \<Longrightarrow>
    \<exists>pool. id_allocs (id_pool_init mem base n_ids) news = Some (pool, map (\<lambda>k. Some (base + of_nat k)) [0..<length news]) \<and>
      pool_inv pool (set news) \<and> in_use pool (set news) = (\<lambda>k. base + of_nat k) ` {..<length news} \<and>
      ip_base pool = base \<and> ip_n_ids pool = n_ids \<and>
      ip_next_free_id pool = (if length news \<le> unat n_ids then base + of_nat (length news) else base)"
proof (induction news rule: rev_induct)
  case Nil
  then show ?case using id_init_inv [OF n(2)] by (simp add: id_pool_init_def)
next
  case (snoc new news)
  let ?k = "length news"
  from snoc obtain p where p: "id_allocs (id_pool_init mem base n_ids) news = Some (p, map (\<lambda>k. Some (base + of_nat k)) [0..<?k])"
    "pool_inv p (set news)" "in_use p (set news) = (\<lambda>k. base + of_nat k) ` {..<?k}"
    "ip_base p = base" "ip_n_ids p = n_ids" "ip_next_free_id p = base + of_nat ?k"
    by auto
  have k: "unat (base + of_nat j) = unat base + j" if "j \<le> ?k" for j using that snoc.prems(3) n(2) by (intro u32_of_nat) simp
  then have "base + of_nat ?k \<noteq> base + of_nat j" if "j < ?k" for j using that by (metis add_left_cancel le_refl less_imp_le_nat less_irrefl)
  then have f: "ip_next_free_id p \<notin> in_use p (set news)" unfolding p(3,6) by blast
  obtain p' where p': "id_pool_alloc_id p new = Some (p', Some (base + of_nat ?k))" "pool_inv p' (insert new (set news))"
    "in_use p' (insert new (set news)) = insert (base + of_nat ?k) (in_use p (set news))" "ip_base p' = base" "ip_n_ids p' = n_ids"
    "ip_next_free_id p' = (if base + of_nat ?k < base + n_ids then base + of_nat ?k + 1 else base)"
    using alloc_next [OF p(2) _ _ _ f, of new] snoc.prems(1,2) n(1) p(4-6) by auto
  have "base + of_nat ?k < base + n_ids \<longleftrightarrow> ?k < unat n_ids"
    using k [of ?k] u32_plus [OF n(2)] by (simp add: word_less_nat_alt)
  then have "ip_next_free_id p' = (if length (news @ [new]) \<le> unat n_ids then base + of_nat (length (news @ [new])) else base)"
    using p'(6) by (simp add: Suc_le_eq add.assoc add.commute [of 1])
  then show ?case using p(1) p'(1-5) by (simp add: id_allocs_snoc p(3) lessThan_Suc)
qed

section \<open>Properties\<close>

text \<open>
  C11: In every pool that calls can reach, allocation returns. It gives an identifier that was not in
  use, at least base and at most base + n_ids, marks it and no other as used - or it fails, and
  then every identifier from base up to base + n_ids - 1 is in use.
\<close>

theorem id_pool_alloc_unique:
  assumes "id_reachable pool" "id_allowed pool (Id_Alloc new)"
  shows "\<exists>pool' r. id_pool_alloc_id pool new = Some (pool', r) \<and>
    (case r of
       None \<Rightarrow> pool' = pool \<and> (\<forall>i. ip_base pool \<le> i \<and> i < ip_base pool + ip_n_ids pool \<longrightarrow> id_used pool i)
     | Some i \<Rightarrow> \<not> id_used pool i \<and> ip_base pool \<le> i \<and> i \<le> ip_base pool + ip_n_ids pool \<and>
         (\<forall>j. id_used pool' j \<longleftrightarrow> id_used pool j \<or> j = i))"
proof -
  obtain X where X: "pool_inv pool X" using id_machine.reachable_inv assms(1) by (auto simp: id_reachable_def)
  have new: "new \<notin> X" "new \<noteq> 0" using assms(2) contains_node [OF X] by auto
  obtain pool' r where r: "id_pool_alloc_id pool new = Some (pool', r)"
    "case r of None \<Rightarrow> pool' = pool \<and> {ip_base pool..<ip_base pool + ip_n_ids pool} \<subseteq> in_use pool X
     | Some i \<Rightarrow> i \<notin> in_use pool X \<and> pool_inv pool' (insert new X) \<and> in_use pool' (insert new X) = insert i (in_use pool X) \<and>
         ip_base pool' = ip_base pool \<and> ip_n_ids pool' = ip_n_ids pool"
    using alloc_spec [OF X new] by blast
  show ?thesis
  proof (cases r)
    case None
    then show ?thesis using r id_used_iff [OF X] by auto
  next
    case (Some i)
    then have i: "pool_inv pool' (insert new X)" "in_use pool' (insert new X) = insert i (in_use pool X)" "i \<notin> in_use pool X"
      "ip_base pool' = ip_base pool" "ip_n_ids pool' = ip_n_ids pool" using r(2) by auto
    moreover have "in_use pool' (insert new X) \<subseteq> {ip_base pool'..ip_base pool' + ip_n_ids pool'}"
      using i(1) unfolding pool_inv_def by blast
    ultimately show ?thesis
      using r(1) Some id_used_iff [OF X] id_used_iff [OF i(1)] unfolding i(2,4,5) by auto
  qed
qed

theorem id_pool_alloc_unique_witness:
  "\<exists>pool pool' i. id_reachable pool \<and> id_pool_alloc_id pool 7 = Some (pool', Some i) \<and> \<not> id_used pool i \<and> id_used pool' i"
proof -
  define pool where "pool = id_pool_init undefined 300 1024"
  have r: "id_reachable pool"
    unfolding id_reachable_def pool_def by (intro reachable_start) (auto simp: id_start_def intro!: exI)
  have inv: "pool_inv pool {}" unfolding pool_def by (rule id_init_inv) simp
  have "id_allowed pool (Id_Alloc 7)" using contains_node [OF inv] by simp
  from id_pool_alloc_unique [OF r this] obtain pool' r' where
    p: "id_pool_alloc_id pool 7 = Some (pool', r')"
    "case r' of None \<Rightarrow> pool' = pool \<and> (\<forall>i. ip_base pool \<le> i \<and> i < ip_base pool + ip_n_ids pool \<longrightarrow> id_used pool i)
     | Some i \<Rightarrow> \<not> id_used pool i \<and> ip_base pool \<le> i \<and> i \<le> ip_base pool + ip_n_ids pool \<and>
         (\<forall>j. id_used pool' j \<longleftrightarrow> id_used pool j \<or> j = i)" by blast
  have "\<not> id_used pool 300" using id_used_iff [OF inv] by simp
  moreover have "ip_base pool = 300" "ip_n_ids pool = 1024" by (simp_all add: pool_def id_pool_init_def)
  ultimately have "r' \<noteq> None" using p(2) by (cases r') auto
  then show ?thesis using r p by auto
qed

text \<open>
  C40: A pool created for n_ids identifiers from base on gives out n_ids + 1 of them: base, base + 1
  and so on up to base + n_ids, which is outside its range, before it fails. And freeing the first
  of them has no effect, so that the pool fails again although base is free.
\<close>

theorem id_pool_exceeds_range:
  assumes "n_ids \<noteq> 0" "unat base + unat n_ids < 2 ^ 32"
    and "distinct (news @ [new])" "0 \<notin> set (news @ [new])" "length news = unat n_ids + 1"
  shows "\<exists>pool. id_allocs (id_pool_init mem base n_ids) (news @ [new]) =
      Some (pool, map (\<lambda>k. Some (base + of_nat k)) [0..<unat n_ids + 1] @ [None]) \<and>
    id_used pool (base + n_ids) \<and> id_pool_free_id pool base = Some pool"
proof -
  obtain p where p: "id_allocs (id_pool_init mem base n_ids) news = Some (p, map (\<lambda>k. Some (base + of_nat k)) [0..<unat n_ids + 1])"
    "pool_inv p (set news)" "in_use p (set news) = (\<lambda>k. base + of_nat k) ` {..<unat n_ids + 1}" "ip_base p = base" "ip_n_ids p = n_ids"
    using id_allocs_fresh [OF assms(1,2), of news mem] assms(3-5) by auto
  obtain q r where q: "id_pool_alloc_id p new = Some (q, r)"
    "case r of None \<Rightarrow> q = p | Some i \<Rightarrow> i \<notin> in_use p (set news) \<and> pool_inv q (insert new (set news)) \<and>
       in_use q (insert new (set news)) = insert i (in_use p (set news)) \<and> ip_base q = base \<and> ip_n_ids q = n_ids"
    using alloc_spec [OF p(2), of new] assms(3,4) p(4,5) by (auto split: option.splits)
  have all: "i \<in> in_use p (set news)" if "base \<le> i" "i \<le> base + n_ids" for i
  proof -
    have "i = base + of_nat (unat (i - base))" by simp
    moreover have "unat (i - base) < unat n_ids + 1"
      using that u32_plus [OF assms(2)] by (simp add: word_le_nat_alt unat_sub)
    ultimately show ?thesis unfolding p(3) by blast
  qed
  have "r = None"
  proof (cases r)
    case (Some i)
    then have "pool_inv q (insert new (set news))" "i \<in> in_use q (insert new (set news))" "i \<notin> in_use p (set news)" using q(2) by auto
    moreover have c: "ip_base q = base" "ip_n_ids q = n_ids" using q(2) Some by auto
    ultimately have "i \<in> {base..base + n_ids}" unfolding pool_inv_def c by blast
    then show ?thesis using all \<open>i \<notin> in_use p (set news)\<close> by simp
  qed
  then have "id_allocs (id_pool_init mem base n_ids) (news @ [new]) =
      Some (p, map (\<lambda>k. Some (base + of_nat k)) [0..<unat n_ids + 1] @ [None])"
    using p(1) q by (simp add: id_allocs_snoc)
  moreover have "id_used p (base + n_ids)"
    unfolding id_used_iff [OF p(2)] using u32_plus [OF assms(2)] by (intro all) (auto simp: word_le_nat_alt)
  moreover have "id_pool_free_id p base = Some p" using p(4) by (simp add: id_pool_free_id_def)
  ultimately show ?thesis by blast
qed

theorem id_pool_exceeds_range_witness:
  "\<exists>pool. id_allocs (id_pool_init \<lparr>ip_map = \<lparr>hm_node = (\<lambda>_. \<lparr>hn_hash = 0, hn_next = 0\<rparr>), hm_buckets = [], hm_mask = 0, hm_n = 0\<rparr>,
       ip_id = (\<lambda>_. 0), ip_base = 0, ip_n_ids = 0, ip_next_free_id = 0\<rparr> 300 2) [10, 20, 30, 40] =
      Some (pool, [Some 300, Some 301, Some 302, None]) \<and> id_used pool 302 \<and> id_pool_free_id pool 300 = Some pool"
  using id_pool_exceeds_range [of 2 300 "[10, 20, 30]" 40 "\<lparr>ip_map = \<lparr>hm_node = (\<lambda>_. \<lparr>hn_hash = 0, hn_next = 0\<rparr>),
      hm_buckets = [], hm_mask = 0, hm_n = 0\<rparr>, ip_id = (\<lambda>_. 0), ip_base = 0, ip_n_ids = 0, ip_next_free_id = 0\<rparr>"]
  by (simp add: upt_rec)

end
