(* ===== verification/Pktbuf.thy ===== *)
theory Pktbuf
  imports OVS_Prelude
begin

text \<open>
  The buffers for packets sent to a controller, ofproto/pktbuf.c. A buffered packet is its bytes,
  or \<open>None\<close> for a null pointer; the two calls of \<open>time_msec\<close> in \<open>pktbuf_save\<close> are arguments. Freeing
  buffers, counters and log messages are not kept.
\<close>

section \<open>Model\<close>

abbreviation PKTBUF_BITS :: nat where "PKTBUF_BITS \<equiv> 8"
abbreviation PKTBUF_CNT :: u32 where "PKTBUF_CNT \<equiv> 256"
abbreviation PKTBUF_MASK :: u32 where "PKTBUF_MASK \<equiv> 255"
abbreviation COOKIE_MAX :: u32 where "COOKIE_MAX \<equiv> 16777215"
abbreviation OVERWRITE_MSECS :: int where "OVERWRITE_MSECS \<equiv> 5000"
abbreviation OFPP_NONE :: u16 where "OFPP_NONE \<equiv> 0xffff"

record packet =
  pk_buffer :: "u8 list option"
  pk_cookie :: u32
  pk_timeout :: int
  pk_in_port :: u16

record pktbuf =
  pb_packets :: "packet list"
  pb_buffer_idx :: u32
  pb_null_idx :: u32

datatype ofperr = OFPERR_OK | OFPERR_OFPBRC_BUFFER_UNKNOWN | OFPERR_OFPBRC_BUFFER_EMPTY

definition pktbuf_capacity :: int where
  "pktbuf_capacity = uint PKTBUF_CNT"

definition pktbuf_create :: pktbuf where
  "pktbuf_create =
     \<lparr>pb_packets = replicate 256 \<lparr>pk_buffer = None, pk_cookie = 0, pk_timeout = 0, pk_in_port = 0\<rparr>,
      pb_buffer_idx = 0, pb_null_idx = 0\<rparr>"

definition make_id :: "u32 \<Rightarrow> u32 \<Rightarrow> u32" where
  "make_id buffer_idx cookie = buffer_idx OR push_bit PKTBUF_BITS cookie"

definition pktbuf_save :: "pktbuf \<Rightarrow> u8 list \<Rightarrow> u16 \<Rightarrow> int \<Rightarrow> int \<Rightarrow> u32 \<times> pktbuf" where
  "pktbuf_save pb buffer in_port now now' =
     (let i = unat (pb_buffer_idx pb);
          p = pb_packets pb ! i;
          pb = pb\<lparr>pb_buffer_idx := (pb_buffer_idx pb + 1) AND PKTBUF_MASK\<rparr>
      in if pk_buffer p \<noteq> None \<and> now < pk_timeout p then (UINT_MAX, pb)
         else
           let c = pk_cookie p + 1;
               c = (if c \<ge> COOKIE_MAX then 0 else c);
               p = p\<lparr>pk_cookie := c, pk_buffer := Some buffer, pk_timeout := now' + OVERWRITE_MSECS, pk_in_port := in_port\<rparr>
           in (make_id (of_nat i) c, pb\<lparr>pb_packets := (pb_packets pb)[i := p]\<rparr>))"

definition pktbuf_get_null :: u32 where
  "pktbuf_get_null = make_id 0 COOKIE_MAX"

text \<open>The error code, the buffer and the port; no pool is \<open>None\<close>.\<close>

definition pktbuf_retrieve :: "pktbuf option \<Rightarrow> u32 \<Rightarrow> (ofperr \<times> u8 list option \<times> u16) \<times> pktbuf option" where
  "pktbuf_retrieve pb idn =
     (if idn = UINT_MAX then ((OFPERR_OK, None, OFPP_NONE), pb)
      else
        case pb of
          None \<Rightarrow> ((OFPERR_OFPBRC_BUFFER_UNKNOWN, None, OFPP_NONE), pb)
        | Some b \<Rightarrow>
            let i = unat (idn AND PKTBUF_MASK); p = pb_packets b ! i
            in if pk_cookie p = drop_bit PKTBUF_BITS idn then
                 case pk_buffer p of
                   Some buffer \<Rightarrow>
                     ((OFPERR_OK, Some buffer, pk_in_port p),
                      Some (b\<lparr>pb_packets := (pb_packets b)[i := p\<lparr>pk_buffer := None\<rparr>]\<rparr>))
                 | None \<Rightarrow> ((OFPERR_OFPBRC_BUFFER_EMPTY, None, OFPP_NONE), pb)
               else if drop_bit PKTBUF_BITS idn \<noteq> COOKIE_MAX then ((OFPERR_OFPBRC_BUFFER_UNKNOWN, None, OFPP_NONE), pb)
               else ((OFPERR_OK, None, OFPP_NONE), pb))"

definition pktbuf_discard :: "pktbuf \<Rightarrow> u32 \<Rightarrow> pktbuf" where
  "pktbuf_discard pb idn =
     (let i = unat (idn AND PKTBUF_MASK); p = pb_packets pb ! i
      in if pk_cookie p = drop_bit PKTBUF_BITS idn then pb\<lparr>pb_packets := (pb_packets pb)[i := p\<lparr>pk_buffer := None\<rparr>]\<rparr> else pb)"

definition pktbuf_count_packets :: "pktbuf option \<Rightarrow> u32" where
  "pktbuf_count_packets pb =
     (case pb of None \<Rightarrow> 0 | Some pb \<Rightarrow> of_nat (length (filter (\<lambda>p. pk_buffer p \<noteq> None) (pb_packets pb))))"

section \<open>Identifiers\<close>

lemma take_bit_small: "unat (w :: u32) < 2 ^ n \<Longrightarrow> take_bit n w = w"
  by (simp add: word_unat_eq_iff unsigned_take_bit_eq take_bit_nat_eq_self)

lemma id_index: "idx < PKTBUF_CNT \<Longrightarrow> make_id idx c AND PKTBUF_MASK = idx"
proof -
  assume "idx < PKTBUF_CNT"
  then have i: "take_bit 8 idx = idx" by (intro take_bit_small) (simp add: word_less_nat_alt)
  have "make_id idx c AND PKTBUF_MASK = take_bit 8 (make_id idx c)"
    by (simp add: take_bit_eq_mask mask_eq_exp_minus_1)
  then show ?thesis by (simp add: make_id_def i take_bit_push_bit)
qed

lemma id_cookie:
  assumes "idx < PKTBUF_CNT" "c \<le> COOKIE_MAX"
  shows "drop_bit 8 (make_id idx c) = c"
proof (rule bit_word_eqI)
  have i: "take_bit 8 idx = idx" using assms(1) by (intro take_bit_small) (simp add: word_less_nat_alt)
  have c: "take_bit 24 c = c" using assms(2) by (intro take_bit_small) (simp add: word_le_nat_alt)
  show "bit (drop_bit 8 (make_id idx c)) k \<longleftrightarrow> bit c k" if "k < LENGTH(32)" for k
  proof -
    have "bit c k \<longleftrightarrow> k < 24 \<and> bit c k" by (subst (1 2) c [symmetric]) (simp add: bit_take_bit_iff)
    moreover have "\<not> bit idx (8 + k)" by (subst i [symmetric]) (simp add: bit_take_bit_iff)
    ultimately show ?thesis unfolding make_id_def bit_drop_bit_eq bit_or_iff bit_push_bit_iff comp_def by auto
  qed
qed

section \<open>Invariant\<close>

abbreviation slot :: "pktbuf \<Rightarrow> nat \<Rightarrow> packet" where
  "slot pb i \<equiv> pb_packets pb ! i"

definition pb_inv :: "pktbuf \<Rightarrow> bool" where
  "pb_inv pb \<longleftrightarrow> length (pb_packets pb) = 256 \<and> pb_buffer_idx pb < PKTBUF_CNT \<and> (\<forall>p \<in> set (pb_packets pb). pk_cookie p < COOKIE_MAX)"

datatype pb_op = Pb_Save "u8 list" u16 int int | Pb_Retrieve u32 | Pb_Discard u32

fun pb_exec :: "pktbuf \<Rightarrow> pb_op \<Rightarrow> pktbuf" where
  "pb_exec pb (Pb_Save buffer in_port now now') = snd (pktbuf_save pb buffer in_port now now')"
| "pb_exec pb (Pb_Retrieve idn) = the (snd (pktbuf_retrieve (Some pb) idn))"
| "pb_exec pb (Pb_Discard idn) = pktbuf_discard pb idn"

lemma idx_wrap: "(w + 1) AND PKTBUF_MASK < PKTBUF_CNT"
  using word_and_le1 [of "w + 1" PKTBUF_MASK] by (simp add: word_le_nat_alt word_less_nat_alt)

lemma pb_inv_slot: "pb_inv pb \<Longrightarrow> i < 256 \<Longrightarrow> pk_cookie (slot pb i) < COOKIE_MAX"
  by (simp add: pb_inv_def)

lemma pb_inv_update:
  assumes "pb_inv pb" "pk_cookie p < COOKIE_MAX"
  shows "pb_inv (pb\<lparr>pb_packets := (pb_packets pb)[i := p]\<rparr>)"
  using assms set_update_subset_insert [of "pb_packets pb" i p] by (auto simp: pb_inv_def)

lemma mask_idx: "unat (w AND PKTBUF_MASK) < 256"
  using word_and_le1 [of w PKTBUF_MASK] by (simp add: word_le_nat_alt)

lemma pb_exec_inv: "pb_inv pb \<Longrightarrow> pb_inv (pb_exec pb op)"
proof (cases op)
  case (Pb_Save buffer in_port now now')
  assume inv: "pb_inv pb"
  then have "pb_inv (pb\<lparr>pb_buffer_idx := (pb_buffer_idx pb + 1) AND PKTBUF_MASK\<rparr>)" using idx_wrap by (simp add: pb_inv_def)
  from this pb_inv_update [OF this] show ?thesis
    by (auto simp: Pb_Save pktbuf_save_def Let_def not_le)
next
  case (Pb_Retrieve idn)
  assume "pb_inv pb"
  then show ?thesis using pb_inv_slot [OF _ mask_idx, of pb idn]
    by (auto simp: Pb_Retrieve pktbuf_retrieve_def Let_def split: option.splits intro!: pb_inv_update)
next
  case (Pb_Discard idn)
  assume "pb_inv pb"
  then show ?thesis using pb_inv_slot [OF _ mask_idx, of pb idn]
    by (auto simp: Pb_Discard pktbuf_discard_def Let_def intro!: pb_inv_update)
qed

lemma pb_create_inv: "pb_inv pktbuf_create"
  by (simp add: pb_inv_def pktbuf_create_def)

definition pb_reachable :: "pktbuf \<Rightarrow> bool" where
  "pb_reachable pb \<longleftrightarrow> (\<exists>ops. pb = foldl pb_exec pktbuf_create ops)"

lemma pb_reachable_inv: "pb_reachable pb \<Longrightarrow> pb_inv pb"
proof -
  have "pb_inv (foldl pb_exec pb ops)" if "pb_inv pb" for ops pb
    using that by (induction ops arbitrary: pb) (auto simp: pb_exec_inv)
  then show "pb_reachable pb \<Longrightarrow> pb_inv pb" using pb_create_inv by (auto simp: pb_reachable_def)
qed

lemma id_split: "make_id (idn AND PKTBUF_MASK) (drop_bit PKTBUF_BITS idn) = idn"
proof -
  have "idn AND PKTBUF_MASK = take_bit 8 idn" by (simp add: take_bit_eq_mask mask_eq_exp_minus_1)
  moreover have "bit (take_bit 8 idn OR push_bit 8 (drop_bit 8 idn)) k \<longleftrightarrow> bit idn k" if "k < 32" for k
    unfolding bit_or_iff bit_push_bit_iff bit_drop_bit_eq bit_take_bit_iff comp_def using that by (cases "k < 8") auto
  ultimately show ?thesis by (auto simp: make_id_def intro!: bit_word_eqI)
qed

text \<open>How each call changes a slot.\<close>

lemma save_slot:
  assumes "pb_inv pb" "i < 256"
  shows "slot (snd (pktbuf_save pb buffer in_port now now')) i =
    (let p = slot pb i
     in if i = unat (pb_buffer_idx pb) \<and> \<not> (pk_buffer p \<noteq> None \<and> now < pk_timeout p)
        then p\<lparr>pk_cookie := (if pk_cookie p + 1 \<ge> COOKIE_MAX then 0 else pk_cookie p + 1), pk_buffer := Some buffer,
               pk_timeout := now' + OVERWRITE_MSECS, pk_in_port := in_port\<rparr>
        else p)"
  using assms by (auto simp: pktbuf_save_def Let_def pb_inv_def nth_list_update)

lemma other_id:
  assumes "unat (idn AND PKTBUF_MASK) = i" "j \<noteq> idn" "unat (j AND PKTBUF_MASK) = i"
  shows "drop_bit PKTBUF_BITS j \<noteq> drop_bit PKTBUF_BITS idn"
  using id_split [of j] id_split [of idn] assms by (metis word_unat_eq_iff)

lemma retrieve_slot:
  assumes "pb_inv pb" "i < 256"
  shows "slot (pb_exec pb (Pb_Retrieve j)) i =
    (if i = unat (j AND PKTBUF_MASK) \<and> pk_cookie (slot pb i) = drop_bit PKTBUF_BITS j \<and> j \<noteq> UINT_MAX
     then (slot pb i)\<lparr>pk_buffer := None\<rparr> else slot pb i)"
  using assms mask_idx [of j]
  by (cases "pk_buffer (slot pb i)") (auto simp: pktbuf_retrieve_def Let_def pb_inv_def nth_list_update split: option.splits)

lemma discard_slot:
  assumes "pb_inv pb" "i < 256"
  shows "slot (pb_exec pb (Pb_Discard j)) i =
    (if i = unat (j AND PKTBUF_MASK) \<and> pk_cookie (slot pb i) = drop_bit PKTBUF_BITS j
     then (slot pb i)\<lparr>pk_buffer := None\<rparr> else slot pb i)"
  using assms mask_idx [of j] by (auto simp: pktbuf_discard_def Let_def pb_inv_def nth_list_update)

section \<open>Packets are kept\<close>

text \<open>Calls that leave a buffer alone: saves before its deadline, and uses of other identifiers.\<close>

fun pb_spares :: "u32 \<Rightarrow> int \<Rightarrow> pb_op \<Rightarrow> bool" where
  "pb_spares idn deadline (Pb_Save buffer in_port now now') \<longleftrightarrow> now < deadline"
| "pb_spares idn deadline (Pb_Retrieve j) \<longleftrightarrow> j \<noteq> idn"
| "pb_spares idn deadline (Pb_Discard j) \<longleftrightarrow> j \<noteq> idn"

lemma spared_slot:
  assumes "pb_inv pb" "pk_buffer (slot pb i) \<noteq> None" "pk_cookie (slot pb i) = drop_bit PKTBUF_BITS idn"
    "i = unat (idn AND PKTBUF_MASK)" "pb_spares idn (pk_timeout (slot pb i)) op"
  shows "slot (pb_exec pb op) i = slot pb i"
proof -
  have i: "i < 256" using mask_idx assms(4) by simp
  show ?thesis
  proof (cases op)
    case (Pb_Save buffer in_port now now')
    then show ?thesis using save_slot [OF assms(1) i] assms(2,5) by (simp add: Let_def)
  next
    case (Pb_Retrieve j)
    then show ?thesis using retrieve_slot [OF assms(1) i, of j] other_id [of idn i j] assms(3,4,5) by auto
  next
    case (Pb_Discard j)
    then show ?thesis using discard_slot [OF assms(1) i, of j] other_id [of idn i j] assms(3,4,5) by auto
  qed
qed

lemma spared_slots:
  "pb_inv pb \<Longrightarrow> pk_buffer (slot pb i) \<noteq> None \<Longrightarrow> pk_cookie (slot pb i) = drop_bit PKTBUF_BITS idn \<Longrightarrow>
   i = unat (idn AND PKTBUF_MASK) \<Longrightarrow> list_all (pb_spares idn (pk_timeout (slot pb i))) ops \<Longrightarrow>
   slot (foldl pb_exec pb ops) i = slot pb i"
proof (induction ops arbitrary: pb)
  case (Cons op ops)
  have "slot (pb_exec pb op) i = slot pb i" using spared_slot Cons.prems by auto
  then show ?case using Cons.IH [of "pb_exec pb op"] Cons.prems pb_exec_inv by simp
qed simp

lemma save_result:
  assumes "pb_inv pb" "pktbuf_save pb buffer in_port now now' = (idn, pb')" "idn \<noteq> UINT_MAX"
  shows "pk_buffer (slot pb' (unat (idn AND PKTBUF_MASK))) = Some buffer"
    "pk_cookie (slot pb' (unat (idn AND PKTBUF_MASK))) = drop_bit PKTBUF_BITS idn"
    "pk_timeout (slot pb' (unat (idn AND PKTBUF_MASK))) = now' + OVERWRITE_MSECS"
    "pk_in_port (slot pb' (unat (idn AND PKTBUF_MASK))) = in_port"
proof -
  let ?i = "pb_buffer_idx pb"
  have i: "?i < PKTBUF_CNT" "unat ?i < length (pb_packets pb)" using assms(1) by (auto simp: pb_inv_def word_less_nat_alt)
  let ?c = "if pk_cookie (slot pb (unat ?i)) + 1 \<ge> COOKIE_MAX then 0 else pk_cookie (slot pb (unat ?i)) + 1"
  have idn: "idn = make_id ?i ?c" using assms(2,3) by (auto simp: pktbuf_save_def Let_def split: if_splits)
  have "idn AND PKTBUF_MASK = ?i" "drop_bit PKTBUF_BITS idn = ?c"
    unfolding idn using i(1) by (auto intro!: id_index id_cookie)
  moreover have "slot pb' (unat ?i) = (slot pb (unat ?i))\<lparr>pk_cookie := ?c, pk_buffer := Some buffer,
      pk_timeout := now' + OVERWRITE_MSECS, pk_in_port := in_port\<rparr>"
    using assms(2,3) i(2) by (auto simp: pktbuf_save_def Let_def split: if_splits)
  ultimately show "pk_buffer (slot pb' (unat (idn AND PKTBUF_MASK))) = Some buffer"
    "pk_cookie (slot pb' (unat (idn AND PKTBUF_MASK))) = drop_bit PKTBUF_BITS idn"
    "pk_timeout (slot pb' (unat (idn AND PKTBUF_MASK))) = now' + OVERWRITE_MSECS"
    "pk_in_port (slot pb' (unat (idn AND PKTBUF_MASK))) = in_port" by simp_all
qed

text \<open>
  C10: A packet that pktbuf_save has stored can be retrieved for 5 seconds: whatever packets are saved
  in that time and whatever other identifiers are retrieved or discarded, pktbuf_retrieve gives
  back the bytes and the input port that were saved.
\<close>

theorem pktbuf_keeps_packet:
  assumes "pb_reachable pb" "pktbuf_save pb buffer in_port now now' = (idn, pb')" "idn \<noteq> UINT_MAX"
    and "list_all (pb_spares idn (now' + OVERWRITE_MSECS)) ops"
  shows "fst (pktbuf_retrieve (Some (foldl pb_exec pb' ops)) idn) = (OFPERR_OK, Some buffer, in_port)"
proof -
  have inv: "pb_inv pb" "pb_inv pb'"
    using pb_reachable_inv [OF assms(1)] pb_exec_inv [of pb "Pb_Save buffer in_port now now'"] assms(2) by auto
  note r = save_result [OF inv(1) assms(2,3)]
  have "slot (foldl pb_exec pb' ops) (unat (idn AND PKTBUF_MASK)) = slot pb' (unat (idn AND PKTBUF_MASK))"
    using r assms(4) by (intro spared_slots [OF inv(2)]) auto
  then show ?thesis using assms(3) r by (simp add: pktbuf_retrieve_def Let_def)
qed

lemma pb_create_reachable: "pb_reachable pktbuf_create"
  unfolding pb_reachable_def by (rule exI [of _ "[]"]) simp

lemma first_save: "fst (pktbuf_save pktbuf_create buffer in_port now now') = 256"
  by (simp add: pktbuf_save_def pktbuf_create_def Let_def make_id_def word_le_nat_alt)

theorem pktbuf_keeps_packet_witness:
  "fst (pktbuf_retrieve (Some (foldl pb_exec (snd (pktbuf_save pktbuf_create [1, 2, 3] 7 0 1))
     [Pb_Save [9] 1 100 101, Pb_Retrieve 257, Pb_Discard 512])) 256) = (OFPERR_OK, Some [1, 2, 3], 7)"
  using pktbuf_keeps_packet [OF pb_create_reachable, of "[1, 2, 3]" 7 0 1 256
      "snd (pktbuf_save pktbuf_create [1, 2, 3] 7 0 1)" "[Pb_Save [9] 1 100 101, Pb_Retrieve 257, Pb_Discard 512]"]
    first_save [of "[1, 2, 3]" 7 0 1] by (simp add: prod_eq_iff)

section \<open>Old identifiers\<close>

definition is_save :: "pb_op \<Rightarrow> bool" where
  "is_save op = (case op of Pb_Save buffer in_port now now' \<Rightarrow> True | _ \<Rightarrow> False)"

text \<open>
  After an identifier with cookie \<open>c\<close> has been used up, at most \<open>m\<close> saves into its slot have moved
  the cookie on, and there is no packet unless there was such a save.
\<close>

definition used_up :: "nat \<Rightarrow> u32 \<Rightarrow> nat \<Rightarrow> pktbuf \<Rightarrow> bool" where
  "used_up i c m pb \<longleftrightarrow> (\<exists>k \<le> m. unat (pk_cookie (slot pb i)) = (unat c + k) mod 16777215 \<and> (k = 0 \<longrightarrow> pk_buffer (slot pb i) = None))"

lemma next_cookie: "c < COOKIE_MAX \<Longrightarrow> unat (if c + 1 \<ge> COOKIE_MAX then 0 else c + 1) = (unat c + 1) mod 16777215"
proof -
  assume c: "c < COOKIE_MAX"
  then have "unat (c + 1) = unat c + 1" by (simp add: word_less_nat_alt unat_word_ariths)
  then show ?thesis using c by (auto simp: word_le_nat_alt word_less_nat_alt not_le le_Suc_eq mod_less)
qed

lemma used_up_step:
  assumes "pb_inv pb" "i < 256" "used_up i c m pb"
  shows "used_up i c (if is_save op then m + 1 else m) (pb_exec pb op)"
proof -
  obtain k where k: "k \<le> m" "unat (pk_cookie (slot pb i)) = (unat c + k) mod 16777215" "k = 0 \<longrightarrow> pk_buffer (slot pb i) = None"
    using assms(3) by (auto simp: used_up_def)
  show ?thesis
  proof (cases op)
    case (Pb_Save buffer in_port now now')
    have "(unat (pk_cookie (slot pb i)) + 1) mod 16777215 = (unat c + (k + 1)) mod 16777215"
      unfolding k(2) by (metis add.assoc mod_add_left_eq)
    moreover have "slot (pb_exec pb op) i = slot pb i \<or>
        unat (pk_cookie (slot (pb_exec pb op) i)) = (unat (pk_cookie (slot pb i)) + 1) mod 16777215"
      using save_slot [OF assms(1,2), of buffer in_port now now'] next_cookie [OF pb_inv_slot [OF assms(1,2)]]
      by (auto simp: Pb_Save Let_def)
    ultimately have "used_up i c (m + 1) (pb_exec pb op)"
      using k unfolding used_up_def by (metis add_is_0 le_SucI Suc_eq_plus1 Suc_le_mono one_neq_zero)
    then show ?thesis by (simp add: Pb_Save is_save_def)
  next
    case (Pb_Retrieve j)
    then show ?thesis using k retrieve_slot [OF assms(1,2), of j] by (auto simp: used_up_def is_save_def)
  next
    case (Pb_Discard j)
    then show ?thesis using k discard_slot [OF assms(1,2), of j] by (auto simp: used_up_def is_save_def)
  qed
qed

lemma used_up_run:
  "pb_inv pb \<Longrightarrow> i < 256 \<Longrightarrow> used_up i c m pb \<Longrightarrow> used_up i c (m + length (filter is_save ops)) (foldl pb_exec pb ops)"
proof (induction ops arbitrary: pb m)
  case (Cons op ops)
  show ?case
    using Cons.IH [OF pb_exec_inv [OF Cons.prems(1)] Cons.prems(2) used_up_step [OF Cons.prems, of op]] by (cases "is_save op") auto
qed simp

text \<open>
  Identifiers are used up: after a packet has been retrieved or discarded, its identifier gives
  no packet, neither the old one nor a later one in the same buffer, until 2^24 - 1 packets have
  been saved.
\<close>

theorem pktbuf_stale_refused:
  assumes "pb_reachable pb" "pktbuf_save pb buffer in_port now now' = (idn, pb')" "idn \<noteq> UINT_MAX"
    and "op = Pb_Retrieve idn \<or> op = Pb_Discard idn"
    and "list_all (pb_spares idn (now' + OVERWRITE_MSECS)) before" "length (filter is_save after) < 2 ^ 24 - 1"
  shows "fst (snd (fst (pktbuf_retrieve (Some (foldl pb_exec pb' (before @ op # after))) idn))) = None"
proof -
  let ?i = "unat (idn AND PKTBUF_MASK)" and ?c = "drop_bit PKTBUF_BITS idn"
  define pb1 where "pb1 = foldl pb_exec pb' before"
  have inv: "pb_inv pb" "pb_inv pb'"
    using pb_reachable_inv [OF assms(1)] pb_exec_inv [of pb "Pb_Save buffer in_port now now'"] assms(2) by auto
  have inv1: "pb_inv pb1" unfolding pb1_def using inv(2) by (induction before arbitrary: pb') (auto simp: pb_exec_inv)
  note r = save_result [OF inv(1) assms(2,3)]
  have s1: "slot pb1 ?i = slot pb' ?i" unfolding pb1_def using r assms(5) by (intro spared_slots [OF inv(2)]) auto
  have c: "?c < COOKIE_MAX" using pb_inv_slot [OF inv(2) mask_idx, of idn] r(2) by simp
  have "pk_buffer (slot (pb_exec pb1 op) ?i) = None \<and> pk_cookie (slot (pb_exec pb1 op) ?i) = ?c"
    using assms(3,4) retrieve_slot [OF inv1 mask_idx, of idn idn] discard_slot [OF inv1 mask_idx, of idn idn] s1 r(2) by auto
  then have "used_up ?i ?c 0 (pb_exec pb1 op)" using c by (simp add: used_up_def word_less_nat_alt)
  then have "used_up ?i ?c (length (filter is_save after)) (foldl pb_exec (pb_exec pb1 op) after)"
    using used_up_run [OF pb_exec_inv [OF inv1] mask_idx] by fastforce
  then obtain k where k: "k \<le> length (filter is_save after)"
    "unat (pk_cookie (slot (foldl pb_exec pb' (before @ op # after)) ?i)) = (unat ?c + k) mod 16777215"
    "k = 0 \<longrightarrow> pk_buffer (slot (foldl pb_exec pb' (before @ op # after)) ?i) = None"
    by (auto simp: used_up_def pb1_def)
  have "k = 0" if "pk_cookie (slot (foldl pb_exec pb' (before @ op # after)) ?i) = ?c"
  proof -
    have "(unat ?c + k) mod 16777215 = unat ?c mod 16777215" using k(2) that c by (simp add: word_less_nat_alt)
    then have "k mod 16777215 = 0" by (simp add: mod_eq_iff_dvd_symdiff_nat mod_eq_0_iff_dvd)
    then show ?thesis using k(1) assms(6) by simp
  qed
  then show ?thesis using k(3) by (auto simp: pktbuf_retrieve_def Let_def split: option.splits)
qed

theorem pktbuf_stale_refused_witness:
  "fst (snd (fst (pktbuf_retrieve (Some (foldl pb_exec (snd (pktbuf_save pktbuf_create [1, 2, 3] 7 0 1))
     [Pb_Save [9] 1 100 101, Pb_Retrieve 256, Pb_Save [8] 1 200 201])) 256))) = None"
  using pktbuf_stale_refused [OF pb_create_reachable, of "[1, 2, 3]" 7 0 1 256
      "snd (pktbuf_save pktbuf_create [1, 2, 3] 7 0 1)" "Pb_Retrieve 256" "[Pb_Save [9] 1 100 101]" "[Pb_Save [8] 1 200 201]"]
    first_save [of "[1, 2, 3]" 7 0 1] by (simp add: prod_eq_iff is_save_def)

end
