(* ===== verification/Quicksort.thy ===== *)
theory Quicksort
  imports OVS_Prelude "HOL-Library.Multiset"
begin

text \<open>
  The sort routine of lib/sort.c. It knows the data only through two callbacks, which compare and
  swap the elements at two positions; the contract of the callbacks is the locale \<open>sortable\<close>. The
  pivots come from \<open>random_range\<close>: \<open>rnd k\<close> is what the \<open>k\<close>-th call of \<open>random_uint32\<close> returns, and
  the state of the computation is the client's data and the number of calls made.

  The second recursive call includes the pivot, so that a pivot smaller than all other elements
  makes no progress. Whether the routine returns therefore depends on the random numbers; \<open>None\<close> is
  a computation that does not return.
\<close>

section \<open>Model\<close>

definition partition_step ::
  "(nat \<Rightarrow> nat \<Rightarrow> 's \<Rightarrow> int) \<Rightarrow> (nat \<Rightarrow> nat \<Rightarrow> 's \<Rightarrow> 's) \<Rightarrow> nat \<Rightarrow> nat \<times> 's \<Rightarrow> nat \<Rightarrow> nat \<times> 's" where
  "partition_step compare swap x = (\<lambda>(i, s) j. if compare j x s \<le> 0 then (i + 1, swap i j s) else (i, s))"

definition partition_range ::
  "(nat \<Rightarrow> nat \<Rightarrow> 's \<Rightarrow> int) \<Rightarrow> (nat \<Rightarrow> nat \<Rightarrow> 's \<Rightarrow> 's) \<Rightarrow> nat \<Rightarrow> nat \<Rightarrow> 's \<Rightarrow> nat \<times> 's" where
  "partition_range compare swap p r s =
     (let x = r - 1; (i, s) = foldl (partition_step compare swap x) (p, s) [p..<x]
      in (i, swap i x s))"

text \<open>Moving the chosen pivot to the end of the range.\<close>

definition choose_pivot :: "(nat \<Rightarrow> nat \<Rightarrow> 's \<Rightarrow> 's) \<Rightarrow> nat \<Rightarrow> nat \<Rightarrow> u32 \<Rightarrow> 's \<Rightarrow> 's" where
  "choose_pivot swap p r random s =
     (let i = unat random mod (r - p) + p in if r - 1 \<noteq> i then swap (r - 1) i s else s)"

partial_function (option) quicksort ::
  "(nat \<Rightarrow> nat \<Rightarrow> 's \<Rightarrow> int) \<Rightarrow> (nat \<Rightarrow> nat \<Rightarrow> 's \<Rightarrow> 's) \<Rightarrow> (nat \<Rightarrow> u32) \<Rightarrow> nat \<Rightarrow> nat \<Rightarrow> 's \<Rightarrow> nat \<Rightarrow> ('s \<times> nat) option" where
  "quicksort compare swap rnd p r s k =
     (if r - p < 2 then Some (s, k)
      else
        let (q, s) = partition_range compare swap p r (choose_pivot swap p r (rnd k) s)
        in Option.bind (quicksort compare swap rnd p q s (k + 1)) (\<lambda>(s, k). quicksort compare swap rnd q r s k))"

definition ovs_sort :: "(nat \<Rightarrow> nat \<Rightarrow> 's \<Rightarrow> int) \<Rightarrow> (nat \<Rightarrow> nat \<Rightarrow> 's \<Rightarrow> 's) \<Rightarrow> (nat \<Rightarrow> u32) \<Rightarrow> nat \<Rightarrow> 's \<Rightarrow> nat \<Rightarrow> ('s \<times> nat) option" where
  "ovs_sort compare swap rnd n s k = quicksort compare swap rnd 0 n s k"

section \<open>Rearranging part of a list\<close>

definition rearranged :: "nat \<Rightarrow> nat \<Rightarrow> 'a list \<Rightarrow> 'a list \<Rightarrow> bool" where
  "rearranged p r xs ys \<longleftrightarrow> mset ys = mset xs \<and> (\<forall>j < length xs. j < p \<or> r \<le> j \<longrightarrow> ys ! j = xs ! j)"

abbreviation swapped :: "nat \<Rightarrow> nat \<Rightarrow> 'a list \<Rightarrow> 'a list" where
  "swapped a b xs \<equiv> xs[a := xs ! b, b := xs ! a]"

lemma rearranged_length: "rearranged p r xs ys \<Longrightarrow> length ys = length xs"
  unfolding rearranged_def by (metis size_mset)

lemma rearranged_refl [simp]: "rearranged p r xs xs"
  by (simp add: rearranged_def)

lemma rearranged_trans: "rearranged p r xs ys \<Longrightarrow> rearranged p r ys zs \<Longrightarrow> rearranged p r xs zs"
  using rearranged_length [of p r xs ys] by (simp add: rearranged_def)

lemma rearranged_mono: "rearranged p r xs ys \<Longrightarrow> p' \<le> p \<Longrightarrow> r \<le> r' \<Longrightarrow> rearranged p' r' xs ys"
  by (auto simp: rearranged_def)

lemma rearranged_swapped:
  "p \<le> a \<Longrightarrow> a < r \<Longrightarrow> p \<le> b \<Longrightarrow> b < r \<Longrightarrow> r \<le> length xs \<Longrightarrow> rearranged p r xs (swapped a b xs)"
  by (auto simp: rearranged_def mset_swap nth_list_update)

definition segment :: "nat \<Rightarrow> nat \<Rightarrow> 'a list \<Rightarrow> 'a list" where
  "segment p r xs = take (r - p) (drop p xs)"

lemma segment_nth: "r \<le> length xs \<Longrightarrow> j < r - p \<Longrightarrow> segment p r xs ! j = xs ! (p + j)"
  by (simp add: segment_def)

lemma segment_length [simp]: "r \<le> length xs \<Longrightarrow> length (segment p r xs) = r - p"
  by (simp add: segment_def)

lemma segment_split: "p \<le> q \<Longrightarrow> q \<le> r \<Longrightarrow> segment p r xs = segment p q xs @ segment q r xs"
  using take_add [of "q - p" "r - q" "drop p xs"] by (simp add: segment_def)

lemma segment_map: "r \<le> length xs \<Longrightarrow> segment p r xs = map (\<lambda>j. xs ! j) [p..<r]"
  by (intro nth_equalityI) (auto simp: segment_nth)

lemma set_segment: "r \<le> length xs \<Longrightarrow> set (segment p r xs) = (\<lambda>j. xs ! j) ` {p..<r}"
  by (simp add: segment_map)

lemma rearranged_segment:
  assumes "rearranged p r xs ys" "p \<le> r" "r \<le> length xs"
  shows "mset (segment p r ys) = mset (segment p r xs)"
proof -
  have l: "length ys = length xs" by (rule rearranged_length [OF assms(1)])
  have split: "zs = take p zs @ segment p r zs @ drop r zs" if "length zs = length xs" for zs :: "'a list"
  proof -
    have "drop p zs = segment p r zs @ drop (r - p) (drop p zs)" unfolding segment_def by (rule append_take_drop_id [symmetric])
    then show ?thesis using assms(2) by (metis append_take_drop_id drop_drop le_add_diff_inverse2)
  qed
  have "take p ys = take p xs" "drop r ys = drop r xs"
    using assms l by (auto simp: rearranged_def intro!: nth_equalityI)
  then have "mset xs = mset (take p xs) + mset (segment p r xs) + mset (drop r xs)"
      "mset ys = mset (take p xs) + mset (segment p r ys) + mset (drop r xs)"
    using split [of xs] split [of ys] l by (metis mset_append union_assoc)+
  then show ?thesis using assms(1) by (simp add: rearranged_def)
qed

lemma rearranged_after:
  assumes "rearranged p q xs ys" "q \<le> r" "r \<le> length xs"
  shows "segment q r ys = segment q r xs"
  using assms rearranged_length [OF assms(1)] by (intro nth_equalityI) (auto simp: segment_nth rearranged_def)

lemma rearranged_before:
  assumes "rearranged q r xs ys" "q \<le> r" "r \<le> length xs"
  shows "segment p q ys = segment p q xs"
  using assms rearranged_length [OF assms(1)] by (intro nth_equalityI) (auto simp: segment_nth rearranged_def)

section \<open>Random numbers\<close>

text \<open>
  Random numbers do not pick the first element of a range for ever: for ranges of up to \<open>n\<close>
  elements, some later number is no multiple of the length of the range.
\<close>

definition fair :: "(nat \<Rightarrow> u32) \<Rightarrow> nat \<Rightarrow> bool" where
  "fair rnd n \<longleftrightarrow> (\<forall>m k. 2 \<le> m \<and> m \<le> n \<longrightarrow> (\<exists>j \<ge> k. unat (rnd j) mod m \<noteq> 0))"

lemma fair_mono: "fair rnd n \<Longrightarrow> m \<le> n \<Longrightarrow> fair rnd m"
  by (simp add: fair_def)

lemma fair_one: "fair (\<lambda>_. 1) n"
  by (auto simp: fair_def mod_Suc)

section \<open>The contract of the callbacks\<close>

locale sortable =
  fixes compare :: "nat \<Rightarrow> nat \<Rightarrow> 's \<Rightarrow> int"
    and swap :: "nat \<Rightarrow> nat \<Rightarrow> 's \<Rightarrow> 's"
    and view :: "'s \<Rightarrow> 'a list"
    and valid :: "'s \<Rightarrow> bool"
    and le :: "'a \<Rightarrow> 'a \<Rightarrow> bool"
  assumes swap_view: "valid s \<Longrightarrow> a < length (view s) \<Longrightarrow> b < length (view s) \<Longrightarrow> view (swap a b s) = swapped a b (view s)"
    and swap_valid: "valid s \<Longrightarrow> a < length (view s) \<Longrightarrow> b < length (view s) \<Longrightarrow> valid (swap a b s)"
    and compare_le: "valid s \<Longrightarrow> a < length (view s) \<Longrightarrow> b < length (view s) \<Longrightarrow>
      compare a b s \<le> 0 \<longleftrightarrow> le (view s ! a) (view s ! b)"
    and le_total: "valid s \<Longrightarrow> x \<in> set (view s) \<Longrightarrow> y \<in> set (view s) \<Longrightarrow> le x y \<or> le y x"
    and le_trans: "valid s \<Longrightarrow> x \<in> set (view s) \<Longrightarrow> y \<in> set (view s) \<Longrightarrow> z \<in> set (view s) \<Longrightarrow> le x y \<Longrightarrow> le y z \<Longrightarrow> le x z"
begin

text \<open>The state of the loop of \<open>partition\<close> before position \<open>j\<close>.\<close>

definition loop_inv :: "nat \<Rightarrow> nat \<Rightarrow> 's \<Rightarrow> nat \<Rightarrow> nat \<times> 's \<Rightarrow> bool" where
  "loop_inv p x s0 j = (\<lambda>(i, s). valid s \<and> rearranged p j (view s0) (view s) \<and> p \<le> i \<and> i \<le> j \<and>
     (\<forall>l. p \<le> l \<and> l < i \<longrightarrow> le (view s ! l) (view s0 ! x)) \<and>
     (\<forall>l. i \<le> l \<and> l < j \<longrightarrow> \<not> le (view s ! l) (view s0 ! x)) \<and>
     (i = p \<longleftrightarrow> (\<forall>l. p \<le> l \<and> l < j \<longrightarrow> \<not> le (view s0 ! l) (view s0 ! x))))"

lemma loop_inv_step:
  assumes "loop_inv p x s0 j st" "j < x" "x < length (view s0)"
  shows "loop_inv p x s0 (Suc j) (partition_step compare swap x st j)"
proof -
  obtain i s where st: "st = (i, s)" by (cases st)
  have inv: "valid s" "rearranged p j (view s0) (view s)" "p \<le> i" "i \<le> j"
      "\<And>l. p \<le> l \<Longrightarrow> l < i \<Longrightarrow> le (view s ! l) (view s0 ! x)" "\<And>l. i \<le> l \<Longrightarrow> l < j \<Longrightarrow> \<not> le (view s ! l) (view s0 ! x)"
      "i = p \<longleftrightarrow> (\<forall>l. p \<le> l \<and> l < j \<longrightarrow> \<not> le (view s0 ! l) (view s0 ! x))"
    using assms(1) by (auto simp: loop_inv_def st)
  have len: "length (view s) = length (view s0)" by (rule rearranged_length [OF inv(2)])
  have v: "view s ! x = view s0 ! x" "view s ! j = view s0 ! j" using inv(2) assms(2,3) by (auto simp: rearranged_def)
  have b: "i < length (view s)" "j < length (view s)" "x < length (view s)" using inv(4) assms(2,3) len by auto
  note c = compare_le [OF inv(1) b(2,3), unfolded v]
  show ?thesis
  proof (cases "le (view s0 ! j) (view s0 ! x)")
    case False
    have "rearranged p (Suc j) (view s0) (view s)" using inv(2) by (rule rearranged_mono) auto
    then show ?thesis using False c inv v by (auto simp: loop_inv_def st partition_step_def less_Suc_eq)
  next
    case True
    have s: "view (swap i j s) = swapped i j (view s)" "valid (swap i j s)"
      using swap_view [OF inv(1) b(1,2)] swap_valid [OF inv(1) b(1,2)] by auto
    have "rearranged p (Suc j) (view s) (swapped i j (view s))" using inv(3,4) b by (intro rearranged_swapped) auto
    then have "rearranged p (Suc j) (view s0) (view (swap i j s))"
      unfolding s(1) using inv(2) rearranged_mono [of p j "view s0" "view s" p "Suc j"] rearranged_trans by fastforce
    moreover have sw: "view (swap i j s) ! l = (if l = i then view s ! j else if l = j then view s ! i else view s ! l)" for l
      using b by (simp add: s(1) nth_list_update)
    moreover have "le (view (swap i j s) ! l) (view s0 ! x)" if "p \<le> l" "l < Suc i" for l
      using that inv(4,5) True v(2) by (simp add: sw)
    moreover have "\<not> le (view (swap i j s) ! l) (view s0 ! x)" if "Suc i \<le> l" "l < Suc j" for l
      using that inv(4) inv(6) [of l] inv(6) [of i] by (cases "l = j") (auto simp: sw)
    ultimately show ?thesis using True c inv s(2) by (auto simp: loop_inv_def st partition_step_def)
  qed
qed

lemma loop_inv_run:
  assumes "valid s0" "x < length (view s0)" "p \<le> j" "j \<le> x"
  shows "loop_inv p x s0 j (foldl (partition_step compare swap x) (p, s0) [p..<j])"
  using assms(3,4)
proof (induction j rule: dec_induct)
  case base
  then show ?case using assms(1) by (auto simp: loop_inv_def)
next
  case (step j)
  then show ?case using loop_inv_step [of p x s0 j] assms(2) by simp
qed

text \<open>
  What \<open>partition\<close> leaves: the pivot is at the position returned, smaller or equal elements before
  it and larger ones after it.
\<close>

definition partitioned :: "nat \<Rightarrow> nat \<Rightarrow> nat \<Rightarrow> 's \<Rightarrow> bool" where
  "partitioned p q r s \<longleftrightarrow> valid s \<and> p \<le> q \<and> q < r \<and> (\<forall>l. p \<le> l \<and> l < q \<longrightarrow> le (view s ! l) (view s ! q)) \<and>
     (\<forall>l. q < l \<and> l < r \<longrightarrow> \<not> le (view s ! l) (view s ! q))"

lemma partition_spec:
  assumes s: "valid s" "p < r" "r \<le> length (view s)" and q: "partition_range compare swap p r s = (q, s')"
  shows "partitioned p q r s'" "rearranged p r (view s) (view s')"
    "q = p \<longleftrightarrow> (\<forall>l. p \<le> l \<and> l < r - 1 \<longrightarrow> \<not> le (view s ! l) (view s ! (r - 1)))"
proof -
  let ?x = "r - 1"
  obtain i t where it: "foldl (partition_step compare swap ?x) (p, s) [p..<?x] = (i, t)" by fastforce
  then have inv: "loop_inv p ?x s ?x (i, t)" using loop_inv_run [of s ?x p ?x] assms by simp
  have q: "q = i" "s' = swap i ?x t" using q it by (auto simp: partition_range_def Let_def)
  have t: "valid t" "rearranged p ?x (view s) (view t)" "p \<le> i" "i \<le> ?x"
      "\<And>l. p \<le> l \<Longrightarrow> l < i \<Longrightarrow> le (view t ! l) (view s ! ?x)" "\<And>l. i \<le> l \<Longrightarrow> l < ?x \<Longrightarrow> \<not> le (view t ! l) (view s ! ?x)"
    using inv by (auto simp: loop_inv_def)
  have b: "i < length (view t)" "?x < length (view t)" using rearranged_length [OF t(2)] t(4) assms(2,3) by auto
  have s': "view s' = swapped i ?x (view t)" "valid s'" unfolding q using swap_view [OF t(1) b] swap_valid [OF t(1) b] by auto
  have piv: "view t ! ?x = view s ! ?x" using t(2) assms(2,3) by (auto simp: rearranged_def)
  have "le (view s' ! l) (view s' ! i)" if "p \<le> l" "l < i" for l
    using that t(4,5) b piv by (auto simp: s'(1) nth_list_update)
  moreover have "\<not> le (view s' ! l) (view s' ! i)" if "i < l" "l < r" for l
    using that t(6) [of l] t(6) [of i] b piv by (cases "l = ?x") (auto simp: s'(1) nth_list_update)
  ultimately show "partitioned p q r s'" using s'(2) t(3,4) assms(2) q(1) by (auto simp: partitioned_def)
  have "rearranged p r (view t) (view s')" unfolding s'(1) using t(3,4) b assms(2) by (intro rearranged_swapped) auto
  then show "rearranged p r (view s) (view s')"
    using rearranged_mono [OF t(2), of p r] rearranged_trans by fastforce
  show "q = p \<longleftrightarrow> (\<forall>l. p \<le> l \<and> l < r - 1 \<longrightarrow> \<not> le (view s ! l) (view s ! (r - 1)))"
    using inv q(1) by (simp add: loop_inv_def)
qed

lemma choose_pivot_spec:
  assumes "valid s" "p < r" "r \<le> length (view s)"
  shows "valid (choose_pivot swap p r v s)" "rearranged p r (view s) (view (choose_pivot swap p r v s))"
    "view (choose_pivot swap p r v s) = swapped (r - 1) (unat v mod (r - p) + p) (view s)"
proof -
  let ?i = "unat v mod (r - p) + p"
  have i: "p \<le> ?i" "?i < r" using assms(2) by (auto simp: mod_less_divisor less_diff_conv [symmetric])
  have b: "r - 1 < length (view s)" "?i < length (view s)" using i assms(2,3) by auto
  have "swapped (r - 1) ?i (view s) = view s" if "r - 1 = ?i" using that by (metis list_update_id)
  then show v: "view (choose_pivot swap p r v s) = swapped (r - 1) ?i (view s)"
    using swap_view [OF assms(1) b] by (simp add: choose_pivot_def Let_def)
  show "valid (choose_pivot swap p r v s)" using swap_valid [OF assms(1) b] assms(1) by (simp add: choose_pivot_def Let_def)
  show "rearranged p r (view s) (view (choose_pivot swap p r v s))"
    unfolding v using i assms(2,3) by (intro rearranged_swapped) auto
qed

text \<open>The result of sorting the positions from \<open>p\<close> up to \<open>r\<close>.\<close>

definition sorted_range :: "nat \<Rightarrow> nat \<Rightarrow> 's \<Rightarrow> 's \<Rightarrow> bool" where
  "sorted_range p r s s' \<longleftrightarrow> valid s' \<and> rearranged p r (view s) (view s') \<and> sorted_wrt le (segment p r (view s'))"

lemma sorted_range_join:
  assumes part: "partitioned p q r s" "r \<le> length (view s)" and 1: "sorted_range p q s s1" and 2: "sorted_range q r s1 s2"
  shows "sorted_range p r s s2"
proof -
  have q: "p \<le> q" "q < r" "valid s" using part(1) by (auto simp: partitioned_def)
  have r1: "rearranged p q (view s) (view s1)" and r2: "rearranged q r (view s1) (view s2)"
    using 1 2 by (auto simp: sorted_range_def)
  have l: "length (view s1) = length (view s)" "length (view s2) = length (view s)"
    using rearranged_length [OF r1] rearranged_length [OF r2] by auto
  have left: "segment p q (view s2) = segment p q (view s1)"
    using rearranged_before [OF r2, of p] q part(2) l by simp
  have mid: "segment q r (view s1) = segment q r (view s)"
    using rearranged_after [OF r1, of r] q part(2) by simp
  have "mset (segment p q (view s2)) = mset (segment p q (view s))"
    unfolding left using rearranged_segment [OF r1] q part(2) by simp
  then have sl: "set (segment p q (view s2)) = (\<lambda>j. view s ! j) ` {p..<q}"
    using set_segment [of q "view s" p] q part(2) by (metis less_imp_le_nat mset_eq_setD order_trans)
  have "mset (segment q r (view s2)) = mset (segment q r (view s))"
    using rearranged_segment [OF r2] q part(2) l mid by simp
  then have sr: "set (segment q r (view s2)) = (\<lambda>j. view s ! j) ` {q..<r}"
    using set_segment [of r "view s" q] part(2) by (metis mset_eq_setD)
  have cross: "le x y" if x: "x \<in> set (segment p q (view s2))" and y: "y \<in> set (segment q r (view s2))" for x y
  proof -
    obtain a b where ab: "x = view s ! a" "p \<le> a" "a < q" "y = view s ! b" "q \<le> b" "b < r" using x y sl sr by auto
    have m: "view s ! l \<in> set (view s)" if "l < r" for l using that part(2) by simp
    have "le x (view s ! q)" using part(1) ab by (simp add: partitioned_def)
    moreover have "le (view s ! q) y"
    proof (cases "b = q")
      case True
      then show ?thesis using le_total [OF q(3) m m, of q q] q ab by auto
    next
      case False
      then have "\<not> le y (view s ! q)" using part(1) ab by (auto simp: partitioned_def)
      then show ?thesis using le_total [OF q(3) m m, of b q] q ab by auto
    qed
    ultimately show ?thesis using le_trans [OF q(3) m m m, of a q b] q ab by auto
  qed
  have "sorted_wrt le (segment p r (view s2))"
    unfolding segment_split [of p q r "view s2", OF q(1) less_imp_le [OF q(2)]] sorted_wrt_append
    using 1 2 cross left by (auto simp: sorted_range_def)
  moreover have "rearranged p r (view s) (view s2)"
    using rearranged_trans [OF rearranged_mono [OF r1, of p r] rearranged_mono [OF r2, of p r]] q by simp
  ultimately show ?thesis using 2 by (simp add: sorted_range_def)
qed

text \<open>All elements after the first are larger than it.\<close>

definition min_first :: "nat \<Rightarrow> nat \<Rightarrow> 's \<Rightarrow> bool" where
  "min_first p r s \<longleftrightarrow> (\<forall>l. p < l \<and> l < r \<longrightarrow> \<not> le (view s ! l) (view s ! p))"

text \<open>One round: it leaves a smaller problem, or one with the smallest element in front.\<close>

lemma round_spec:
  assumes s: "valid s" "2 \<le> r - p" "r \<le> length (view s)"
    and q: "partition_range compare swap p r (choose_pivot swap p r v s) = (q, s')"
  shows "partitioned p q r s'" "rearranged p r (view s) (view s')" "length (view s') = length (view s)"
    "q = p \<Longrightarrow> min_first p r s'" "min_first p r s \<Longrightarrow> q = p \<longleftrightarrow> unat v mod (r - p) = 0"
proof -
  have pr: "p < r" using assms(2) by simp
  let ?s = "choose_pivot swap p r v s" and ?i = "unat v mod (r - p) + p"
  note c = choose_pivot_spec [OF assms(1) pr assms(3)]
  have len: "r \<le> length (view ?s)" using c(3) assms(3) by simp
  note part = partition_spec [OF c(1) pr len q]
  show "partitioned p q r s'" by (rule part(1))
  show "rearranged p r (view s) (view s')" using c(2) part(2) by (rule rearranged_trans)
  then show "length (view s') = length (view s)" by (rule rearranged_length)
  show "min_first p r s'" if "q = p" using part(1) that by (auto simp: partitioned_def min_first_def)
  show "q = p \<longleftrightarrow> unat v mod (r - p) = 0" if m: "min_first p r s"
  proof -
    have i: "?i < r" using pr by (auto simp: less_diff_conv [symmetric])
    have b: "r - 1 < length (view s)" "?i < length (view s)" using i pr assms(3) by auto
    have nth: "view ?s ! l = (if l = ?i then view s ! (r - 1) else if l = r - 1 then view s ! ?i else view s ! l)" for l
      using b by (simp add: c(3) nth_list_update)
    show ?thesis
    proof (cases "unat v mod (r - p) = 0")
      case True
      then have "\<not> le (view ?s ! l) (view ?s ! (r - 1))" if "p \<le> l" "l < r - 1" for l
        using that m assms(2) by (auto simp: nth min_first_def)
      then show ?thesis using True part(3) by simp
    next
      case False
      then have v: "view ?s ! p = view s ! p" "view ?s ! (r - 1) = view s ! ?i" using assms(2) by (auto simp: nth)
      have "\<not> le (view s ! ?i) (view s ! p)" using m i False by (auto simp: min_first_def)
      then have "le (view s ! p) (view s ! ?i)" using le_total [OF assms(1)] b pr assms(3) by (meson nth_mem order_less_le_trans)
      then show ?thesis using False part(3) v assms(2) by auto
    qed
  qed
qed

text \<open>If the routine returns, the range is sorted.\<close>

lemma sorted_round:
  assumes body: "(if r - p < 2 then Some (s, k)
      else let (q, s) = partition_range compare swap p r (choose_pivot swap p r (rnd k) s)
           in Option.bind (qs p q s (k + 1)) (\<lambda>(s, k). qs q r s k)) = Some y"
    and s: "valid s" "r \<le> length (view s)" "p \<le> r"
    and IH: "\<And>p r s k y. qs p r s k = Some y \<Longrightarrow> valid s \<Longrightarrow> r \<le> length (view s) \<Longrightarrow> p \<le> r \<Longrightarrow> sorted_range p r s (fst y)"
  shows "sorted_range p r s (fst y)"
proof (cases "r - p < 2")
  case True
  then have "y = (s, k)" using body by simp
  then show ?thesis using s True by (auto simp: sorted_range_def intro!: sorted_wrt01)
next
  case False
  obtain q s1 where q: "partition_range compare swap p r (choose_pivot swap p r (rnd k) s) = (q, s1)" by fastforce
  have round: "partitioned p q r s1" "rearranged p r (view s) (view s1)" "length (view s1) = length (view s)"
    using round_spec [OF s(1) _ s(2) q] False by auto
  have b: "p \<le> q" "q < r" "valid s1" using round(1) by (auto simp: partitioned_def)
  obtain s2 k2 where s2: "qs p q s1 (k + 1) = Some (s2, k2)" "qs q r s2 k2 = Some y"
    using body False q by (auto simp: bind_eq_Some_conv)
  have 1: "sorted_range p q s1 s2" using IH [OF s2(1)] b s(2) round(3) by simp
  then have "valid s2" "length (view s2) = length (view s1)" using rearranged_length by (auto simp: sorted_range_def)
  then have "sorted_range q r s2 (fst y)" using IH [OF s2(2)] b s(2) round(3) by simp
  then have "sorted_range p r s1 (fst y)" using sorted_range_join [OF round(1) _ 1] s(2) round(3) by simp
  then show ?thesis using round(2) rearranged_trans by (auto simp: sorted_range_def)
qed

lemma quicksort_sorted:
  assumes "quicksort compare swap rnd p r s k = Some y" "valid s" "r \<le> length (view s)" "p \<le> r"
  shows "sorted_range p r s (fst y)"
proof -
  have "compare = compare \<and> swap = swap \<and> valid s \<and> r \<le> length (view s) \<and> p \<le> r \<longrightarrow> sorted_range p r s (fst y)"
  proof (rule quicksort.raw_induct [of "\<lambda>c w rnd p r s k y. c = compare \<and> w = swap \<and> valid s \<and> r \<le> length (view s) \<and> p \<le> r \<longrightarrow>
      sorted_range p r s (fst y)", OF _ assms(1)], intro impI)
    fix qs c w rnd p r s k y
    assume IH: "\<And>c w rnd p r s k y. qs c w rnd p r s k = Some y \<Longrightarrow>
        c = compare \<and> w = swap \<and> valid s \<and> r \<le> length (view s) \<and> p \<le> r \<longrightarrow> sorted_range p r s (fst y)"
      and body: "(if r - p < 2 then Some (s, k)
        else let (q, s) = partition_range c w p r (choose_pivot w p r (rnd k) s)
             in Option.bind (qs c w rnd p q s (k + 1)) (\<lambda>(s, k). qs c w rnd q r s k)) = Some y"
      and s: "c = compare \<and> w = swap \<and> valid s \<and> r \<le> length (view s) \<and> p \<le> r"
    show "sorted_range p r s (fst y)"
      using s body IH by (intro sorted_round [of r p s k rnd "qs compare swap rnd" y]) auto
  qed
  then show ?thesis using assms by simp
qed

text \<open>It returns, provided the random numbers are fair.\<close>

lemma quicksort_small: "r - p < 2 \<Longrightarrow> quicksort compare swap rnd p r s k = Some (s, k)"
  by (simp add: quicksort.simps [of compare swap rnd p r s k])

definition returns_below :: "(nat \<Rightarrow> u32) \<Rightarrow> nat \<Rightarrow> bool" where
  "returns_below rnd n \<longleftrightarrow> (\<forall>p r s k. r - p < n \<and> valid s \<and> r \<le> length (view s) \<and> p \<le> r \<longrightarrow>
     (\<exists>s' k'. quicksort compare swap rnd p r s k = Some (s', k')))"

lemma quicksort_progress:
  assumes IH: "returns_below rnd (r - p)"
    and s: "valid s" "2 \<le> r - p" "r \<le> length (view s)"
    and q: "partition_range compare swap p r (choose_pivot swap p r (rnd k) s) = (q, s1)" "p < q"
  shows "\<exists>y. quicksort compare swap rnd p r s k = Some y"
proof -
  note round = round_spec [OF s q(1)]
  have b: "q < r" "valid s1" "length (view s1) = length (view s)" using round(1,3) by (auto simp: partitioned_def)
  obtain s2 k2 where s2: "quicksort compare swap rnd p q s1 (k + 1) = Some (s2, k2)"
    using IH b q(2) s(3) unfolding returns_below_def by (metis diff_less_mono less_imp_le_nat order_trans)
  then have "sorted_range p q s1 s2" using quicksort_sorted [OF s2] b q(2) s(3) by simp
  then have "valid s2" "length (view s2) = length (view s)"
    using b(3) rearranged_length [of p q "view s1" "view s2"] by (auto simp: sorted_range_def)
  moreover have "r - q < r - p" using b(1) q(2) by simp
  ultimately obtain y where "quicksort compare swap rnd q r s2 k2 = Some y"
    using IH b(1) s(3) unfolding returns_below_def by (metis less_imp_le_nat)
  then show ?thesis using s2 q(1) s(2) by (simp add: quicksort.simps [of compare swap rnd p r s k])
qed

lemma quicksort_min_first:
  assumes IH: "returns_below rnd (r - p)" and "2 \<le> r - p"
  shows "valid s \<Longrightarrow> r \<le> length (view s) \<Longrightarrow> min_first p r s \<Longrightarrow> unat (rnd (k + d)) mod (r - p) \<noteq> 0 \<Longrightarrow>
    \<exists>y. quicksort compare swap rnd p r s k = Some y"
proof (induction d arbitrary: s k)
  case 0
  obtain q s1 where q: "partition_range compare swap p r (choose_pivot swap p r (rnd k) s) = (q, s1)" by fastforce
  note round = round_spec [OF 0(1) assms(2) 0(2) q]
  have "p < q" using round(1) round(5) [OF 0(3)] 0(4) by (auto simp: partitioned_def)
  then show ?case using quicksort_progress [OF IH 0(1) assms(2) 0(2) q] by blast
next
  case (Suc d)
  obtain q s1 where q: "partition_range compare swap p r (choose_pivot swap p r (rnd k) s) = (q, s1)" by fastforce
  note round = round_spec [OF Suc(2) assms(2) Suc(3) q]
  show ?case
  proof (cases "q = p")
    case True
    have "\<exists>y. quicksort compare swap rnd p r s1 (k + 1) = Some y"
      using Suc.IH [of s1 "k + 1"] round(1,3,4) True Suc.prems(2,4) by (simp add: partitioned_def)
    then show ?thesis using q True assms(2)
      by (simp add: quicksort.simps [of compare swap rnd p r s k] quicksort_small)
  next
    case False
    then have "p < q" using round(1) by (auto simp: partitioned_def)
    then show ?thesis using quicksort_progress [OF IH Suc(2) assms(2) Suc(3) q] by blast
  qed
qed

lemma quicksort_returns:
  "fair rnd n \<Longrightarrow> r - p \<le> n \<Longrightarrow> valid s \<Longrightarrow> r \<le> length (view s) \<Longrightarrow> p \<le> r \<Longrightarrow>
   \<exists>y. quicksort compare swap rnd p r s k = Some y"
proof (induction "r - p" arbitrary: p r s k rule: less_induct)
  case less
  have IH: "returns_below rnd (r - p)"
    unfolding returns_below_def using less.hyps less.prems(1,2) by (metis less_imp_le_nat order_trans surj_pair)
  show ?case
  proof (cases "r - p < 2")
    case True
    then show ?thesis by (simp add: quicksort_small)
  next
    case False
    then have m: "2 \<le> r - p" by simp
    obtain q s1 where q: "partition_range compare swap p r (choose_pivot swap p r (rnd k) s) = (q, s1)" by fastforce
    note round = round_spec [OF less.prems(3) m less.prems(4) q]
    show ?thesis
    proof (cases "q = p")
      case True
      obtain j where "j \<ge> k + 1" "unat (rnd j) mod (r - p) \<noteq> 0" using less.prems(1,2) m unfolding fair_def by blast
      then have "unat (rnd (k + 1 + (j - (k + 1)))) mod (r - p) \<noteq> 0" by simp
      then have "\<exists>y. quicksort compare swap rnd p r s1 (k + 1) = Some y"
        using quicksort_min_first [OF IH m, of s1 "k + 1" "j - (k + 1)"] round(1,3,4) True less.prems(4) by (simp add: partitioned_def)
      then show ?thesis using q True m by (simp add: quicksort.simps [of compare swap rnd p r s k] quicksort_small)
    next
      case False
      then have "p < q" using round(1) by (auto simp: partitioned_def)
      then show ?thesis using quicksort_progress [OF IH less.prems(3) m less.prems(4) q] by blast
    qed
  qed
qed

text \<open>And it does not return when they do.\<close>

definition stuck :: "(nat \<Rightarrow> u32) \<Rightarrow> nat \<Rightarrow> nat \<Rightarrow> 's \<Rightarrow> nat \<Rightarrow> bool" where
  "stuck rnd p r s k \<longleftrightarrow> valid s \<and> 2 \<le> r - p \<and> r \<le> length (view s) \<and> min_first p r s \<and> (\<forall>j \<ge> k. unat (rnd j) mod (r - p) = 0)"

lemma stuck_round:
  assumes "stuck rnd p r s k" "partition_range compare swap p r (choose_pivot swap p r (rnd k) s) = (q, s1)"
  shows "q = p" "stuck rnd p r s1 (k + 1)"
proof -
  have s: "valid s" "2 \<le> r - p" "r \<le> length (view s)" "min_first p r s" "unat (rnd k) mod (r - p) = 0"
    using assms(1) by (auto simp: stuck_def)
  note round = round_spec [OF s(1-3) assms(2)]
  show q: "q = p" using round(5) [OF s(4)] s(5) by simp
  show "stuck rnd p r s1 (k + 1)" using round(1,3,4) q assms(1) by (auto simp: stuck_def partitioned_def)
qed

lemma quicksort_diverges:
  assumes "stuck rnd p r s k"
  shows "quicksort compare swap rnd p r s k = None"
proof (rule ccontr)
  assume "quicksort compare swap rnd p r s k \<noteq> None"
  then obtain y where y: "quicksort compare swap rnd p r s k = Some y" by blast
  let ?P = "\<lambda>c w rnd p r s k y. c = compare \<and> w = swap \<longrightarrow> \<not> stuck rnd p r s k \<and> (r - p < 2 \<longrightarrow> y = (s, k))"
  have "?P compare swap rnd p r s k y"
  proof (rule quicksort.raw_induct [of ?P, OF _ y], intro impI)
    fix qs c w rnd p r s k y
    assume IH: "\<And>c w rnd p r s k y. qs c w rnd p r s k = Some y \<Longrightarrow> ?P c w rnd p r s k y"
      and body: "(if r - p < 2 then Some (s, k)
        else let (q, s) = partition_range c w p r (choose_pivot w p r (rnd k) s)
             in Option.bind (qs c w rnd p q s (k + 1)) (\<lambda>(s, k). qs c w rnd q r s k)) = Some y"
      and cw: "c = compare \<and> w = swap"
    have "\<not> stuck rnd p r s k"
    proof
      assume s: "stuck rnd p r s k"
      obtain q s1 where q: "partition_range compare swap p r (choose_pivot swap p r (rnd k) s) = (q, s1)" by fastforce
      note stk = stuck_round [OF s q]
      have "2 \<le> r - p" using s by (simp add: stuck_def)
      then obtain s2 k2 where s2: "qs compare swap rnd p p s1 (k + 1) = Some (s2, k2)" "qs compare swap rnd p r s2 k2 = Some y"
        using body q stk(1) cw by (auto simp: bind_eq_Some_conv)
      then have "s2 = s1" "k2 = k + 1" using IH [OF s2(1)] by auto
      then show False using IH [OF s2(2)] stk(2) by simp
    qed
    moreover have "r - p < 2 \<longrightarrow> y = (s, k)" using body by auto
    ultimately show "\<not> stuck rnd p r s k \<and> (r - p < 2 \<longrightarrow> y = (s, k))" by blast
  qed
  then show False using assms by simp
qed

end

end
