(* ===== verification/Ovsdb_Data.thy ===== *)
theory Ovsdb_Data
  imports Complex_Main Quicksort Hash
begin

text \<open>
  The sets and maps of the database, lib/ovsdb-data.c and lib/ovsdb-data.h: atoms and their order,
  and the operations on data, which keep their keys sorted and unique with the routine of
  \<open>Quicksort\<close>.

  An atom carries its type, where the code passes the type along. Finite doubles are reals; JSON has
  no other. A datum is the lists of its keys and values; no values (\<open>NULL\<close>) are the empty list. A
  type is the pair of the key type and the value type, as \<open>kt\<close> and \<open>vt\<close>; the numbers that the random
  number generator returns, and how many were used, are arguments. \<open>None\<close> is a failed assertion or a
  computation that does not return.
\<close>

section \<open>Atoms\<close>

datatype ovsdb_atomic_type = OVSDB_TYPE_VOID | OVSDB_TYPE_INTEGER | OVSDB_TYPE_REAL | OVSDB_TYPE_BOOLEAN
  | OVSDB_TYPE_STRING | OVSDB_TYPE_UUID

datatype uuid = UUID u32 u32 u32 u32

datatype ovsdb_atom = Integer int | Real real | Boolean bool | String string | Uuid uuid

fun uuid_compare_3way :: "uuid \<Rightarrow> uuid \<Rightarrow> int" where
  "uuid_compare_3way (UUID a0 a1 a2 a3) (UUID b0 b1 b2 b3) =
     (if a0 \<noteq> b0 then if a0 > b0 then 1 else - 1
      else if a1 \<noteq> b1 then if a1 > b1 then 1 else - 1
      else if a2 \<noteq> b2 then if a2 > b2 then 1 else - 1
      else if a3 \<noteq> b3 then if a3 > b3 then 1 else - 1
      else 0)"

text \<open>\<open>strcmp\<close> compares the characters as unsigned numbers.\<close>

fun c_strcmp :: "string \<Rightarrow> string \<Rightarrow> int" where
  "c_strcmp [] [] = 0"
| "c_strcmp [] (b # bs) = - 1"
| "c_strcmp (a # as) [] = 1"
| "c_strcmp (a # as) (b # bs) = (if a = b then c_strcmp as bs else if (of_char a :: nat) < of_char b then - 1 else 1)"

text \<open>No atom has the type \<open>void\<close>: there the code stops (\<open>OVS_NOT_REACHED\<close>).\<close>

fun ovsdb_atom_init_default :: "ovsdb_atomic_type \<Rightarrow> ovsdb_atom option" where
  "ovsdb_atom_init_default OVSDB_TYPE_VOID = None"
| "ovsdb_atom_init_default OVSDB_TYPE_INTEGER = Some (Integer 0)"
| "ovsdb_atom_init_default OVSDB_TYPE_REAL = Some (Real 0)"
| "ovsdb_atom_init_default OVSDB_TYPE_BOOLEAN = Some (Boolean False)"
| "ovsdb_atom_init_default OVSDB_TYPE_STRING = Some (String [])"
| "ovsdb_atom_init_default OVSDB_TYPE_UUID = Some (Uuid (UUID 0 0 0 0))"

fun ovsdb_atom_is_default :: "ovsdb_atom \<Rightarrow> ovsdb_atomic_type \<Rightarrow> bool option" where
  "ovsdb_atom_is_default (Integer a) OVSDB_TYPE_INTEGER = Some (a = 0)"
| "ovsdb_atom_is_default (Real a) OVSDB_TYPE_REAL = Some (a = 0)"
| "ovsdb_atom_is_default (Boolean a) OVSDB_TYPE_BOOLEAN = Some (a = False)"
| "ovsdb_atom_is_default (String a) OVSDB_TYPE_STRING = Some (a = [])"
| "ovsdb_atom_is_default (Uuid a) OVSDB_TYPE_UUID = Some (a = UUID 0 0 0 0)"
| "ovsdb_atom_is_default _ _ = None"

text \<open>Comparing atoms of a type other than the one given is not reached; it gives 0 here.\<close>

fun ovsdb_atom_compare_3way :: "ovsdb_atom \<Rightarrow> ovsdb_atom \<Rightarrow> ovsdb_atomic_type \<Rightarrow> int" where
  "ovsdb_atom_compare_3way (Integer a) (Integer b) OVSDB_TYPE_INTEGER = (if a < b then - 1 else if a > b then 1 else 0)"
| "ovsdb_atom_compare_3way (Real a) (Real b) OVSDB_TYPE_REAL = (if a < b then - 1 else if a > b then 1 else 0)"
| "ovsdb_atom_compare_3way (Boolean a) (Boolean b) OVSDB_TYPE_BOOLEAN = of_bool a - of_bool b"
| "ovsdb_atom_compare_3way (String a) (String b) OVSDB_TYPE_STRING = c_strcmp a b"
| "ovsdb_atom_compare_3way (Uuid a) (Uuid b) OVSDB_TYPE_UUID = uuid_compare_3way a b"
| "ovsdb_atom_compare_3way _ _ _ = 0"

definition ovsdb_atom_equals :: "ovsdb_atom \<Rightarrow> ovsdb_atom \<Rightarrow> ovsdb_atomic_type \<Rightarrow> bool" where
  "ovsdb_atom_equals a b t \<longleftrightarrow> ovsdb_atom_compare_3way a b t = 0"

section \<open>Data\<close>

record ovsdb_datum =
  d_keys :: "ovsdb_atom list"
  d_values :: "ovsdb_atom list"

abbreviation d_n :: "ovsdb_datum \<Rightarrow> nat" where
  "d_n d \<equiv> length (d_keys d)"

datatype datum_error = Map_Duplicate_Key | Set_Duplicate

definition ovsdb_datum_init_empty :: ovsdb_datum where
  "ovsdb_datum_init_empty = \<lparr>d_keys = [], d_values = []\<rparr>"

definition ovsdb_datum_sort_compare_cb :: "ovsdb_atomic_type \<Rightarrow> ovsdb_atomic_type \<Rightarrow> nat \<Rightarrow> nat \<Rightarrow> ovsdb_datum \<Rightarrow> int" where
  "ovsdb_datum_sort_compare_cb kt vt a b d =
     (let retval = ovsdb_atom_compare_3way (d_keys d ! a) (d_keys d ! b) kt
      in if retval \<noteq> 0 \<or> vt = OVSDB_TYPE_VOID then retval
         else ovsdb_atom_compare_3way (d_values d ! a) (d_values d ! b) vt)"

definition ovsdb_datum_sort_swap_cb :: "nat \<Rightarrow> nat \<Rightarrow> ovsdb_datum \<Rightarrow> ovsdb_datum" where
  "ovsdb_datum_sort_swap_cb a b d =
     (let d = d\<lparr>d_keys := swapped a b (d_keys d)\<rparr>
      in if d_values d \<noteq> [] then d\<lparr>d_values := swapped a b (d_values d)\<rparr> else d)"

definition datum_sort :: "ovsdb_datum \<Rightarrow> ovsdb_atomic_type \<Rightarrow> ovsdb_atomic_type \<Rightarrow> (nat \<Rightarrow> u32) \<Rightarrow> nat \<Rightarrow> (ovsdb_datum \<times> nat) option" where
  "datum_sort d kt vt rnd k = ovs_sort (ovsdb_datum_sort_compare_cb kt vt) ovsdb_datum_sort_swap_cb rnd (d_n d) d k"

definition ovsdb_datum_sort ::
  "ovsdb_datum \<Rightarrow> ovsdb_atomic_type \<Rightarrow> (nat \<Rightarrow> u32) \<Rightarrow> nat \<Rightarrow> (datum_error option \<times> ovsdb_datum \<times> nat) option" where
  "ovsdb_datum_sort d kt rnd k =
     (if d_n d < 2 then Some (None, d, k)
      else
        case datum_sort d kt OVSDB_TYPE_VOID rnd k of
          None \<Rightarrow> None
        | Some (d, k) \<Rightarrow>
            Some (if list_ex (\<lambda>i. ovsdb_atom_equals (d_keys d ! i) (d_keys d ! (i + 1)) kt) [0..<d_n d - 1]
                  then if d_values d \<noteq> [] then Some Map_Duplicate_Key else Some Set_Duplicate
                  else None, d, k))"

definition ovsdb_datum_sort_assert :: "ovsdb_datum \<Rightarrow> ovsdb_atomic_type \<Rightarrow> (nat \<Rightarrow> u32) \<Rightarrow> nat \<Rightarrow> (ovsdb_datum \<times> nat) option" where
  "ovsdb_datum_sort_assert d kt rnd k =
     (case ovsdb_datum_sort d kt rnd k of Some (None, d, k) \<Rightarrow> Some (d, k) | _ \<Rightarrow> None)"

text \<open>The loop of \<open>ovsdb_datum_sort_unique\<close>: \<open>dst\<close> and the arrays after the step for \<open>src\<close>.\<close>

definition unique_step :: "ovsdb_atomic_type \<Rightarrow> ovsdb_atomic_type \<Rightarrow> nat \<times> ovsdb_datum \<Rightarrow> nat \<Rightarrow> nat \<times> ovsdb_datum" where
  "unique_step kt vt = (\<lambda>(dst, d) src.
     if ovsdb_atom_equals (d_keys d ! src) (d_keys d ! (dst - 1)) kt then (dst, d)
     else
       (dst + 1,
        if src \<noteq> dst then
          let d = d\<lparr>d_keys := (d_keys d)[dst := d_keys d ! src]\<rparr>
          in if vt \<noteq> OVSDB_TYPE_VOID then d\<lparr>d_values := (d_values d)[dst := d_values d ! src]\<rparr> else d
        else d))"

definition ovsdb_datum_sort_unique ::
  "ovsdb_datum \<Rightarrow> ovsdb_atomic_type \<Rightarrow> ovsdb_atomic_type \<Rightarrow> (nat \<Rightarrow> u32) \<Rightarrow> nat \<Rightarrow> (u64 \<times> ovsdb_datum \<times> nat) option" where
  "ovsdb_datum_sort_unique d kt vt rnd k =
     (if d_n d < 2 then Some (0, d, k)
      else
        case datum_sort d kt vt rnd k of
          None \<Rightarrow> None
        | Some (d, k) \<Rightarrow>
            let src = d_n d; (dst, d) = foldl (unique_step kt vt) (1, d) [1..<src]
            in Some (of_nat dst - of_nat src, \<lparr>d_keys = take dst (d_keys d), d_values = take dst (d_values d)\<rparr>, k))"

subsection \<open>Comparison\<close>

fun atom_arrays_compare_3way :: "ovsdb_atom list \<Rightarrow> ovsdb_atom list \<Rightarrow> ovsdb_atomic_type \<Rightarrow> int" where
  "atom_arrays_compare_3way (a # as) (b # bs) t =
     (let cmp = ovsdb_atom_compare_3way a b t in if cmp \<noteq> 0 then cmp else atom_arrays_compare_3way as bs t)"
| "atom_arrays_compare_3way _ _ t = 0"

definition ovsdb_datum_compare_3way :: "ovsdb_datum \<Rightarrow> ovsdb_datum \<Rightarrow> ovsdb_atomic_type \<Rightarrow> ovsdb_atomic_type \<Rightarrow> int" where
  "ovsdb_datum_compare_3way a b kt vt =
     (if d_n a \<noteq> d_n b then if d_n a < d_n b then - 1 else 1
      else
        let cmp = atom_arrays_compare_3way (d_keys a) (d_keys b) kt
        in if cmp \<noteq> 0 then cmp
           else if vt = OVSDB_TYPE_VOID then 0 else atom_arrays_compare_3way (d_values a) (d_values b) vt)"

definition ovsdb_datum_equals :: "ovsdb_datum \<Rightarrow> ovsdb_datum \<Rightarrow> ovsdb_atomic_type \<Rightarrow> ovsdb_atomic_type \<Rightarrow> bool" where
  "ovsdb_datum_equals a b kt vt \<longleftrightarrow> ovsdb_datum_compare_3way a b kt vt = 0"

subsection \<open>Search\<close>

partial_function (option) find_key_loop :: "ovsdb_atom list \<Rightarrow> ovsdb_atom \<Rightarrow> ovsdb_atomic_type \<Rightarrow> u32 \<Rightarrow> u32 \<Rightarrow> u32 option" where
  "find_key_loop ks key kt low high =
     (if low < high then
        let idx = (low + high) div 2;
            cmp = ovsdb_atom_compare_3way key (ks ! unat idx) kt
        in if cmp < 0 then find_key_loop ks key kt low idx
           else if cmp > 0 then find_key_loop ks key kt (idx + 1) high
           else Some idx
      else Some UINT_MAX)"

definition ovsdb_datum_find_key :: "ovsdb_datum \<Rightarrow> ovsdb_atom \<Rightarrow> ovsdb_atomic_type \<Rightarrow> u32 option" where
  "ovsdb_datum_find_key d key kt = find_key_loop (d_keys d) key kt 0 (of_nat (d_n d))"

definition ovsdb_datum_find_key_value ::
  "ovsdb_datum \<Rightarrow> ovsdb_atom \<Rightarrow> ovsdb_atomic_type \<Rightarrow> ovsdb_atom option \<Rightarrow> ovsdb_atomic_type \<Rightarrow> u32 option" where
  "ovsdb_datum_find_key_value d key kt value vt =
     map_option
       (\<lambda>idx. if idx \<noteq> UINT_MAX \<and> vt \<noteq> OVSDB_TYPE_VOID \<and> \<not> ovsdb_atom_equals (d_values d ! unat idx) (the value) vt
              then UINT_MAX else idx)
       (ovsdb_datum_find_key d key kt)"

definition ovsdb_datum_find :: "ovsdb_datum \<Rightarrow> nat \<Rightarrow> ovsdb_datum \<Rightarrow> ovsdb_atomic_type \<Rightarrow> ovsdb_atomic_type \<Rightarrow> u32 option" where
  "ovsdb_datum_find a i b kt vt =
     ovsdb_datum_find_key_value b (d_keys a ! i) kt (if d_values a \<noteq> [] then Some (d_values a ! i) else None) vt"

text \<open>The loops of \<open>ovsdb_datum_includes_all\<close> and \<open>ovsdb_datum_excludes_all\<close>, over the indexes left.\<close>

fun includes_loop :: "ovsdb_datum \<Rightarrow> ovsdb_datum \<Rightarrow> ovsdb_atomic_type \<Rightarrow> ovsdb_atomic_type \<Rightarrow> nat list \<Rightarrow> bool option" where
  "includes_loop a b kt vt [] = Some True"
| "includes_loop a b kt vt (i # is) =
     (case ovsdb_datum_find a i b kt vt of
        None \<Rightarrow> None
      | Some idx \<Rightarrow> if idx = UINT_MAX then Some False else includes_loop a b kt vt is)"

definition ovsdb_datum_includes_all :: "ovsdb_datum \<Rightarrow> ovsdb_datum \<Rightarrow> ovsdb_atomic_type \<Rightarrow> ovsdb_atomic_type \<Rightarrow> bool option" where
  "ovsdb_datum_includes_all a b kt vt =
     (if d_n a > d_n b then Some False else includes_loop a b kt vt [0..<d_n a])"

fun excludes_loop :: "ovsdb_datum \<Rightarrow> ovsdb_datum \<Rightarrow> ovsdb_atomic_type \<Rightarrow> ovsdb_atomic_type \<Rightarrow> nat list \<Rightarrow> bool option" where
  "excludes_loop a b kt vt [] = Some True"
| "excludes_loop a b kt vt (i # is) =
     (case ovsdb_datum_find a i b kt vt of
        None \<Rightarrow> None
      | Some idx \<Rightarrow> if idx \<noteq> UINT_MAX then Some False else excludes_loop a b kt vt is)"

definition ovsdb_datum_excludes_all :: "ovsdb_datum \<Rightarrow> ovsdb_datum \<Rightarrow> ovsdb_atomic_type \<Rightarrow> ovsdb_atomic_type \<Rightarrow> bool option" where
  "ovsdb_datum_excludes_all a b kt vt = excludes_loop a b kt vt [0..<d_n a]"

subsection \<open>Set operations\<close>

definition ovsdb_datum_remove_unsafe :: "ovsdb_datum \<Rightarrow> nat \<Rightarrow> ovsdb_atomic_type \<Rightarrow> ovsdb_datum" where
  "ovsdb_datum_remove_unsafe d idx vt =
     (let n = d_n d
      in \<lparr>d_keys = butlast ((d_keys d)[idx := d_keys d ! (n - 1)]),
          d_values = (if vt \<noteq> OVSDB_TYPE_VOID then butlast ((d_values d)[idx := d_values d ! (n - 1)]) else d_values d)\<rparr>)"

definition ovsdb_datum_add_unsafe :: "ovsdb_datum \<Rightarrow> ovsdb_atom \<Rightarrow> ovsdb_atom \<Rightarrow> ovsdb_atomic_type \<Rightarrow> ovsdb_datum" where
  "ovsdb_datum_add_unsafe d key value vt =
     \<lparr>d_keys = d_keys d @ [key], d_values = (if vt \<noteq> OVSDB_TYPE_VOID then d_values d @ [value] else d_values d)\<rparr>"

text \<open>
  The loop of \<open>ovsdb_datum_union\<close>, over the indexes of \<open>b\<close> left. \<open>a\<close> is the part of the array that
  \<open>a->n\<close> covers and is searched, \<open>new\<close> are the elements that the loop has put behind it.
\<close>

fun union_loop :: "ovsdb_datum \<Rightarrow> ovsdb_atomic_type \<Rightarrow> ovsdb_atomic_type \<Rightarrow> bool \<Rightarrow> ovsdb_datum \<Rightarrow> ovsdb_datum \<Rightarrow> nat list \<Rightarrow>
    (ovsdb_datum \<times> ovsdb_datum) option" where
  "union_loop b kt vt replace a new [] = Some (a, new)"
| "union_loop b kt vt replace a new (bi # bis) =
     (case ovsdb_datum_find_key a (d_keys b ! bi) kt of
        None \<Rightarrow> None
      | Some ai \<Rightarrow>
          if ai = UINT_MAX then
            union_loop b kt vt replace a (ovsdb_datum_add_unsafe new (d_keys b ! bi) (d_values b ! bi) vt) bis
          else
            union_loop b kt vt replace
              (if replace \<and> vt \<noteq> OVSDB_TYPE_VOID then a\<lparr>d_values := (d_values a)[unat ai := d_values b ! bi]\<rparr> else a) new bis)"

definition ovsdb_datum_union ::
  "ovsdb_datum \<Rightarrow> ovsdb_datum \<Rightarrow> ovsdb_atomic_type \<Rightarrow> ovsdb_atomic_type \<Rightarrow> bool \<Rightarrow> (nat \<Rightarrow> u32) \<Rightarrow> nat \<Rightarrow> (ovsdb_datum \<times> nat) option" where
  "ovsdb_datum_union a b kt vt replace rnd k =
     (case union_loop b kt vt replace a ovsdb_datum_init_empty [0..<d_n b] of
        None \<Rightarrow> None
      | Some (a, new) \<Rightarrow>
          if d_n new \<noteq> 0 then
            (case ovsdb_datum_sort \<lparr>d_keys = d_keys a @ d_keys new, d_values = d_values a @ d_values new\<rparr> kt rnd k of
               Some (None, d, k) \<Rightarrow> Some (d, k)
             | _ \<Rightarrow> None)
          else Some (a, k))"

text \<open>The loop of \<open>ovsdb_datum_subtract\<close>: the datum and whether it changed.\<close>

function subtract_loop :: "ovsdb_datum \<Rightarrow> ovsdb_atomic_type \<Rightarrow> ovsdb_atomic_type \<Rightarrow> ovsdb_atomic_type \<Rightarrow> ovsdb_datum \<Rightarrow> nat \<Rightarrow> bool \<Rightarrow>
    (ovsdb_datum \<times> bool) option" where
  "subtract_loop b kt a_vt b_vt a i changed =
     (if i < d_n a then
        case ovsdb_datum_find a i b kt b_vt of
          None \<Rightarrow> None
        | Some idx \<Rightarrow>
            if idx \<noteq> UINT_MAX then subtract_loop b kt a_vt b_vt (ovsdb_datum_remove_unsafe a i a_vt) i True
            else subtract_loop b kt a_vt b_vt a (i + 1) changed
      else Some (a, changed))"
  by pat_completeness auto
termination
  by (relation "measure (\<lambda>(b, kt, a_vt, b_vt, a, i, changed). d_n a - i)")
     (auto simp: ovsdb_datum_remove_unsafe_def Let_def)

declare subtract_loop.simps [simp del]

definition ovsdb_datum_subtract ::
  "ovsdb_datum \<Rightarrow> ovsdb_atomic_type \<Rightarrow> ovsdb_atomic_type \<Rightarrow> ovsdb_datum \<Rightarrow> ovsdb_atomic_type \<Rightarrow> ovsdb_atomic_type \<Rightarrow> (nat \<Rightarrow> u32) \<Rightarrow> nat \<Rightarrow>
   (ovsdb_datum \<times> nat) option" where
  "ovsdb_datum_subtract a a_kt a_vt b b_kt b_vt rnd k =
     (if a_kt = b_kt \<and> (a_vt = b_vt \<or> b_vt = OVSDB_TYPE_VOID) then
        case subtract_loop b a_kt a_vt b_vt a 0 False of
          None \<Rightarrow> None
        | Some (a, changed) \<Rightarrow> if changed then ovsdb_datum_sort_assert a a_kt rnd k else Some (a, k)
      else None)"

end
