(* ===== verification/Three_Way.thy ===== *)
theory Three_Way
  imports Main
begin

text \<open>
  Comparison functions in the style of \<open>strcmp\<close> and \<open>memcmp\<close>: the contract that they decide a linear
  order, and what follows from it. Atoms of a database type and arrays of bytes provide it.
\<close>

text \<open>A comparison that returns a negative number, zero or a positive number for a linear order.\<close>

locale three_way =
  fixes cmp :: "'a \<Rightarrow> 'a \<Rightarrow> int"
    and dom :: "'a \<Rightarrow> bool"
  assumes zero_iff: "dom x \<Longrightarrow> dom y \<Longrightarrow> cmp x y = 0 \<longleftrightarrow> x = y"
    and converse: "dom x \<Longrightarrow> dom y \<Longrightarrow> cmp y x < 0 \<longleftrightarrow> 0 < cmp x y"
    and less_trans: "dom x \<Longrightarrow> dom y \<Longrightarrow> dom z \<Longrightarrow> cmp x y < 0 \<Longrightarrow> cmp y z < 0 \<Longrightarrow> cmp x z < 0"
begin

lemma le_cases: "dom x \<Longrightarrow> dom y \<Longrightarrow> cmp x y \<le> 0 \<or> cmp y x \<le> 0"
  using converse [of x y] by linarith

lemma le_trans: "dom x \<Longrightarrow> dom y \<Longrightarrow> dom z \<Longrightarrow> cmp x y \<le> 0 \<Longrightarrow> cmp y z \<le> 0 \<Longrightarrow> cmp x z \<le> 0"
  using zero_iff [of x y] zero_iff [of y z] less_trans [of x y z] by (metis order_le_less)

lemma le_less_trans: "dom x \<Longrightarrow> dom y \<Longrightarrow> dom z \<Longrightarrow> cmp x y \<le> 0 \<Longrightarrow> cmp y z < 0 \<Longrightarrow> cmp x z < 0"
  using zero_iff [of x y] less_trans [of x y z] by (metis order_le_less)

lemma antisym: "dom x \<Longrightarrow> dom y \<Longrightarrow> cmp x y \<le> 0 \<Longrightarrow> cmp y x \<le> 0 \<Longrightarrow> x = y"
  using converse [of x y] converse [of y x] zero_iff [of x y] by linarith

lemma irrefl: "dom x \<Longrightarrow> \<not> cmp x x < 0"
  using zero_iff [of x x] by simp

lemma less_iff: "dom x \<Longrightarrow> dom y \<Longrightarrow> cmp x y < 0 \<longleftrightarrow> cmp x y \<le> 0 \<and> x \<noteq> y"
  using zero_iff [of x y] by (auto simp: order_less_le)

end

end
