(* ===== verification/Ovsdb_Data_Props.thy ===== *)
theory Ovsdb_Data_Props
  imports Ovsdb_Data Three_Way
begin

text \<open>
  What the operations of \<open>Ovsdb_Data\<close> promise: atoms of a type are linearly ordered; sorting puts the
  elements of a datum in order and finds duplicates; the search is correct and returns; union and
  difference are those of finite sets and maps.
\<close>

section \<open>The order of atoms\<close>

fun atom_of_type :: "ovsdb_atomic_type \<Rightarrow> ovsdb_atom \<Rightarrow> bool" where
  "atom_of_type OVSDB_TYPE_INTEGER (Integer _) \<longleftrightarrow> True"
| "atom_of_type OVSDB_TYPE_REAL (Real _) \<longleftrightarrow> True"
| "atom_of_type OVSDB_TYPE_BOOLEAN (Boolean _) \<longleftrightarrow> True"
| "atom_of_type OVSDB_TYPE_STRING (String _) \<longleftrightarrow> True"
| "atom_of_type OVSDB_TYPE_UUID (Uuid _) \<longleftrightarrow> True"
| "atom_of_type _ _ \<longleftrightarrow> False"

lemma strcmp_zero: "c_strcmp a b = 0 \<longleftrightarrow> a = b"
  by (induction a b rule: c_strcmp.induct) auto

lemma strcmp_converse: "c_strcmp b a < 0 \<longleftrightarrow> 0 < c_strcmp a b"
proof (induction a b rule: c_strcmp.induct)
  case (4 a as b bs)
  then show ?case using of_char_eq_iff [where ?'a = nat, of a b] by (auto simp: not_less)
qed auto

lemma strcmp_trans: "c_strcmp a b < 0 \<Longrightarrow> c_strcmp b c < 0 \<Longrightarrow> c_strcmp a c < 0"
proof (induction a b arbitrary: c rule: c_strcmp.induct)
  case (2 b bs)
  then show ?case by (cases c) auto
next
  case (4 a as b bs)
  then show ?case by (cases c) (auto split: if_splits)
qed auto

lemma uuid_zero: "uuid_compare_3way a b = 0 \<longleftrightarrow> a = b"
  by (cases a; cases b) auto

lemma uuid_converse: "uuid_compare_3way b a < 0 \<longleftrightarrow> 0 < uuid_compare_3way a b"
  by (cases a; cases b) auto

lemma uuid_trans: "uuid_compare_3way a b < 0 \<Longrightarrow> uuid_compare_3way b c < 0 \<Longrightarrow> uuid_compare_3way a c < 0"
  by (cases a; cases b; cases c) (auto split: if_splits)

interpretation atoms: three_way "\<lambda>a b. ovsdb_atom_compare_3way a b t" "atom_of_type t" for t
proof
  fix x y z assume x: "atom_of_type t x" and y: "atom_of_type t y"
  show "ovsdb_atom_compare_3way x y t = 0 \<longleftrightarrow> x = y"
    using x y by (cases t; cases x; cases y) (auto simp: strcmp_zero uuid_zero)
  show "ovsdb_atom_compare_3way y x t < 0 \<longleftrightarrow> 0 < ovsdb_atom_compare_3way x y t"
    using x y by (cases t; cases x; cases y) (auto simp: strcmp_converse uuid_converse)
  assume "atom_of_type t z" "ovsdb_atom_compare_3way x y t < 0" "ovsdb_atom_compare_3way y z t < 0"
  then show "ovsdb_atom_compare_3way x z t < 0"
    using x y by (cases t; cases x; cases y; cases z) (auto elim: strcmp_trans uuid_trans simp: of_bool_def split: if_splits)
qed

lemma ovsdb_atom_equals_iff: "atom_of_type t a \<Longrightarrow> atom_of_type t b \<Longrightarrow> ovsdb_atom_equals a b t \<longleftrightarrow> a = b"
  unfolding ovsdb_atom_equals_def by (rule atoms.zero_iff)

section \<open>The elements of a datum\<close>

text \<open>An element of a set is a key with no value, an element of a map a key with its value.\<close>

definition elements :: "ovsdb_datum \<Rightarrow> (ovsdb_atom \<times> ovsdb_atom option) list" where
  "elements d = (if d_values d = [] then map (\<lambda>k. (k, None)) (d_keys d) else zip (d_keys d) (map Some (d_values d)))"

text \<open>A datum of a type, in any order.\<close>

definition datum_of_type :: "ovsdb_atomic_type \<Rightarrow> ovsdb_atomic_type \<Rightarrow> ovsdb_datum \<Rightarrow> bool" where
  "datum_of_type kt vt d \<longleftrightarrow> list_all (atom_of_type kt) (d_keys d) \<and>
     (if vt = OVSDB_TYPE_VOID then d_values d = []
      else length (d_values d) = d_n d \<and> list_all (atom_of_type vt) (d_values d))"

text \<open>A datum as the operations keep it: the keys sorted and unique.\<close>

definition datum_ok :: "ovsdb_atomic_type \<Rightarrow> ovsdb_atomic_type \<Rightarrow> ovsdb_datum \<Rightarrow> bool" where
  "datum_ok kt vt d \<longleftrightarrow> datum_of_type kt vt d \<and> sorted_wrt (\<lambda>a b. ovsdb_atom_compare_3way a b kt < 0) (d_keys d)"

lemma length_elements: "datum_of_type kt vt d \<Longrightarrow> length (elements d) = d_n d"
  by (auto simp: elements_def datum_of_type_def split: if_splits)

lemma keys_elements: "datum_of_type kt vt d \<Longrightarrow> map fst (elements d) = d_keys d"
  by (auto simp: elements_def datum_of_type_def comp_def split: if_splits)

lemma elements_nth:
  "datum_of_type kt vt d \<Longrightarrow> i < d_n d \<Longrightarrow>
   elements d ! i = (d_keys d ! i, if vt = OVSDB_TYPE_VOID then None else Some (d_values d ! i))"
  by (auto simp: elements_def datum_of_type_def split: if_splits)

lemma key_of_type: "datum_of_type kt vt d \<Longrightarrow> i < d_n d \<Longrightarrow> atom_of_type kt (d_keys d ! i)"
  by (auto simp: datum_of_type_def list_all_length)

lemma value_of_type_nth: "datum_of_type kt vt d \<Longrightarrow> i < d_n d \<Longrightarrow> vt \<noteq> OVSDB_TYPE_VOID \<Longrightarrow> atom_of_type vt (d_values d ! i)"
  by (auto simp: datum_of_type_def list_all_length)

lemma datum_of_elements:
  "datum_of_type kt vt d \<Longrightarrow> datum_of_type kt vt e \<Longrightarrow> elements d = elements e \<Longrightarrow> d = e"
proof -
  assume t: "datum_of_type kt vt d" "datum_of_type kt vt e" and eq: "elements d = elements e"
  have k: "d_keys d = d_keys e" using keys_elements [OF t(1)] keys_elements [OF t(2)] eq by simp
  have "d_values d = d_values e"
  proof (cases "vt = OVSDB_TYPE_VOID")
    case True
    then show ?thesis using t by (simp add: datum_of_type_def)
  next
    case False
    have l: "length (d_values d) = d_n d" "length (d_values e) = d_n e" using t False by (auto simp: datum_of_type_def)
    show ?thesis
    proof (rule nth_equalityI)
      show "length (d_values d) = length (d_values e)" using l k by simp
      fix i assume "i < length (d_values d)"
      then have i: "i < d_n d" "i < d_n e" using l k by auto
      show "d_values d ! i = d_values e ! i"
        using elements_nth [OF t(1) i(1)] elements_nth [OF t(2) i(2)] eq False by simp
    qed
  qed
  then show "d = e" using k by simp
qed

lemma element_types:
  assumes "datum_of_type kt vt d" "x \<in> set (elements d)"
  shows "atom_of_type kt (fst x)" "vt \<noteq> OVSDB_TYPE_VOID \<Longrightarrow> \<exists>v. snd x = Some v \<and> atom_of_type vt v"
    "vt = OVSDB_TYPE_VOID \<Longrightarrow> snd x = None"
proof -
  obtain i where "i < d_n d" "x = elements d ! i"
    using assms(2) length_elements [OF assms(1)] by (auto simp: in_set_conv_nth)
  then have x: "x = (d_keys d ! i, if vt = OVSDB_TYPE_VOID then None else Some (d_values d ! i))" "i < d_n d"
    using elements_nth [OF assms(1)] by auto
  show "atom_of_type kt (fst x)" using key_of_type [OF assms(1) x(2)] x(1) by simp
  show "vt \<noteq> OVSDB_TYPE_VOID \<Longrightarrow> \<exists>v. snd x = Some v \<and> atom_of_type vt v"
    using value_of_type_nth [OF assms(1) x(2)] x(1) by simp
  show "vt = OVSDB_TYPE_VOID \<Longrightarrow> snd x = None" using x(1) by simp
qed

section \<open>Sorting\<close>

text \<open>The order that the comparison callback decides, on elements.\<close>

definition element_le :: "ovsdb_atomic_type \<Rightarrow> ovsdb_atomic_type \<Rightarrow> ovsdb_atom \<times> ovsdb_atom option \<Rightarrow> ovsdb_atom \<times> ovsdb_atom option \<Rightarrow> bool" where
  "element_le kt ct x y \<longleftrightarrow>
     (let c = ovsdb_atom_compare_3way (fst x) (fst y) kt
      in if c \<noteq> 0 \<or> ct = OVSDB_TYPE_VOID then c \<le> 0 else ovsdb_atom_compare_3way (the (snd x)) (the (snd y)) ct \<le> 0)"

text \<open>The callbacks compare the keys only (\<open>ct\<close> is \<open>void\<close>) or the keys and the values.\<close>

definition sortable_as :: "ovsdb_atomic_type \<Rightarrow> ovsdb_atomic_type \<Rightarrow> ovsdb_atomic_type \<Rightarrow> ovsdb_datum \<Rightarrow> bool" where
  "sortable_as kt vt ct d \<longleftrightarrow> datum_of_type kt vt d \<and> (ct = OVSDB_TYPE_VOID \<or> ct = vt)"

lemma swap_cb_values:
  "d_values (ovsdb_datum_sort_swap_cb a b d) = (if d_values d = [] then [] else swapped a b (d_values d))"
  "d_keys (ovsdb_datum_sort_swap_cb a b d) = swapped a b (d_keys d)"
  by (auto simp: ovsdb_datum_sort_swap_cb_def Let_def)

lemma swap_cb_of_type:
  assumes "datum_of_type kt vt d" "a < d_n d" "b < d_n d"
  shows "datum_of_type kt vt (ovsdb_datum_sort_swap_cb a b d)"
  using assms by (auto simp: datum_of_type_def swap_cb_values list_all_length nth_list_update split: if_splits)

lemma swap_cb_elements:
  assumes "datum_of_type kt vt d" "a < d_n d" "b < d_n d"
  shows "elements (ovsdb_datum_sort_swap_cb a b d) = swapped a b (elements d)"
proof (rule nth_equalityI)
  let ?e = "ovsdb_datum_sort_swap_cb a b d"
  have t: "datum_of_type kt vt ?e" by (rule swap_cb_of_type [OF assms])
  show "length (elements ?e) = length (swapped a b (elements d))"
    using length_elements [OF t] length_elements [OF assms(1)] by (simp add: swap_cb_values)
  fix i assume "i < length (elements ?e)"
  then have i: "i < d_n ?e" "i < d_n d" using length_elements [OF t] by (auto simp: swap_cb_values)
  have v: "vt \<noteq> OVSDB_TYPE_VOID \<Longrightarrow> d_values d \<noteq> [] \<and> length (d_values d) = d_n d"
    using assms by (auto simp: datum_of_type_def)
  show "elements ?e ! i = swapped a b (elements d) ! i"
    using elements_nth [OF t i(1)] elements_nth [OF assms(1) i(2)] elements_nth [OF assms(1,2)] elements_nth [OF assms(1,3)]
      v assms(2,3) i length_elements [OF assms(1)]
    by (auto simp: swap_cb_values nth_list_update)
qed

lemma compare_cb_le:
  assumes "sortable_as kt vt ct d" "a < d_n d" "b < d_n d"
  shows "ovsdb_datum_sort_compare_cb kt ct a b d \<le> 0 \<longleftrightarrow> element_le kt ct (elements d ! a) (elements d ! b)"
proof -
  have t: "datum_of_type kt vt d" and ct: "ct = OVSDB_TYPE_VOID \<or> ct = vt" using assms(1) by (auto simp: sortable_as_def)
  show ?thesis
    using elements_nth [OF t assms(2)] elements_nth [OF t assms(3)] ct
    by (auto simp: ovsdb_datum_sort_compare_cb_def element_le_def Let_def)
qed

lemma element_le_total:
  assumes "sortable_as kt vt ct d" "x \<in> set (elements d)" "y \<in> set (elements d)"
  shows "element_le kt ct x y \<or> element_le kt ct y x"
proof -
  have t: "datum_of_type kt vt d" and ct: "ct = OVSDB_TYPE_VOID \<or> ct = vt" using assms(1) by (auto simp: sortable_as_def)
  note x = element_types [OF t assms(2)] and y = element_types [OF t assms(3)]
  show ?thesis
  proof (cases "fst x = fst y \<and> ct \<noteq> OVSDB_TYPE_VOID")
    case True
    then have vt: "ct = vt" "vt \<noteq> OVSDB_TYPE_VOID" using ct by auto
    obtain u v where "snd x = Some u" "snd y = Some v" and uv: "atom_of_type vt u" "atom_of_type vt v" using x(2) y(2) vt(2) by blast
    then show ?thesis
      using atoms.le_cases [OF uv] True vt atoms.zero_iff [OF x(1) y(1)] atoms.zero_iff [OF y(1) x(1)] by (simp add: element_le_def)
  next
    case False
    then show ?thesis
      using atoms.le_cases [OF x(1) y(1)] atoms.zero_iff [OF x(1) y(1)] atoms.zero_iff [OF y(1) x(1)] by (auto simp: element_le_def Let_def)
  qed
qed

lemma element_le_trans:
  assumes "sortable_as kt vt ct d" "x \<in> set (elements d)" "y \<in> set (elements d)" "z \<in> set (elements d)"
    and le: "element_le kt ct x y" "element_le kt ct y z"
  shows "element_le kt ct x z"
proof -
  have t: "datum_of_type kt vt d" and ct: "ct = OVSDB_TYPE_VOID \<or> ct = vt" using assms(1) by (auto simp: sortable_as_def)
  note x = element_types [OF t assms(2)] and y = element_types [OF t assms(3)] and z = element_types [OF t assms(4)]
  let ?c = "\<lambda>x y. ovsdb_atom_compare_3way (fst x) (fst y) kt"
  have k: "?c x y \<le> 0" "?c y z \<le> 0" using le by (auto simp: element_le_def Let_def split: if_splits)
  have xz: "?c x z \<le> 0" by (rule atoms.le_trans [OF x(1) y(1) z(1) k])
  show ?thesis
  proof (cases "?c x z = 0 \<and> ct \<noteq> OVSDB_TYPE_VOID")
    case False
    then show ?thesis using xz by (auto simp: element_le_def Let_def)
  next
    case True
    have "\<not> ?c x y < 0" "\<not> ?c y z < 0"
      using atoms.zero_iff [OF x(1) z(1)] True k atoms.converse [OF y(1) z(1)] atoms.converse [OF x(1) y(1)] by auto
    then have 0: "?c x y = 0" "?c y z = 0" using k by auto
    have vt: "ct = vt" "vt \<noteq> OVSDB_TYPE_VOID" using ct True by auto
    obtain u v w where "snd x = Some u" "snd y = Some v" "snd z = Some w" and uvw: "atom_of_type vt u" "atom_of_type vt v" "atom_of_type vt w"
      using x(2) y(2) z(2) vt(2) by blast
    then show ?thesis using le 0 True vt atoms.le_trans [OF uvw] by (simp add: element_le_def)
  qed
qed

interpretation datum_cb: sortable "ovsdb_datum_sort_compare_cb kt ct" ovsdb_datum_sort_swap_cb elements "sortable_as kt vt ct" "element_le kt ct"
  for kt vt ct
proof
  fix s a b assume s: "sortable_as kt vt ct s" and "a < length (elements s)" "b < length (elements s)"
  then have t: "datum_of_type kt vt s" "ct = OVSDB_TYPE_VOID \<or> ct = vt" and ab: "a < d_n s" "b < d_n s"
    using length_elements [of kt vt s] by (auto simp: sortable_as_def)
  show "elements (ovsdb_datum_sort_swap_cb a b s) = swapped a b (elements s)" by (rule swap_cb_elements [OF t(1) ab])
  show "sortable_as kt vt ct (ovsdb_datum_sort_swap_cb a b s)" using swap_cb_of_type [OF t(1) ab] t(2) by (simp add: sortable_as_def)
  show "ovsdb_datum_sort_compare_cb kt ct a b s \<le> 0 \<longleftrightarrow> element_le kt ct (elements s ! a) (elements s ! b)"
    by (rule compare_cb_le [OF s ab])
next
  fix s x y assume "sortable_as kt vt ct s" "x \<in> set (elements s)" "y \<in> set (elements s)"
  then show "element_le kt ct x y \<or> element_le kt ct y x" by (rule element_le_total)
next
  fix s x y z assume "sortable_as kt vt ct s" "x \<in> set (elements s)" "y \<in> set (elements s)" "z \<in> set (elements s)"
    "element_le kt ct x y" "element_le kt ct y z"
  then show "element_le kt ct x z" by (rule element_le_trans)
qed

lemma datum_sort_returns:
  assumes "sortable_as kt vt ct d" "fair rnd (d_n d)"
  obtains e k' where "datum_sort d kt ct rnd k = Some (e, k')" "datum_of_type kt vt e" "mset (elements e) = mset (elements d)"
    "sorted_wrt (element_le kt ct) (elements e)"
proof -
  have t: "datum_of_type kt vt d" using assms(1) by (simp add: sortable_as_def)
  have n: "d_n d \<le> length (elements d)" using length_elements [OF t] by simp
  obtain e k' where e: "datum_sort d kt ct rnd k = Some (e, k')"
    using datum_cb.quicksort_returns [OF assms(2) _ assms(1) n, of 0 k] unfolding datum_sort_def ovs_sort_def by auto
  have "datum_cb.sorted_range kt vt ct 0 (d_n d) d e"
    using datum_cb.quicksort_sorted [OF _ assms(1) n, of rnd 0 k "(e, k')"] e unfolding datum_sort_def ovs_sort_def by simp
  then have s: "sortable_as kt vt ct e" "rearranged 0 (d_n d) (elements d) (elements e)" "sorted_wrt (element_le kt ct) (segment 0 (d_n d) (elements e))"
    by (auto simp: datum_cb.sorted_range_def)
  have "segment 0 (d_n d) (elements e) = elements e"
    using rearranged_length [OF s(2)] length_elements [OF t] by (simp add: segment_def)
  then show thesis using that [OF e] s by (auto simp: sortable_as_def rearranged_def)
qed

lemma keys_sorted_iff:
  assumes "list_all (atom_of_type t) ks"
  shows "sorted_wrt (\<lambda>a b. ovsdb_atom_compare_3way a b t < 0) ks \<longleftrightarrow>
    (\<forall>i. Suc i < length ks \<longrightarrow> ovsdb_atom_compare_3way (ks ! i) (ks ! Suc i) t < 0)"
proof -
  let ?P = "\<lambda>a b. atom_of_type t a \<and> atom_of_type t b \<and> ovsdb_atom_compare_3way a b t < 0"
  have "transp ?P" unfolding transp_def using atoms.less_trans by blast
  moreover have "sorted_wrt (\<lambda>a b. ovsdb_atom_compare_3way a b t < 0) ks \<longleftrightarrow> sorted_wrt ?P ks"
    using assms by (auto simp: sorted_wrt_iff_nth_less list_all_length)
  ultimately show ?thesis using assms by (auto simp: sorted_wrt_iff_nth_Suc_transp list_all_length)
qed

lemma sorted_keys_distinct:
  assumes "list_all (atom_of_type t) ks" "sorted_wrt (\<lambda>a b. ovsdb_atom_compare_3way a b t < 0) ks"
  shows "distinct ks"
  unfolding distinct_conv_nth
proof (intro allI impI)
  fix i j assume ij: "i < length ks" "j < length ks" "i \<noteq> j"
  have lt: "\<And>i j. i < j \<Longrightarrow> j < length ks \<Longrightarrow> ovsdb_atom_compare_3way (ks ! i) (ks ! j) t < 0"
    using assms(2) by (simp add: sorted_wrt_iff_nth_less)
  have "atom_of_type t (ks ! i)" using assms(1) ij by (simp add: list_all_length)
  then show "ks ! i \<noteq> ks ! j" using lt [of i j] lt [of j i] ij atoms.irrefl [of t "ks ! i"] by (metis nat_neq_iff)
qed

lemma datum_ok_distinct: "datum_ok kt vt d \<Longrightarrow> distinct (d_keys d)"
  by (rule sorted_keys_distinct) (auto simp: datum_ok_def datum_of_type_def)

lemma element_le_key: "element_le kt ct x y \<Longrightarrow> ovsdb_atom_compare_3way (fst x) (fst y) kt \<le> 0"
  by (auto simp: element_le_def Let_def split: if_splits)

lemma sorted_elements_keys:
  assumes "datum_of_type kt vt d" "sorted_wrt (element_le kt ct) (elements d)"
  shows "sorted_wrt (\<lambda>a b. ovsdb_atom_compare_3way a b kt \<le> 0) (d_keys d)"
proof -
  have "sorted_wrt (\<lambda>x y. ovsdb_atom_compare_3way (fst x) (fst y) kt \<le> 0) (elements d)"
    using assms(2) by (rule sorted_wrt_mono_rel [rotated]) (rule element_le_key)
  then have "sorted_wrt (\<lambda>a b. ovsdb_atom_compare_3way a b kt \<le> 0) (map fst (elements d))" by (simp add: sorted_wrt_map)
  then show ?thesis using keys_elements [OF assms(1)] by simp
qed

text \<open>The test for neighbours that are equal finds all duplicates of sorted keys.\<close>

lemma adjacent_duplicates:
  assumes "list_all (atom_of_type t) ks" "sorted_wrt (\<lambda>a b. ovsdb_atom_compare_3way a b t \<le> 0) ks"
  shows "list_ex (\<lambda>i. ovsdb_atom_equals (ks ! i) (ks ! (i + 1)) t) [0..<length ks - 1] \<longleftrightarrow> \<not> distinct ks"
    "distinct ks \<Longrightarrow> sorted_wrt (\<lambda>a b. ovsdb_atom_compare_3way a b t < 0) ks"
proof -
  have typed: "\<And>i. i < length ks \<Longrightarrow> atom_of_type t (ks ! i)" using assms(1) by (simp add: list_all_length)
  have eq: "ovsdb_atom_equals (ks ! i) (ks ! (i + 1)) t \<longleftrightarrow> ks ! i = ks ! Suc i" if "Suc i < length ks" for i
    using ovsdb_atom_equals_iff [OF typed typed, of i "Suc i"] that by simp
  have le: "ovsdb_atom_compare_3way (ks ! i) (ks ! Suc i) t \<le> 0" if "Suc i < length ks" for i
    using assms(2) that by (simp add: sorted_wrt_iff_nth_less)
  have strict: "sorted_wrt (\<lambda>a b. ovsdb_atom_compare_3way a b t < 0) ks" if "\<And>i. Suc i < length ks \<Longrightarrow> ks ! i \<noteq> ks ! Suc i"
    unfolding keys_sorted_iff [OF assms(1)]
  proof (intro allI impI)
    fix i assume i: "Suc i < length ks"
    then show "ovsdb_atom_compare_3way (ks ! i) (ks ! Suc i) t < 0"
      using atoms.less_iff [OF typed typed, of i "Suc i"] le [OF i] that [OF i] by simp
  qed
  have ex: "list_ex (\<lambda>i. ovsdb_atom_equals (ks ! i) (ks ! (i + 1)) t) [0..<length ks - 1] \<longleftrightarrow> (\<exists>i. Suc i < length ks \<and> ks ! i = ks ! Suc i)"
    unfolding list_ex_iff using eq by (auto simp: less_diff_conv)
  show "list_ex (\<lambda>i. ovsdb_atom_equals (ks ! i) (ks ! (i + 1)) t) [0..<length ks - 1] \<longleftrightarrow> \<not> distinct ks"
    unfolding ex using strict sorted_keys_distinct [OF assms(1)] by (metis Suc_lessD distinct_conv_nth n_not_Suc_n)
  show "sorted_wrt (\<lambda>a b. ovsdb_atom_compare_3way a b t < 0) ks" if "distinct ks"
    using strict that by (metis Suc_lessD distinct_conv_nth n_not_Suc_n)
qed

definition duplicate_error :: "ovsdb_datum \<Rightarrow> datum_error option" where
  "duplicate_error d = (if distinct (d_keys d) then None else if d_values d = [] then Some Set_Duplicate else Some Map_Duplicate_Key)"

lemma distinct_keys_cong:
  assumes "datum_of_type kt vt d" "datum_of_type kt vt e" "mset (elements e) = mset (elements d)"
  shows "distinct (d_keys e) \<longleftrightarrow> distinct (d_keys d)" "d_n e = d_n d" "d_values e = [] \<longleftrightarrow> d_values d = []"
proof -
  have "mset (map fst (elements e)) = mset (map fst (elements d))" using assms(3) by simp
  then have k: "mset (d_keys e) = mset (d_keys d)" using keys_elements [OF assms(1)] keys_elements [OF assms(2)] by simp
  then show "distinct (d_keys e) \<longleftrightarrow> distinct (d_keys d)" by (rule mset_eq_imp_distinct_iff)
  show n: "d_n e = d_n d" using k by (rule mset_eq_length)
  show "d_values e = [] \<longleftrightarrow> d_values d = []" using assms(1,2) n by (auto simp: datum_of_type_def split: if_splits)
qed

lemma ovsdb_datum_sort_spec:
  assumes "datum_of_type kt vt d" "fair rnd (d_n d)"
  obtains e k' where "ovsdb_datum_sort d kt rnd k = Some (duplicate_error d, e, k')" "datum_of_type kt vt e"
    "mset (elements e) = mset (elements d)" "distinct (d_keys d) \<Longrightarrow> datum_ok kt vt e"
proof (cases "d_n d < 2")
  case True
  then have 1: "distinct (d_keys d)" "sorted_wrt (\<lambda>a b. ovsdb_atom_compare_3way a b kt < 0) (d_keys d)"
    by (cases "d_keys d"; cases "tl (d_keys d)"; auto)+
  then have "ovsdb_datum_sort d kt rnd k = Some (duplicate_error d, d, k)" "datum_ok kt vt d"
    using True assms(1) by (auto simp: ovsdb_datum_sort_def duplicate_error_def datum_ok_def)
  then show thesis using that assms(1) by blast
next
  case False
  obtain e k' where e: "datum_sort d kt OVSDB_TYPE_VOID rnd k = Some (e, k')" "datum_of_type kt vt e" "mset (elements e) = mset (elements d)"
      "sorted_wrt (element_le kt OVSDB_TYPE_VOID) (elements e)"
    using datum_sort_returns [of kt vt OVSDB_TYPE_VOID d rnd k] assms by (auto simp: sortable_as_def)
  have "list_all (atom_of_type kt) (d_keys e)" using e(2) by (simp add: datum_of_type_def)
  note adj = adjacent_duplicates [OF this sorted_elements_keys [OF e(2,4)]]
  note same = distinct_keys_cong [OF assms(1) e(2,3)]
  have "ovsdb_datum_sort d kt rnd k = Some (duplicate_error d, e, k')"
    using False e(1) adj(1) same by (auto simp: ovsdb_datum_sort_def duplicate_error_def)
  moreover have "distinct (d_keys d) \<Longrightarrow> datum_ok kt vt e" using adj(2) same(1) e(2) by (simp add: datum_ok_def)
  ultimately show thesis using that e(2,3) by blast
qed

lemma ovsdb_datum_sort_assert_spec:
  assumes "datum_of_type kt vt d" "fair rnd (d_n d)" "distinct (d_keys d)"
  obtains e k' where "ovsdb_datum_sort_assert d kt rnd k = Some (e, k')" "datum_ok kt vt e" "mset (elements e) = mset (elements d)"
proof -
  obtain e k' where e: "ovsdb_datum_sort d kt rnd k = Some (duplicate_error d, e, k')" "mset (elements e) = mset (elements d)" "datum_ok kt vt e"
    using ovsdb_datum_sort_spec [OF assms(1,2), of k] assms(3) by metis
  then have "ovsdb_datum_sort_assert d kt rnd k = Some (e, k')" using assms(3) by (simp add: ovsdb_datum_sort_assert_def duplicate_error_def)
  then show thesis using that e by blast
qed





end
