(* ===== verification/Ovsdb_Data_Ops.thy ===== *)
theory Ovsdb_Data_Ops
  imports Ovsdb_Data_Props
begin

text \<open>
  The search in a datum, and the operations of \<open>Ovsdb_Data\<close> that rest on it, as operations on finite
  sets and maps.
\<close>

section \<open>Search\<close>

text \<open>Up to \<open>2 ^ 31\<close> elements the sum of two indexes does not wrap around.\<close>

lemma midpoint:
  fixes low high :: u32
  assumes "low < high" "unat high < 2 ^ 31"
  shows "unat ((low + high) div 2) = (unat low + unat high) div 2" "unat low \<le> unat ((low + high) div 2)"
    "unat ((low + high) div 2) < unat high" "unat ((low + high) div 2 + 1) = unat ((low + high) div 2) + 1"
proof -
  have l: "unat low < unat high" using assms(1) by (simp add: word_less_nat_alt)
  have s: "unat (low + high) = unat low + unat high" using l assms(2) by (simp add: unat_word_ariths)
  show m: "unat ((low + high) div 2) = (unat low + unat high) div 2" by (simp add: unat_div s)
  show "unat low \<le> unat ((low + high) div 2)" "unat ((low + high) div 2) < unat high" using l m by auto
  then show "unat ((low + high) div 2 + 1) = unat ((low + high) div 2) + 1" using assms(2) by (simp add: unat_word_ariths)
qed

definition found :: "ovsdb_atom list \<Rightarrow> ovsdb_atom \<Rightarrow> u32 \<Rightarrow> bool" where
  "found ks key r \<longleftrightarrow> (if key \<in> set ks then unat r < length ks \<and> ks ! unat r = key else r = UINT_MAX)"

lemma find_key_loop_spec:
  assumes typed: "list_all (atom_of_type kt) ks" "atom_of_type kt key"
    and sorted: "sorted_wrt (\<lambda>a b. ovsdb_atom_compare_3way a b kt < 0) ks"
  shows "unat high \<le> length ks \<Longrightarrow> unat high < 2 ^ 31 \<Longrightarrow> key \<notin> set (take (unat low) ks) \<Longrightarrow> key \<notin> set (drop (unat high) ks) \<Longrightarrow>
    \<exists>r. find_key_loop ks key kt low high = Some r \<and> found ks key r"
proof (induction "unat high - unat low" arbitrary: low high rule: less_induct)
  case less
  show ?case
  proof (cases "low < high")
    case False
    have "set ks = set (take (unat high) ks) \<union> set (drop (unat high) ks)" by (metis append_take_drop_id set_append)
    moreover have "set (take (unat high) ks) \<subseteq> set (take (unat low) ks)"
      using False by (intro set_take_subset_set_take) (simp add: word_le_nat_alt not_less)
    ultimately have "key \<notin> set ks" using less.prems(3,4) by blast
    then show ?thesis using False by (simp add: find_key_loop.simps [of ks key kt low high] found_def)
  next
    case True
    let ?i = "(low + high) div 2"
    note mid = midpoint [OF True less.prems(2)]
    have i: "unat ?i < length ks" using mid(3) less.prems(1) by simp
    have ti: "atom_of_type kt (ks ! unat ?i)" using i typed(1) by (simp add: list_all_length)
    have lt: "ovsdb_atom_compare_3way (ks ! a) (ks ! b) kt < 0" if "a < b" "b < length ks" for a b
      using sorted that by (simp add: sorted_wrt_iff_nth_less)
    let ?c = "ovsdb_atom_compare_3way key (ks ! unat ?i) kt"
    note eq = find_key_loop.simps [of ks key kt low high]
    consider (less) "?c < 0" | (greater) "?c > 0" | (equal) "?c = 0" by linarith
    then show ?thesis
    proof cases
      case equal
      then have "key = ks ! unat ?i" using atoms.zero_iff [OF typed(2) ti] by simp
      then have "found ks key ?i" using i by (simp add: found_def)
      then show ?thesis using True equal eq by (simp add: Let_def)
    next
      case c: less
      have "key \<notin> set (drop (unat ?i) ks)"
      proof
        assume "key \<in> set (drop (unat ?i) ks)"
        then obtain j where j: "j < length ks - unat ?i" "key = ks ! (unat ?i + j)" using i by (auto simp: in_set_conv_nth)
        then have "unat ?i + j < length ks" by simp
        from lt [OF _ this, of "unat ?i"] show False
          using c j(2) atoms.converse [OF typed(2) ti] atoms.irrefl [OF ti] by (cases "j = 0") auto
      qed
      moreover have "unat ?i - unat low < unat high - unat low" using mid(2,3) by linarith
      ultimately obtain r where "find_key_loop ks key kt low ?i = Some r" "found ks key r"
        using less.hyps [of ?i low] mid(3) less.prems(1-3) i by force
      then show ?thesis using True c eq by (simp add: Let_def)
    next
      case c: greater
      have "key \<notin> set (take (unat (?i + 1)) ks)"
      proof
        assume "key \<in> set (take (unat (?i + 1)) ks)"
        then obtain j where j: "j \<le> unat ?i" "key = ks ! j" using mid(4) by (auto simp: in_set_conv_nth less_Suc_eq_le)
        then show False
          using c lt [of j "unat ?i"] i atoms.irrefl [OF ti] atoms.zero_iff [OF ti ti] by (cases "j = unat ?i") auto
      qed
      moreover have "unat high - unat (?i + 1) < unat high - unat low" using mid(2-4) by linarith
      ultimately obtain r where "find_key_loop ks key kt (?i + 1) high = Some r" "found ks key r"
        using less.hyps [of high "?i + 1"] less.prems(1,2,4) by force
      then show ?thesis using True c eq by (simp add: Let_def)
    qed
  qed
qed

lemma unat_not_max: "unat (r :: u32) < 2 ^ 31 \<Longrightarrow> r \<noteq> UINT_MAX"
  by auto

lemma find_key_found:
  assumes "datum_ok kt vt d" "d_n d < 2 ^ 31" "atom_of_type kt key"
  obtains r where "ovsdb_datum_find_key d key kt = Some r" "found (d_keys d) key r"
    "key \<in> set (d_keys d) \<longleftrightarrow> r \<noteq> UINT_MAX"
proof -
  have u: "unat (of_nat (d_n d) :: u32) = d_n d" using assms(2) by (simp add: unat_of_nat)
  obtain r where r: "find_key_loop (d_keys d) key kt 0 (of_nat (d_n d)) = Some r" "found (d_keys d) key r"
    using find_key_loop_spec [of kt "d_keys d" key "of_nat (d_n d)" 0] assms u by (auto simp: datum_ok_def datum_of_type_def)
  moreover have "key \<in> set (d_keys d) \<longleftrightarrow> r \<noteq> UINT_MAX"
    using r(2) assms(2) unat_not_max [of r] by (auto simp: found_def split: if_splits)
  ultimately show thesis using that by (simp add: ovsdb_datum_find_key_def)
qed

text \<open>What \<open>ovsdb_datum_find\<close> looks for: the key only, or the key with its value.\<close>

definition occurs_in :: "ovsdb_atomic_type \<Rightarrow> ovsdb_datum \<Rightarrow> ovsdb_atom \<times> ovsdb_atom option \<Rightarrow> bool" where
  "occurs_in ct b x \<longleftrightarrow> (if ct = OVSDB_TYPE_VOID then fst x \<in> set (d_keys b) else x \<in> set (elements b))"

lemma element_in_iff:
  assumes "datum_ok kt vt d" "i < d_n d" "vt \<noteq> OVSDB_TYPE_VOID"
  shows "(d_keys d ! i, Some v) \<in> set (elements d) \<longleftrightarrow> d_values d ! i = v"
proof -
  have t: "datum_of_type kt vt d" and d: "distinct (d_keys d)" using assms(1) datum_ok_distinct by (auto simp: datum_ok_def)
  have "(d_keys d ! i, Some v) \<in> set (elements d) \<longleftrightarrow> (\<exists>j < d_n d. d_keys d ! j = d_keys d ! i \<and> d_values d ! j = v)"
    using elements_nth [OF t] length_elements [OF t] assms(3) by (auto simp: in_set_conv_nth)
  also have "\<dots> \<longleftrightarrow> d_values d ! i = v" using d assms(2) by (auto simp: nth_eq_iff_index_eq)
  finally show ?thesis .
qed

lemma elements_key: "datum_of_type kt vt d \<Longrightarrow> x \<in> set (elements d) \<Longrightarrow> fst x \<in> set (d_keys d)"
  using keys_elements [of kt vt d] by (metis image_eqI list.set_map)

lemma find_spec:
  assumes a: "datum_of_type kt va a" "i < d_n a" and b: "datum_ok kt vb b" "d_n b < 2 ^ 31"
    and ct: "ct = OVSDB_TYPE_VOID \<or> ct = va \<and> ct = vb"
  obtains r where "ovsdb_datum_find a i b kt ct = Some r" "r \<noteq> UINT_MAX \<longleftrightarrow> occurs_in ct b (elements a ! i)"
proof -
  let ?k = "d_keys a ! i"
  have tb: "datum_of_type kt vb b" using b(1) by (simp add: datum_ok_def)
  obtain r where r: "ovsdb_datum_find_key b ?k kt = Some r" "found (d_keys b) ?k r" "?k \<in> set (d_keys b) \<longleftrightarrow> r \<noteq> UINT_MAX"
    using find_key_found [OF b key_of_type [OF a]] by blast
  note el = elements_nth [OF a]
  show thesis
  proof (cases "ct = OVSDB_TYPE_VOID \<or> r = UINT_MAX")
    case True
    have "ovsdb_datum_find a i b kt ct = Some r" using r(1) True by (auto simp: ovsdb_datum_find_def ovsdb_datum_find_key_value_def)
    moreover have "r \<noteq> UINT_MAX \<longleftrightarrow> occurs_in ct b (elements a ! i)"
      using True r(3) el elements_key [OF tb, of "elements a ! i"] by (auto simp: occurs_in_def)
    ultimately show thesis by (rule that)
  next
    case False
    then have v: "ct = va" "ct = vb" "va \<noteq> OVSDB_TYPE_VOID" "vb \<noteq> OVSDB_TYPE_VOID" and x: "r \<noteq> UINT_MAX" using ct by auto
    then have j: "unat r < d_n b" "d_keys b ! unat r = ?k" using r(2,3) by (auto simp: found_def)
    have n: "d_values a \<noteq> []" using a v(3) by (auto simp: datum_of_type_def)
    have eq: "ovsdb_atom_equals (d_values b ! unat r) (d_values a ! i) ct \<longleftrightarrow> d_values b ! unat r = d_values a ! i"
      using ovsdb_atom_equals_iff value_of_type_nth [OF a v(3)] value_of_type_nth [OF tb j(1) v(4)] v by simp
    have "ovsdb_datum_find a i b kt ct = Some (if d_values b ! unat r = d_values a ! i then r else UINT_MAX)"
      using r(1) x v n eq by (auto simp: ovsdb_datum_find_def ovsdb_datum_find_key_value_def)
    moreover have "occurs_in ct b (elements a ! i) \<longleftrightarrow> d_values b ! unat r = d_values a ! i"
      using element_in_iff [OF b(1) j(1) v(4)] el v j(2) by (auto simp: occurs_in_def)
    ultimately show thesis using that x by simp
  qed
qed

section \<open>Inclusion\<close>

lemma includes_loop_spec:
  assumes "datum_of_type kt va a" "datum_ok kt vb b" "d_n b < 2 ^ 31" "ct = OVSDB_TYPE_VOID \<or> ct = va \<and> ct = vb"
  shows "\<forall>i \<in> set is. i < d_n a \<Longrightarrow>
    includes_loop a b kt ct is = Some (\<forall>i \<in> set is. occurs_in ct b (elements a ! i)) \<and>
    excludes_loop a b kt ct is = Some (\<forall>i \<in> set is. \<not> occurs_in ct b (elements a ! i))"
proof (induction "is")
  case (Cons i "is")
  obtain r where "ovsdb_datum_find a i b kt ct = Some r" "r \<noteq> UINT_MAX \<longleftrightarrow> occurs_in ct b (elements a ! i)"
    using find_spec [OF assms(1) _ assms(2-4), of i] Cons.prems by auto
  then show ?case using Cons by auto
qed auto

lemma all_elements: "datum_of_type kt vt d \<Longrightarrow> (\<forall>i \<in> set [0..<d_n d]. P (elements d ! i)) \<longleftrightarrow> (\<forall>x \<in> set (elements d). P x)"
  using length_elements [of kt vt d] by (auto simp: all_set_conv_all_nth)

lemma distinct_elements: "datum_ok kt vt d \<Longrightarrow> distinct (elements d)"
  using datum_ok_distinct [of kt vt d] keys_elements [of kt vt d] by (metis datum_ok_def distinct_map)

lemma includes_all_spec:
  assumes a: "datum_ok kt vt a" and b: "datum_ok kt vt b" "d_n b < 2 ^ 31"
  shows "ovsdb_datum_includes_all a b kt vt = Some (set (elements a) \<subseteq> set (elements b))"
    "ovsdb_datum_excludes_all a b kt vt = Some (set (elements a) \<inter> set (elements b) = {})"
proof -
  have t: "datum_of_type kt vt a" "datum_of_type kt vt b" using a b by (auto simp: datum_ok_def)
  have occ: "occurs_in vt b x \<longleftrightarrow> x \<in> set (elements b)" if "x \<in> set (elements a)" for x
  proof (cases "vt = OVSDB_TYPE_VOID")
    case True
    have x: "x = (fst x, None)" using element_types(3) [OF t(1) that True] by (metis prod.collapse)
    have "elements b = map (\<lambda>k. (k, None)) (d_keys b)" using t(2) True by (simp add: elements_def datum_of_type_def)
    then have "x \<in> set (elements b) \<longleftrightarrow> fst x \<in> set (d_keys b)" by (subst x) auto
    then show ?thesis using True by (simp add: occurs_in_def)
  qed (simp add: occurs_in_def)
  note loop = includes_loop_spec [OF t(1) b, of vt "[0..<d_n a]"]
  have "length (elements a) \<le> length (elements b)" if "set (elements a) \<subseteq> set (elements b)"
    using that distinct_elements [OF a] distinct_elements [OF b(1)] by (metis List.finite_set card_mono distinct_card)
  then have "d_n a \<le> d_n b" if "set (elements a) \<subseteq> set (elements b)" using that length_elements t by simp
  then show "ovsdb_datum_includes_all a b kt vt = Some (set (elements a) \<subseteq> set (elements b))"
    using loop all_elements [OF t(1), of "occurs_in vt b"] occ by (auto simp: ovsdb_datum_includes_all_def)
  show "ovsdb_datum_excludes_all a b kt vt = Some (set (elements a) \<inter> set (elements b) = {})"
    using loop all_elements [OF t(1), of "\<lambda>x. \<not> occurs_in vt b x"] occ by (auto simp: ovsdb_datum_excludes_all_def)
qed

section \<open>Difference\<close>

lemma mset_butlast_update:
  assumes "i < length xs"
  shows "mset (butlast (xs[i := xs ! (length xs - 1)])) = mset xs - {#xs ! i#}"
proof -
  obtain ys z where xs: "xs = ys @ [z]" using assms by (metis append_butlast_last_id length_0_conv not_less_zero)
  show ?thesis
  proof (cases "i = length ys")
    case True
    then show ?thesis by (simp add: xs)
  next
    case False
    then have i: "i < length ys" using assms xs by simp
    then show ?thesis by (simp add: xs list_update_append nth_append mset_update)
  qed
qed

lemma remove_unsafe_elements:
  assumes "datum_of_type kt vt d" "i < d_n d"
  shows "datum_of_type kt vt (ovsdb_datum_remove_unsafe d i vt)"
    "elements (ovsdb_datum_remove_unsafe d i vt) = butlast ((elements d)[i := elements d ! (length (elements d) - 1)])"
proof -
  let ?e = "ovsdb_datum_remove_unsafe d i vt"
  have n: "d_n ?e = d_n d - 1" by (simp add: ovsdb_datum_remove_unsafe_def Let_def)
  have k: "d_keys ?e ! j = (d_keys d)[i := d_keys d ! (d_n d - 1)] ! j" if "j < d_n d - 1" for j
    using that by (simp add: ovsdb_datum_remove_unsafe_def Let_def nth_butlast)
  have v: "length (d_values ?e) = d_n d - 1" "\<And>j. j < d_n d - 1 \<Longrightarrow> d_values ?e ! j = (d_values d)[i := d_values d ! (d_n d - 1)] ! j"
    if "vt \<noteq> OVSDB_TYPE_VOID"
    using that assms(1) by (auto simp: ovsdb_datum_remove_unsafe_def Let_def nth_butlast datum_of_type_def)
  have "list_all (atom_of_type kt) (d_keys ?e)" using key_of_type [OF assms(1)] k n assms(2) by (auto simp: list_all_length nth_list_update)
  moreover have "list_all (atom_of_type vt) (d_values ?e)" if vt: "vt \<noteq> OVSDB_TYPE_VOID"
    unfolding list_all_length
  proof (intro allI impI)
    fix j assume "j < length (d_values ?e)"
    then have j: "j < d_n d - 1" using v(1) [OF vt] by simp
    have l: "length (d_values d) = d_n d" using assms(1) vt by (simp add: datum_of_type_def)
    show "atom_of_type vt (d_values ?e ! j)"
      using v(2) [OF vt j] value_of_type_nth [OF assms(1) _ vt] j l assms(2) by (cases "j = i") auto
  qed
  moreover have "vt = OVSDB_TYPE_VOID \<Longrightarrow> d_values ?e = []" using assms(1) by (simp add: ovsdb_datum_remove_unsafe_def datum_of_type_def Let_def)
  ultimately show t: "datum_of_type kt vt ?e" using v(1) n by (simp add: datum_of_type_def)
  show "elements ?e = butlast ((elements d)[i := elements d ! (length (elements d) - 1)])"
  proof (rule nth_equalityI)
    show l: "length (elements ?e) = length (butlast ((elements d)[i := elements d ! (length (elements d) - 1)]))"
      using length_elements [OF t] length_elements [OF assms(1)] n by simp
    fix j assume "j < length (elements ?e)"
    then have j: "j < d_n ?e" "j < d_n d - 1" "j < d_n d" "d_n d - 1 < d_n d" using length_elements [OF t] n by auto
    have "vt \<noteq> OVSDB_TYPE_VOID \<Longrightarrow> length (d_values d) = d_n d" using assms(1) by (simp add: datum_of_type_def)
    then show "elements ?e ! j = butlast ((elements d)[i := elements d ! (length (elements d) - 1)]) ! j"
      using elements_nth [OF t j(1)] elements_nth [OF assms(1) j(3)] elements_nth [OF assms(1) j(4)] elements_nth [OF assms] k [OF j(2)] v(2) [OF _ j(2)]
        length_elements [OF assms(1)] j assms(2)
      by (auto simp: nth_butlast nth_list_update)
  qed
qed

lemma remove_unsafe_set:
  assumes "datum_of_type kt vt d" "i < d_n d" "distinct (d_keys d)"
  shows "set (elements (ovsdb_datum_remove_unsafe d i vt)) = set (elements d) - {elements d ! i}"
    "distinct (d_keys (ovsdb_datum_remove_unsafe d i vt))" "d_n (ovsdb_datum_remove_unsafe d i vt) = d_n d - 1"
    "j < i \<Longrightarrow> elements (ovsdb_datum_remove_unsafe d i vt) ! j = elements d ! j"
proof -
  let ?e = "ovsdb_datum_remove_unsafe d i vt"
  note r = remove_unsafe_elements [OF assms(1,2)]
  have dd: "distinct (map fst (elements d))" using keys_elements [OF assms(1)] assms(3) by simp
  have l: "i < length (elements d)" using assms(2) length_elements [OF assms(1)] by simp
  have m: "mset (elements ?e) = mset (elements d) - {#elements d ! i#}" using r(2) mset_butlast_update [OF l] by simp
  then have "set (elements ?e) = set (remove1 (elements d ! i) (elements d))" by (metis mset_eq_setD mset_remove1)
  moreover have "distinct (elements d)" using dd by (simp add: distinct_map)
  ultimately show "set (elements ?e) = set (elements d) - {elements d ! i}" by simp
  have "mset (elements ?e) \<subseteq># mset (elements d)" using m by simp
  then have "image_mset fst (mset (elements ?e)) \<subseteq># image_mset fst (mset (elements d))" by (rule image_mset_subseteq_mono)
  then have "mset (d_keys ?e) \<subseteq># mset (d_keys d)" using keys_elements [OF r(1)] keys_elements [OF assms(1)] by (simp flip: mset_map)
  then show "distinct (d_keys ?e)" using assms(3) by (metis distinct_append mset_append mset_eq_imp_distinct_iff mset_subset_eq_exists_conv ex_mset)
  show "d_n ?e = d_n d - 1" by (simp add: ovsdb_datum_remove_unsafe_def Let_def)
  show "j < i \<Longrightarrow> elements ?e ! j = elements d ! j" using r(2) l by (simp add: nth_butlast)
qed

lemma subtract_changed: "subtract_loop b kt va ct a i True = Some (e, c) \<Longrightarrow> c"
proof (induction "d_n a - i" arbitrary: a i rule: less_induct)
  case less
  show ?case
    using less.prems less.hyps [of a "i + 1"] less.hyps [of "ovsdb_datum_remove_unsafe a i va" i]
    unfolding subtract_loop.simps [of b kt va ct a i True]
    by (auto simp: ovsdb_datum_remove_unsafe_def Let_def split: if_splits option.splits)
qed

lemma subtract_loop_spec:
  assumes b: "datum_ok kt vb b" "d_n b < 2 ^ 31" "ct = OVSDB_TYPE_VOID \<or> ct = va \<and> ct = vb"
  shows "datum_of_type kt va a \<Longrightarrow> distinct (d_keys a) \<Longrightarrow> \<forall>j < i. \<not> occurs_in ct b (elements a ! j) \<Longrightarrow> i \<le> d_n a \<Longrightarrow>
    \<exists>e changed'. subtract_loop b kt va ct a i changed = Some (e, changed') \<and> datum_of_type kt va e \<and> distinct (d_keys e) \<and>
      d_n e \<le> d_n a \<and> (changed' \<or> e = a) \<and> set (elements e) = {x \<in> set (elements a). \<not> occurs_in ct b x}"
proof (induction "d_n a - i" arbitrary: a i changed rule: less_induct)
  case less
  note unf = subtract_loop.simps [of b kt va ct a i changed]
  show ?case
  proof (cases "i < d_n a")
    case False
    then have "\<forall>x \<in> set (elements a). \<not> occurs_in ct b x"
      using less.prems(3,4) length_elements [OF less.prems(1)] by (simp add: all_set_conv_all_nth)
    then have "{x \<in> set (elements a). \<not> occurs_in ct b x} = set (elements a)" by blast
    then show ?thesis using False less.prems unf by auto
  next
    case True
    obtain r where r: "ovsdb_datum_find a i b kt ct = Some r" "r \<noteq> UINT_MAX \<longleftrightarrow> occurs_in ct b (elements a ! i)"
      using find_spec [OF less.prems(1) True b] by blast
    show ?thesis
    proof (cases "r = UINT_MAX")
      case max: True
      then have "\<forall>j < Suc i. \<not> occurs_in ct b (elements a ! j)" using r(2) less.prems(3) less_antisym by blast
      then show ?thesis using less.hyps [of a "i + 1" changed] less.prems(1,2) True unf r(1) max by auto
    next
      case False
      let ?a = "ovsdb_datum_remove_unsafe a i va"
      note rem = remove_unsafe_elements(1) [OF less.prems(1) True] remove_unsafe_set [OF less.prems(1) True less.prems(2)]
      have "\<forall>j < i. \<not> occurs_in ct b (elements ?a ! j)" using less.prems(3) rem(5) by simp
      moreover have m: "d_n ?a - i < d_n a - i" "i \<le> d_n ?a" using rem(4) True by auto
      ultimately obtain e c where e: "subtract_loop b kt va ct ?a i True = Some (e, c)" "datum_of_type kt va e" "distinct (d_keys e)" "d_n e \<le> d_n ?a"
          "c \<or> e = ?a" "set (elements e) = {x \<in> set (elements ?a). \<not> occurs_in ct b x}"
        using less.hyps [OF m(1) rem(1,3) _ m(2), of True] by blast
      have c: "c" using subtract_changed [OF e(1)] by simp
      have "set (elements e) = {x \<in> set (elements a). \<not> occurs_in ct b x}" unfolding e(6) rem(2) using r(2) False by blast
      then show ?thesis using unf True r(1) False e(1-4) c rem(4) by auto
    qed
  qed
qed

section \<open>Union\<close>

text \<open>A datum as the finite map it stands for; a set maps its keys to no value.\<close>

definition datum_map :: "ovsdb_datum \<Rightarrow> ovsdb_atom \<rightharpoonup> ovsdb_atom option" where
  "datum_map d = map_of (elements d)"

lemma datum_map_Some: "datum_ok kt vt d \<Longrightarrow> datum_map d k = Some v \<longleftrightarrow> (k, v) \<in> set (elements d)"
  using keys_elements [of kt vt d] datum_ok_distinct [of kt vt d] by (simp add: datum_map_def datum_ok_def)

lemma datum_map_None: "datum_ok kt vt d \<Longrightarrow> datum_map d k = None \<longleftrightarrow> k \<notin> set (d_keys d)"
  using keys_elements [of kt vt d] by (metis datum_map_def datum_ok_def list.set_map map_of_eq_None_iff)

lemma set_value_elements:
  assumes "datum_ok kt vt a" "j < d_n a" "vt \<noteq> OVSDB_TYPE_VOID" "atom_of_type vt v"
  defines "e \<equiv> a\<lparr>d_values := (d_values a)[j := v]\<rparr>"
  shows "datum_ok kt vt e" "set (elements e) = {x \<in> set (elements a). fst x \<noteq> d_keys a ! j} \<union> {(d_keys a ! j, Some v)}"
proof -
  have t: "datum_of_type kt vt a" using assms(1) by (simp add: datum_ok_def)
  have l: "length (d_values a) = d_n a" using t assms(3) by (simp add: datum_of_type_def)
  have "list_all (atom_of_type vt) ((d_values a)[j := v])"
    using t l assms(2-4) by (simp add: datum_of_type_def list_all_length nth_list_update)
  then have te: "datum_of_type kt vt e" using t l assms(3) by (simp add: e_def datum_of_type_def)
  then show ok: "datum_ok kt vt e" using assms(1) by (simp add: datum_ok_def e_def)
  have nth: "(k, w) \<in> set (elements d) \<longleftrightarrow> (\<exists>i < d_n d. k = d_keys d ! i \<and> w = Some (d_values d ! i))" if "datum_of_type kt vt d" for k w d
    using elements_nth [OF that] length_elements [OF that] assms(3) by (auto simp: in_set_conv_nth)
  have "(k, w) \<in> set (elements e) \<longleftrightarrow> (k, w) \<in> set (elements a) \<and> k \<noteq> d_keys a ! j \<or> k = d_keys a ! j \<and> w = Some v" for k w
    unfolding nth [OF te] nth [OF t] using datum_ok_distinct [OF assms(1)] assms(2) l
    by (auto simp: e_def nth_list_update nth_eq_iff_index_eq)
  then show "set (elements e) = {x \<in> set (elements a). fst x \<noteq> d_keys a ! j} \<union> {(d_keys a ! j, Some v)}" by auto
qed

definition append_datum :: "ovsdb_datum \<Rightarrow> ovsdb_datum \<Rightarrow> ovsdb_datum" where
  "append_datum a b = \<lparr>d_keys = d_keys a @ d_keys b, d_values = d_values a @ d_values b\<rparr>"

lemma append_datum_of_type:
  assumes "datum_of_type kt vt a" "datum_of_type kt vt b"
  shows "datum_of_type kt vt (append_datum a b)" "elements (append_datum a b) = elements a @ elements b"
proof -
  show t: "datum_of_type kt vt (append_datum a b)" using assms by (auto simp: datum_of_type_def append_datum_def split: if_splits)
  show "elements (append_datum a b) = elements a @ elements b"
  proof (cases "vt = OVSDB_TYPE_VOID")
    case True
    then show ?thesis using assms by (simp add: datum_of_type_def append_datum_def elements_def)
  next
    case False
    then have "length (d_values a) = d_n a" "length (d_values b) = d_n b" using assms by (auto simp: datum_of_type_def)
    then show ?thesis using False by (auto simp: append_datum_def elements_def)
  qed
qed

lemma add_unsafe_append:
  "ovsdb_datum_add_unsafe d k v vt = append_datum d \<lparr>d_keys = [k], d_values = (if vt \<noteq> OVSDB_TYPE_VOID then [v] else [])\<rparr>"
  by (simp add: ovsdb_datum_add_unsafe_def append_datum_def)

text \<open>The state of the loop of \<open>ovsdb_datum_union\<close>: new elements have keys that \<open>a\<close> does not have.\<close>

definition extends :: "ovsdb_atomic_type \<Rightarrow> ovsdb_atomic_type \<Rightarrow> ovsdb_datum \<Rightarrow> ovsdb_datum \<Rightarrow> bool" where
  "extends kt vt a new \<longleftrightarrow> datum_ok kt vt a \<and> datum_of_type kt vt new \<and> distinct (d_keys new) \<and> set (d_keys new) \<inter> set (d_keys a) = {}"

lemma extends_add:
  assumes "extends kt vt a new" "datum_of_type kt vt b" "i < d_n b" "d_keys b ! i \<notin> set (d_keys a)" "d_keys b ! i \<notin> set (d_keys new)"
  defines "e \<equiv> ovsdb_datum_add_unsafe new (d_keys b ! i) (d_values b ! i) vt"
  shows "extends kt vt a e" "set (elements e) = insert (elements b ! i) (set (elements new))"
    "set (d_keys e) = insert (d_keys b ! i) (set (d_keys new))" "d_n e = d_n new + 1"
proof -
  let ?one = "\<lparr>d_keys = [d_keys b ! i], d_values = (if vt \<noteq> OVSDB_TYPE_VOID then [d_values b ! i] else [])\<rparr>"
  have one: "datum_of_type kt vt ?one" "elements ?one = [elements b ! i]"
    using key_of_type [OF assms(2,3)] value_of_type_nth [OF assms(2,3)] elements_nth [OF assms(2,3)] by (auto simp: datum_of_type_def elements_def)
  have new: "datum_of_type kt vt new" using assms(1) by (simp add: extends_def)
  note app = append_datum_of_type [OF new one(1)]
  have e: "e = append_datum new ?one" unfolding e_def by (rule add_unsafe_append)
  have k: "d_keys e = d_keys new @ [d_keys b ! i]" by (simp add: e append_datum_def)
  show "extends kt vt a e" using assms(1,4,5) app(1) k e by (auto simp: extends_def)
  show "set (elements e) = insert (elements b ! i) (set (elements new))" using app(2) one(2) e by simp
  show "set (d_keys e) = insert (d_keys b ! i) (set (d_keys new))" "d_n e = d_n new + 1" using k by auto
qed

lemma replace_step:
  assumes a: "datum_ok kt vt a" "j < d_n a" and b: "datum_of_type kt vt b" "i < d_n b" "d_keys a ! j = d_keys b ! i"
  defines "e \<equiv> (if vt \<noteq> OVSDB_TYPE_VOID then a\<lparr>d_values := (d_values a)[j := d_values b ! i]\<rparr> else a)"
  shows "datum_ok kt vt e" "d_keys e = d_keys a" "set (elements e) = insert (elements b ! i) {x \<in> set (elements a). fst x \<noteq> fst (elements b ! i)}"
proof -
  show "d_keys e = d_keys a" by (simp add: e_def)
  have ta: "datum_of_type kt vt a" using a(1) by (simp add: datum_ok_def)
  note el = elements_nth [OF b(1,2)] elements_nth [OF ta a(2)]
  show "datum_ok kt vt e"
    using a(1) set_value_elements(1) [OF a _ value_of_type_nth [OF b(1,2)]] by (auto simp: e_def)
  show "set (elements e) = insert (elements b ! i) {x \<in> set (elements a). fst x \<noteq> fst (elements b ! i)}"
  proof (cases "vt = OVSDB_TYPE_VOID")
    case False
    then show ?thesis using set_value_elements(2) [OF a False value_of_type_nth [OF b(1,2) False]] el b(3) by (simp add: e_def)
  next
    case True
    have in_a: "elements b ! i \<in> set (elements a)" using el True b(3) length_elements [OF ta] a(2) by (metis nth_mem)
    have "x = elements b ! i" if "x \<in> set (elements a)" "fst x = fst (elements b ! i)" for x
      using that element_types(3) [OF ta that(1) True] el(1) True by (simp add: prod_eq_iff)
    then show ?thesis using in_a True by (auto simp: e_def)
  qed
qed

definition replaced :: "bool \<Rightarrow> ovsdb_datum \<Rightarrow> (ovsdb_atom \<times> ovsdb_atom option) set \<Rightarrow> (ovsdb_atom \<times> ovsdb_atom option) set" where
  "replaced replace a B =
     (if replace then {x \<in> set (elements a). fst x \<notin> fst ` B} \<union> {x \<in> B. fst x \<in> set (d_keys a)} else set (elements a))"

lemma union_loop_spec:
  assumes b: "datum_of_type kt vt b" "distinct (d_keys b)"
  shows "extends kt vt a new \<Longrightarrow> d_n a < 2 ^ 31 \<Longrightarrow> distinct bis \<Longrightarrow> set bis \<subseteq> {..<d_n b} \<Longrightarrow>
    set (d_keys new) \<inter> (!) (d_keys b) ` set bis = {} \<Longrightarrow>
    \<exists>a' new'. union_loop b kt vt replace a new bis = Some (a', new') \<and> extends kt vt a' new' \<and> d_keys a' = d_keys a \<and>
      d_n new' \<le> d_n new + length bis \<and>
      set (elements new') = set (elements new) \<union> {x \<in> (!) (elements b) ` set bis. fst x \<notin> set (d_keys a)} \<and>
      set (elements a') = replaced replace a ((!) (elements b) ` set bis)"
proof (induction bis arbitrary: a new)
  case Nil
  then show ?case by (auto simp: replaced_def)
next
  case (Cons bi bis)
  let ?k = "d_keys b ! bi" and ?x = "elements b ! bi" and ?B = "(!) (elements b) ` set bis"
  have bi: "bi < d_n b" "bi \<notin> set bis" "set bis \<subseteq> {..<d_n b}" "distinct bis" using Cons.prems(3,4) by auto
  have x: "fst ?x = ?k" using elements_nth [OF b(1) bi(1)] by simp
  have fstB: "fst ` ?B = (!) (d_keys b) ` set bis" using elements_nth [OF b(1)] bi(3) by (force simp: image_image intro!: image_cong)
  have fresh: "?k \<notin> (!) (d_keys b) ` set bis" using b(2) bi by (auto simp: nth_eq_iff_index_eq subset_iff)
  have ok: "datum_ok kt vt a" using Cons.prems(1) by (simp add: extends_def)
  obtain r where r: "ovsdb_datum_find_key a ?k kt = Some r" "found (d_keys a) ?k r" "?k \<in> set (d_keys a) \<longleftrightarrow> r \<noteq> UINT_MAX"
    using find_key_found [OF ok Cons.prems(2) key_of_type [OF b(1) bi(1)]] by blast
  show ?case
  proof (cases "r = UINT_MAX")
    case True
    let ?new = "ovsdb_datum_add_unsafe new ?k (d_values b ! bi) vt"
    have "?k \<notin> set (d_keys a)" "?k \<notin> set (d_keys new)" using True r(3) Cons.prems(5) by auto
    note add = extends_add [OF Cons.prems(1) b(1) bi(1) this]
    have "set (d_keys ?new) \<inter> (!) (d_keys b) ` set bis = {}" using add(3) fresh Cons.prems(5) by auto
    from Cons.IH [OF add(1) Cons.prems(2) bi(4,3) this] obtain a' new' where
      u: "union_loop b kt vt replace a ?new bis = Some (a', new')" "extends kt vt a' new'" "d_keys a' = d_keys a"
        "d_n new' \<le> d_n ?new + length bis" "set (elements new') = set (elements ?new) \<union> {x \<in> ?B. fst x \<notin> set (d_keys a)}"
        "set (elements a') = replaced replace a ?B" by blast
    have "set (elements new') = set (elements new) \<union> {y \<in> insert ?x ?B. fst y \<notin> set (d_keys a)}"
      using u(5) add(2) x \<open>?k \<notin> set (d_keys a)\<close> by auto
    moreover have "replaced replace a (insert ?x ?B) = replaced replace a ?B"
      using x \<open>?k \<notin> set (d_keys a)\<close> elements_key [of kt vt a] ok by (auto simp: replaced_def datum_ok_def)
    ultimately show ?thesis using u(1-4,6) r(1) True add(4) by auto
  next
    case False
    let ?e = "if vt \<noteq> OVSDB_TYPE_VOID then a\<lparr>d_values := (d_values a)[unat r := d_values b ! bi]\<rparr> else a"
    let ?a = "if replace then ?e else a"
    have k: "?k \<in> set (d_keys a)" "unat r < d_n a" "d_keys a ! unat r = ?k" using False r(2,3) by (auto simp: found_def)
    note rep = replace_step [OF ok k(2) b(1) bi(1) k(3)]
    have a: "extends kt vt ?a new" "d_keys ?a = d_keys a" "d_n ?a < 2 ^ 31" using Cons.prems(1,2) rep(1,2) by (auto simp: extends_def)
    have "set (d_keys new) \<inter> (!) (d_keys b) ` set bis = {}" using Cons.prems(5) by auto
    from Cons.IH [OF a(1,3) bi(4,3) this] obtain a' new' where
      u: "union_loop b kt vt replace ?a new bis = Some (a', new')" "extends kt vt a' new'" "d_keys a' = d_keys ?a"
        "d_n new' \<le> d_n new + length bis" "set (elements new') = set (elements new) \<union> {x \<in> ?B. fst x \<notin> set (d_keys ?a)}"
        "set (elements a') = replaced replace ?a ?B" by blast
    have 1: "set (elements new') = set (elements new) \<union> {y \<in> insert ?x ?B. fst y \<notin> set (d_keys a)}"
      using u(5) a(2) x k(1) by auto
    have 2: "replaced replace ?a ?B = replaced replace a (insert ?x ?B)"
      using rep(2,3) a(2) x k(1) fresh fstB by (cases replace) (auto simp: replaced_def)
    have "union_loop b kt vt replace a new (bi # bis) = Some (a', new')" using r(1) False u(1) by (auto split: if_splits)
    then show ?thesis using u(2-4,6) a(2) 1 2 by auto
  qed
qed

lemma union_elements:
  assumes a: "datum_ok kt vt a" and b: "datum_ok kt vt b" and n: "d_n a < 2 ^ 31" and "fair rnd (d_n a + d_n b)"
  obtains e k' where "ovsdb_datum_union a b kt vt replace rnd k = Some (e, k')" "datum_ok kt vt e"
    "set (elements e) = replaced replace a (set (elements b)) \<union> {x \<in> set (elements b). fst x \<notin> set (d_keys a)}"
proof -
  have tb: "datum_of_type kt vt b" "distinct (d_keys b)" using b datum_ok_distinct by (auto simp: datum_ok_def)
  have B: "(!) (elements b) ` set [0..<d_n b] = set (elements b)" using length_elements [OF tb(1)] by (metis list.set_map map_nth)
  have nil: "d_keys ovsdb_datum_init_empty = []" "elements ovsdb_datum_init_empty = []" by (auto simp: ovsdb_datum_init_empty_def elements_def)
  have i: "set [0..<d_n b] \<subseteq> {..<d_n b}" by auto
  have "extends kt vt a ovsdb_datum_init_empty" using a by (simp add: extends_def ovsdb_datum_init_empty_def datum_of_type_def)
  from union_loop_spec [OF tb this n _ i, of replace] obtain a' new' where
    u: "union_loop b kt vt replace a ovsdb_datum_init_empty [0..<d_n b] = Some (a', new')" "extends kt vt a' new'" "d_keys a' = d_keys a"
      "d_n new' \<le> d_n b" "set (elements new') = {x \<in> set (elements b). fst x \<notin> set (d_keys a)}"
      "set (elements a') = replaced replace a (set (elements b))"
    unfolding B nil by auto
  have t: "datum_ok kt vt a'" "datum_of_type kt vt a'" "datum_of_type kt vt new'" "distinct (d_keys a' @ d_keys new')"
    using u(2) datum_ok_distinct by (auto simp: extends_def datum_ok_def)
  let ?d = "append_datum a' new'"
  note app = append_datum_of_type [OF t(2,3)]
  show thesis
  proof (cases "d_n new' = 0")
    case True
    then have "elements new' = []" using length_elements [OF t(3)] by simp
    then have "{x \<in> set (elements b). fst x \<notin> set (d_keys a)} = {}" using u(5) by simp
    then have "set (elements a') = replaced replace a (set (elements b)) \<union> {x \<in> set (elements b). fst x \<notin> set (d_keys a)}"
      unfolding u(6) by (simp only: Un_empty_right)
    moreover have "ovsdb_datum_union a b kt vt replace rnd k = Some (a', k)" using u(1) True by (simp add: ovsdb_datum_union_def)
    ultimately show thesis using that t(1) by blast
  next
    case False
    have d: "distinct (d_keys ?d)" "fair rnd (d_n ?d)" using t(4) u(3,4) fair_mono [OF assms(4)] by (auto simp: append_datum_def)
    obtain e k' where e: "ovsdb_datum_sort ?d kt rnd k = Some (duplicate_error ?d, e, k')" "mset (elements e) = mset (elements ?d)" "datum_ok kt vt e"
      using ovsdb_datum_sort_spec [OF app(1) d(2), of k] d(1) by metis
    have "ovsdb_datum_union a b kt vt replace rnd k = Some (e, k')"
      using u(1) False e(1) d(1) by (simp add: ovsdb_datum_union_def append_datum_def duplicate_error_def)
    moreover have "set (elements e) = replaced replace a (set (elements b)) \<union> {x \<in> set (elements b). fst x \<notin> set (d_keys a)}"
      using mset_eq_setD [OF e(2)] app(2) u(5,6) by auto
    ultimately show thesis using that e(3) by blast
  qed
qed

lemma map_eq_by_Some: "(\<And>k v. f k = Some v \<longleftrightarrow> g k = Some v) \<Longrightarrow> f = g"
  by (rule ext) (metis option.exhaust)

text \<open>
  C4: The union of two data returns, when the random numbers are fair and the data have fewer than
  2 to the 31 elements, and is the union of the finite maps (or sets) that they stand for: the
  result is again sorted and unique, and where both have a value for a key it takes the one of the
  second datum if asked to replace values, and the one of the first otherwise.
\<close>

theorem ovsdb_datum_union_is_map_union:
  assumes "datum_ok kt vt a" "datum_ok kt vt b" "d_n a < 2 ^ 31" "fair rnd (d_n a + d_n b)"
  shows "\<exists>e k'. ovsdb_datum_union a b kt vt replace rnd k = Some (e, k') \<and> datum_ok kt vt e \<and>
    datum_map e = (if replace then datum_map a ++ datum_map b else datum_map b ++ datum_map a)"
proof -
  obtain e k' where e: "ovsdb_datum_union a b kt vt replace rnd k = Some (e, k')" "datum_ok kt vt e"
    "set (elements e) = replaced replace a (set (elements b)) \<union> {x \<in> set (elements b). fst x \<notin> set (d_keys a)}"
    using union_elements [OF assms] by blast
  have tb: "fst ` set (elements b) = set (d_keys b)" using keys_elements [of kt vt b] assms(2) by (metis datum_ok_def list.set_map)
  note S = datum_map_Some [OF assms(1)] datum_map_Some [OF assms(2)] datum_map_Some [OF e(2)]
  note N = datum_map_None [OF assms(1)] datum_map_None [OF assms(2)]
  have ka: "k \<in> set (d_keys a)" if "(k, v) \<in> set (elements a)" for k v
    using that elements_key [of kt vt a "(k, v)"] assms(1) by (simp add: datum_ok_def)
  have "datum_map e = (if replace then datum_map a ++ datum_map b else datum_map b ++ datum_map a)"
    by (rule map_eq_by_Some, cases replace) (auto simp: map_add_Some_iff S N e(3) replaced_def tb dest: ka)
  then show ?thesis using e(1,2) by blast
qed

theorem ovsdb_datum_union_is_map_union_witness:
  "\<exists>e k'. ovsdb_datum_union \<lparr>d_keys = [Integer 1, Integer 4], d_values = [Boolean True, Boolean True]\<rparr>
       \<lparr>d_keys = [Integer 2, Integer 4], d_values = [Boolean False, Boolean False]\<rparr> OVSDB_TYPE_INTEGER OVSDB_TYPE_BOOLEAN True (\<lambda>_. 1) 0 =
     Some (e, k') \<and> datum_map e (Integer 4) = Some (Some (Boolean False)) \<and> datum_map e (Integer 1) = Some (Some (Boolean True))"
proof -
  let ?a = "\<lparr>d_keys = [Integer 1, Integer 4], d_values = [Boolean True, Boolean True]\<rparr>"
  let ?b = "\<lparr>d_keys = [Integer 2, Integer 4], d_values = [Boolean False, Boolean False]\<rparr>"
  obtain e k' where "ovsdb_datum_union ?a ?b OVSDB_TYPE_INTEGER OVSDB_TYPE_BOOLEAN True (\<lambda>_. 1) 0 = Some (e, k')"
      "datum_map e = datum_map ?a ++ datum_map ?b"
    using ovsdb_datum_union_is_map_union [of OVSDB_TYPE_INTEGER OVSDB_TYPE_BOOLEAN ?a ?b "\<lambda>_. 1" True 0] fair_one
    by (auto simp: datum_ok_def datum_of_type_def)
  then show ?thesis by (simp add: datum_map_def elements_def)
qed

text \<open>
  The difference of two data returns, when the random numbers are fair, is again sorted and
  unique, and consists of exactly the elements of the first datum that do not occur in the second:
  with the same value or, if the second is a set and the first a map, with any value.
\<close>

theorem ovsdb_datum_subtract_is_difference:
  assumes "datum_ok kt va a" "datum_ok kt vb b" "vb = va \<or> vb = OVSDB_TYPE_VOID" "d_n b < 2 ^ 31" "fair rnd (d_n a)"
  shows "\<exists>e k'. ovsdb_datum_subtract a kt va b kt vb rnd k = Some (e, k') \<and> datum_ok kt va e \<and>
    set (elements e) = {x \<in> set (elements a). \<not> (if vb = OVSDB_TYPE_VOID then fst x \<in> set (d_keys b) else x \<in> set (elements b))}"
proof -
  have a: "datum_of_type kt va a" "distinct (d_keys a)" using assms(1) datum_ok_distinct by (auto simp: datum_ok_def)
  obtain e c where e: "subtract_loop b kt va vb a 0 False = Some (e, c)" "datum_of_type kt va e" "distinct (d_keys e)" "d_n e \<le> d_n a"
      "c \<or> e = a" "set (elements e) = {x \<in> set (elements a). \<not> occurs_in vb b x}"
    using subtract_loop_spec [OF assms(2,4), of vb va a 0 False] assms(3) a by auto
  have "\<exists>d k'. (if c then ovsdb_datum_sort_assert e kt rnd k else Some (e, k)) = Some (d, k') \<and> datum_ok kt va d \<and> set (elements d) = set (elements e)"
  proof (cases c)
    case True
    obtain d k' where d: "ovsdb_datum_sort_assert e kt rnd k = Some (d, k')" "datum_ok kt va d" "mset (elements d) = mset (elements e)"
      using ovsdb_datum_sort_assert_spec [OF e(2) fair_mono [OF assms(5) e(4)] e(3)] by blast
    then show ?thesis using True mset_eq_setD [OF d(3)] by auto
  next
    case False
    then show ?thesis using e(5) assms(1) by auto
  qed
  then show ?thesis using e(1,6) assms(3) by (auto simp: ovsdb_datum_subtract_def occurs_in_def)
qed

theorem ovsdb_datum_subtract_is_difference_witness:
  "\<exists>e k'. ovsdb_datum_subtract \<lparr>d_keys = [Integer 1, Integer 4], d_values = [Boolean True, Boolean True]\<rparr> OVSDB_TYPE_INTEGER OVSDB_TYPE_BOOLEAN
       \<lparr>d_keys = [Integer 4], d_values = []\<rparr> OVSDB_TYPE_INTEGER OVSDB_TYPE_VOID (\<lambda>_. 1) 0 =
     Some (e, k') \<and> set (elements e) = {(Integer 1, Some (Boolean True))}"
proof -
  let ?a = "\<lparr>d_keys = [Integer 1, Integer 4], d_values = [Boolean True, Boolean True]\<rparr>"
  let ?b = "\<lparr>d_keys = [Integer 4], d_values = []\<rparr>"
  have "{x \<in> set (elements ?a). fst x \<notin> set (d_keys ?b)} = {(Integer 1, Some (Boolean True))}" by (auto simp: elements_def)
  then show ?thesis
    using ovsdb_datum_subtract_is_difference [of OVSDB_TYPE_INTEGER OVSDB_TYPE_BOOLEAN ?a OVSDB_TYPE_VOID ?b "\<lambda>_. 1" 0] fair_one
    by (auto simp: datum_ok_def datum_of_type_def)
qed

text \<open>
  The binary search of a datum with fewer than 2 to the 31 elements returns: the index of every
  key that it has, and \<open>UINT_MAX\<close> for every atom of the key type that it does not have; and testing
  that one datum includes or excludes all elements of another decides inclusion and disjointness of
  the sets of their elements.
\<close>

theorem ovsdb_datum_find_key_correct:
  assumes "datum_ok kt vt a" "datum_ok kt vt b" "d_n b < 2 ^ 31"
  shows "(\<forall>i < d_n b. ovsdb_datum_find_key b (d_keys b ! i) kt = Some (of_nat i)) \<and>
    (\<forall>key. atom_of_type kt key \<and> key \<notin> set (d_keys b) \<longrightarrow> ovsdb_datum_find_key b key kt = Some UINT_MAX) \<and>
    ovsdb_datum_includes_all a b kt vt = Some (set (elements a) \<subseteq> set (elements b)) \<and>
    ovsdb_datum_excludes_all a b kt vt = Some (set (elements a) \<inter> set (elements b) = {})"
proof (intro conjI allI impI)
  have t: "datum_of_type kt vt b" using assms(2) by (simp add: datum_ok_def)
  fix i assume i: "i < d_n b"
  obtain r where r: "ovsdb_datum_find_key b (d_keys b ! i) kt = Some r" "found (d_keys b) (d_keys b ! i) r"
    using find_key_found [OF assms(2,3) key_of_type [OF t i]] by blast
  then have "unat r = i" using i datum_ok_distinct [OF assms(2)] nth_eq_iff_index_eq [of "d_keys b" "unat r" i] by (simp add: found_def)
  then show "ovsdb_datum_find_key b (d_keys b ! i) kt = Some (of_nat i)" using r(1) by auto
next
  fix key assume "atom_of_type kt key \<and> key \<notin> set (d_keys b)"
  then show "ovsdb_datum_find_key b key kt = Some UINT_MAX" using find_key_found [OF assms(2,3), of key] by metis
qed (use includes_all_spec [OF assms] in auto)

theorem ovsdb_datum_find_key_correct_witness:
  "ovsdb_datum_find_key \<lparr>d_keys = [Integer 1, Integer 4], d_values = []\<rparr> (Integer 4) OVSDB_TYPE_INTEGER = Some 1 \<and>
   ovsdb_datum_includes_all \<lparr>d_keys = [Integer 4], d_values = []\<rparr> \<lparr>d_keys = [Integer 1, Integer 4], d_values = []\<rparr>
     OVSDB_TYPE_INTEGER OVSDB_TYPE_VOID = Some True"
proof -
  let ?a = "\<lparr>d_keys = [Integer 4], d_values = []\<rparr>" and ?b = "\<lparr>d_keys = [Integer 1, Integer 4], d_values = []\<rparr>"
  have "datum_ok OVSDB_TYPE_INTEGER OVSDB_TYPE_VOID ?a" "datum_ok OVSDB_TYPE_INTEGER OVSDB_TYPE_VOID ?b" "d_n ?b < 2 ^ 31"
    by (auto simp: datum_ok_def datum_of_type_def)
  note facts = ovsdb_datum_find_key_correct [OF this]
  have "ovsdb_datum_find_key ?b (d_keys ?b ! 1) OVSDB_TYPE_INTEGER = Some (of_nat 1)" using facts by (metis One_nat_def length_Cons lessI list.size(3) ovsdb_datum.select_convs(1))
  moreover have "set (elements ?a) \<subseteq> set (elements ?b)" by (simp add: elements_def)
  ultimately show ?thesis using facts by simp
qed

end
