(* ===== verification/Ovsdb_Data_Unique.thy ===== *)
theory Ovsdb_Data_Unique
  imports Ovsdb_Data_Props
begin

text \<open>
  Dropping duplicate keys, \<open>ovsdb_datum_sort_unique\<close>: the loop compacts the sorted arrays in place
  and keeps the first, and so the smallest, element of every group with the same key.
\<close>

section \<open>The first element of each group\<close>

definition keep :: "('a \<times> 'b) list \<Rightarrow> 'a \<times> 'b \<Rightarrow> ('a \<times> 'b) list" where
  "keep ys x = (if ys \<noteq> [] \<and> fst (last ys) = fst x then ys else ys @ [x])"

lemma keep_snoc:
  "foldl keep [] (xs @ [x]) =
     (if foldl keep [] xs \<noteq> [] \<and> fst (last (foldl keep [] xs)) = fst x then foldl keep [] xs else foldl keep [] xs @ [x])"
  by (simp add: keep_def [of "foldl keep [] xs" x])

lemma keep_sublist:
  assumes "sorted_wrt R xs"
  shows "set (foldl keep [] xs) \<subseteq> set xs \<and> sorted_wrt R (foldl keep [] xs) \<and> fst ` set (foldl keep [] xs) = fst ` set xs \<and>
    (xs \<noteq> [] \<longrightarrow> foldl keep [] xs \<noteq> [] \<and> fst (last (foldl keep [] xs)) = fst (last xs))"
  using assms
proof (induction xs rule: rev_induct)
  case (snoc x xs)
  let ?ys = "foldl keep [] xs"
  have IH: "set ?ys \<subseteq> set xs" "sorted_wrt R ?ys" "fst ` set ?ys = fst ` set xs"
    using snoc.IH snoc.prems by (auto simp: sorted_wrt_append)
  have le: "R y x" if "y \<in> set xs" for y using snoc.prems that by (simp add: sorted_wrt_append)
  show ?case
  proof (cases "?ys \<noteq> [] \<and> fst (last ?ys) = fst x")
    case True
    then have "fst x \<in> fst ` set ?ys" by (metis image_eqI last_in_set)
    moreover have "foldl keep [] (xs @ [x]) = ?ys" unfolding keep_snoc using True by simp
    ultimately show ?thesis using True IH by auto
  next
    case False
    then have k: "foldl keep [] (xs @ [x]) = ?ys @ [x]" by (simp only: keep_snoc if_False)
    show ?thesis unfolding k using IH le by (auto simp: sorted_wrt_append)
  qed
qed simp

lemma keep_distinct:
  assumes "sorted_wrt (\<lambda>x y. ovsdb_atom_compare_3way (fst x) (fst y) t \<le> 0) xs" "\<forall>x \<in> set xs. atom_of_type t (fst x)"
  shows "distinct (map fst (foldl keep [] xs))"
  using assms
proof (induction xs rule: rev_induct)
  case (snoc x xs)
  let ?le = "\<lambda>x y. ovsdb_atom_compare_3way (fst x) (fst y) t \<le> 0" and ?ys = "foldl keep [] xs"
  have s: "sorted_wrt ?le xs" "\<And>y. y \<in> set xs \<Longrightarrow> ?le y x" using snoc.prems(1) by (auto simp: sorted_wrt_append)
  have IH: "distinct (map fst ?ys)" using snoc.IH s(1) snoc.prems(2) by simp
  note sub = keep_sublist [OF s(1)]
  have new: "fst x \<notin> fst ` set ?ys" if "?ys \<noteq> []" "fst (last ?ys) \<noteq> fst x"
  proof
    assume "fst x \<in> fst ` set ?ys"
    then obtain y where y: "y \<in> set ?ys" "fst y = fst x" by auto
    then have yx: "y \<in> set xs" "last ?ys \<in> set xs" using sub that(1) last_in_set by auto
    have sorted: "sorted_wrt ?le ?ys" and l: "\<And>z. z \<in> set (butlast ?ys) \<Longrightarrow> ?le z (last ?ys)"
      using sub sorted_wrt_append [of ?le "butlast ?ys" "[last ?ys]"] that(1) by auto
    have "y = last ?ys \<or> y \<in> set (butlast ?ys)" using y(1) that(1) by (metis append_butlast_last_id in_set_conv_decomp rotate1.simps(2) set_ConsD set_rotate1)
    then have "?le y (last ?ys)" using l [of y] that(2) y(2) by auto
    moreover have "?le (last ?ys) y" using s(2) [OF yx(2)] y(2) by simp
    moreover have "atom_of_type t (fst y)" "atom_of_type t (fst (last ?ys))" using snoc.prems(2) yx by auto
    ultimately have "fst y = fst (last ?ys)" using atoms.antisym by blast
    then show False using that(2) y(2) by simp
  qed
  show ?case
  proof (cases "?ys \<noteq> [] \<and> fst (last ?ys) = fst x")
    case True
    then show ?thesis unfolding keep_snoc using IH by simp
  next
    case False
    then have "fst x \<notin> fst ` set ?ys" using new by (cases "?ys = []") auto
    then show ?thesis unfolding keep_snoc using IH False by simp
  qed
qed simp

lemma keep_minimal:
  assumes "sorted_wrt R xs" "\<forall>x \<in> set xs. R x x" "distinct (map fst (foldl keep [] xs))"
  shows "\<forall>y \<in> set (foldl keep [] xs). \<forall>x \<in> set xs. fst x = fst y \<longrightarrow> R y x"
  using assms
proof (induction xs rule: rev_induct)
  case (snoc x xs)
  let ?ys = "foldl keep [] xs"
  have s: "sorted_wrt R xs" "\<And>y. y \<in> set xs \<Longrightarrow> R y x" "R x x" using snoc.prems(1,2) by (auto simp: sorted_wrt_append)
  have sub: "set ?ys \<subseteq> set xs" "fst ` set ?ys = fst ` set xs" using keep_sublist [OF s(1)] by auto
  have d: "distinct (map fst ?ys)" using snoc.prems(3) unfolding keep_snoc by (auto split: if_splits)
  have IH: "\<forall>y \<in> set ?ys. \<forall>x \<in> set xs. fst x = fst y \<longrightarrow> R y x" using snoc.IH s(1) snoc.prems(2) d by simp
  show ?case
  proof (cases "?ys \<noteq> [] \<and> fst (last ?ys) = fst x")
    case True
    then have "foldl keep [] (xs @ [x]) = ?ys" unfolding keep_snoc by simp
    then show ?thesis using IH sub(1) s(2) by auto
  next
    case False
    then have k: "foldl keep [] (xs @ [x]) = ?ys @ [x]" by (simp only: keep_snoc if_False)
    then have "fst x \<notin> fst ` set xs" using snoc.prems(3) sub(2) by simp
    then have new: "fst y \<noteq> fst x" if "y \<in> set xs" for y using that by (metis image_eqI)
    show ?thesis unfolding k using IH sub(1) s(2,3) new by auto
  qed
qed simp

section \<open>Compaction\<close>

lemma copy_element:
  assumes "datum_of_type kt vt d" "i < d_n d" "j < d_n d"
  defines "d1 \<equiv> d\<lparr>d_keys := (d_keys d)[j := d_keys d ! i]\<rparr>"
  defines "e \<equiv> (if vt \<noteq> OVSDB_TYPE_VOID then d1\<lparr>d_values := (d_values d1)[j := d_values d1 ! i]\<rparr> else d1)"
  shows "datum_of_type kt vt e" "elements e = (elements d)[j := elements d ! i]" "d_n e = d_n d"
proof -
  show n: "d_n e = d_n d" by (simp add: e_def d1_def)
  have "list_all (atom_of_type kt) (d_keys e)"
    using key_of_type [OF assms(1)] assms(2,3) by (auto simp: e_def d1_def list_all_length nth_list_update)
  moreover have "vt \<noteq> OVSDB_TYPE_VOID \<Longrightarrow> length (d_values e) = d_n d \<and> list_all (atom_of_type vt) (d_values e)"
    using assms(1-3) by (auto simp: e_def d1_def list_all_length nth_list_update datum_of_type_def)
  moreover have "vt = OVSDB_TYPE_VOID \<Longrightarrow> d_values e = []" using assms(1) by (simp add: e_def d1_def datum_of_type_def)
  ultimately show t: "datum_of_type kt vt e" using n by (simp add: datum_of_type_def)
  show "elements e = (elements d)[j := elements d ! i]"
  proof (rule nth_equalityI)
    show "length (elements e) = length ((elements d)[j := elements d ! i])"
      using length_elements [OF t] length_elements [OF assms(1)] n by simp
    fix l assume "l < length (elements e)"
    then have l: "l < d_n e" "l < d_n d" using length_elements [OF t] n by auto
    have v: "vt \<noteq> OVSDB_TYPE_VOID \<Longrightarrow> length (d_values d) = d_n d" using assms(1) by (simp add: datum_of_type_def)
    show "elements e ! l = (elements d)[j := elements d ! i] ! l"
      using elements_nth [OF t l(1)] elements_nth [OF assms(1) l(2)] elements_nth [OF assms(1,2)] v l assms(2,3) length_elements [OF assms(1)]
      by (cases "l = j") (auto simp: e_def d1_def)
  qed
qed

definition compacting :: "ovsdb_atomic_type \<Rightarrow> ovsdb_atomic_type \<Rightarrow> (ovsdb_atom \<times> ovsdb_atom option) list \<Rightarrow> nat \<Rightarrow> nat \<times> ovsdb_datum \<Rightarrow> bool" where
  "compacting kt vt xs s = (\<lambda>(dst, d). datum_of_type kt vt d \<and> d_n d = length xs \<and> 1 \<le> dst \<and> dst \<le> s \<and>
     drop s (elements d) = drop s xs \<and> take dst (elements d) = foldl keep [] (take s xs))"

lemma compacting_step:
  assumes "compacting kt vt xs s st" "s < length xs"
  shows "compacting kt vt xs (Suc s) (unique_step kt vt st s)"
proof -
  obtain dst d where st: "st = (dst, d)" by (cases st)
  have c: "datum_of_type kt vt d" "d_n d = length xs" "1 \<le> dst" "dst \<le> s" "drop s (elements d) = drop s xs" "take dst (elements d) = foldl keep [] (take s xs)"
    using assms(1) by (auto simp: compacting_def st)
  have n: "length (elements d) = length xs" using length_elements [OF c(1)] c(2) by simp
  have i: "s < d_n d" "dst - 1 < d_n d" "dst < d_n d" using c(2-4) assms(2) by auto
  have x: "elements d ! s = xs ! s" using c(5) n assms(2) by (metis Cons_nth_drop_Suc nth_via_drop)
  have drop: "drop (Suc s) (elements d) = drop (Suc s) xs" using c(5) by (metis drop_drop plus_1_eq_Suc)
  have take: "take (Suc s) xs = take s xs @ [xs ! s]" using assms(2) by (rule take_Suc_conv_app_nth)
  have ne: "take dst (elements d) \<noteq> []" using c(2,3) i n by auto
  then have last: "last (take dst (elements d)) = elements d ! (dst - 1)" "take dst (elements d) \<noteq> []"
    using c(2,3) i n by (auto simp: last_conv_nth min_def)
  have eq: "ovsdb_atom_equals (d_keys d ! s) (d_keys d ! (dst - 1)) kt \<longleftrightarrow> fst (last (take dst (elements d))) = fst (xs ! s)"
    using ovsdb_atom_equals_iff [OF key_of_type [OF c(1) i(1)] key_of_type [OF c(1) i(2)]] elements_nth [OF c(1) i(1)] elements_nth [OF c(1) i(2)] last(1) x
    by auto
  have keep: "foldl keep [] (take (Suc s) xs) = keep (take dst (elements d)) (xs ! s)" using take c(6) by simp
  show ?thesis
  proof (cases "ovsdb_atom_equals (d_keys d ! s) (d_keys d ! (dst - 1)) kt")
    case True
    then have "keep (take dst (elements d)) (xs ! s) = take dst (elements d)" using eq last(2) by (simp add: keep_def)
    then show ?thesis using True c(1-4) drop keep by (simp add: compacting_def unique_step_def st)
  next
    case False
    then have k: "keep (take dst (elements d)) (xs ! s) = take dst (elements d) @ [xs ! s]" using eq by (auto simp: keep_def)
    show ?thesis
    proof (cases "s = dst")
      case True
      then have "take (Suc dst) (elements d) = take dst (elements d) @ [xs ! s]" using x n assms(2) by (simp add: take_Suc_conv_app_nth)
      then show ?thesis using False True c(1-4) drop keep k by (simp add: compacting_def unique_step_def st)
    next
      case ne: False
      note copy = copy_element [OF c(1) i(1,3)]
      have "take (Suc dst) ((elements d)[dst := elements d ! s]) = take dst (elements d) @ [xs ! s]"
        using x n i(3) c(2) by (simp add: take_Suc_conv_app_nth)
      moreover have "drop (Suc s) ((elements d)[dst := elements d ! s]) = drop (Suc s) xs" using drop c(4) by simp
      ultimately show ?thesis using False ne c(2-4) copy keep k by (simp add: compacting_def unique_step_def st Let_def)
    qed
  qed
qed

lemma compacting_run:
  assumes "datum_of_type kt vt d" "1 \<le> s" "s \<le> d_n d"
  shows "compacting kt vt (elements d) s (foldl (unique_step kt vt) (1, d) [1..<s])"
  using assms(2,3)
proof (induction s rule: dec_induct)
  case base
  have "elements d \<noteq> []" using base length_elements [OF assms(1)] by auto
  then have "take 1 (elements d) = foldl keep [] (take 1 (elements d))" by (cases "elements d") (auto simp: keep_def)
  then show ?case using assms(1) length_elements [OF assms(1)] by (simp add: compacting_def)
next
  case (step s)
  have "compacting kt vt (elements d) (Suc s) (unique_step kt vt (foldl (unique_step kt vt) (1, d) [1..<s]) s)"
    using compacting_step step length_elements [OF assms(1)] by simp
  then show ?case using step.hyps by simp
qed

lemma take_datum:
  assumes "datum_of_type kt vt d"
  shows "datum_of_type kt vt \<lparr>d_keys = take m (d_keys d), d_values = take m (d_values d)\<rparr>"
    "elements \<lparr>d_keys = take m (d_keys d), d_values = take m (d_values d)\<rparr> = take m (elements d)"
proof -
  show "datum_of_type kt vt \<lparr>d_keys = take m (d_keys d), d_values = take m (d_values d)\<rparr>"
    using assms by (auto simp: datum_of_type_def list_all_length)
  have "d_values d \<noteq> [] \<Longrightarrow> length (d_values d) = d_n d" using assms by (auto simp: datum_of_type_def split: if_splits)
  then show "elements \<lparr>d_keys = take m (d_keys d), d_values = take m (d_values d)\<rparr> = take m (elements d)"
    by (auto simp: elements_def take_map take_zip)
qed

lemma element_le_antisym:
  assumes "datum_of_type kt vt d" "x \<in> set (elements d)" "y \<in> set (elements d)" "fst x = fst y" "element_le kt vt x y" "element_le kt vt y x"
  shows "x = y"
proof -
  note x = element_types [OF assms(1,2)] and y = element_types [OF assms(1,3)]
  have 0: "ovsdb_atom_compare_3way (fst x) (fst y) kt = 0" "ovsdb_atom_compare_3way (fst y) (fst x) kt = 0"
    using atoms.zero_iff [OF x(1) y(1)] atoms.zero_iff [OF y(1) x(1)] assms(4) by auto
  have "snd x = snd y"
  proof (cases "vt = OVSDB_TYPE_VOID")
    case False
    obtain u v where uv: "snd x = Some u" "atom_of_type vt u" "snd y = Some v" "atom_of_type vt v" using x(2) [OF False] y(2) [OF False] by blast
    then have "ovsdb_atom_compare_3way u v vt \<le> 0" "ovsdb_atom_compare_3way v u vt \<le> 0" using assms(5,6) 0 False by (auto simp: element_le_def)
    then show ?thesis using atoms.antisym [OF uv(2,4)] uv(1,3) by simp
  qed (use x(3) y(3) in simp)
  then show ?thesis using assms(4) by (simp add: prod_eq_iff)
qed

definition smallest :: "ovsdb_atomic_type \<Rightarrow> ovsdb_atomic_type \<Rightarrow> ovsdb_datum \<Rightarrow> (ovsdb_atom \<times> ovsdb_atom option) set" where
  "smallest kt vt d = {x \<in> set (elements d). \<forall>y \<in> set (elements d). fst y = fst x \<longrightarrow> element_le kt vt x y}"

lemma keep_sorted:
  assumes t: "datum_of_type kt vt d" and s: "sorted_wrt (element_le kt vt) (elements d)"
  shows "set (foldl keep [] (elements d)) = smallest kt vt d" "distinct (map fst (foldl keep [] (elements d)))"
    "sorted_wrt (element_le kt vt) (foldl keep [] (elements d))"
proof -
  let ?xs = "elements d" and ?ys = "foldl keep [] (elements d)"
  have k: "sorted_wrt (\<lambda>x y. ovsdb_atom_compare_3way (fst x) (fst y) kt \<le> 0) ?xs"
    using s by (rule sorted_wrt_mono_rel [rotated]) (rule element_le_key)
  show d: "distinct (map fst ?ys)" using keep_distinct [OF k] element_types(1) [OF t] by blast
  note sub = keep_sublist [OF s]
  show "sorted_wrt (element_le kt vt) ?ys" using sub by blast
  have "\<forall>x \<in> set ?xs. element_le kt vt x x" using element_le_total [of kt vt vt d] t by (auto simp: sortable_as_def)
  note min = keep_minimal [OF s this d]
  show "set ?ys = smallest kt vt d"
  proof (intro set_eqI iffI)
    fix x assume "x \<in> set ?ys"
    then show "x \<in> smallest kt vt d" using sub min by (auto simp: smallest_def)
  next
    fix x assume x: "x \<in> smallest kt vt d"
    then have "fst x \<in> fst ` set ?ys" using sub by (auto simp: smallest_def)
    then obtain y where y: "y \<in> set ?ys" "fst x = fst y" by auto
    have xy: "x \<in> set ?xs" "y \<in> set ?xs" using x y sub by (auto simp: smallest_def)
    then have "element_le kt vt x y" "element_le kt vt y x" using x y min by (auto simp: smallest_def)
    then show "x \<in> set ?ys" using element_le_antisym [OF t xy y(2)] y(1) by simp
  qed
qed

lemma smallest_cong: "set (elements d) = set (elements e) \<Longrightarrow> smallest kt vt d = smallest kt vt e"
  by (simp add: smallest_def)

lemma smallest_distinct: "datum_of_type kt vt d \<Longrightarrow> distinct (d_keys d) \<Longrightarrow> smallest kt vt d = set (elements d)"
proof -
  assume t: "datum_of_type kt vt d" and d: "distinct (d_keys d)"
  have "element_le kt vt x y" if "x \<in> set (elements d)" "y \<in> set (elements d)" "fst y = fst x" for x y
  proof -
    have "x = y" using that d keys_elements [OF t] by (metis distinct_map inj_onD)
    then show ?thesis using element_le_total [of kt vt vt d x y] that t by (auto simp: sortable_as_def)
  qed
  then show ?thesis by (auto simp: smallest_def)
qed

text \<open>
  C28: Sorting a datum and dropping duplicates returns, when the random numbers are fair, a datum that
  is sorted and unique and has of each key the element with the smallest value. What it returns as
  the number of elements dropped is that number negated, modulo 2 to the 64: it is right only if
  nothing was dropped.
\<close>

theorem ovsdb_datum_sort_unique_keeps_smallest:
  assumes "datum_of_type kt vt d" "fair rnd (d_n d)"
  shows "\<exists>e k'. ovsdb_datum_sort_unique d kt vt rnd k = Some (- of_nat (d_n d - d_n e), e, k') \<and> datum_ok kt vt e \<and>
    set (elements e) = {x \<in> set (elements d). \<forall>y \<in> set (elements d). fst y = fst x \<longrightarrow> element_le kt vt x y} \<and> d_n e \<le> d_n d"
proof (cases "d_n d < 2")
  case True
  then have 1: "distinct (d_keys d)" "sorted_wrt (\<lambda>a b. ovsdb_atom_compare_3way a b kt < 0) (d_keys d)"
    by (cases "d_keys d"; cases "tl (d_keys d)"; auto)+
  then show ?thesis using True assms(1) smallest_distinct [OF assms(1)] by (simp add: ovsdb_datum_sort_unique_def datum_ok_def smallest_def)
next
  case False
  obtain d1 k' where s: "datum_sort d kt vt rnd k = Some (d1, k')" "datum_of_type kt vt d1" "mset (elements d1) = mset (elements d)"
      "sorted_wrt (element_le kt vt) (elements d1)"
    using datum_sort_returns [of kt vt vt d rnd k] assms by (auto simp: sortable_as_def)
  have n: "d_n d1 = d_n d" using distinct_keys_cong(2) [OF assms(1) s(2,3)] .
  obtain dst d2 where l: "foldl (unique_step kt vt) (1, d1) [1..<d_n d1] = (dst, d2)" by fastforce
  then have "compacting kt vt (elements d1) (d_n d1) (dst, d2)" using compacting_run [OF s(2), of "d_n d1"] False n by simp
  then have c: "datum_of_type kt vt d2" "d_n d2 = d_n d1" "dst \<le> d_n d1" "take dst (elements d2) = foldl keep [] (elements d1)"
    using length_elements [OF s(2)] by (auto simp: compacting_def)
  let ?e = "\<lparr>d_keys = take dst (d_keys d2), d_values = take dst (d_values d2)\<rparr>"
  note te = take_datum [OF c(1), of dst] and ks = keep_sorted [OF s(2,4)]
  have ne: "d_n ?e = dst" using c(2,3) by simp
  have e: "distinct (d_keys ?e)" "sorted_wrt (element_le kt vt) (elements ?e)" using keys_elements [OF te(1)] te(2) c(4) ks(2,3) by auto
  have "list_all (atom_of_type kt) (d_keys ?e)" using te(1) unfolding datum_of_type_def by blast
  from adjacent_duplicates(2) [OF this sorted_elements_keys [OF te(1) e(2)] e(1)]
  have "datum_ok kt vt ?e" using te(1) unfolding datum_ok_def by blast
  moreover have "set (elements ?e) = smallest kt vt d" using te(2) c(4) ks(1) smallest_cong [OF mset_eq_setD [OF s(3)]] by simp
  moreover have "of_nat dst - of_nat (d_n d1) = - (of_nat (d_n d - dst) :: u64)" using c(3) n by (simp add: of_nat_diff)
  ultimately show ?thesis using False s(1) l c(3) n ne unfolding ovsdb_datum_sort_unique_def smallest_def by (intro exI [of _ ?e]) simp
qed

theorem ovsdb_datum_sort_unique_keeps_smallest_witness:
  "\<exists>e k' r. ovsdb_datum_sort_unique \<lparr>d_keys = [Integer 4, Integer 4], d_values = [Boolean True, Boolean False]\<rparr>
      OVSDB_TYPE_INTEGER OVSDB_TYPE_BOOLEAN (\<lambda>_. 1) 0 = Some (r, e, k') \<and> set (elements e) = {(Integer 4, Some (Boolean False))}"
proof -
  let ?d = "\<lparr>d_keys = [Integer 4, Integer 4], d_values = [Boolean True, Boolean False]\<rparr>"
  have "{x \<in> set (elements ?d). \<forall>y \<in> set (elements ?d). fst y = fst x \<longrightarrow> element_le OVSDB_TYPE_INTEGER OVSDB_TYPE_BOOLEAN x y} =
      {(Integer 4, Some (Boolean False))}"
    by (auto simp: elements_def element_le_def)
  then show ?thesis
    using ovsdb_datum_sort_unique_keeps_smallest [of OVSDB_TYPE_INTEGER OVSDB_TYPE_BOOLEAN ?d "\<lambda>_. 1" 0] fair_one
    by (auto simp: datum_of_type_def)
qed

end
