(* ===== verification/Lacp.thy ===== *)
theory Lacp
  imports Hmap_Table Hash Byte_Order State_Machine
begin

text \<open>
  The link aggregation control protocol of lib/lacp.c, with the timers of lib/timer.h. The slaves of
  an object are nodes of the hash table of \<open>Hmap\<close>, so that they are visited in the order of the table;
  a slave and its hash table node have the same address, and the client's handles of slaves (\<open>aux\<close>)
  are addresses.

  The mutex makes each call one step. The current time and the addresses of new slaves are
  arguments. \<open>None\<close> is a failed assertion, a null pointer followed or a loop without end. The fields of
  \<open>lacp_info\<close> hold the values in host byte order; \<open>encode_info\<close> gives the bytes in memory, which is
  what \<open>memcmp\<close> compares. PDUs passed to the \<open>send_pdu\<close> callback are part of the result of \<open>lacp_run\<close>.
  The list of all objects is not kept, and neither are log output and the connectivity sequence
  number.
\<close>

section \<open>Bytes\<close>

text \<open>\<open>memcmp\<close> on arrays of the same length.\<close>

fun c_memcmp :: "u8 list \<Rightarrow> u8 list \<Rightarrow> int" where
  "c_memcmp (a # as) (b # bs) = (if a = b then c_memcmp as bs else if a < b then - 1 else 1)"
| "c_memcmp _ _ = 0"

definition eth_addr_is_zero :: "u8 list \<Rightarrow> bool" where
  "eth_addr_is_zero ea \<longleftrightarrow> ea ! 0 OR ea ! 1 OR ea ! 2 OR ea ! 3 OR ea ! 4 OR ea ! 5 = 0"

definition eth_addr_compare_3way :: "u8 list \<Rightarrow> u8 list \<Rightarrow> int" where
  "eth_addr_compare_3way a b = c_memcmp a b"

definition eth_addr_equals :: "u8 list \<Rightarrow> u8 list \<Rightarrow> bool" where
  "eth_addr_equals a b \<longleftrightarrow> eth_addr_compare_3way a b = 0"

definition hash_pointer :: "addr \<Rightarrow> u32 \<Rightarrow> u32" where
  "hash_pointer p basis = hash_int (of_nat p) basis"

section \<open>Timers\<close>

type_synonym timer = int

definition timer_set_duration :: "int \<Rightarrow> int \<Rightarrow> timer" where
  "timer_set_duration now duration = c_llong (now + duration)"

definition timer_expired :: "timer \<Rightarrow> int \<Rightarrow> bool" where
  "timer_expired t now \<longleftrightarrow> now \<ge> t"

text \<open>The time that \<open>timer_wait_at\<close> asks to be woken at, if any.\<close>

definition timer_wait_at :: "timer \<Rightarrow> int list" where
  "timer_wait_at t = (if t < LLONG_MAX then [t] else [])"

section \<open>State\<close>

abbreviation LACP_STATE_ACT :: u8 where "LACP_STATE_ACT \<equiv> 0x01"
abbreviation LACP_STATE_TIME :: u8 where "LACP_STATE_TIME \<equiv> 0x02"
abbreviation LACP_STATE_AGG :: u8 where "LACP_STATE_AGG \<equiv> 0x04"
abbreviation LACP_STATE_SYNC :: u8 where "LACP_STATE_SYNC \<equiv> 0x08"
abbreviation LACP_STATE_COL :: u8 where "LACP_STATE_COL \<equiv> 0x10"
abbreviation LACP_STATE_DIST :: u8 where "LACP_STATE_DIST \<equiv> 0x20"
abbreviation LACP_STATE_DEF :: u8 where "LACP_STATE_DEF \<equiv> 0x40"
abbreviation LACP_STATE_EXP :: u8 where "LACP_STATE_EXP \<equiv> 0x80"

abbreviation LACP_FAST_TIME_TX :: int where "LACP_FAST_TIME_TX \<equiv> 1000"
abbreviation LACP_SLOW_TIME_TX :: int where "LACP_SLOW_TIME_TX \<equiv> 30000"
abbreviation LACP_RX_MULTIPLIER :: int where "LACP_RX_MULTIPLIER \<equiv> 3"
abbreviation LACP_PDU_LEN :: nat where "LACP_PDU_LEN \<equiv> 110"

record lacp_info =
  li_sys_priority :: u16
  li_sys_id :: "u8 list"
  li_key :: u16
  li_port_priority :: u16
  li_port_id :: u16
  li_state :: u8

datatype slave_status = LACP_CURRENT | LACP_EXPIRED | LACP_DEFAULTED

record slave =
  sl_aux :: addr
  sl_port_id :: u16
  sl_port_priority :: u16
  sl_key :: u16
  sl_name :: "string option"
  sl_status :: slave_status
  sl_attached :: bool
  sl_partner :: lacp_info
  sl_ntt_actor :: lacp_info
  sl_tx :: timer
  sl_rx :: timer
  sl_count_rx_pdus :: u32
  sl_count_rx_pdus_bad :: u32
  sl_count_tx_pdus :: u32

record lacp =
  lc_name :: "string option"
  lc_sys_id :: "u8 list"
  lc_sys_priority :: u16
  lc_active :: bool
  lc_slaves :: hmap
  lc_slave :: "addr \<Rightarrow> slave"
  lc_key_slave :: addr
  lc_fast :: bool
  lc_negotiated :: bool
  lc_update :: bool
  lc_fallback_ab :: bool
  lc_ref_cnt :: u32

record lacp_settings =
  ls_name :: string
  ls_id :: "u8 list"
  ls_priority :: u16
  ls_active :: bool
  ls_fast :: bool
  ls_fallback_ab_cfg :: bool

record lacp_slave_settings =
  lss_name :: string
  lss_id :: u16
  lss_priority :: u16
  lss_key :: u16

datatype lacp_status = LACP_NEGOTIATED | LACP_CONFIGURED | LACP_DISABLED

text \<open>Memory that \<open>xzalloc\<close> and \<open>memset\<close> have cleared.\<close>

definition zero_info :: lacp_info where
  "zero_info = \<lparr>li_sys_priority = 0, li_sys_id = replicate 6 0, li_key = 0, li_port_priority = 0, li_port_id = 0, li_state = 0\<rparr>"

definition zero_slave :: slave where
  "zero_slave = \<lparr>sl_aux = 0, sl_port_id = 0, sl_port_priority = 0, sl_key = 0, sl_name = None, sl_status = LACP_CURRENT,
     sl_attached = False, sl_partner = zero_info, sl_ntt_actor = zero_info, sl_tx = 0, sl_rx = 0, sl_count_rx_pdus = 0,
     sl_count_rx_pdus_bad = 0, sl_count_tx_pdus = 0\<rparr>"

definition upd_slave :: "addr \<Rightarrow> (slave \<Rightarrow> slave) \<Rightarrow> lacp \<Rightarrow> lacp" where
  "upd_slave x f l = l\<lparr>lc_slave := (lc_slave l)(x := f (lc_slave l x))\<rparr>"

section \<open>PDUs\<close>

text \<open>The packed structures \<open>lacp_info\<close> and \<open>lacp_pdu\<close> as bytes.\<close>

definition encode_info :: "lacp_info \<Rightarrow> u8 list" where
  "encode_info i = be_bytes 2 (li_sys_priority i) @ li_sys_id i @ be_bytes 2 (li_key i) @ be_bytes 2 (li_port_priority i) @
     be_bytes 2 (li_port_id i) @ [li_state i]"

definition decode_info :: "u8 list \<Rightarrow> lacp_info" where
  "decode_info bs = \<lparr>li_sys_priority = be_field 0 2 bs, li_sys_id = take 6 (drop 2 bs), li_key = be_field 8 2 bs,
     li_port_priority = be_field 10 2 bs, li_port_id = be_field 12 2 bs, li_state = bs ! 14\<rparr>"

definition compose_lacp_pdu :: "lacp_info \<Rightarrow> lacp_info \<Rightarrow> u8 list" where
  "compose_lacp_pdu actor partner =
     [1, 1] @ [1, 20] @ encode_info actor @ replicate 3 0 @ [2, 20] @ encode_info partner @ replicate 3 0 @
     [3, 16] @ be_bytes 2 (0 :: u16) @ replicate 64 0"

text \<open>
  The actor and partner information of the PDU in a packet whose network header is at offset \<open>l3\<close>.
\<close>

definition parse_lacp_packet :: "u8 list \<Rightarrow> nat \<Rightarrow> (lacp_info \<times> lacp_info) option" where
  "parse_lacp_packet p l3 =
     (if l3 + LACP_PDU_LEN \<le> length p then
        let pdu = take LACP_PDU_LEN (drop l3 p)
        in if pdu ! 0 = 1 \<and> pdu ! 2 = 1 \<and> pdu ! 3 = 20 \<and> pdu ! 22 = 2 \<and> pdu ! 23 = 20
           then Some (decode_info (take 15 (drop 4 pdu)), decode_info (take 15 (drop 24 pdu)))
           else None
      else None)"

section \<open>Slaves\<close>

definition aux_hash :: "addr \<Rightarrow> u64" where
  "aux_hash aux = ucast (hash_pointer aux 0)"

text \<open>\<open>Some 0\<close> is the result NULL.\<close>

definition slave_lookup :: "lacp \<Rightarrow> addr \<Rightarrow> addr option" where
  "slave_lookup l aux = hmap_find_in_bucket (lc_slaves l) (aux_hash aux) (\<lambda>x. sl_aux (lc_slave l x) = aux)"

definition slave_set_defaulted :: "addr \<Rightarrow> lacp \<Rightarrow> lacp" where
  "slave_set_defaulted x l =
     (upd_slave x (\<lambda>s. s\<lparr>sl_partner := zero_info, sl_status := LACP_DEFAULTED\<rparr>) l)\<lparr>lc_update := True\<rparr>"

definition slave_set_expired :: "int \<Rightarrow> addr \<Rightarrow> lacp \<Rightarrow> lacp" where
  "slave_set_expired now x l =
     upd_slave x (\<lambda>s. s\<lparr>sl_status := LACP_EXPIRED,
         sl_partner := (sl_partner s)\<lparr>li_state := (li_state (sl_partner s) OR LACP_STATE_TIME) AND NOT LACP_STATE_SYNC\<rparr>,
         sl_rx := timer_set_duration now (LACP_RX_MULTIPLIER * LACP_FAST_TIME_TX)\<rparr>) l"

definition slave_get_actor :: "lacp \<Rightarrow> addr \<Rightarrow> lacp_info option" where
  "slave_get_actor l x =
     (let s = lc_slave l x;
          state =
            (if lc_active l then LACP_STATE_ACT else 0) OR
            (if lc_fast l then LACP_STATE_TIME else 0) OR
            (if sl_attached s then LACP_STATE_SYNC else 0) OR
            (if sl_status s = LACP_DEFAULTED then LACP_STATE_DEF else 0) OR
            (if sl_status s = LACP_EXPIRED then LACP_STATE_EXP else 0) OR
            (if hmap_count (lc_slaves l) > 1 then LACP_STATE_AGG else 0) OR
            (if sl_attached s \<or> \<not> lc_negotiated l then LACP_STATE_COL OR LACP_STATE_DIST else 0)
      in if lc_key_slave l = 0 then None
         else
           let k = lc_slave l (lc_key_slave l)
           in Some \<lparr>li_sys_priority = lc_sys_priority l, li_sys_id = lc_sys_id l,
                     li_key = (if sl_key k \<noteq> 0 then sl_key k else sl_port_id k),
                     li_port_priority = sl_port_priority s, li_port_id = sl_port_id s, li_state = state\<rparr>)"

definition slave_get_priority :: "lacp \<Rightarrow> addr \<Rightarrow> lacp_info option" where
  "slave_get_priority l x =
     (let partner = sl_partner (lc_slave l x);
          actor_priority = lc_sys_priority l;
          partner_priority = li_sys_priority partner;
          priority =
            (if actor_priority < partner_priority then slave_get_actor l x
             else if partner_priority < actor_priority then Some partner
             else if eth_addr_compare_3way (lc_sys_id l) (li_sys_id partner) < 0 then slave_get_actor l x
             else Some partner)
      in map_option (\<lambda>i. i\<lparr>li_key := 0, li_state := 0\<rparr>) priority)"

definition slave_may_tx :: "lacp \<Rightarrow> addr \<Rightarrow> bool" where
  "slave_may_tx l x \<longleftrightarrow> lc_active l \<or> sl_status (lc_slave l x) \<noteq> LACP_DEFAULTED"

definition slave_may_enable :: "lacp \<Rightarrow> addr \<Rightarrow> bool" where
  "slave_may_enable l x \<longleftrightarrow>
     (let s = lc_slave l x
      in sl_attached s \<and> (li_state (sl_partner s) AND LACP_STATE_SYNC \<noteq> 0 \<or> lc_fallback_ab l \<and> sl_status s = LACP_DEFAULTED))"

definition slave_destroy :: "addr \<Rightarrow> lacp \<Rightarrow> lacp option" where
  "slave_destroy x l =
     map_option
       (\<lambda>hm. let l = l\<lparr>lc_update := True, lc_slaves := hm\<rparr>
             in if lc_key_slave l = x then l\<lparr>lc_key_slave := hmap_first hm\<rparr> else l)
       (hmap_remove (lc_slaves l) x)"

definition info_tx_equal :: "lacp_info \<Rightarrow> lacp_info \<Rightarrow> bool" where
  "info_tx_equal a b \<longleftrightarrow>
     (li_state a XOR li_state b) AND (LACP_STATE_ACT OR LACP_STATE_TIME OR LACP_STATE_SYNC OR LACP_STATE_AGG) = 0 \<and>
     li_port_id a = li_port_id b \<and> li_port_priority a = li_port_priority b \<and> li_key a = li_key b \<and>
     li_sys_priority a = li_sys_priority b \<and> eth_addr_equals (li_sys_id a) (li_sys_id b)"

section \<open>Attachment\<close>

text \<open>
  The two loops of \<open>lacp_update_attached\<close>, over the slaves left. The first also finds the slave of
  highest priority (\<open>lead\<close>), with its priority.
\<close>

abbreviation set_attached :: "bool \<Rightarrow> addr \<Rightarrow> lacp \<Rightarrow> lacp" where
  "set_attached b x l \<equiv> upd_slave x (\<lambda>s. s\<lparr>sl_attached := b\<rparr>) l"

fun find_lead :: "lacp \<Rightarrow> addr list \<Rightarrow> (addr \<times> lacp_info) option \<Rightarrow> (lacp \<times> (addr \<times> lacp_info) option) option" where
  "find_lead l [] lead = Some (l, lead)"
| "find_lead l (x # xs) lead =
     (let l = set_attached False x l; s = lc_slave l x
      in if eth_addr_equals (li_sys_id (sl_partner s)) (lc_sys_id l) then find_lead l xs lead
         else if sl_status s = LACP_DEFAULTED
         then find_lead (if lc_fallback_ab l then set_attached True x l else l) xs lead
         else
           let l = set_attached True x l
           in case slave_get_priority l x of
                None \<Rightarrow> None
              | Some pri \<Rightarrow>
                  find_lead l xs
                    (case lead of
                       None \<Rightarrow> Some (x, pri)
                     | Some (_, lead_pri) \<Rightarrow> if c_memcmp (encode_info pri) (encode_info lead_pri) < 0 then Some (x, pri) else lead))"

definition detach_other :: "addr \<Rightarrow> addr \<Rightarrow> lacp \<Rightarrow> lacp" where
  "detach_other lead x l =
     (let s = lc_slave l x; p = sl_partner (lc_slave l lead)
      in if lc_fallback_ab l \<and> sl_status s = LACP_DEFAULTED \<or> li_key p \<noteq> li_key (sl_partner s) \<or>
            \<not> eth_addr_equals (li_sys_id p) (li_sys_id (sl_partner s))
         then set_attached False x l else l)"

definition lacp_update_attached :: "lacp \<Rightarrow> lacp option" where
  "lacp_update_attached l =
     (case hmap_nodes (lc_slaves l) of
        None \<Rightarrow> None
      | Some xs \<Rightarrow>
          (case find_lead (l\<lparr>lc_update := False\<rparr>) xs None of
             None \<Rightarrow> None
           | Some (l, lead) \<Rightarrow>
               let l = l\<lparr>lc_negotiated := lead \<noteq> None\<rparr>
               in Some (case lead of None \<Rightarrow> l | Some (lead, _) \<Rightarrow> fold (detach_other lead) xs l)))"

section \<open>Interface\<close>

definition lacp_create :: "(addr \<Rightarrow> slave) \<Rightarrow> hmap \<Rightarrow> lacp" where
  "lacp_create slaves mem =
     \<lparr>lc_name = None, lc_sys_id = replicate 6 0, lc_sys_priority = 0, lc_active = False, lc_slaves = hmap_init mem,
      lc_slave = slaves, lc_key_slave = 0, lc_fast = False, lc_negotiated = False, lc_update = False,
      lc_fallback_ab = False, lc_ref_cnt = 1\<rparr>"

definition lacp_ref :: "lacp option \<Rightarrow> lacp option" where
  "lacp_ref l = map_option (\<lambda>l. l\<lparr>lc_ref_cnt := lc_ref_cnt l + 1\<rparr>) l"

text \<open>The inner \<open>None\<close> says that the object has been freed.\<close>

fun destroy_all :: "lacp \<Rightarrow> addr list \<Rightarrow> lacp option" where
  "destroy_all l [] = Some l"
| "destroy_all l (x # xs) = Option.bind (slave_destroy x l) (\<lambda>l. destroy_all l xs)"

definition lacp_unref :: "lacp option \<Rightarrow> lacp option option" where
  "lacp_unref l =
     (case l of
        None \<Rightarrow> Some None
      | Some l \<Rightarrow>
          if lc_ref_cnt l = 0 then None
          else if lc_ref_cnt l = 1
          then Option.bind (hmap_nodes (lc_slaves l)) (\<lambda>xs. map_option (\<lambda>_. None) (destroy_all (l\<lparr>lc_ref_cnt := 0\<rparr>) xs))
          else Some (Some (l\<lparr>lc_ref_cnt := lc_ref_cnt l - 1\<rparr>)))"

definition lacp_configure :: "lacp \<Rightarrow> lacp_settings \<Rightarrow> lacp option" where
  "lacp_configure l s =
     (if eth_addr_is_zero (ls_id s) then None
      else
        let l = l\<lparr>lc_name := Some (ls_name s)\<rparr>;
            l = (if \<not> eth_addr_equals (lc_sys_id l) (ls_id s) \<or> lc_sys_priority l \<noteq> ls_priority s
                 then l\<lparr>lc_sys_id := ls_id s, lc_sys_priority := ls_priority s, lc_update := True\<rparr> else l);
            l = l\<lparr>lc_active := ls_active s, lc_fast := ls_fast s\<rparr>
        in Some (if lc_fallback_ab l \<noteq> ls_fallback_ab_cfg s
                 then l\<lparr>lc_fallback_ab := ls_fallback_ab_cfg s, lc_update := True\<rparr> else l))"

definition lacp_is_active :: "lacp \<Rightarrow> bool" where
  "lacp_is_active l = lc_active l"

text \<open>What \<open>lacp_process_packet\<close> does with a PDU received on a slave.\<close>

definition receive_pdu :: "addr \<Rightarrow> lacp_info \<times> lacp_info \<Rightarrow> int \<Rightarrow> lacp \<Rightarrow> lacp" where
  "receive_pdu x = (\<lambda>(actor, partner) now l.
     let tx_rate = (if lc_fast l then LACP_FAST_TIME_TX else LACP_SLOW_TIME_TX);
         l = upd_slave x (\<lambda>s. s\<lparr>sl_status := LACP_CURRENT, sl_rx := timer_set_duration now (LACP_RX_MULTIPLIER * tx_rate),
                               sl_ntt_actor := partner\<rparr>) l
     in if c_memcmp (encode_info (sl_partner (lc_slave l x))) (encode_info actor) \<noteq> 0
        then upd_slave x (\<lambda>s. s\<lparr>sl_partner := actor\<rparr>) (l\<lparr>lc_update := True\<rparr>) else l)"

definition lacp_process_packet :: "lacp \<Rightarrow> addr \<Rightarrow> u8 list \<Rightarrow> nat \<Rightarrow> int \<Rightarrow> lacp option" where
  "lacp_process_packet l aux packet l3 now =
     (case slave_lookup l aux of
        None \<Rightarrow> None
      | Some x \<Rightarrow>
          Some (if x = 0 then l
                else
                  let l = upd_slave x (\<lambda>s. s\<lparr>sl_count_rx_pdus := sl_count_rx_pdus s + 1\<rparr>) l
                  in case parse_lacp_packet packet l3 of
                       None \<Rightarrow> upd_slave x (\<lambda>s. s\<lparr>sl_count_rx_pdus_bad := sl_count_rx_pdus_bad s + 1\<rparr>) l
                     | Some pdu \<Rightarrow> receive_pdu x pdu now l))"

definition lacp_status_of :: "lacp option \<Rightarrow> lacp_status" where
  "lacp_status_of l =
     (case l of None \<Rightarrow> LACP_DISABLED | Some l \<Rightarrow> if lc_negotiated l then LACP_NEGOTIATED else LACP_CONFIGURED)"

text \<open>The end of \<open>lacp_slave_register\<close>: new settings for a slave.\<close>

definition set_slave :: "addr \<Rightarrow> lacp_slave_settings \<Rightarrow> int \<Rightarrow> lacp \<Rightarrow> lacp" where
  "set_slave x s now l =
     (let l = upd_slave x (\<lambda>v. v\<lparr>sl_name := Some (lss_name s)\<rparr>) l; v = lc_slave l x
      in if sl_port_id v \<noteq> lss_id s \<or> sl_port_priority v \<noteq> lss_priority s \<or> sl_key v \<noteq> lss_key s then
           let l = upd_slave x (\<lambda>v. v\<lparr>sl_port_id := lss_id s, sl_port_priority := lss_priority s, sl_key := lss_key s\<rparr>)
                     (l\<lparr>lc_update := True\<rparr>)
           in if lc_active l \<or> lc_negotiated l then slave_set_expired now x l else l
         else l)"

definition add_slave :: "addr \<Rightarrow> addr \<Rightarrow> lacp \<Rightarrow> lacp option" where
  "add_slave new aux l =
     map_option
       (\<lambda>hm. let l = slave_set_defaulted new (l\<lparr>lc_slave := (lc_slave l)(new := zero_slave\<lparr>sl_aux := aux\<rparr>), lc_slaves := hm\<rparr>)
             in if lc_key_slave l = 0 then l\<lparr>lc_key_slave := new\<rparr> else l)
       (hmap_insert (lc_slaves l) new (aux_hash aux))"

definition lacp_slave_register :: "lacp \<Rightarrow> addr \<Rightarrow> lacp_slave_settings \<Rightarrow> addr \<Rightarrow> int \<Rightarrow> lacp option" where
  "lacp_slave_register l aux s new now =
     (case slave_lookup l aux of
        None \<Rightarrow> None
      | Some x \<Rightarrow>
          if x = 0 then map_option (set_slave new s now) (add_slave new aux l) else Some (set_slave x s now l))"

definition lacp_slave_unregister :: "lacp \<Rightarrow> addr \<Rightarrow> lacp option" where
  "lacp_slave_unregister l aux =
     (case slave_lookup l aux of
        None \<Rightarrow> None
      | Some x \<Rightarrow> if x = 0 then Some l else map_option (\<lambda>l. l\<lparr>lc_update := True\<rparr>) (slave_destroy x l))"

definition lacp_slave_carrier_changed :: "lacp \<Rightarrow> addr \<Rightarrow> int \<Rightarrow> lacp option" where
  "lacp_slave_carrier_changed l aux now =
     (case slave_lookup l aux of
        None \<Rightarrow> None
      | Some x \<Rightarrow>
          Some (if x \<noteq> 0 \<and> (sl_status (lc_slave l x) = LACP_CURRENT \<or> lc_active l) then slave_set_expired now x l else l))"

definition lacp_slave_may_enable :: "lacp option \<Rightarrow> addr \<Rightarrow> bool option" where
  "lacp_slave_may_enable l aux =
     (case l of
        None \<Rightarrow> Some True
      | Some l \<Rightarrow> map_option (\<lambda>x. x \<noteq> 0 \<and> slave_may_enable l x) (slave_lookup l aux))"

definition lacp_slave_is_current :: "lacp \<Rightarrow> addr \<Rightarrow> bool option" where
  "lacp_slave_is_current l aux =
     map_option (\<lambda>x. x \<noteq> 0 \<and> sl_status (lc_slave l x) \<noteq> LACP_DEFAULTED) (slave_lookup l aux)"

text \<open>The bodies of the two loops of \<open>lacp_run\<close>.\<close>

definition run_rx :: "int \<Rightarrow> addr \<Rightarrow> lacp \<Rightarrow> lacp" where
  "run_rx now x l =
     (let s = lc_slave l x
      in if timer_expired (sl_rx s) now then
           if sl_status s = LACP_CURRENT then slave_set_expired now x l
           else if sl_status s = LACP_EXPIRED then slave_set_defaulted x l
           else l
         else l)"

definition run_tx :: "int \<Rightarrow> addr \<Rightarrow> lacp \<Rightarrow> (lacp \<times> (addr \<times> u8 list) list) option" where
  "run_tx now x l =
     (if \<not> slave_may_tx l x then Some (l, [])
      else
        case slave_get_actor l x of
          None \<Rightarrow> None
        | Some actor \<Rightarrow>
            let s = lc_slave l x
            in if timer_expired (sl_tx s) now \<or> \<not> info_tx_equal actor (sl_ntt_actor s) then
                 let duration = (if li_state (sl_partner s) AND LACP_STATE_TIME \<noteq> 0 then LACP_FAST_TIME_TX else LACP_SLOW_TIME_TX)
                 in Some (upd_slave x (\<lambda>s. s\<lparr>sl_ntt_actor := actor, sl_count_tx_pdus := sl_count_tx_pdus s + 1,
                                            sl_tx := timer_set_duration now duration\<rparr>) l,
                          [(sl_aux s, compose_lacp_pdu actor (sl_partner s))])
               else Some (l, []))"

fun run_tx_all :: "int \<Rightarrow> addr list \<Rightarrow> lacp \<Rightarrow> (lacp \<times> (addr \<times> u8 list) list) option" where
  "run_tx_all now [] l = Some (l, [])"
| "run_tx_all now (x # xs) l =
     (case run_tx now x l of
        None \<Rightarrow> None
      | Some (l, sent) \<Rightarrow> map_option (\<lambda>(l, sent'). (l, sent @ sent')) (run_tx_all now xs l))"

definition lacp_run :: "lacp \<Rightarrow> int \<Rightarrow> (lacp \<times> (addr \<times> u8 list) list) option" where
  "lacp_run l now =
     (case hmap_nodes (lc_slaves l) of
        None \<Rightarrow> None
      | Some xs \<Rightarrow>
          let l = fold (run_rx now) xs l
          in case (if lc_update l then lacp_update_attached l else Some l) of
               None \<Rightarrow> None
             | Some l \<Rightarrow> run_tx_all now xs l)"

text \<open>The times at which \<open>lacp_wait\<close> asks to be woken.\<close>

definition lacp_wait :: "lacp \<Rightarrow> int list option" where
  "lacp_wait l =
     map_option
       (concat \<circ> map (\<lambda>x. (if slave_may_tx l x then timer_wait_at (sl_tx (lc_slave l x)) else []) @
                           (if sl_status (lc_slave l x) \<noteq> LACP_DEFAULTED then timer_wait_at (sl_rx (lc_slave l x)) else [])))
       (hmap_nodes (lc_slaves l))"

record lacp_slave_stats =
  lst_actor_system_id :: "u8 list"
  lst_partner_oper_system_id :: "u8 list"
  lst_attached_agg_id :: u32
  lst_actor_admin_state :: u8
  lst_actor_oper_state :: u8
  lst_partner_admin_state :: u8
  lst_partner_oper_state :: u8
  lst_pdus_rx :: u32
  lst_illegal_rx :: u32
  lst_pdus_tx :: u32

text \<open>The inner \<open>None\<close> is the return value \<open>false\<close>.\<close>

definition lacp_get_slave_stats :: "lacp \<Rightarrow> addr \<Rightarrow> lacp_slave_stats option option" where
  "lacp_get_slave_stats l aux =
     (case slave_lookup l aux of
        None \<Rightarrow> None
      | Some x \<Rightarrow>
          if x = 0 then Some None
          else
            map_option
              (\<lambda>actor. let s = lc_slave l x; k = lc_slave l (lc_key_slave l)
                in Some \<lparr>lst_actor_system_id = li_sys_id actor, lst_partner_oper_system_id = li_sys_id (sl_partner s),
                          lst_attached_agg_id = ucast (if sl_key k \<noteq> 0 then sl_key k else sl_port_id k),
                          lst_actor_admin_state = LACP_STATE_AGG OR (if lc_active l then LACP_STATE_ACT else 0) OR
                            (if lc_fast l then LACP_STATE_TIME else 0),
                          lst_actor_oper_state = li_state actor, lst_partner_admin_state = 0,
                          lst_partner_oper_state = li_state (sl_partner s), lst_pdus_rx = sl_count_rx_pdus s,
                          lst_illegal_rx = sl_count_rx_pdus_bad s, lst_pdus_tx = sl_count_tx_pdus s\<rparr>)
              (slave_get_actor l x))"

end
