(* ===== verification/Lacp_Inv.thy ===== *)
theory Lacp_Inv
  imports Lacp Three_Way
begin

text \<open>
  What \<open>lacp_update_attached\<close> computes, as a function of the slaves, and the invariant of an
  aggregation object: slaves that are attached have one partner, unless an update is pending.
\<close>

section \<open>Comparing bytes\<close>

lemma memcmp_zero: "length a = length b \<Longrightarrow> c_memcmp a b = 0 \<longleftrightarrow> a = b"
  by (induction a b rule: c_memcmp.induct) auto

lemma memcmp_converse: "length a = length b \<Longrightarrow> c_memcmp b a < 0 \<longleftrightarrow> 0 < c_memcmp a b"
  by (induction a b rule: c_memcmp.induct) auto

lemma memcmp_trans:
  "length a = length b \<Longrightarrow> length b = length c \<Longrightarrow> c_memcmp a b < 0 \<Longrightarrow> c_memcmp b c < 0 \<Longrightarrow> c_memcmp a c < 0"
proof (induction a b arbitrary: c rule: c_memcmp.induct)
  case (1 a as b bs)
  then show ?case by (cases c) (auto split: if_splits)
qed auto

interpretation bytes: three_way c_memcmp "\<lambda>a. length a = n" for n
proof
  fix x y z :: "u8 list" assume l: "length x = n" "length y = n"
  show "c_memcmp x y = 0 \<longleftrightarrow> x = y" using l by (simp add: memcmp_zero)
  show "c_memcmp y x < 0 \<longleftrightarrow> 0 < c_memcmp x y" using l by (intro memcmp_converse) simp
  assume "length z = n" "c_memcmp x y < 0" "c_memcmp y z < 0"
  then show "c_memcmp x z < 0" using l memcmp_trans [of x y z] by simp
qed

lemma eth_addr_equals_iff: "length a = 6 \<Longrightarrow> length b = 6 \<Longrightarrow> eth_addr_equals a b \<longleftrightarrow> a = b"
  by (simp add: eth_addr_equals_def eth_addr_compare_3way_def memcmp_zero)

lemma length_encode_info: "length (encode_info i) = 9 + length (li_sys_id i)"
  by (simp add: encode_info_def)

lemma encode_info_inject:
  assumes "length (li_sys_id i) = 6" "length (li_sys_id j) = 6" "encode_info i = encode_info j"
  shows "i = j"
proof -
  have be: "be_bytes 2 v = be_bytes 2 w \<Longrightarrow> v = w" for v w :: u16
  proof -
    assume "be_bytes 2 v = be_bytes 2 w"
    then have "(of_be (be_bytes 2 v) :: u16) = of_be (be_bytes 2 w)" by simp
    then show "v = w" by (simp only: of_be_bytes len_of_numeral_defs)
  qed
  have "be_bytes 2 (li_sys_priority i) = be_bytes 2 (li_sys_priority j)" "li_sys_id i = li_sys_id j"
    "be_bytes 2 (li_key i) = be_bytes 2 (li_key j)" "be_bytes 2 (li_port_priority i) = be_bytes 2 (li_port_priority j)"
    "be_bytes 2 (li_port_id i) = be_bytes 2 (li_port_id j)" "li_state i = li_state j"
    using assms by (auto simp: encode_info_def)
  then show ?thesis using be by (intro lacp_info.equality) auto
qed

section \<open>Attachment\<close>

text \<open>An object with other attachment flags.\<close>

definition with_attached :: "(addr \<Rightarrow> bool) \<Rightarrow> lacp \<Rightarrow> lacp" where
  "with_attached A l = l\<lparr>lc_slave := \<lambda>x. (lc_slave l x)\<lparr>sl_attached := A x\<rparr>\<rparr>"

lemma with_attached_self: "with_attached (\<lambda>x. sl_attached (lc_slave l x)) l = l"
  by (simp add: with_attached_def)

lemma set_attached_with: "set_attached b x (with_attached A l) = with_attached (A(x := b)) l"
  by (auto simp: with_attached_def upd_slave_def fun_eq_iff)

lemma with_attached_simps [simp]:
  "lc_slaves (with_attached A l) = lc_slaves l" "lc_key_slave (with_attached A l) = lc_key_slave l"
  "lc_sys_id (with_attached A l) = lc_sys_id l" "lc_sys_priority (with_attached A l) = lc_sys_priority l"
  "lc_fallback_ab (with_attached A l) = lc_fallback_ab l" "lc_active (with_attached A l) = lc_active l"
  "lc_fast (with_attached A l) = lc_fast l" "lc_negotiated (with_attached A l) = lc_negotiated l"
  "lc_update (with_attached A l) = lc_update l"
  "lc_slave (with_attached A l) x = (lc_slave l x)\<lparr>sl_attached := A x\<rparr>"
  by (simp_all add: with_attached_def)

text \<open>Loopback links are never used; a slave with a partner can be attached.\<close>

definition linked :: "lacp \<Rightarrow> addr \<Rightarrow> bool" where
  "linked l x \<longleftrightarrow> \<not> eth_addr_equals (li_sys_id (sl_partner (lc_slave l x))) (lc_sys_id l)"

definition eligible :: "lacp \<Rightarrow> addr \<Rightarrow> bool" where
  "eligible l x \<longleftrightarrow> linked l x \<and> sl_status (lc_slave l x) \<noteq> LACP_DEFAULTED"

definition wanted :: "lacp \<Rightarrow> addr \<Rightarrow> bool" where
  "wanted l x \<longleftrightarrow> linked l x \<and> (sl_status (lc_slave l x) = LACP_DEFAULTED \<longrightarrow> lc_fallback_ab l)"

definition prio :: "lacp \<Rightarrow> addr \<Rightarrow> lacp_info" where
  "prio l x = the (slave_get_priority l x)"

definition best :: "lacp \<Rightarrow> (addr \<times> lacp_info) option \<Rightarrow> addr \<Rightarrow> (addr \<times> lacp_info) option" where
  "best l lead x =
     (case lead of
        None \<Rightarrow> Some (x, prio l x)
      | Some (_, p) \<Rightarrow> if c_memcmp (encode_info (prio l x)) (encode_info p) < 0 then Some (x, prio l x) else lead)"

lemma priority_with_attached: "slave_get_priority (with_attached A l) x = slave_get_priority l x"
  by (auto simp: slave_get_priority_def slave_get_actor_def Let_def)

lemma priority_exists: "lc_key_slave l \<noteq> 0 \<Longrightarrow> slave_get_priority l x = Some (prio l x)"
  by (auto simp: prio_def slave_get_priority_def slave_get_actor_def Let_def)

lemma find_lead_step:
  assumes "lc_key_slave l \<noteq> 0"
  shows "find_lead (with_attached A l) (x # xs) lead =
    find_lead (with_attached (A(x := wanted l x)) l) xs (if eligible l x then best l lead x else lead)"
proof -
  note p = priority_exists [OF assms, of x]
  consider "\<not> linked l x" | "linked l x" "sl_status (lc_slave l x) = LACP_DEFAULTED" | "linked l x" "sl_status (lc_slave l x) \<noteq> LACP_DEFAULTED"
    by blast
  then show ?thesis
  proof cases
    case 1
    then have "\<not> wanted l x" "\<not> eligible l x" by (auto simp: wanted_def eligible_def)
    then show ?thesis using 1 unfolding linked_def by (simp add: set_attached_with)
  next
    case 2
    then have "wanted l x = lc_fallback_ab l" "\<not> eligible l x" by (auto simp: wanted_def eligible_def)
    then show ?thesis using 2 unfolding linked_def by (cases "lc_fallback_ab l") (simp_all add: Let_def set_attached_with)
  next
    case 3
    then have "wanted l x" "eligible l x" by (auto simp: wanted_def eligible_def)
    then show ?thesis using 3 p unfolding linked_def by (simp add: set_attached_with priority_with_attached best_def)
  qed
qed

lemma find_lead_eq:
  assumes "lc_key_slave l \<noteq> 0"
  shows "find_lead (with_attached A l) xs lead =
    Some (with_attached (\<lambda>x. if x \<in> set xs then wanted l x else A x) l, foldl (best l) lead (filter (eligible l) xs))"
proof (induction xs arbitrary: A lead)
  case (Cons x xs)
  have "(\<lambda>y. if y \<in> set xs then wanted l y else (A(x := wanted l x)) y) = (\<lambda>y. if y \<in> set (x # xs) then wanted l y else A y)"
    by auto
  then show ?case unfolding find_lead_step [OF assms] Cons.IH by simp
qed simp

definition other_partner :: "lacp \<Rightarrow> addr \<Rightarrow> addr \<Rightarrow> bool" where
  "other_partner l lead x \<longleftrightarrow> lc_fallback_ab l \<and> sl_status (lc_slave l x) = LACP_DEFAULTED \<or>
     li_key (sl_partner (lc_slave l lead)) \<noteq> li_key (sl_partner (lc_slave l x)) \<or>
     \<not> eth_addr_equals (li_sys_id (sl_partner (lc_slave l lead))) (li_sys_id (sl_partner (lc_slave l x)))"

lemma detach_eq:
  "fold (detach_other lead) xs (with_attached A l) = with_attached (\<lambda>x. A x \<and> \<not> (x \<in> set xs \<and> other_partner l lead x)) l"
proof (induction xs arbitrary: A)
  case (Cons x xs)
  let ?A = "if other_partner l lead x then A(x := False) else A"
  have "detach_other lead x (with_attached A l) = with_attached ?A l"
    by (auto simp: detach_other_def Let_def other_partner_def set_attached_with)
  then have "fold (detach_other lead) (x # xs) (with_attached A l) = with_attached (\<lambda>y. ?A y \<and> \<not> (y \<in> set xs \<and> other_partner l lead y)) l"
    using Cons.IH by simp
  moreover have "(\<lambda>y. ?A y \<and> \<not> (y \<in> set xs \<and> other_partner l lead y)) = (\<lambda>y. A y \<and> \<not> (y \<in> set (x # xs) \<and> other_partner l lead y))"
    by auto
  ultimately show ?case by simp
qed simp

text \<open>The slave with the least priority value among those given.\<close>

lemma best_least:
  assumes "\<forall>x \<in> set xs. length (encode_info (prio l x)) = 15"
  shows "(case foldl (best l) None xs of None \<Rightarrow> xs = []
    | Some (y, p) \<Rightarrow> y \<in> set xs \<and> p = prio l y \<and>
        (\<forall>x \<in> set xs. c_memcmp (encode_info (prio l y)) (encode_info (prio l x)) \<le> 0))"
  using assms
proof (induction xs rule: rev_induct)
  case (snoc x xs)
  note len = snoc.prems
  show ?case
  proof (cases "foldl (best l) None xs")
    case None
    then have "xs = []" using snoc by simp
    then show ?thesis using bytes.zero_iff [of "encode_info (prio l x)" 15 "encode_info (prio l x)"] len by (simp add: best_def)
  next
    case (Some yp)
    obtain y p where yp: "yp = (y, p)" by (cases yp)
    have y: "y \<in> set xs" "p = prio l y" "\<And>z. z \<in> set xs \<Longrightarrow> c_memcmp (encode_info (prio l y)) (encode_info (prio l z)) \<le> 0"
      using snoc Some yp by auto
    let ?e = "\<lambda>x. encode_info (prio l x)"
    have l: "length (?e z) = 15" if "z \<in> set (xs @ [x])" for z using len that by auto
    have b: "foldl (best l) None (xs @ [x]) = (if c_memcmp (?e x) (?e y) < 0 then Some (x, prio l x) else Some (y, prio l y))"
      using Some yp y(2) by (simp add: best_def [of l "Some (y, prio l y)" x])
    show ?thesis
    proof (cases "c_memcmp (?e x) (?e y) < 0")
      case True
      have "c_memcmp (?e x) (?e z) \<le> 0" if "z \<in> set xs" for z
        using bytes.le_trans [OF l l l, of x y z] True y(1,3) that by simp
      then show ?thesis unfolding b using True bytes.zero_iff [OF l l, of x x] by simp
    next
      case False
      then have "c_memcmp (?e y) (?e x) \<le> 0" using bytes.converse [OF l l, of y x] y(1) by simp
      then show ?thesis unfolding b using False y by simp
    qed
  qed
qed simp

section \<open>The invariant\<close>

text \<open>\<open>X\<close> are the slaves of the object.\<close>

definition lacp_table :: "lacp \<Rightarrow> addr set \<Rightarrow> bool" where
  "lacp_table l X \<longleftrightarrow> hmap_table.keyed (lc_slaves l) aux_hash (\<lambda>x. sl_aux (lc_slave l x)) X \<and>
     inj_on (\<lambda>x. sl_aux (lc_slave l x)) X \<and> finite X \<and> card X < 2 ^ 32 \<and>
     (if X = {} then lc_key_slave l = 0 else lc_key_slave l \<in> X)"

definition slave_ok :: "slave \<Rightarrow> bool" where
  "slave_ok s \<longleftrightarrow> length (li_sys_id (sl_partner s)) = 6 \<and> (sl_status s = LACP_DEFAULTED \<longrightarrow> sl_partner s = zero_info)"

text \<open>All attached slaves have the same partner, which is another system.\<close>

definition one_partner :: "lacp \<Rightarrow> addr set \<Rightarrow> bool" where
  "one_partner l X \<longleftrightarrow> (\<forall>x \<in> X. sl_attached (lc_slave l x) \<longrightarrow>
     li_sys_id (sl_partner (lc_slave l x)) \<noteq> lc_sys_id l \<and>
     (\<forall>y \<in> X. sl_attached (lc_slave l y) \<longrightarrow>
        li_sys_id (sl_partner (lc_slave l y)) = li_sys_id (sl_partner (lc_slave l x)) \<and>
        li_key (sl_partner (lc_slave l y)) = li_key (sl_partner (lc_slave l x))))"

text \<open>If the slaves have one partner in common, another system that is known, then all are attached.\<close>

definition all_join :: "lacp \<Rightarrow> addr set \<Rightarrow> bool" where
  "all_join l X \<longleftrightarrow> (\<forall>p k. (\<forall>x \<in> X. li_sys_id (sl_partner (lc_slave l x)) = p \<and> li_key (sl_partner (lc_slave l x)) = k) \<longrightarrow>
     p \<noteq> replicate 6 0 \<longrightarrow> p \<noteq> lc_sys_id l \<longrightarrow> (\<forall>x \<in> X. sl_attached (lc_slave l x)))"

definition lacp_inv :: "lacp \<Rightarrow> addr set \<Rightarrow> bool" where
  "lacp_inv l X \<longleftrightarrow> lacp_table l X \<and> length (lc_sys_id l) = 6 \<and> (\<forall>x \<in> X. slave_ok (lc_slave l x)) \<and>
     (\<not> lc_update l \<longrightarrow> one_partner l X \<and> all_join l X)"

lemma lacp_tableD:
  assumes "lacp_table l X"
  shows "hmap_table.keyed (lc_slaves l) aux_hash (\<lambda>x. sl_aux (lc_slave l x)) X" "inj_on (\<lambda>x. sl_aux (lc_slave l x)) X"
    "finite X" "card X < 2 ^ 32" "0 \<notin> X" "X = {} \<Longrightarrow> lc_key_slave l = 0" "X \<noteq> {} \<Longrightarrow> lc_key_slave l \<in> X"
  using assms hmap_table.keyed_nonzero by (auto simp: lacp_table_def)

lemma keyed_cong: "(\<And>x. x \<in> X \<Longrightarrow> key x = key' x) \<Longrightarrow> hmap_table.keyed t h key X = hmap_table.keyed t h key' X"
  unfolding hmap_table.keyed_def by (intro arg_cong [where f = "hmap_ok t"]) auto

lemma lacp_table_cong:
  assumes "lc_slaves l' = lc_slaves l" "lc_key_slave l' = lc_key_slave l" "\<And>x. x \<in> X \<Longrightarrow> sl_aux (lc_slave l' x) = sl_aux (lc_slave l x)"
  shows "lacp_table l' X = lacp_table l X"
proof -
  have "inj_on (\<lambda>x. sl_aux (lc_slave l' x)) X = inj_on (\<lambda>x. sl_aux (lc_slave l x)) X" using assms(3) by (rule inj_on_cong)
  moreover have "hmap_table.keyed t h (\<lambda>x. sl_aux (lc_slave l' x)) X = hmap_table.keyed t h (\<lambda>x. sl_aux (lc_slave l x)) X" for t h
    using assms(3) by (rule keyed_cong)
  ultimately show ?thesis unfolding lacp_table_def assms(1,2) by simp
qed

lemma lacp_nodes:
  assumes "lacp_table l X"
  obtains xs where "hmap_nodes (lc_slaves l) = Some xs" "distinct xs" "set xs = X"
  using hmap_iter.keyed_all [OF lacp_tableD(1) [OF assms]] by blast

lemma lacp_lookup:
  assumes "lacp_table l X"
  obtains x where "slave_lookup l aux = Some x"
    "if x = 0 then aux \<notin> (\<lambda>x. sl_aux (lc_slave l x)) ` X else x \<in> X \<and> sl_aux (lc_slave l x) = aux"
  using hmap_iter.keyed_find_in_bucket [OF lacp_tableD(1) [OF assms], of aux] by (auto simp: slave_lookup_def)

lemma upd_slave_simps [simp]:
  "lc_slaves (upd_slave x f l) = lc_slaves l" "lc_key_slave (upd_slave x f l) = lc_key_slave l"
  "lc_sys_id (upd_slave x f l) = lc_sys_id l" "lc_sys_priority (upd_slave x f l) = lc_sys_priority l"
  "lc_fallback_ab (upd_slave x f l) = lc_fallback_ab l" "lc_active (upd_slave x f l) = lc_active l"
  "lc_fast (upd_slave x f l) = lc_fast l" "lc_negotiated (upd_slave x f l) = lc_negotiated l"
  "lc_update (upd_slave x f l) = lc_update l" "lc_ref_cnt (upd_slave x f l) = lc_ref_cnt l"
  "lc_slave (upd_slave x f l) = (lc_slave l)(x := f (lc_slave l x))"
  by (simp_all add: upd_slave_def)

text \<open>
  Changes of a slave that keep the invariant: those that concern neither the identity of the
  partner nor attachment, and any change if an update is pending.
\<close>

lemma lacp_inv_upd:
  assumes "lacp_inv l X" "sl_aux (f (lc_slave l x)) = sl_aux (lc_slave l x)" "slave_ok (lc_slave l x) \<Longrightarrow> slave_ok (f (lc_slave l x))"
    and same: "\<not> lc_update l \<Longrightarrow> li_sys_id (sl_partner (f (lc_slave l x))) = li_sys_id (sl_partner (lc_slave l x)) \<and>
      li_key (sl_partner (f (lc_slave l x))) = li_key (sl_partner (lc_slave l x)) \<and>
      sl_attached (f (lc_slave l x)) = sl_attached (lc_slave l x)"
  shows "lacp_inv (upd_slave x f l) X"
proof -
  have "lacp_table (upd_slave x f l) X = lacp_table l X" using assms(2) by (intro lacp_table_cong) auto
  moreover have "one_partner (upd_slave x f l) X \<and> all_join (upd_slave x f l) X" if "\<not> lc_update l"
  proof -
    have "one_partner l X" "all_join l X" using assms(1) that by (simp_all add: lacp_inv_def)
    moreover have "li_sys_id (sl_partner (lc_slave (upd_slave x f l) z)) = li_sys_id (sl_partner (lc_slave l z))"
      "li_key (sl_partner (lc_slave (upd_slave x f l) z)) = li_key (sl_partner (lc_slave l z))"
      "sl_attached (lc_slave (upd_slave x f l) z) = sl_attached (lc_slave l z)" for z
      using same [OF that] by auto
    ultimately show ?thesis unfolding one_partner_def all_join_def by (simp only: upd_slave_simps(3))
  qed
  ultimately show ?thesis using assms(1,3) by (auto simp: lacp_inv_def)
qed

lemma lacp_inv_pending: "lacp_inv l X \<Longrightarrow> lacp_inv (l\<lparr>lc_update := True\<rparr>) X"
  by (simp add: lacp_inv_def lacp_table_def)

lemma slave_set_defaulted_inv:
  assumes "lacp_inv l X"
  shows "lacp_inv (slave_set_defaulted x l) X"
proof -
  have "slave_set_defaulted x l = upd_slave x (\<lambda>s. s\<lparr>sl_partner := zero_info, sl_status := LACP_DEFAULTED\<rparr>) (l\<lparr>lc_update := True\<rparr>)"
    by (simp add: slave_set_defaulted_def upd_slave_def)
  moreover have "lacp_inv \<dots> X"
    by (rule lacp_inv_upd [OF lacp_inv_pending [OF assms]]) (auto simp: slave_ok_def zero_info_def)
  ultimately show ?thesis by simp
qed

lemma slave_set_expired_inv: "lacp_inv l X \<Longrightarrow> lacp_inv (slave_set_expired now x l) X"
  unfolding slave_set_expired_def by (rule lacp_inv_upd) (auto simp: slave_ok_def)

lemma run_rx_inv: "lacp_inv l X \<Longrightarrow> lacp_inv (run_rx now x l) X"
  unfolding run_rx_def Let_def by (auto intro: slave_set_expired_inv slave_set_defaulted_inv)

lemma run_rx_slaves [simp]: "lc_slaves (run_rx now x l) = lc_slaves l" "lc_key_slave (run_rx now x l) = lc_key_slave l"
  by (auto simp: run_rx_def Let_def slave_set_expired_def slave_set_defaulted_def)

lemma fold_run_rx_inv: "lacp_inv l X \<Longrightarrow> lacp_inv (fold (run_rx now) xs l) X"
  by (induction xs arbitrary: l) (auto intro: run_rx_inv)

lemma fold_run_rx_slaves [simp]: "lc_slaves (fold (run_rx now) xs l) = lc_slaves l"
  by (induction xs arbitrary: l) auto

section \<open>What updates and runs do\<close>

lemma prio_length:
  assumes "lacp_inv l X" "x \<in> X"
  shows "length (encode_info (prio l x)) = 15"
proof -
  have t: "lacp_table l X" "X \<noteq> {}" using assms by (auto simp: lacp_inv_def)
  then have "lc_key_slave l \<noteq> 0" using lacp_tableD(5) [OF t(1)] lacp_tableD(7) [OF t] by metis
  moreover have "length (lc_sys_id l) = 6" "length (li_sys_id (sl_partner (lc_slave l x))) = 6"
    using assms by (auto simp: lacp_inv_def slave_ok_def)
  ultimately show ?thesis
    by (auto simp: prio_def slave_get_priority_def slave_get_actor_def length_encode_info Let_def)
qed

text \<open>
  The reference: with eligible slaves, those are attached that have the partner of a slave of least
  priority value; with none, the linked slaves are attached if fallback is configured.
\<close>

definition attaches :: "lacp \<Rightarrow> addr option \<Rightarrow> addr \<Rightarrow> bool" where
  "attaches l lead x \<longleftrightarrow>
     (case lead of
        None \<Rightarrow> linked l x \<and> lc_fallback_ab l
      | Some y \<Rightarrow> eligible l x \<and> li_sys_id (sl_partner (lc_slave l x)) = li_sys_id (sl_partner (lc_slave l y)) \<and>
          li_key (sl_partner (lc_slave l x)) = li_key (sl_partner (lc_slave l y)))"

definition leads :: "lacp \<Rightarrow> addr set \<Rightarrow> addr option \<Rightarrow> bool" where
  "leads l X lead \<longleftrightarrow>
     (case lead of
        None \<Rightarrow> \<forall>x \<in> X. \<not> eligible l x
      | Some y \<Rightarrow> y \<in> X \<and> eligible l y \<and>
          (\<forall>x \<in> X. eligible l x \<longrightarrow> c_memcmp (encode_info (prio l y)) (encode_info (prio l x)) \<le> 0))"

lemma update_attached_empty:
  assumes "hmap_nodes (lc_slaves l) = Some []"
  shows "lacp_update_attached l = Some (l\<lparr>lc_update := False, lc_negotiated := False\<rparr>)"
  using assms by (simp add: lacp_update_attached_def)

lemma other_partner_iff:
  assumes "lacp_inv l X" "x \<in> X" "y \<in> X" "eligible l y"
  shows "wanted l x \<and> \<not> other_partner l y x \<longleftrightarrow> attaches l (Some y) x"
proof -
  have "length (li_sys_id (sl_partner (lc_slave l x))) = 6" "length (li_sys_id (sl_partner (lc_slave l y))) = 6"
    using assms by (auto simp: lacp_inv_def slave_ok_def)
  note eq = eth_addr_equals_iff [OF this(2,1)]
  show ?thesis unfolding wanted_def other_partner_def attaches_def eligible_def option.case eq by auto
qed

lemma update_attached_spec:
  assumes inv: "lacp_inv l X"
  obtains A lead where "lacp_update_attached l = Some ((with_attached A l)\<lparr>lc_update := False, lc_negotiated := lead \<noteq> None\<rparr>)"
    "leads l X lead" "\<And>x. x \<in> X \<Longrightarrow> A x = attaches l lead x"
proof -
  have t: "lacp_table l X" using inv by (simp add: lacp_inv_def)
  obtain xs where xs: "hmap_nodes (lc_slaves l) = Some xs" "set xs = X" using lacp_nodes [OF t] by blast
  show thesis
  proof (cases "X = {}")
    case True
    then have "lacp_update_attached l = Some (l\<lparr>lc_update := False, lc_negotiated := False\<rparr>)"
      using xs by (intro update_attached_empty) simp
    then show thesis
      using that [of None "\<lambda>x. sl_attached (lc_slave l x)"] True with_attached_self [of l] by (simp add: leads_def)
  next
    case False
    let ?l = "l\<lparr>lc_update := False\<rparr>" and ?es = "filter (eligible l) xs"
    have pr: "prio ?l = prio l" by (simp add: fun_eq_iff prio_def slave_get_priority_def slave_get_actor_def Let_def)
    have "best ?l lead x = best l lead x" for lead x by (simp only: best_def pr)
    then have same: "eligible ?l = eligible l" "wanted ?l = wanted l" "best ?l = best l" "other_partner ?l = other_partner l"
      by (simp_all add: fun_eq_iff eligible_def wanted_def linked_def other_partner_def)
    have k: "lc_key_slave ?l \<noteq> 0" using lacp_tableD(5,7) [OF t] False by auto
    have comm: "with_attached B ?l = (with_attached B l)\<lparr>lc_update := False\<rparr>" for B by (simp add: with_attached_def)
    define A where "A = (\<lambda>x. if x \<in> set xs then wanted l x else sl_attached (lc_slave l x))"
    define lead where "lead = foldl (best l) None ?es"
    have f: "find_lead ?l xs None = Some (with_attached A ?l, lead)"
      using find_lead_eq [OF k, of "\<lambda>x. sl_attached (lc_slave ?l x)" xs None] unfolding with_attached_self same
      by (simp add: A_def lead_def)
    have "\<forall>x \<in> set ?es. length (encode_info (prio l x)) = 15" using prio_length [OF inv] xs(2) by auto
    note least = best_least [OF this, folded lead_def]
    show thesis
    proof (cases lead)
      case None
      then have "?es = []" using least by simp
      then have no: "\<not> eligible l x" if "x \<in> X" for x using that xs(2) by (simp add: filter_empty_conv)
      have "lacp_update_attached l = Some ((with_attached A l)\<lparr>lc_update := False, lc_negotiated := False\<rparr>)"
        unfolding lacp_update_attached_def using xs(1) f None comm by simp
      moreover have "A x = attaches l None x" if "x \<in> X" for x
        using no [OF that] that xs(2) by (auto simp: A_def wanted_def attaches_def eligible_def)
      ultimately show thesis using that [of None A] no by (simp add: leads_def)
    next
      case (Some yp)
      obtain y p where yp: "yp = (y, p)" by (cases yp)
      then have y: "y \<in> X" "eligible l y" "\<And>x. x \<in> X \<Longrightarrow> eligible l x \<Longrightarrow> c_memcmp (encode_info (prio l y)) (encode_info (prio l x)) \<le> 0"
        using least Some xs(2) by auto
      let ?A = "\<lambda>x. A x \<and> \<not> (x \<in> set xs \<and> other_partner l y x)"
      let ?n = "?l\<lparr>lc_negotiated := True\<rparr>"
      have "other_partner ?n = other_partner l" "with_attached A ?l\<lparr>lc_negotiated := True\<rparr> = with_attached A ?n"
        by (simp_all add: fun_eq_iff other_partner_def with_attached_def)
      then have "lacp_update_attached l = Some (with_attached ?A ?n)"
        unfolding lacp_update_attached_def using xs(1) f Some yp detach_eq [of y xs A ?n] by simp
      moreover have "with_attached ?A ?n = (with_attached ?A l)\<lparr>lc_update := False, lc_negotiated := True\<rparr>" by (simp add: with_attached_def)
      moreover have "?A x = attaches l (Some y) x" if "x \<in> X" for x
        using other_partner_iff [OF inv that y(1,2)] that xs(2) by (simp add: A_def)
      ultimately show thesis using that [of "Some y" ?A] y by (simp add: leads_def)
    qed
  qed
qed

lemma attaches_one_partner:
  assumes inv: "lacp_inv l X" and A: "\<And>x. x \<in> X \<Longrightarrow> A x = attaches l lead x" and lead: "leads l X lead"
  shows "one_partner (with_attached A l) X"
  unfolding one_partner_def with_attached_simps
proof (intro ballI impI conjI)
  have ids: "length (li_sys_id (sl_partner (lc_slave l x))) = 6" "length (lc_sys_id l) = 6" if "x \<in> X" for x
    using inv that by (auto simp: lacp_inv_def slave_ok_def)
  have linked: "linked l x" if "x \<in> X" "A x" for x
    using A [OF that(1)] that(2) by (auto simp: attaches_def eligible_def split: option.splits)
  have same: "li_sys_id (sl_partner (lc_slave l x)) = li_sys_id (sl_partner (lc_slave l y)) \<and>
      li_key (sl_partner (lc_slave l x)) = li_key (sl_partner (lc_slave l y))"
    if "x \<in> X" "y \<in> X" "A x" "A y" for x y
  proof (cases lead)
    case None
    then have "sl_status (lc_slave l z) = LACP_DEFAULTED" if "z \<in> X" "A z" for z
      using lead linked [OF that] that(1) by (auto simp: leads_def eligible_def)
    then have "sl_partner (lc_slave l x) = zero_info" "sl_partner (lc_slave l y) = zero_info"
      using inv that by (auto simp: lacp_inv_def slave_ok_def)
    then show ?thesis by simp
  next
    case (Some z)
    then show ?thesis using A [OF that(1)] A [OF that(2)] that(3,4) by (simp add: attaches_def)
  qed
  fix x assume x: "x \<in> X" "sl_attached ((lc_slave l x)\<lparr>sl_attached := A x\<rparr>)"
  then show "li_sys_id (sl_partner ((lc_slave l x)\<lparr>sl_attached := A x\<rparr>)) \<noteq> lc_sys_id l"
    using linked [of x] eth_addr_equals_iff [OF ids [OF x(1)]] by (simp add: linked_def)
  fix y assume y: "y \<in> X" "sl_attached ((lc_slave l y)\<lparr>sl_attached := A y\<rparr>)"
  then show "li_sys_id (sl_partner ((lc_slave l y)\<lparr>sl_attached := A y\<rparr>)) = li_sys_id (sl_partner ((lc_slave l x)\<lparr>sl_attached := A x\<rparr>))"
    "li_key (sl_partner ((lc_slave l y)\<lparr>sl_attached := A y\<rparr>)) = li_key (sl_partner ((lc_slave l x)\<lparr>sl_attached := A x\<rparr>))"
    using same [of y x] x by auto
qed

lemma attaches_all_join:
  assumes inv: "lacp_inv l X" and A: "\<And>x. x \<in> X \<Longrightarrow> A x = attaches l lead x" and lead: "leads l X lead"
  shows "all_join (with_attached A l) X"
proof -
  have "A x" if p: "\<forall>x \<in> X. li_sys_id (sl_partner (lc_slave l x)) = p \<and> li_key (sl_partner (lc_slave l x)) = k"
    "p \<noteq> replicate 6 0" "p \<noteq> lc_sys_id l" and x: "x \<in> X" for p k x
  proof -
    have el: "eligible l z" if "z \<in> X" for z
    proof -
      have z: "length (li_sys_id (sl_partner (lc_slave l z))) = 6" "length (lc_sys_id l) = 6" "slave_ok (lc_slave l z)"
        using inv that by (auto simp: lacp_inv_def slave_ok_def)
      then show ?thesis using p that eth_addr_equals_iff [OF z(1,2)]
        by (auto simp: eligible_def linked_def slave_ok_def zero_info_def)
    qed
    then obtain y where y: "lead = Some y" "y \<in> X" using lead x by (auto simp: leads_def split: option.splits)
    then show ?thesis using A [OF x] p(1) x el [OF x] by (simp add: attaches_def)
  qed
  then show ?thesis unfolding all_join_def by (auto simp: with_attached_def)
qed

lemma update_attached_inv:
  assumes "lacp_inv l X"
  obtains l' where "lacp_update_attached l = Some l'" "lacp_inv l' X" "\<not> lc_update l'" "lc_slaves l' = lc_slaves l"
proof -
  obtain A lead where u: "lacp_update_attached l = Some ((with_attached A l)\<lparr>lc_update := False, lc_negotiated := lead \<noteq> None\<rparr>)"
    "leads l X lead" "\<And>x. x \<in> X \<Longrightarrow> A x = attaches l lead x"
    using update_attached_spec [OF assms] by blast
  let ?l = "(with_attached A l)\<lparr>lc_update := False, lc_negotiated := lead \<noteq> None\<rparr>"
  have "one_partner ?l X = one_partner (with_attached A l) X" "all_join ?l X = all_join (with_attached A l) X"
    by (simp_all add: one_partner_def all_join_def)
  moreover have "lacp_table ?l X = lacp_table l X" by (rule lacp_table_cong) auto
  ultimately have "lacp_inv ?l X"
    using assms attaches_one_partner [OF assms u(3,2)] attaches_all_join [OF assms u(3,2)] by (auto simp: lacp_inv_def slave_ok_def)
  then show thesis using that u(1) by simp
qed

end
