(* ===== verification/Lacp_Calls.thy ===== *)
theory Lacp_Calls
  imports Lacp_Inv
begin

text \<open>
  The calls of an aggregation object return and keep its invariant, so that it holds in every state
  that calls can reach.
\<close>

section \<open>Transmission\<close>

lemma actor_exists: "lc_key_slave l \<noteq> 0 \<Longrightarrow> \<exists>i. slave_get_actor l x = Some i"
  by (simp add: slave_get_actor_def Let_def)

text \<open>A transmission changes only what has been sent and when.\<close>

definition sent_only :: "lacp \<Rightarrow> lacp \<Rightarrow> bool" where
  "sent_only l l' \<longleftrightarrow> (\<exists>nt tx ct. l' = l\<lparr>lc_slave := \<lambda>x. (lc_slave l x)\<lparr>sl_ntt_actor := nt x, sl_tx := tx x, sl_count_tx_pdus := ct x\<rparr>\<rparr>)"

lemma sent_only_refl: "sent_only l l"
  unfolding sent_only_def
  by (rule exI [of _ "\<lambda>x. sl_ntt_actor (lc_slave l x)"], rule exI [of _ "\<lambda>x. sl_tx (lc_slave l x)"],
      rule exI [of _ "\<lambda>x. sl_count_tx_pdus (lc_slave l x)"]) simp

lemma sent_only_trans: "sent_only l l1 \<Longrightarrow> sent_only l1 l2 \<Longrightarrow> sent_only l l2"
  unfolding sent_only_def by force

lemma sent_onlyD:
  assumes "sent_only l l'"
  shows "lc_slaves l' = lc_slaves l" "lc_key_slave l' = lc_key_slave l" "lc_sys_id l' = lc_sys_id l" "lc_update l' = lc_update l"
    "lc_negotiated l' = lc_negotiated l" "lc_fallback_ab l' = lc_fallback_ab l" "lc_active l' = lc_active l" "lc_fast l' = lc_fast l"
    "lc_sys_priority l' = lc_sys_priority l"
    "sl_aux (lc_slave l' x) = sl_aux (lc_slave l x)" "sl_partner (lc_slave l' x) = sl_partner (lc_slave l x)"
    "sl_status (lc_slave l' x) = sl_status (lc_slave l x)" "sl_attached (lc_slave l' x) = sl_attached (lc_slave l x)"
    "sl_rx (lc_slave l' x) = sl_rx (lc_slave l x)" "sl_key (lc_slave l' x) = sl_key (lc_slave l x)"
    "sl_port_id (lc_slave l' x) = sl_port_id (lc_slave l x)" "sl_port_priority (lc_slave l' x) = sl_port_priority (lc_slave l x)"
  using assms by (auto simp: sent_only_def)

lemma sent_only_inv:
  assumes "lacp_inv l X" "sent_only l l'"
  shows "lacp_inv l' X"
proof -
  note s = sent_onlyD [OF assms(2)]
  have "lacp_table l' X = lacp_table l X" using s by (intro lacp_table_cong) auto
  moreover have "one_partner l' X = one_partner l X" "all_join l' X = all_join l X" unfolding one_partner_def all_join_def s by (rule refl)+
  moreover have "slave_ok (lc_slave l' x) = slave_ok (lc_slave l x)" for x unfolding slave_ok_def s ..
  ultimately show ?thesis using assms(1) unfolding lacp_inv_def s by simp
qed

lemma run_tx_sent:
  assumes "lc_key_slave l \<noteq> 0"
  obtains l' sent where "run_tx now x l = Some (l', sent)" "sent_only l l'"
proof -
  obtain i where i: "slave_get_actor l x = Some i" using actor_exists [OF assms] by blast
  have upd: "sent_only l (upd_slave x (\<lambda>s. s\<lparr>sl_ntt_actor := a, sl_count_tx_pdus := sl_count_tx_pdus s + 1, sl_tx := t\<rparr>) l)" for a t
  proof -
    let ?s = "lc_slave l"
    have "upd_slave x (\<lambda>s. s\<lparr>sl_ntt_actor := a, sl_count_tx_pdus := sl_count_tx_pdus s + 1, sl_tx := t\<rparr>) l =
        l\<lparr>lc_slave := \<lambda>y. (?s y)\<lparr>sl_ntt_actor := ((\<lambda>y. sl_ntt_actor (?s y))(x := a)) y, sl_tx := ((\<lambda>y. sl_tx (?s y))(x := t)) y,
          sl_count_tx_pdus := ((\<lambda>y. sl_count_tx_pdus (?s y))(x := sl_count_tx_pdus (?s x) + 1)) y\<rparr>\<rparr>"
      by (auto simp: upd_slave_def fun_eq_iff)
    then show ?thesis unfolding sent_only_def by blast
  qed
  show thesis
  proof (cases "slave_may_tx l x \<and> (timer_expired (sl_tx (lc_slave l x)) now \<or> \<not> info_tx_equal i (sl_ntt_actor (lc_slave l x)))")
    case True
    then show thesis using that upd i by (auto simp: run_tx_def Let_def)
  next
    case False
    then have "run_tx now x l = Some (l, [])" using i by (auto simp: run_tx_def Let_def)
    then show thesis using that sent_only_refl by blast
  qed
qed

lemma run_tx_all_sent:
  assumes "lc_key_slave l \<noteq> 0 \<or> xs = []"
  shows "\<exists>l' sent. run_tx_all now xs l = Some (l', sent) \<and> sent_only l l'"
  using assms
proof (induction xs arbitrary: l)
  case Nil
  then show ?case by (simp add: sent_only_refl)
next
  case (Cons x xs)
  then obtain l1 s1 where 1: "run_tx now x l = Some (l1, s1)" "sent_only l l1" using run_tx_sent by blast
  then have "lc_key_slave l1 \<noteq> 0 \<or> xs = []" using Cons.prems sent_onlyD(2) by auto
  then obtain l2 s2 where 2: "run_tx_all now xs l1 = Some (l2, s2)" "sent_only l1 l2" using Cons.IH by blast
  have "run_tx_all now (x # xs) l = Some (l2, s1 @ s2)" using 1(1) 2(1) by simp
  then show ?case using sent_only_trans [OF 1(2) 2(2)] by blast
qed

section \<open>Runs\<close>

text \<open>A run: receive timers, attachment if needed, transmission.\<close>

lemma lacp_run_spec:
  assumes inv: "lacp_inv l X"
  obtains xs l1 l2 sent where "hmap_nodes (lc_slaves l) = Some xs" "distinct xs" "set xs = X"
    "(if lc_update (fold (run_rx now) xs l) then lacp_update_attached (fold (run_rx now) xs l) else Some (fold (run_rx now) xs l)) = Some l1"
    "lacp_run l now = Some (l2, sent)" "sent_only l1 l2" "lacp_inv l1 X" "\<not> lc_update l1" "lacp_inv l2 X" "\<not> lc_update l2"
    "run_tx_all now xs l1 = Some (l2, sent)"
proof -
  obtain xs where xs: "hmap_nodes (lc_slaves l) = Some xs" "distinct xs" "set xs = X"
    using lacp_nodes inv unfolding lacp_inv_def by blast
  let ?l = "fold (run_rx now) xs l"
  have rx: "lacp_inv ?l X" by (rule fold_run_rx_inv [OF inv])
  obtain l1 where l1: "(if lc_update ?l then lacp_update_attached ?l else Some ?l) = Some l1" "lacp_inv l1 X" "\<not> lc_update l1"
  proof (cases "lc_update ?l")
    case True
    then show thesis using update_attached_inv [OF rx] that by auto
  next
    case False
    then show thesis using rx that by auto
  qed
  have "lc_key_slave l1 \<noteq> 0 \<or> xs = []"
  proof (cases "X = {}")
    case False
    have t: "lacp_table l1 X" using l1(2) by (simp add: lacp_inv_def)
    show ?thesis using lacp_tableD(5) [OF t] lacp_tableD(7) [OF t False] by metis
  qed (use xs(3) in simp)
  then obtain l2 sent where 2: "run_tx_all now xs l1 = Some (l2, sent)" "sent_only l1 l2" using run_tx_all_sent by blast
  have "lacp_run l now = Some (l2, sent)" using xs(1) l1(1) 2(1) by (simp add: lacp_run_def Let_def)
  moreover have "lacp_inv l2 X" "\<not> lc_update l2" using sent_only_inv [OF l1(2) 2(2)] sent_onlyD(4) [OF 2(2)] l1(3) by auto
  ultimately show thesis using that xs l1 2 by blast
qed

section \<open>Other calls\<close>

lemma receive_pdu_inv:
  assumes inv: "lacp_inv l X" and ok: "length (li_sys_id (fst pdu)) = 6"
  shows "lacp_inv (receive_pdu x pdu now l) X"
proof -
  obtain actor partner where p: "pdu = (actor, partner)" by (cases pdu)
  let ?f = "\<lambda>s. s\<lparr>sl_status := LACP_CURRENT,
      sl_rx := timer_set_duration now (LACP_RX_MULTIPLIER * (if lc_fast l then LACP_FAST_TIME_TX else LACP_SLOW_TIME_TX)), sl_ntt_actor := partner\<rparr>"
  have 1: "lacp_inv (upd_slave x ?f l) X" using inv by (rule lacp_inv_upd) (auto simp: slave_ok_def)
  have "lacp_inv (upd_slave x (\<lambda>s. s\<lparr>sl_partner := actor\<rparr>) ((upd_slave x ?f l)\<lparr>lc_update := True\<rparr>)) X"
    using lacp_inv_pending [OF 1] by (rule lacp_inv_upd) (use ok p in \<open>auto simp: slave_ok_def\<close>)
  then show ?thesis using 1 p unfolding receive_pdu_def Let_def by (auto split: if_splits)
qed

lemma parse_length:
  assumes "parse_lacp_packet p l3 = Some pdu"
  shows "length (li_sys_id (fst pdu)) = 6"
  using assms by (auto simp: parse_lacp_packet_def decode_info_def Let_def split: if_splits)

lemma lacp_process_packet_inv:
  assumes inv: "lacp_inv l X"
  obtains l' where "lacp_process_packet l aux packet l3 now = Some l'" "lacp_inv l' X"
proof -
  obtain x where x: "slave_lookup l aux = Some x" using lacp_lookup inv unfolding lacp_inv_def by blast
  have 1: "lacp_inv (upd_slave x (\<lambda>s. s\<lparr>sl_count_rx_pdus := sl_count_rx_pdus s + 1\<rparr>) l) X" (is "lacp_inv ?l X")
    using inv by (rule lacp_inv_upd) (auto simp: slave_ok_def)
  have "lacp_inv (upd_slave x (\<lambda>s. s\<lparr>sl_count_rx_pdus_bad := sl_count_rx_pdus_bad s + 1\<rparr>) ?l) X"
    using 1 by (rule lacp_inv_upd) (auto simp: slave_ok_def)
  moreover have "lacp_inv (receive_pdu x pdu now ?l) X" if "parse_lacp_packet packet l3 = Some pdu" for pdu
    using receive_pdu_inv [OF 1 parse_length [OF that]] .
  ultimately show thesis using that inv x unfolding lacp_process_packet_def Let_def by (cases "parse_lacp_packet packet l3") (auto split: if_splits)
qed

lemma lacp_inv_settings:
  assumes "lacp_inv l X" "lc_slaves l' = lc_slaves l" "lc_key_slave l' = lc_key_slave l" "lc_slave l' = lc_slave l"
    "length (lc_sys_id l') = 6" "lc_update l' \<or> lc_sys_id l' = lc_sys_id l \<and> lc_update l' = lc_update l"
  shows "lacp_inv l' X"
proof -
  have "lacp_table l' X = lacp_table l X" by (rule lacp_table_cong) (use assms(2-4) in simp_all)
  moreover have "one_partner l' X = one_partner l X" "all_join l' X = all_join l X" if "\<not> lc_update l'"
    using assms(4,6) that unfolding one_partner_def all_join_def by simp_all
  ultimately show ?thesis using assms(1,4,5,6) unfolding lacp_inv_def by metis
qed

lemma lacp_configure_inv:
  assumes "lacp_inv l X" "length (ls_id s) = 6" "\<not> eth_addr_is_zero (ls_id s)"
  obtains l' where "lacp_configure l s = Some l'" "lacp_inv l' X"
proof -
  obtain l' where l': "lacp_configure l s = Some l'" using assms(3) by (simp add: lacp_configure_def Let_def)
  have "length (lc_sys_id l) = 6" using assms(1) by (simp add: lacp_inv_def)
  then have "lacp_inv l' X"
    using l' assms(2,3) by (intro lacp_inv_settings [OF assms(1)]) (auto simp: lacp_configure_def Let_def split: if_splits)
  with l' show thesis by (rule that)
qed

lemma set_slave_inv:
  assumes "lacp_inv l X"
  shows "lacp_inv (set_slave x s now l) X"
proof -
  have 1: "lacp_inv (upd_slave x (\<lambda>v. v\<lparr>sl_name := Some (lss_name s)\<rparr>) l) X" (is "lacp_inv ?l X")
    using assms by (rule lacp_inv_upd) (auto simp: slave_ok_def)
  have 2: "lacp_inv (upd_slave x (\<lambda>v. v\<lparr>sl_port_id := lss_id s, sl_port_priority := lss_priority s, sl_key := lss_key s\<rparr>) (?l\<lparr>lc_update := True\<rparr>)) X"
    using lacp_inv_pending [OF 1] by (rule lacp_inv_upd) (auto simp: slave_ok_def)
  show ?thesis unfolding set_slave_def Let_def using 1 2 slave_set_expired_inv [OF 2, of now x] by (simp split: if_splits)
qed

lemma add_slave_inv:
  assumes inv: "lacp_inv l X" and new: "new \<notin> X" "new \<noteq> 0" "card X + 1 < 2 ^ 32" and aux: "aux \<notin> (\<lambda>x. sl_aux (lc_slave l x)) ` X"
  obtains l' where "add_slave new aux l = Some l'" "lacp_inv l' (insert new X)"
proof -
  have "lacp_table l X" using inv by (simp add: lacp_inv_def)
  note t = lacp_tableD [OF this]
  let ?key = "(\<lambda>x. sl_aux (lc_slave l x))(new := aux)"
  obtain hm where hm: "hmap_insert (lc_slaves l) new (aux_hash aux) = Some hm" "hmap_table.keyed hm aux_hash ?key (insert new X)"
    using hmap_table.keyed_insert [OF t(1) new(1,2) t(3), of aux] new(3) by auto
  let ?l = "slave_set_defaulted new (l\<lparr>lc_slave := (lc_slave l)(new := zero_slave\<lparr>sl_aux := aux\<rparr>), lc_slaves := hm\<rparr>)"
  define l' where "l' = (if lc_key_slave ?l = 0 then ?l\<lparr>lc_key_slave := new\<rparr> else ?l)"
  have add: "add_slave new aux l = Some l'" using hm(1) by (simp add: add_slave_def Let_def l'_def)
  have l': "lc_slaves l' = hm" "lc_key_slave l' = (if lc_key_slave l = 0 then new else lc_key_slave l)" "lc_update l'"
    "lc_sys_id l' = lc_sys_id l" "\<And>x. x \<noteq> new \<Longrightarrow> lc_slave l' x = lc_slave l x" "slave_ok (lc_slave l' new)"
    by (auto simp: l'_def slave_set_defaulted_def slave_ok_def zero_info_def)
  have key: "(\<lambda>x. sl_aux (lc_slave l' x)) = ?key" by (auto simp: l'_def slave_set_defaulted_def zero_slave_def fun_eq_iff)
  have "inj_on ?key (insert new X)" using t(2) aux new(1) by (auto simp: inj_on_def)
  moreover have "if insert new X = {} then lc_key_slave l' = 0 else lc_key_slave l' \<in> insert new X"
    using t(6,7) unfolding l'(2) by (cases "X = {}") auto
  moreover have "card (insert new X) < 2 ^ 32" using new t(3) by simp
  ultimately have "lacp_table l' (insert new X)" using hm(2) t(3) unfolding lacp_table_def key l'(1) by blast
  then have "lacp_inv l' (insert new X)" using inv l'(3-6) new(1) unfolding lacp_inv_def by (metis insert_iff)
  with add show thesis by (rule that)
qed

lemma lacp_slave_register_inv:
  assumes inv: "lacp_inv l X" and new: "new \<notin> X" "new \<noteq> 0" "card X + 1 < 2 ^ 32"
  obtains l' X' where "lacp_slave_register l aux s new now = Some l'" "lacp_inv l' X'" "X' \<subseteq> insert new X" "X \<subseteq> X'"
proof -
  obtain x where x: "slave_lookup l aux = Some x" "if x = 0 then aux \<notin> (\<lambda>x. sl_aux (lc_slave l x)) ` X else x \<in> X \<and> sl_aux (lc_slave l x) = aux"
    using lacp_lookup inv unfolding lacp_inv_def by blast
  show thesis
  proof (cases "x = 0")
    case True
    obtain l' where "add_slave new aux l = Some l'" "lacp_inv l' (insert new X)"
      using add_slave_inv [OF inv new, of aux] x(2) True by auto
    then show thesis using that [of _ "insert new X"] x(1) True set_slave_inv by (auto simp: lacp_slave_register_def)
  next
    case False
    then show thesis using that [of _ X] x(1) set_slave_inv [OF inv] by (auto simp: lacp_slave_register_def)
  qed
qed

lemma slave_destroy_inv:
  assumes inv: "lacp_inv l X" and x: "x \<in> X"
  obtains l' where "slave_destroy x l = Some l'" "lacp_inv l' (X - {x})" "lc_ref_cnt l' = lc_ref_cnt l"
proof -
  have "lacp_table l X" using inv by (simp add: lacp_inv_def)
  note t = lacp_tableD [OF this]
  obtain hm where hm: "hmap_remove (lc_slaves l) x = Some hm" "hmap_table.keyed hm aux_hash (\<lambda>x. sl_aux (lc_slave l x)) (X - {x})"
    using hmap_table.keyed_remove [OF t(1) x] by auto
  define l' where "l' = (if lc_key_slave l = x then l\<lparr>lc_update := True, lc_slaves := hm, lc_key_slave := hmap_first hm\<rparr>
    else l\<lparr>lc_update := True, lc_slaves := hm\<rparr>)"
  have destroy: "slave_destroy x l = Some l'" using hm(1) by (simp add: slave_destroy_def Let_def l'_def)
  have l': "lc_slaves l' = hm" "lc_key_slave l' = (if lc_key_slave l = x then hmap_first hm else lc_key_slave l)" "lc_update l'"
    "lc_sys_id l' = lc_sys_id l" "lc_slave l' = lc_slave l" "lc_ref_cnt l' = lc_ref_cnt l" by (auto simp: l'_def)
  have "card (X - {x}) < 2 ^ 32" using t(3,4) card_Diff1_le [of X x] by linarith
  moreover have "inj_on (\<lambda>x. sl_aux (lc_slave l x)) (X - {x})" using t(2) by (rule inj_on_subset) auto
  moreover have "if X - {x} = {} then lc_key_slave l' = 0 else lc_key_slave l' \<in> X - {x}"
    using hmap_iter.keyed_first [OF hm(2)] t(7) x unfolding l'(2) by (auto split: if_splits)
  ultimately have "lacp_inv l' (X - {x})" using inv hm(2) t(3) l' unfolding lacp_inv_def lacp_table_def by simp
  with destroy show thesis using that l'(6) by blast
qed

lemma lacp_slave_unregister_inv:
  assumes inv: "lacp_inv l X"
  obtains l' X' where "lacp_slave_unregister l aux = Some l'" "lacp_inv l' X'" "X' \<subseteq> X"
    "X' = {x \<in> X. sl_aux (lc_slave l x) \<noteq> aux}"
proof -
  obtain x where x: "slave_lookup l aux = Some x" "if x = 0 then aux \<notin> (\<lambda>x. sl_aux (lc_slave l x)) ` X else x \<in> X \<and> sl_aux (lc_slave l x) = aux"
    using lacp_lookup inv unfolding lacp_inv_def by blast
  show thesis
  proof (cases "x = 0")
    case True
    then have "X = {x \<in> X. sl_aux (lc_slave l x) \<noteq> aux}" using x(2) by auto
    then show thesis using that [of l X] x(1) True inv by (auto simp: lacp_slave_unregister_def)
  next
    case False
    then obtain l' where l': "slave_destroy x l = Some l'" "lacp_inv l' (X - {x})" using slave_destroy_inv [OF inv, of x] x(2) by auto
    have "inj_on (\<lambda>x. sl_aux (lc_slave l x)) X" using inv by (auto simp: lacp_inv_def lacp_table_def)
    then have "X - {x} = {x \<in> X. sl_aux (lc_slave l x) \<noteq> aux}" using x(2) False by (auto simp: inj_on_def)
    then show thesis using that l' x(1) False lacp_inv_pending [OF l'(2)] by (auto simp: lacp_slave_unregister_def)
  qed
qed

lemma lacp_slave_carrier_changed_inv:
  assumes inv: "lacp_inv l X"
  obtains l' where "lacp_slave_carrier_changed l aux now = Some l'" "lacp_inv l' X"
proof -
  obtain x where "slave_lookup l aux = Some x" using lacp_lookup inv unfolding lacp_inv_def by blast
  then show thesis using that inv slave_set_expired_inv [OF inv] by (auto simp: lacp_slave_carrier_changed_def)
qed

lemma lacp_create_inv: "lacp_inv (lacp_create slaves mem) {}"
  using hmap_init_ok [of mem] by (simp add: lacp_inv_def lacp_create_def lacp_table_def hmap_table.keyed_def one_partner_def all_join_def)

lemma destroy_all_inv:
  assumes "lacp_inv l X" "distinct xs" "set xs \<subseteq> X"
  shows "\<exists>l'. destroy_all l xs = Some l' \<and> lacp_inv l' (X - set xs)"
  using assms
proof (induction xs arbitrary: l X)
  case (Cons x xs)
  then obtain l1 where "slave_destroy x l = Some l1" "lacp_inv l1 (X - {x})" using slave_destroy_inv by (metis list.set_intros(1) subsetD)
  moreover have "set xs \<subseteq> X - {x}" using Cons.prems by auto
  moreover have "X - set (x # xs) = X - {x} - set xs" by auto
  ultimately show ?case using Cons.IH [of l1 "X - {x}"] Cons.prems(2) by auto
qed simp

section \<open>Reachable states\<close>

datatype lacp_op =
    Lc_Configure lacp_settings
  | Lc_Register addr lacp_slave_settings addr int
  | Lc_Unregister addr
  | Lc_Carrier addr int
  | Lc_Packet addr "u8 list" nat int
  | Lc_Run int

fun lc_exec :: "lacp \<Rightarrow> lacp_op \<Rightarrow> lacp option" where
  "lc_exec l (Lc_Configure s) = lacp_configure l s"
| "lc_exec l (Lc_Register aux s new now) = lacp_slave_register l aux s new now"
| "lc_exec l (Lc_Unregister aux) = lacp_slave_unregister l aux"
| "lc_exec l (Lc_Carrier aux now) = lacp_slave_carrier_changed l aux now"
| "lc_exec l (Lc_Packet aux p l3 now) = lacp_process_packet l aux p l3 now"
| "lc_exec l (Lc_Run now) = map_option fst (lacp_run l now)"

definition slaves_of :: "lacp \<Rightarrow> addr set" where
  "slaves_of l = set (the (hmap_nodes (lc_slaves l)))"

text \<open>System identifiers are six bytes, not all zero; new slaves get an address that is not in use.\<close>

fun lc_allowed :: "lacp \<Rightarrow> lacp_op \<Rightarrow> bool" where
  "lc_allowed l (Lc_Configure s) \<longleftrightarrow> length (ls_id s) = 6 \<and> \<not> eth_addr_is_zero (ls_id s)"
| "lc_allowed l (Lc_Register aux s new now) \<longleftrightarrow> new \<notin> slaves_of l \<and> new \<noteq> 0 \<and> card (slaves_of l) + 1 < 2 ^ 32"
| "lc_allowed l _ \<longleftrightarrow> True"

definition lc_start :: "lacp \<Rightarrow> bool" where
  "lc_start l \<longleftrightarrow> (\<exists>slaves mem. l = lacp_create slaves mem)"

definition lc_reachable :: "lacp \<Rightarrow> bool" where
  "lc_reachable = reachable_by lc_start lc_allowed lc_exec"

lemma slaves_of_inv:
  assumes "lacp_inv l X"
  shows "slaves_of l = X"
proof -
  have "lacp_table l X" using assms by (simp add: lacp_inv_def)
  then obtain xs where "hmap_nodes (lc_slaves l) = Some xs" "set xs = X" by (rule lacp_nodes)
  then show ?thesis by (simp add: slaves_of_def)
qed

lemma lc_exec_inv:
  assumes "lacp_inv l X" "lc_allowed l op"
  shows "\<exists>l' X'. lc_exec l op = Some l' \<and> lacp_inv l' X'"
proof (cases op)
  case (Lc_Configure s)
  then have "length (ls_id s) = 6" "\<not> eth_addr_is_zero (ls_id s)" using assms(2) by auto
  from lacp_configure_inv [OF assms(1) this] show ?thesis unfolding Lc_Configure lc_exec.simps by blast
next
  case (Lc_Register aux s new now)
  then have "new \<notin> X" "new \<noteq> 0" "card X + 1 < 2 ^ 32" using assms(2) unfolding slaves_of_inv [OF assms(1), symmetric] by auto
  then obtain l' X' where "lacp_slave_register l aux s new now = Some l'" "lacp_inv l' X'"
    using lacp_slave_register_inv [OF assms(1)] by metis
  then show ?thesis unfolding Lc_Register lc_exec.simps by blast
next
  case (Lc_Unregister aux)
  from lacp_slave_unregister_inv [OF assms(1), of aux] show ?thesis unfolding Lc_Unregister lc_exec.simps by blast
next
  case (Lc_Carrier aux now)
  from lacp_slave_carrier_changed_inv [OF assms(1), of aux now] show ?thesis unfolding Lc_Carrier lc_exec.simps by blast
next
  case (Lc_Packet aux p l3 now)
  from lacp_process_packet_inv [OF assms(1), of aux p l3 now] show ?thesis unfolding Lc_Packet lc_exec.simps by blast
next
  case (Lc_Run now)
  obtain l2 sent where "lacp_run l now = Some (l2, sent)" "lacp_inv l2 X" using lacp_run_spec [OF assms(1), of now] by blast
  then show ?thesis unfolding Lc_Run lc_exec.simps by (intro exI [of _ l2] exI [of _ X]) simp
qed

interpretation lc_machine: call_machine lc_start lc_allowed lc_exec "\<lambda>l. \<exists>X. lacp_inv l X"
proof
  show "\<exists>X. lacp_inv s X" if "lc_start s" for s using that lacp_create_inv by (auto simp: lc_start_def)
  show "\<exists>X. lacp_inv s' X" if "\<exists>X. lacp_inv s X" "lc_allowed s op" "lc_exec s op = Some s'" for s op s'
    using lc_exec_inv [of s _ op] that by (metis option.inject)
qed

lemma reachable_slaves: "lc_reachable l \<Longrightarrow> lacp_inv l (slaves_of l)"
  using lc_machine.reachable_inv slaves_of_inv unfolding lc_reachable_def by metis

end
