(* ===== verification/Lacp_Run.thy ===== *)
theory Lacp_Run
  imports Lacp_Calls
begin

text \<open>
  What \<open>lacp_run\<close> does to each slave: its receive timer first, then attachment, then transmission.
\<close>

section \<open>Configuration\<close>

text \<open>What packets and runs do not change.\<close>

definition same_settings :: "lacp \<Rightarrow> lacp \<Rightarrow> bool" where
  "same_settings l l' \<longleftrightarrow> lc_slaves l' = lc_slaves l \<and> lc_key_slave l' = lc_key_slave l \<and> lc_sys_id l' = lc_sys_id l \<and>
     lc_sys_priority l' = lc_sys_priority l \<and> lc_active l' = lc_active l \<and> lc_fast l' = lc_fast l \<and>
     lc_fallback_ab l' = lc_fallback_ab l \<and>
     (\<forall>x. sl_aux (lc_slave l' x) = sl_aux (lc_slave l x) \<and> sl_key (lc_slave l' x) = sl_key (lc_slave l x) \<and>
          sl_port_id (lc_slave l' x) = sl_port_id (lc_slave l x) \<and>
          sl_port_priority (lc_slave l' x) = sl_port_priority (lc_slave l x))"

lemma same_settings_refl: "same_settings l l"
  by (simp add: same_settings_def)

lemma same_settings_trans: "same_settings l l1 \<Longrightarrow> same_settings l1 l2 \<Longrightarrow> same_settings l l2"
  by (simp add: same_settings_def)

lemma same_settingsD:
  assumes "same_settings l l'"
  shows "lc_slaves l' = lc_slaves l" "lc_key_slave l' = lc_key_slave l" "lc_sys_id l' = lc_sys_id l" "lc_sys_priority l' = lc_sys_priority l"
    "lc_active l' = lc_active l" "lc_fast l' = lc_fast l" "lc_fallback_ab l' = lc_fallback_ab l"
    "sl_aux (lc_slave l' x) = sl_aux (lc_slave l x)" "sl_key (lc_slave l' x) = sl_key (lc_slave l x)"
    "sl_port_id (lc_slave l' x) = sl_port_id (lc_slave l x)" "sl_port_priority (lc_slave l' x) = sl_port_priority (lc_slave l x)"
  using assms by (simp_all add: same_settings_def)

lemma same_settings_sent: "sent_only l l' \<Longrightarrow> same_settings l l'"
  unfolding same_settings_def using sent_onlyD by simp

lemma same_settings_lookup: "same_settings l l' \<Longrightarrow> slave_lookup l' aux = slave_lookup l aux"
  by (simp add: slave_lookup_def same_settings_def)

section \<open>Receive timers\<close>

definition rx_slave :: "int \<Rightarrow> slave \<Rightarrow> slave" where
  "rx_slave now s =
     (if timer_expired (sl_rx s) now then
        (case sl_status s of
           LACP_CURRENT \<Rightarrow> s\<lparr>sl_status := LACP_EXPIRED,
             sl_partner := (sl_partner s)\<lparr>li_state := (li_state (sl_partner s) OR LACP_STATE_TIME) AND NOT LACP_STATE_SYNC\<rparr>,
             sl_rx := timer_set_duration now (LACP_RX_MULTIPLIER * LACP_FAST_TIME_TX)\<rparr>
         | LACP_EXPIRED \<Rightarrow> s\<lparr>sl_partner := zero_info, sl_status := LACP_DEFAULTED\<rparr>
         | LACP_DEFAULTED \<Rightarrow> s)
      else s)"

lemma rx_slave_same [simp]:
  "sl_aux (rx_slave now s) = sl_aux s" "sl_key (rx_slave now s) = sl_key s" "sl_port_id (rx_slave now s) = sl_port_id s"
  "sl_port_priority (rx_slave now s) = sl_port_priority s" "sl_attached (rx_slave now s) = sl_attached s"
  "sl_ntt_actor (rx_slave now s) = sl_ntt_actor s" "sl_tx (rx_slave now s) = sl_tx s"
  by (auto simp: rx_slave_def split: slave_status.splits)

lemma run_rx_slave: "lc_slave (run_rx now x l) = (lc_slave l)(x := rx_slave now (lc_slave l x))"
  by (cases "sl_status (lc_slave l x)")
    (auto simp: run_rx_def rx_slave_def Let_def slave_set_expired_def slave_set_defaulted_def)

lemma run_rx_config: "same_settings l (run_rx now x l)"
proof -
  have "lc_slaves (run_rx now x l) = lc_slaves l" "lc_key_slave (run_rx now x l) = lc_key_slave l" "lc_sys_id (run_rx now x l) = lc_sys_id l"
    "lc_sys_priority (run_rx now x l) = lc_sys_priority l" "lc_active (run_rx now x l) = lc_active l" "lc_fast (run_rx now x l) = lc_fast l"
    "lc_fallback_ab (run_rx now x l) = lc_fallback_ab l"
    by (auto simp: run_rx_def Let_def slave_set_expired_def slave_set_defaulted_def)
  then show ?thesis by (simp add: same_settings_def run_rx_slave)
qed

lemma fold_run_rx_config: "same_settings l (fold (run_rx now) xs l)"
  by (induction xs arbitrary: l) (auto intro: same_settings_refl same_settings_trans run_rx_config)

lemma fold_run_rx_slave:
  "distinct xs \<Longrightarrow> lc_slave (fold (run_rx now) xs l) x = (if x \<in> set xs then rx_slave now (lc_slave l x) else lc_slave l x)"
  by (induction xs arbitrary: l) (auto simp: run_rx_slave)

lemma update_attached_slave:
  assumes "lacp_inv l X" "lacp_update_attached l = Some l'"
  shows "same_settings l l'" "(lc_slave l' x)\<lparr>sl_attached := a\<rparr> = (lc_slave l x)\<lparr>sl_attached := a\<rparr>"
proof -
  have "\<exists>A lead. lacp_update_attached l = Some ((with_attached A l)\<lparr>lc_update := False, lc_negotiated := lead \<noteq> (None :: addr option)\<rparr>)"
    by (rule update_attached_spec [OF assms(1)]) (intro exI)
  then obtain A lead where "l' = (with_attached A l)\<lparr>lc_update := False, lc_negotiated := lead \<noteq> (None :: addr option)\<rparr>" using assms(2) by auto
  then show "same_settings l l'" "(lc_slave l' x)\<lparr>sl_attached := a\<rparr> = (lc_slave l x)\<lparr>sl_attached := a\<rparr>"
    by (simp_all add: same_settings_def)
qed

section \<open>Transmissions\<close>

definition actor_of :: "lacp \<Rightarrow> addr \<Rightarrow> lacp_info" where
  "actor_of l x = the (slave_get_actor l x)"

definition tx_needed :: "int \<Rightarrow> lacp \<Rightarrow> addr \<Rightarrow> bool" where
  "tx_needed now l x \<longleftrightarrow> slave_may_tx l x \<and>
     (timer_expired (sl_tx (lc_slave l x)) now \<or> \<not> info_tx_equal (actor_of l x) (sl_ntt_actor (lc_slave l x)))"

definition tx_duration :: "slave \<Rightarrow> int" where
  "tx_duration s = (if li_state (sl_partner s) AND LACP_STATE_TIME \<noteq> 0 then LACP_FAST_TIME_TX else LACP_SLOW_TIME_TX)"

definition sent_slave :: "int \<Rightarrow> lacp \<Rightarrow> addr \<Rightarrow> slave" where
  "sent_slave now l x =
     (let s = lc_slave l x
      in s\<lparr>sl_ntt_actor := actor_of l x, sl_count_tx_pdus := sl_count_tx_pdus s + 1, sl_tx := timer_set_duration now (tx_duration s)\<rparr>)"

lemma sent_slave_same [simp]:
  "sl_aux (sent_slave now l x) = sl_aux (lc_slave l x)" "sl_partner (sent_slave now l x) = sl_partner (lc_slave l x)"
  "sl_status (sent_slave now l x) = sl_status (lc_slave l x)" "sl_attached (sent_slave now l x) = sl_attached (lc_slave l x)"
  "sl_rx (sent_slave now l x) = sl_rx (lc_slave l x)" "sl_ntt_actor (sent_slave now l x) = actor_of l x"
  "sl_tx (sent_slave now l x) = timer_set_duration now (tx_duration (lc_slave l x))"
  by (simp_all add: sent_slave_def Let_def)

lemma actor_of: "lc_key_slave l \<noteq> 0 \<Longrightarrow> slave_get_actor l x = Some (actor_of l x)"
  by (simp add: actor_of_def slave_get_actor_def Let_def)

lemma run_tx_eq:
  assumes "lc_key_slave l \<noteq> 0"
  shows "run_tx now x l =
    (if tx_needed now l x
     then Some (l\<lparr>lc_slave := (lc_slave l)(x := sent_slave now l x)\<rparr>,
                [(sl_aux (lc_slave l x), compose_lacp_pdu (actor_of l x) (sl_partner (lc_slave l x)))])
     else Some (l, []))"
  using actor_of [OF assms, of x] by (simp add: run_tx_def tx_needed_def sent_slave_def tx_duration_def upd_slave_def Let_def)

lemma sent_other:
  assumes "y \<noteq> x"
  shows "actor_of (l\<lparr>lc_slave := (lc_slave l)(x := sent_slave now l x)\<rparr>) y = actor_of l y"
    "tx_needed now (l\<lparr>lc_slave := (lc_slave l)(x := sent_slave now l x)\<rparr>) y = tx_needed now l y"
proof -
  show a: "actor_of (l\<lparr>lc_slave := (lc_slave l)(x := sent_slave now l x)\<rparr>) y = actor_of l y"
    using assms by (auto simp: actor_of_def slave_get_actor_def sent_slave_def Let_def)
  show "tx_needed now (l\<lparr>lc_slave := (lc_slave l)(x := sent_slave now l x)\<rparr>) y = tx_needed now l y"
    unfolding tx_needed_def a using assms by (simp add: slave_may_tx_def)
qed

lemma run_tx_all_eq:
  assumes "lc_key_slave l \<noteq> 0" "distinct xs"
  shows "run_tx_all now xs l =
    Some (l\<lparr>lc_slave := \<lambda>x. if x \<in> set xs \<and> tx_needed now l x then sent_slave now l x else lc_slave l x\<rparr>,
          map (\<lambda>x. (sl_aux (lc_slave l x), compose_lacp_pdu (actor_of l x) (sl_partner (lc_slave l x)))) (filter (tx_needed now l) xs))"
  using assms
proof (induction xs arbitrary: l)
  case (Cons x xs)
  show ?case
  proof (cases "tx_needed now l x")
    case True
    let ?l = "l\<lparr>lc_slave := (lc_slave l)(x := sent_slave now l x)\<rparr>"
    have o: "tx_needed now ?l y = tx_needed now l y" "sent_slave now ?l y = sent_slave now l y" "actor_of ?l y = actor_of l y"
      "lc_slave ?l y = lc_slave l y" if "y \<in> set xs" for y
      using sent_other [where x = x and y = y and l = l and now = now] that Cons.prems(2) by (auto simp: sent_slave_def)
    have "run_tx_all now xs ?l = Some (?l\<lparr>lc_slave := \<lambda>y. if y \<in> set xs \<and> tx_needed now ?l y then sent_slave now ?l y else lc_slave ?l y\<rparr>,
        map (\<lambda>y. (sl_aux (lc_slave ?l y), compose_lacp_pdu (actor_of ?l y) (sl_partner (lc_slave ?l y)))) (filter (tx_needed now ?l) xs))"
      using Cons.prems by (intro Cons.IH) auto
    also have "filter (tx_needed now ?l) xs = filter (tx_needed now l) xs" by (rule filter_cong) (simp_all add: o(1))
    also have "map (\<lambda>y. (sl_aux (lc_slave ?l y), compose_lacp_pdu (actor_of ?l y) (sl_partner (lc_slave ?l y)))) (filter (tx_needed now l) xs) =
        map (\<lambda>y. (sl_aux (lc_slave l y), compose_lacp_pdu (actor_of l y) (sl_partner (lc_slave l y)))) (filter (tx_needed now l) xs)"
      by (rule map_cong) (simp_all add: o(3))
    also have "(\<lambda>y. if y \<in> set xs \<and> tx_needed now ?l y then sent_slave now ?l y else lc_slave ?l y) =
        (\<lambda>y. if y \<in> set (x # xs) \<and> tx_needed now l y then sent_slave now l y else lc_slave l y)"
      using True o(1,2) Cons.prems(2) by (intro ext) auto
    finally show ?thesis using True run_tx_eq [OF Cons.prems(1), of now x] by (simp add: fun_upd_def)
  next
    case False
    then show ?thesis using Cons run_tx_eq [OF Cons.prems(1), of now x] by (auto simp: fun_eq_iff intro!: arg_cong [where f = "\<lambda>f. l\<lparr>lc_slave := f\<rparr>"])
  qed
qed simp

section \<open>Runs\<close>

text \<open>
  A run of \<open>l\<close> at time \<open>now\<close> that ends in \<open>l2\<close>; \<open>l1\<close> is the object before transmissions.
\<close>

definition run_of :: "int \<Rightarrow> lacp \<Rightarrow> addr set \<Rightarrow> lacp \<Rightarrow> lacp \<Rightarrow> (addr \<times> u8 list) list \<Rightarrow> bool" where
  "run_of now l X l1 l2 sent \<longleftrightarrow> lacp_run l now = Some (l2, sent) \<and> lacp_inv l1 X \<and> \<not> lc_update l1 \<and> lacp_inv l2 X \<and>
     \<not> lc_update l2 \<and> same_settings l l1 \<and> sent_only l1 l2 \<and>
     (\<forall>x \<in> X. (lc_slave l1 x)\<lparr>sl_attached := False\<rparr> = (rx_slave now (lc_slave l x))\<lparr>sl_attached := False\<rparr>) \<and>
     (\<forall>x \<in> X. lc_slave l2 x = (if tx_needed now l1 x then sent_slave now l1 x else lc_slave l1 x)) \<and>
     (\<exists>xs. distinct xs \<and> set xs = X \<and>
        sent = map (\<lambda>x. (sl_aux (lc_slave l x), compose_lacp_pdu (actor_of l1 x) (sl_partner (lc_slave l1 x)))) (filter (tx_needed now l1) xs))"

lemma run_exists:
  assumes inv: "lacp_inv l X"
  shows "\<exists>l1 l2 sent. run_of now l X l1 l2 sent"
proof (rule lacp_run_spec [OF inv, of now])
  fix xs l1 l2 sent
  let ?l = "fold (run_rx now) xs l"
  assume xs: "distinct xs" "set xs = X"
    and l1: "(if lc_update ?l then lacp_update_attached ?l else Some ?l) = Some l1" "lacp_inv l1 X" "\<not> lc_update l1"
    and l2: "lacp_run l now = Some (l2, sent)" "sent_only l1 l2" "lacp_inv l2 X" "\<not> lc_update l2" "run_tx_all now xs l1 = Some (l2, sent)"
  have rx: "lacp_inv ?l X" by (rule fold_run_rx_inv [OF inv])
  have u: "same_settings ?l l1" "(lc_slave l1 x)\<lparr>sl_attached := False\<rparr> = (lc_slave ?l x)\<lparr>sl_attached := False\<rparr>" for x
    using update_attached_slave [OF rx] l1(1) same_settings_refl by (auto split: if_splits)
  have conf: "same_settings l l1" using same_settings_trans [OF fold_run_rx_config u(1)] .
  have "(lc_slave l1 x)\<lparr>sl_attached := False\<rparr> = (rx_slave now (lc_slave l x))\<lparr>sl_attached := False\<rparr>" if "x \<in> X" for x
    using u(2) [of x] fold_run_rx_slave [OF xs(1), of now l x] that xs(2) by simp
  moreover have "(\<forall>x \<in> X. lc_slave l2 x = (if tx_needed now l1 x then sent_slave now l1 x else lc_slave l1 x)) \<and>
    sent = map (\<lambda>x. (sl_aux (lc_slave l x), compose_lacp_pdu (actor_of l1 x) (sl_partner (lc_slave l1 x)))) (filter (tx_needed now l1) xs)"
  proof (cases "X = {}")
    case True
    then show ?thesis using l2(5) xs(2) by simp
  next
    case False
    have t: "lacp_table l1 X" using l1(2) by (simp add: lacp_inv_def)
    have "lc_key_slave l1 \<noteq> 0" using lacp_tableD(5) [OF t] lacp_tableD(7) [OF t False] by metis
    then show ?thesis using run_tx_all_eq [OF _ xs(1), of l1 now] l2(5) xs(2) same_settingsD(8) [OF conf] by auto
  qed
  ultimately have "run_of now l X l1 l2 sent"
    unfolding run_of_def using l1(2,3) l2(1-4) conf xs by blast
  then show ?thesis by blast
qed

lemma run_ofD:
  assumes "run_of now l X l1 l2 sent"
  shows "lacp_run l now = Some (l2, sent)" "lacp_inv l1 X" "\<not> lc_update l1" "lacp_inv l2 X" "\<not> lc_update l2" "same_settings l l1" "sent_only l1 l2"
    "same_settings l l2"
    "x \<in> X \<Longrightarrow> sl_status (lc_slave l1 x) = sl_status (rx_slave now (lc_slave l x))"
    "x \<in> X \<Longrightarrow> sl_partner (lc_slave l1 x) = sl_partner (rx_slave now (lc_slave l x))"
    "x \<in> X \<Longrightarrow> sl_rx (lc_slave l1 x) = sl_rx (rx_slave now (lc_slave l x))"
    "x \<in> X \<Longrightarrow> sl_tx (lc_slave l1 x) = sl_tx (lc_slave l x)"
    "x \<in> X \<Longrightarrow> sl_ntt_actor (lc_slave l1 x) = sl_ntt_actor (lc_slave l x)"
    "x \<in> X \<Longrightarrow> lc_slave l2 x = (if tx_needed now l1 x then sent_slave now l1 x else lc_slave l1 x)"
proof -
  show "lacp_run l now = Some (l2, sent)" "lacp_inv l1 X" "\<not> lc_update l1" "lacp_inv l2 X" "\<not> lc_update l2" "same_settings l l1" "sent_only l1 l2"
    "x \<in> X \<Longrightarrow> lc_slave l2 x = (if tx_needed now l1 x then sent_slave now l1 x else lc_slave l1 x)"
    using assms by (auto simp: run_of_def)
  then show "same_settings l l2" using same_settings_trans same_settings_sent by blast
  assume "x \<in> X"
  then have s: "(lc_slave l1 x)\<lparr>sl_attached := False\<rparr> = (rx_slave now (lc_slave l x))\<lparr>sl_attached := False\<rparr>" (is "?s = ?r")
    using assms by (auto simp: run_of_def)
  have "sl_status ?s = sl_status ?r" "sl_partner ?s = sl_partner ?r" "sl_rx ?s = sl_rx ?r" "sl_tx ?s = sl_tx ?r" "sl_ntt_actor ?s = sl_ntt_actor ?r"
    unfolding s by (rule refl)+
  then show "sl_status (lc_slave l1 x) = sl_status (rx_slave now (lc_slave l x))"
    "sl_partner (lc_slave l1 x) = sl_partner (rx_slave now (lc_slave l x))" "sl_rx (lc_slave l1 x) = sl_rx (rx_slave now (lc_slave l x))"
    "sl_tx (lc_slave l1 x) = sl_tx (lc_slave l x)" "sl_ntt_actor (lc_slave l1 x) = sl_ntt_actor (lc_slave l x)"
    by simp_all
qed

lemma run_of_eq:
  assumes "lacp_inv l X" "lacp_run l now = Some (l2, sent)"
  obtains l1 where "run_of now l X l1 l2 sent"
  using run_exists [OF assms(1), of now] assms(2) run_ofD(1) by (metis option.inject prod.inject)

lemma lookup_inv:
  assumes "lacp_inv l X"
  obtains x where "slave_lookup l aux = Some x"
    "if x = 0 then aux \<notin> (\<lambda>x. sl_aux (lc_slave l x)) ` X else x \<in> X \<and> sl_aux (lc_slave l x) = aux"
  using lacp_lookup assms unfolding lacp_inv_def by blast

lemma lookup_slave:
  assumes "lacp_inv l X" "x \<in> X"
  shows "slave_lookup l (sl_aux (lc_slave l x)) = Some x" "x \<noteq> 0"
proof -
  have t: "lacp_table l X" using assms(1) by (simp add: lacp_inv_def)
  obtain y where "slave_lookup l (sl_aux (lc_slave l x)) = Some y" "if y = 0 then sl_aux (lc_slave l x) \<notin> (\<lambda>x. sl_aux (lc_slave l x)) ` X else
      y \<in> X \<and> sl_aux (lc_slave l y) = sl_aux (lc_slave l x)"
    by (rule lookup_inv [OF assms(1)])
  then show "slave_lookup l (sl_aux (lc_slave l x)) = Some x"
    using assms(2) inj_onD [OF lacp_tableD(2) [OF t]] by (metis image_eqI)
  show "x \<noteq> 0" using lacp_tableD(5) [OF t] assms(2) by metis
qed

end
