(* ===== verification/Lacp_Net.thy ===== *)
theory Lacp_Net
  imports Lacp_Run
begin

text \<open>
  Two aggregation objects joined by links: what one transmits in a run the other receives. One
  exchange of PDUs in each direction and one more, at one time, bring every link up.
\<close>

section \<open>PDUs\<close>

lemma decode_encode_info:
  assumes "length (li_sys_id i) = 6"
  shows "decode_info (encode_info i) = i"
proof -
  obtain a b c d e f where "li_sys_id i = [a, b, c, d, e, f]"
    using assms by (auto simp: length_Suc_conv numeral_eq_Suc)
  then show ?thesis by (cases i) (simp add: decode_info_def encode_info_def be_field_def nth_append)
qed

lemma parse_compose:
  assumes "length (li_sys_id a) = 6" "length (li_sys_id p) = 6"
  shows "parse_lacp_packet (hdr @ compose_lacp_pdu a p @ pad) (length hdr) = Some (a, p)"
proof -
  have l: "length (encode_info a) = 15" "length (encode_info p) = 15" using assms by (simp_all add: length_encode_info)
  have len: "length (compose_lacp_pdu a p) = 110" using l by (simp add: compose_lacp_pdu_def)
  have "take 110 (drop (length hdr) (hdr @ compose_lacp_pdu a p @ pad)) = compose_lacp_pdu a p" using len by simp
  moreover have "take 15 (drop 4 (compose_lacp_pdu a p)) = encode_info a" "take 15 (drop 24 (compose_lacp_pdu a p)) = encode_info p"
    "compose_lacp_pdu a p ! 0 = 1" "compose_lacp_pdu a p ! 2 = 1" "compose_lacp_pdu a p ! 3 = 20"
    "compose_lacp_pdu a p ! 22 = 2" "compose_lacp_pdu a p ! 23 = 20"
    using l by (simp_all add: compose_lacp_pdu_def nth_append)
  ultimately show ?thesis
    using len decode_encode_info assms by (simp add: parse_lacp_packet_def Let_def)
qed

section \<open>Reception\<close>

definition received :: "bool \<Rightarrow> lacp_info \<Rightarrow> lacp_info \<Rightarrow> int \<Rightarrow> slave \<Rightarrow> slave" where
  "received fast a p now s =
     s\<lparr>sl_count_rx_pdus := sl_count_rx_pdus s + 1, sl_status := LACP_CURRENT,
       sl_rx := timer_set_duration now (LACP_RX_MULTIPLIER * (if fast then LACP_FAST_TIME_TX else LACP_SLOW_TIME_TX)),
       sl_ntt_actor := p, sl_partner := a\<rparr>"

lemma process_packet_received:
  assumes inv: "lacp_inv l X" and x: "x \<in> X" and pdu: "parse_lacp_packet packet l3 = Some (a, p)"
  shows "\<exists>l'. lacp_process_packet l (sl_aux (lc_slave l x)) packet l3 now = Some l' \<and> lacp_inv l' X \<and> same_settings l l' \<and>
    lc_slave l' = (lc_slave l)(x := received (lc_fast l) a p now (lc_slave l x))"
proof -
  obtain l' where l': "lacp_process_packet l (sl_aux (lc_slave l x)) packet l3 now = Some l'" "lacp_inv l' X"
    by (rule lacp_process_packet_inv [OF inv])
  let ?l = "upd_slave x (\<lambda>s. s\<lparr>sl_count_rx_pdus := sl_count_rx_pdus s + 1\<rparr>) l"
  have eq: "l' = receive_pdu x (a, p) now ?l"
    using l'(1) lookup_slave [OF inv x] pdu by (simp add: lacp_process_packet_def Let_def)
  have "length (li_sys_id (sl_partner (lc_slave l x))) = 6" "length (li_sys_id a) = 6"
    using inv x parse_length [OF pdu] by (auto simp: lacp_inv_def slave_ok_def)
  then have "c_memcmp (encode_info (sl_partner (lc_slave l x))) (encode_info a) = 0 \<longleftrightarrow> sl_partner (lc_slave l x) = a"
    using encode_info_inject by (auto simp: memcmp_zero length_encode_info)
  then have s: "lc_slave l' = (lc_slave l)(x := received (lc_fast l) a p now (lc_slave l x))"
    unfolding eq by (auto simp: receive_pdu_def Let_def received_def)
  moreover have "same_settings l l'"
    unfolding same_settings_def s by (auto simp: eq receive_pdu_def Let_def received_def)
  ultimately show ?thesis using l' by blast
qed

text \<open>
  Packets sent over links: the handle of a slave at the receiver is \<open>link\<close> of the one at the sender. A
  PDU is preceded by a header.
\<close>

fun deliver :: "u8 list \<Rightarrow> (addr \<Rightarrow> addr) \<Rightarrow> int \<Rightarrow> (addr \<times> u8 list) list \<Rightarrow> lacp \<Rightarrow> lacp option" where
  "deliver hdr link now [] l = Some l"
| "deliver hdr link now ((aux, pdu) # ps) l =
     Option.bind (lacp_process_packet l (link aux) (hdr @ pdu) (length hdr) now) (deliver hdr link now ps)"

lemma deliver_received:
  assumes "lacp_inv l Y" "distinct xs" "inj_on h (set xs)" "\<And>x. x \<in> set xs \<Longrightarrow> h x \<in> Y \<and> link (u x) = sl_aux (lc_slave l (h x))"
    and "\<And>x. x \<in> set xs \<Longrightarrow> length (li_sys_id (a x)) = 6 \<and> length (li_sys_id (p x)) = 6"
  shows "\<exists>l'. deliver hdr link now (map (\<lambda>x. (u x, compose_lacp_pdu (a x) (p x))) xs) l = Some l' \<and> lacp_inv l' Y \<and> same_settings l l' \<and>
    (\<forall>x \<in> set xs. lc_slave l' (h x) = received (lc_fast l) (a x) (p x) now (lc_slave l (h x))) \<and>
    (\<forall>y. y \<notin> h ` set xs \<longrightarrow> lc_slave l' y = lc_slave l y)"
  using assms
proof (induction xs arbitrary: l)
  case Nil
  then show ?case by (simp add: same_settings_refl)
next
  case (Cons x xs)
  have pdu: "parse_lacp_packet (hdr @ compose_lacp_pdu (a x) (p x)) (length hdr) = Some (a x, p x)"
    using parse_compose [of "a x" "p x" hdr "[]"] Cons.prems(5) [of x] by simp
  obtain l1 where l1: "lacp_process_packet l (sl_aux (lc_slave l (h x))) (hdr @ compose_lacp_pdu (a x) (p x)) (length hdr) now = Some l1"
    "lacp_inv l1 Y" "same_settings l l1" "lc_slave l1 = (lc_slave l)(h x := received (lc_fast l) (a x) (p x) now (lc_slave l (h x)))"
    using process_packet_received [OF Cons.prems(1) _ pdu, of "h x" now] Cons.prems(4) [of x] by auto
  have new: "h x \<notin> h ` set xs" using Cons.prems(2,3) by (auto simp: inj_on_def)
  have "\<exists>l'. deliver hdr link now (map (\<lambda>x. (u x, compose_lacp_pdu (a x) (p x))) xs) l1 = Some l' \<and> lacp_inv l' Y \<and> same_settings l1 l' \<and>
      (\<forall>x \<in> set xs. lc_slave l' (h x) = received (lc_fast l1) (a x) (p x) now (lc_slave l1 (h x))) \<and>
      (\<forall>y. y \<notin> h ` set xs \<longrightarrow> lc_slave l' y = lc_slave l1 y)"
    using Cons.prems same_settingsD(8) [OF l1(3)] by (intro Cons.IH l1(2)) auto
  then obtain l' where l': "deliver hdr link now (map (\<lambda>x. (u x, compose_lacp_pdu (a x) (p x))) xs) l1 = Some l'" "lacp_inv l' Y"
    "same_settings l1 l'" "\<forall>x \<in> set xs. lc_slave l' (h x) = received (lc_fast l1) (a x) (p x) now (lc_slave l1 (h x))"
    "\<forall>y. y \<notin> h ` set xs \<longrightarrow> lc_slave l' y = lc_slave l1 y" by blast
  have "deliver hdr link now (map (\<lambda>x. (u x, compose_lacp_pdu (a x) (p x))) (x # xs)) l = Some l'"
    using l1(1) l'(1) Cons.prems(4) [of x] by simp
  moreover have "lc_slave l' (h z) = received (lc_fast l) (a z) (p z) now (lc_slave l (h z))" if "z \<in> set (x # xs)" for z
  proof (cases "z = x")
    case True
    then show ?thesis using l'(5) new l1(4) by simp
  next
    case False
    then have "z \<in> set xs" using that by simp
    then have "z \<in> set xs" "h z \<noteq> h x" using new by (simp, metis image_eqI)
    then show ?thesis using l'(4) l1(4) same_settingsD(6) [OF l1(3)] by simp
  qed
  moreover have "lc_slave l' y = lc_slave l y" if "y \<notin> h ` set (x # xs)" for y using l'(5) l1(4) that by auto
  ultimately show ?case using l'(2) same_settings_trans [OF l1(3) l'(3)] by blast
qed

section \<open>State bits\<close>

definition in_sync :: "lacp_info \<Rightarrow> bool" where
  "in_sync i \<longleftrightarrow> li_state i AND LACP_STATE_SYNC \<noteq> 0"

lemma in_sync_bit: "in_sync i \<longleftrightarrow> bit (li_state i) 3"
  using and_exp_eq_0_iff_not_bit [of "li_state i" 3] by (simp add: in_sync_def)

definition key_of :: "lacp \<Rightarrow> u16" where
  "key_of l = (let k = lc_slave l (lc_key_slave l) in if sl_key k \<noteq> 0 then sl_key k else sl_port_id k)"

lemma key_of_config: "same_settings l l' \<Longrightarrow> key_of l' = key_of l"
  by (simp add: key_of_def same_settings_def Let_def)

lemma actor_of_fields:
  assumes "lc_key_slave l \<noteq> 0"
  shows "li_sys_id (actor_of l x) = lc_sys_id l" "li_key (actor_of l x) = key_of l"
    "in_sync (actor_of l x) \<longleftrightarrow> sl_attached (lc_slave l x)"
proof -
  show "li_sys_id (actor_of l x) = lc_sys_id l" "li_key (actor_of l x) = key_of l"
    using assms by (simp_all add: actor_of_def slave_get_actor_def key_of_def Let_def)
  show "in_sync (actor_of l x) \<longleftrightarrow> sl_attached (lc_slave l x)"
    unfolding in_sync_bit using assms by (auto simp: actor_of_def slave_get_actor_def Let_def bit_or_iff)
qed

lemma info_tx_equal_fields:
  assumes "info_tx_equal a b" "length (li_sys_id a) = 6" "length (li_sys_id b) = 6"
  shows "li_sys_id a = li_sys_id b" "li_key a = li_key b" "in_sync a = in_sync b"
proof -
  show "li_sys_id a = li_sys_id b" "li_key a = li_key b"
    using assms by (simp_all add: info_tx_equal_def eth_addr_equals_iff)
  have "(li_state a XOR li_state b) AND 15 = 0" using assms(1) by (simp add: info_tx_equal_def)
  then have "\<not> bit ((li_state a XOR li_state b) AND 15) 3" by simp
  then show "in_sync a = in_sync b" unfolding in_sync_bit by (simp add: bit_and_iff bit_xor_iff)
qed

section \<open>Exchanges\<close>

lemma key_slave_nonzero:
  assumes "lacp_inv l X" "x \<in> X"
  shows "lc_key_slave l \<noteq> 0"
proof -
  have t: "lacp_table l X" "X \<noteq> {}" using assms by (auto simp: lacp_inv_def)
  then show ?thesis using lacp_tableD(5) [OF t(1)] lacp_tableD(7) [OF t] by metis
qed

text \<open>\<open>h\<close> is the slave at the other end.\<close>

definition joined :: "(addr \<Rightarrow> addr) \<Rightarrow> lacp \<Rightarrow> addr set \<Rightarrow> lacp \<Rightarrow> addr set \<Rightarrow> (addr \<Rightarrow> addr) \<Rightarrow> bool" where
  "joined link a X b Y h \<longleftrightarrow> bij_betw h X Y \<and> (\<forall>x \<in> X. link (sl_aux (lc_slave a x)) = sl_aux (lc_slave b (h x)))"

lemma joined_config: "same_settings a a' \<Longrightarrow> same_settings b b' \<Longrightarrow> joined link a X b Y h \<Longrightarrow> joined link a' X b' Y h"
  by (simp add: joined_def same_settings_def)

lemma run_delivered:
  assumes run: "run_of now a X a1 a2 sent" and b: "lacp_inv b Y" and j: "joined link a X b Y h"
  shows "\<exists>b'. deliver hdr link now sent b = Some b' \<and> lacp_inv b' Y \<and> same_settings b b' \<and>
    (\<forall>x \<in> X. lc_slave b' (h x) =
       (if tx_needed now a1 x then received (lc_fast b) (actor_of a1 x) (sl_partner (lc_slave a1 x)) now (lc_slave b (h x)) else lc_slave b (h x)))"
proof -
  obtain xs where xs: "distinct xs" "set xs = X"
    "sent = map (\<lambda>x. (sl_aux (lc_slave a x), compose_lacp_pdu (actor_of a1 x) (sl_partner (lc_slave a1 x)))) (filter (tx_needed now a1) xs)"
    using run by (auto simp: run_of_def)
  let ?xs = "filter (tx_needed now a1) xs"
  have h: "inj_on h X" "\<And>x. x \<in> X \<Longrightarrow> h x \<in> Y" "\<And>x. x \<in> X \<Longrightarrow> link (sl_aux (lc_slave a x)) = sl_aux (lc_slave b (h x))"
    using j by (auto simp: joined_def bij_betw_def)
  have len: "length (li_sys_id (actor_of a1 x)) = 6 \<and> length (li_sys_id (sl_partner (lc_slave a1 x))) = 6" if "x \<in> X" for x
    using run_ofD(2) [OF run] actor_of_fields(1) [OF key_slave_nonzero [OF run_ofD(2) [OF run] that]] that
    by (simp add: lacp_inv_def slave_ok_def)
  have "\<exists>b'. deliver hdr link now sent b = Some b' \<and> lacp_inv b' Y \<and> same_settings b b' \<and>
      (\<forall>x \<in> set ?xs. lc_slave b' (h x) = received (lc_fast b) (actor_of a1 x) (sl_partner (lc_slave a1 x)) now (lc_slave b (h x))) \<and>
      (\<forall>y. y \<notin> h ` set ?xs \<longrightarrow> lc_slave b' y = lc_slave b y)"
    unfolding xs(3) using xs(1,2) h len by (intro deliver_received b) (auto intro: inj_on_subset)
  then obtain b' where b': "deliver hdr link now sent b = Some b'" "lacp_inv b' Y" "same_settings b b'"
      "\<forall>x \<in> set ?xs. lc_slave b' (h x) = received (lc_fast b) (actor_of a1 x) (sl_partner (lc_slave a1 x)) now (lc_slave b (h x))"
      "\<forall>y. y \<notin> h ` set ?xs \<longrightarrow> lc_slave b' y = lc_slave b y" by blast
  have "h x \<notin> h ` set ?xs" if "x \<in> X" "\<not> tx_needed now a1 x" for x using that h(1) xs(2) by (auto simp: inj_on_def)
  then have "\<forall>x \<in> X. lc_slave b' (h x) =
       (if tx_needed now a1 x then received (lc_fast b) (actor_of a1 x) (sl_partner (lc_slave a1 x)) now (lc_slave b (h x)) else lc_slave b (h x))"
    using b'(4,5) xs(2) by simp
  with b'(1-3) show ?thesis by blast
qed

text \<open>Timers that have been set are not expired at once.\<close>

abbreviation clock_ok :: "int \<Rightarrow> bool" where
  "clock_ok now \<equiv> 0 \<le> now \<and> now + 90000 < 2 ^ 63"

lemma timer_fresh: "clock_ok now \<Longrightarrow> 0 < d \<Longrightarrow> d \<le> 90000 \<Longrightarrow> \<not> timer_expired (timer_set_duration now d) now"
  using c_llong_id [of "now + d"] by (simp add: timer_expired_def timer_set_duration_def)

lemma received_fresh: "clock_ok now \<Longrightarrow> \<not> timer_expired (sl_rx (received fast a p now s)) now"
  by (simp add: received_def timer_fresh)

lemma rx_slave_fresh: "clock_ok now \<Longrightarrow> sl_status (rx_slave now s) \<noteq> LACP_DEFAULTED \<Longrightarrow> \<not> timer_expired (sl_rx (rx_slave now s)) now"
  by (auto simp: rx_slave_def timer_fresh split: slave_status.splits if_splits)

lemma sent_fresh: "clock_ok now \<Longrightarrow> \<not> timer_expired (sl_tx (sent_slave now l x)) now"
  by (simp add: timer_fresh tx_duration_def)

lemma rx_slave_idle: "\<not> timer_expired (sl_rx s) now \<Longrightarrow> rx_slave now s = s"
  by (simp add: rx_slave_def)

text \<open>
  All slaves have heard, not too long ago, from the system \<open>p\<close> with key \<open>k\<close>. A run then attaches all
  of them, if \<open>p\<close> is another system.
\<close>

definition knows :: "int \<Rightarrow> lacp \<Rightarrow> addr set \<Rightarrow> u8 list \<Rightarrow> u16 \<Rightarrow> bool" where
  "knows now l X p k \<longleftrightarrow> (\<forall>x \<in> X. \<not> timer_expired (sl_rx (lc_slave l x)) now \<and>
     li_sys_id (sl_partner (lc_slave l x)) = p \<and> li_key (sl_partner (lc_slave l x)) = k)"

lemma run_attaches:
  assumes run: "run_of now l X l1 l2 sent" and p: "p \<noteq> replicate 6 0" "p \<noteq> lc_sys_id l" and k: "knows now l X p k" and x: "x \<in> X"
  shows "sl_attached (lc_slave l1 x)" "sl_partner (lc_slave l1 x) = sl_partner (lc_slave l x)" "sl_status (lc_slave l1 x) = sl_status (lc_slave l x)"
    "sl_rx (lc_slave l1 x) = sl_rx (lc_slave l x)" "in_sync (sl_partner (lc_slave l x)) \<Longrightarrow> slave_may_enable l2 x"
proof -
  have s: "sl_partner (lc_slave l1 z) = sl_partner (lc_slave l z)" "sl_status (lc_slave l1 z) = sl_status (lc_slave l z)"
    "sl_rx (lc_slave l1 z) = sl_rx (lc_slave l z)" if "z \<in> X" for z
    using run_ofD(9-11) [OF run that] rx_slave_idle k that by (simp_all add: knows_def)
  have "all_join l1 X" using run_ofD(2,3) [OF run] by (simp add: lacp_inv_def)
  moreover have "\<forall>z \<in> X. li_sys_id (sl_partner (lc_slave l1 z)) = p \<and> li_key (sl_partner (lc_slave l1 z)) = k"
    using s k by (simp add: knows_def)
  moreover have "p \<noteq> lc_sys_id l1" using p(2) same_settingsD(3) [OF run_ofD(6) [OF run]] by simp
  ultimately show a: "sl_attached (lc_slave l1 x)" unfolding all_join_def using p(1) x by blast
  show "sl_partner (lc_slave l1 x) = sl_partner (lc_slave l x)" "sl_status (lc_slave l1 x) = sl_status (lc_slave l x)"
    "sl_rx (lc_slave l1 x) = sl_rx (lc_slave l x)" using s [OF x] by auto
  show "slave_may_enable l2 x" if "in_sync (sl_partner (lc_slave l x))"
    using that a s [OF x] sent_onlyD [OF run_ofD(7) [OF run]] by (simp add: slave_may_enable_def Let_def in_sync_def)
qed

section \<open>The handshake\<close>

text \<open>
  One object runs, and the other receives what it sent.
\<close>

definition lacp_exchange :: "u8 list \<Rightarrow> (addr \<Rightarrow> addr) \<Rightarrow> int \<Rightarrow> lacp \<Rightarrow> lacp \<Rightarrow> (lacp \<times> lacp) option" where
  "lacp_exchange hdr link now a b =
     Option.bind (lacp_run a now) (\<lambda>(a', sent). map_option (Pair a') (deliver hdr link now sent b))"

text \<open>First exchange: an active system whose timers have expired sends on all links.\<close>

lemma first_exchange:
  assumes a: "lacp_inv a X" and b: "lacp_inv b Y" and j: "joined link a X b Y h" and time: "clock_ok now"
    and tx: "lc_active a" "\<And>x. x \<in> X \<Longrightarrow> timer_expired (sl_tx (lc_slave a x)) now"
  shows "\<exists>a' b'. lacp_exchange hdr link now a b = Some (a', b') \<and> lacp_inv a' X \<and> lacp_inv b' Y \<and> same_settings a a' \<and> same_settings b b' \<and>
    knows now b' Y (lc_sys_id a) (key_of a) \<and>
    (\<forall>x \<in> X. sl_status (lc_slave b' (h x)) = LACP_CURRENT \<and> sl_ntt_actor (lc_slave b' (h x)) = sl_partner (lc_slave a' x) \<and>
       sl_ntt_actor (lc_slave a' x) = sl_partner (lc_slave b' (h x)) \<and>
       (sl_status (lc_slave a' x) \<noteq> LACP_DEFAULTED \<longrightarrow> \<not> timer_expired (sl_rx (lc_slave a' x)) now))"
proof -
  obtain a1 a2 sent where run: "run_of now a X a1 a2 sent" using run_exists [OF a] by blast
  note conf = run_ofD(6) [OF run]
  have need: "tx_needed now a1 x" if "x \<in> X" for x
    using run_ofD(12) [OF run that] tx(2) [OF that] tx(1) same_settingsD(5) [OF conf] by (simp add: tx_needed_def slave_may_tx_def)
  obtain b1 where b1: "deliver hdr link now sent b = Some b1" "lacp_inv b1 Y" "same_settings b b1"
    "\<forall>x \<in> X. lc_slave b1 (h x) =
       (if tx_needed now a1 x then received (lc_fast b) (actor_of a1 x) (sl_partner (lc_slave a1 x)) now (lc_slave b (h x)) else lc_slave b (h x))"
    using run_delivered [OF run b j, of hdr] by blast
  have slaves: "lc_slave a2 x = sent_slave now a1 x"
    "lc_slave b1 (h x) = received (lc_fast b) (actor_of a1 x) (sl_partner (lc_slave a1 x)) now (lc_slave b (h x))" if "x \<in> X" for x
    using need [OF that] run_ofD(14) [OF run that] b1(4) that by simp_all
  have "li_sys_id (actor_of a1 x) = lc_sys_id a" "li_key (actor_of a1 x) = key_of a" if "x \<in> X" for x
    using actor_of_fields [OF key_slave_nonzero [OF run_ofD(2) [OF run] that], of x] same_settingsD(3) [OF conf] key_of_config [OF conf] by auto
  moreover have "Y = h ` X" using j by (simp add: joined_def bij_betw_def)
  ultimately have "knows now b1 Y (lc_sys_id a) (key_of a)"
    using slaves received_fresh [OF time] by (auto simp: knows_def received_def)
  moreover have "lacp_exchange hdr link now a b = Some (a2, b1)" using run_ofD(1) [OF run] b1(1) by (simp add: lacp_exchange_def)
  moreover have "sl_status (lc_slave a2 x) \<noteq> LACP_DEFAULTED \<Longrightarrow> \<not> timer_expired (sl_rx (lc_slave a2 x)) now" if "x \<in> X" for x
    using slaves(1) [OF that] run_ofD(9,11) [OF run that] rx_slave_fresh [OF time] by simp
  ultimately show ?thesis
    using slaves run_ofD(4,8) [OF run] b1(2,3) by (simp add: received_def)
qed

text \<open>
  Later exchanges: the system that runs knows its partner, so that all its slaves are attached. What
  the other end knows of it is then up to date, whether or not there was something to send.
\<close>

lemma later_partner:
  assumes run: "run_of now a X a1 a2 sent" and x: "x \<in> X" and b: "slave_ok s" and att: "sl_attached (lc_slave a1 x)" "slave_may_tx a1 x"
    and known: "sl_ntt_actor (lc_slave a x) = sl_partner s"
    and s': "s' = (if tx_needed now a1 x then received fast (actor_of a1 x) p now s else s)"
  shows "in_sync (sl_partner s') \<and> li_sys_id (sl_partner s') = lc_sys_id a \<and> li_key (sl_partner s') = key_of a"
proof -
  note conf = run_ofD(6) [OF run]
  have actor: "in_sync (actor_of a1 x)" "li_sys_id (actor_of a1 x) = lc_sys_id a" "li_key (actor_of a1 x) = key_of a"
    using actor_of_fields [OF key_slave_nonzero [OF run_ofD(2) [OF run] x], of x] att(1) key_of_config [OF conf] same_settingsD(3) [OF conf] by auto
  show ?thesis
  proof (cases "tx_needed now a1 x")
    case True
    then show ?thesis using actor s' by (simp add: received_def)
  next
    case False
    then have eq: "info_tx_equal (actor_of a1 x) (sl_ntt_actor (lc_slave a x))"
      using att(2) run_ofD(13) [OF run x] by (simp add: tx_needed_def)
    have "length (lc_sys_id a1) = 6" using run_ofD(2) [OF run] by (simp add: lacp_inv_def)
    then have "length (li_sys_id (actor_of a1 x)) = 6" "length (li_sys_id (sl_ntt_actor (lc_slave a x))) = 6"
      using b known actor(2) same_settingsD(3) [OF conf] by (auto simp: slave_ok_def)
    note info_tx_equal_fields [OF eq this]
    then show ?thesis using s' False actor known by simp
  qed
qed

lemma later_exchange:
  assumes a: "lacp_inv a X" and b: "lacp_inv b Y" and j: "joined link a X b Y h" and time: "clock_ok now"
    and p: "p \<noteq> replicate 6 0" "p \<noteq> lc_sys_id a" and k: "knows now a X p k" and id: "lc_sys_id a \<noteq> replicate 6 0"
    and known: "\<And>x. x \<in> X \<Longrightarrow> sl_ntt_actor (lc_slave a x) = sl_partner (lc_slave b (h x)) \<and>
      (lc_active a \<or> sl_status (lc_slave a x) \<noteq> LACP_DEFAULTED) \<and>
      (sl_status (lc_slave b (h x)) \<noteq> LACP_DEFAULTED \<longrightarrow> \<not> timer_expired (sl_rx (lc_slave b (h x))) now)"
  shows "\<exists>a' b'. lacp_exchange hdr link now a b = Some (a', b') \<and> lacp_inv a' X \<and> lacp_inv b' Y \<and> same_settings a a' \<and> same_settings b b' \<and>
    knows now b' Y (lc_sys_id a) (key_of a) \<and>
    (\<forall>x \<in> X. (in_sync (sl_partner (lc_slave a x)) \<longrightarrow> slave_may_enable a' x) \<and> in_sync (sl_partner (lc_slave b' (h x))) \<and>
       sl_partner (lc_slave a' x) = sl_partner (lc_slave a x) \<and>
       (sl_ntt_actor (lc_slave b' (h x)) = sl_partner (lc_slave a x) \<or> sl_ntt_actor (lc_slave b' (h x)) = sl_ntt_actor (lc_slave b (h x))) \<and>
       sl_rx (lc_slave a' x) = sl_rx (lc_slave a x))"
proof -
  obtain a1 a2 sent where run: "run_of now a X a1 a2 sent" using run_exists [OF a] by blast
  note att = run_attaches [OF run p k]
  obtain b1 where b1: "deliver hdr link now sent b = Some b1" "lacp_inv b1 Y" "same_settings b b1"
    "\<forall>x \<in> X. lc_slave b1 (h x) =
       (if tx_needed now a1 x then received (lc_fast b) (actor_of a1 x) (sl_partner (lc_slave a1 x)) now (lc_slave b (h x)) else lc_slave b (h x))"
    using run_delivered [OF run b j, of hdr] by blast
  have Y: "Y = h ` X" using j by (simp add: joined_def bij_betw_def)
  have slave: "in_sync (sl_partner (lc_slave b1 (h x))) \<and> li_sys_id (sl_partner (lc_slave b1 (h x))) = lc_sys_id a \<and>
      li_key (sl_partner (lc_slave b1 (h x))) = key_of a" if x: "x \<in> X" for x
  proof (rule later_partner [OF run x _ att(1) [OF x]])
    show "slave_ok (lc_slave b (h x))" using b x Y by (simp add: lacp_inv_def)
    show "slave_may_tx a1 x" using known [OF x] att(3) [OF x] same_settingsD(5) [OF run_ofD(6) [OF run]] by (auto simp: slave_may_tx_def)
  qed (use known [OF x] b1(4) x in auto)
  have "\<not> timer_expired (sl_rx (lc_slave b1 (h x))) now" if x: "x \<in> X" for x
  proof -
    have "slave_ok (lc_slave b1 (h x))" using b1(2) x Y by (simp add: lacp_inv_def)
    then have "sl_status (lc_slave b1 (h x)) \<noteq> LACP_DEFAULTED" using slave [OF x] id by (auto simp: slave_ok_def zero_info_def)
    then show ?thesis using b1(4) x known [OF x] received_fresh [OF time] by (auto split: if_splits)
  qed
  then have "knows now b1 Y (lc_sys_id a) (key_of a)" using slave unfolding knows_def Y by auto
  moreover have "lacp_exchange hdr link now a b = Some (a2, b1)" using run_ofD(1) [OF run] b1(1) by (simp add: lacp_exchange_def)
  moreover have "sl_ntt_actor (lc_slave b1 (h x)) = sl_partner (lc_slave a x) \<or> sl_ntt_actor (lc_slave b1 (h x)) = sl_ntt_actor (lc_slave b (h x))"
    if x: "x \<in> X" for x using b1(4) x att(2) [OF x] by (simp add: received_def)
  moreover have "sl_partner (lc_slave a2 x) = sl_partner (lc_slave a x) \<and> sl_rx (lc_slave a2 x) = sl_rx (lc_slave a x)" if x: "x \<in> X" for x
    using att(2,4) [OF x] sent_onlyD [OF run_ofD(7) [OF run]] by simp
  ultimately show ?thesis using slave att(5) run_ofD(4,8) [OF run] b1(2,3) by simp
qed

lemma round_trip:
  assumes a: "lacp_inv a X" and b: "lacp_inv b Y" and time: "clock_ok now"
    and tx: "lc_active a" "\<And>x. x \<in> X \<Longrightarrow> timer_expired (sl_tx (lc_slave a x)) now"
    and ids: "lc_sys_id a \<noteq> replicate 6 0" "lc_sys_id b \<noteq> replicate 6 0" "lc_sys_id a \<noteq> lc_sys_id b"
    and j: "joined link a X b Y h" "joined link' b Y a X g" and g: "\<And>x. x \<in> X \<Longrightarrow> g (h x) = x"
  shows "\<exists>a1 b1 b2 a2. lacp_exchange hdr link now a b = Some (a1, b1) \<and> lacp_exchange hdr' link' now b1 a1 = Some (b2, a2) \<and>
    lacp_inv a2 X \<and> lacp_inv b2 Y \<and> same_settings a a2 \<and> same_settings b b2 \<and> knows now a2 X (lc_sys_id b) (key_of b) \<and>
    (\<forall>x \<in> X. in_sync (sl_partner (lc_slave a2 x)) \<and> sl_ntt_actor (lc_slave a2 x) = sl_partner (lc_slave b2 (h x)) \<and>
       \<not> timer_expired (sl_rx (lc_slave b2 (h x))) now)"
proof -
  have Y: "Y = h ` X" using j(1) by (simp add: joined_def bij_betw_def)
  obtain a1 b1 where 1: "lacp_exchange hdr link now a b = Some (a1, b1)" "lacp_inv a1 X" "lacp_inv b1 Y" "same_settings a a1" "same_settings b b1"
    "knows now b1 Y (lc_sys_id a) (key_of a)"
    "\<forall>x \<in> X. sl_status (lc_slave b1 (h x)) = LACP_CURRENT \<and> sl_ntt_actor (lc_slave b1 (h x)) = sl_partner (lc_slave a1 x) \<and>
       sl_ntt_actor (lc_slave a1 x) = sl_partner (lc_slave b1 (h x)) \<and>
       (sl_status (lc_slave a1 x) \<noteq> LACP_DEFAULTED \<longrightarrow> \<not> timer_expired (sl_rx (lc_slave a1 x)) now)"
    using first_exchange [OF a b j(1) time tx, of hdr] by blast
  have c1: "lc_sys_id b1 = lc_sys_id b" "key_of b1 = key_of b" using same_settingsD(3) [OF 1(5)] key_of_config [OF 1(5)] by auto
  have "\<exists>b2 a2. lacp_exchange hdr' link' now b1 a1 = Some (b2, a2) \<and> lacp_inv b2 Y \<and> lacp_inv a2 X \<and> same_settings b1 b2 \<and> same_settings a1 a2 \<and>
      knows now a2 X (lc_sys_id b1) (key_of b1) \<and>
      (\<forall>y \<in> Y. (in_sync (sl_partner (lc_slave b1 y)) \<longrightarrow> slave_may_enable b2 y) \<and> in_sync (sl_partner (lc_slave a2 (g y))) \<and>
        sl_partner (lc_slave b2 y) = sl_partner (lc_slave b1 y) \<and>
        (sl_ntt_actor (lc_slave a2 (g y)) = sl_partner (lc_slave b1 y) \<or> sl_ntt_actor (lc_slave a2 (g y)) = sl_ntt_actor (lc_slave a1 (g y))) \<and>
        sl_rx (lc_slave b2 y) = sl_rx (lc_slave b1 y))"
    using 1(7) g ids c1 by (intro later_exchange [OF 1(3,2) joined_config [OF 1(5,4) j(2)] time ids(1) _ 1(6)]) (auto simp: Y)
  then obtain b2 a2 where 2: "lacp_exchange hdr' link' now b1 a1 = Some (b2, a2)" "lacp_inv b2 Y" "lacp_inv a2 X" "same_settings b1 b2" "same_settings a1 a2"
      "knows now a2 X (lc_sys_id b) (key_of b)"
      "\<And>y. y \<in> Y \<Longrightarrow> in_sync (sl_partner (lc_slave a2 (g y))) \<and> sl_partner (lc_slave b2 y) = sl_partner (lc_slave b1 y) \<and>
        (sl_ntt_actor (lc_slave a2 (g y)) = sl_partner (lc_slave b1 y) \<or> sl_ntt_actor (lc_slave a2 (g y)) = sl_ntt_actor (lc_slave a1 (g y))) \<and>
        sl_rx (lc_slave b2 y) = sl_rx (lc_slave b1 y)"
    unfolding c1 by blast
  have "in_sync (sl_partner (lc_slave a2 x)) \<and> sl_ntt_actor (lc_slave a2 x) = sl_partner (lc_slave b2 (h x)) \<and>
    \<not> timer_expired (sl_rx (lc_slave b2 (h x))) now" if x: "x \<in> X" for x
    using 2(7) [of "h x"] 1(6,7) g [OF x] x by (auto simp: Y knows_def)
  then show ?thesis using 1(1) 2(1-3,6) same_settings_trans [OF 1(4) 2(5)] same_settings_trans [OF 1(5) 2(4)] by blast
qed

lemma handshake:
  assumes a: "lacp_inv a X" and b: "lacp_inv b Y" and h: "bij_betw h X Y" and time: "clock_ok now"
    and link: "\<And>x. x \<in> X \<Longrightarrow> link (sl_aux (lc_slave a x)) = sl_aux (lc_slave b (h x)) \<and> link' (sl_aux (lc_slave b (h x))) = sl_aux (lc_slave a x)"
    and tx: "lc_active a" "\<And>x. x \<in> X \<Longrightarrow> timer_expired (sl_tx (lc_slave a x)) now"
    and ids: "lc_sys_id a \<noteq> replicate 6 0" "lc_sys_id b \<noteq> replicate 6 0" "lc_sys_id a \<noteq> lc_sys_id b"
  shows "\<exists>a1 b1 b2 a2 a3 b3 b4 sent. lacp_exchange hdr link now a b = Some (a1, b1) \<and> lacp_exchange hdr' link' now b1 a1 = Some (b2, a2) \<and>
    lacp_exchange hdr link now a2 b2 = Some (a3, b3) \<and> lacp_run b3 now = Some (b4, sent) \<and> lacp_inv a3 X \<and> lacp_inv b4 Y \<and>
    same_settings a a3 \<and> same_settings b b4 \<and> (\<forall>x \<in> X. slave_may_enable a3 x \<and> slave_may_enable b4 (h x))"
proof -
  have g: "inv_into X h (h x) = x" if "x \<in> X" for x using h that by (simp add: bij_betw_def)
  have Y: "Y = h ` X" using h by (simp add: bij_betw_def)
  have j: "joined link a X b Y h" using h link by (simp add: joined_def)
  have j': "joined link' b Y a X (inv_into X h)" using bij_betw_inv_into [OF h] link g unfolding joined_def Y by simp
  obtain a1 b1 b2 a2 where 2: "lacp_exchange hdr link now a b = Some (a1, b1)" "lacp_exchange hdr' link' now b1 a1 = Some (b2, a2)"
      "lacp_inv a2 X" "lacp_inv b2 Y" "same_settings a a2" "same_settings b b2" "knows now a2 X (lc_sys_id b) (key_of b)"
      "\<forall>x \<in> X. in_sync (sl_partner (lc_slave a2 x)) \<and> sl_ntt_actor (lc_slave a2 x) = sl_partner (lc_slave b2 (h x)) \<and>
         \<not> timer_expired (sl_rx (lc_slave b2 (h x))) now"
    using round_trip [OF a b time tx ids j j' g] by blast
  have c2: "lc_sys_id a2 = lc_sys_id a" "key_of a2 = key_of a" "lc_active a2"
    using same_settingsD(3,5) [OF 2(5)] key_of_config [OF 2(5)] tx(1) by auto
  have "\<exists>a3 b3. lacp_exchange hdr link now a2 b2 = Some (a3, b3) \<and> lacp_inv a3 X \<and> lacp_inv b3 Y \<and> same_settings a2 a3 \<and> same_settings b2 b3 \<and>
      knows now b3 Y (lc_sys_id a2) (key_of a2) \<and>
      (\<forall>x \<in> X. (in_sync (sl_partner (lc_slave a2 x)) \<longrightarrow> slave_may_enable a3 x) \<and> in_sync (sl_partner (lc_slave b3 (h x))) \<and>
        sl_partner (lc_slave a3 x) = sl_partner (lc_slave a2 x) \<and>
        (sl_ntt_actor (lc_slave b3 (h x)) = sl_partner (lc_slave a2 x) \<or> sl_ntt_actor (lc_slave b3 (h x)) = sl_ntt_actor (lc_slave b2 (h x))) \<and>
        sl_rx (lc_slave a3 x) = sl_rx (lc_slave a2 x))"
    using 2(8) ids c2 by (intro later_exchange [OF 2(3,4) joined_config [OF 2(5,6) j] time ids(2) _ 2(7)]) auto
  then obtain a3 b3 where 3: "lacp_exchange hdr link now a2 b2 = Some (a3, b3)" "lacp_inv a3 X" "lacp_inv b3 Y" "same_settings a2 a3" "same_settings b2 b3"
      "knows now b3 Y (lc_sys_id a) (key_of a)" "\<And>x. x \<in> X \<Longrightarrow> slave_may_enable a3 x \<and> in_sync (sl_partner (lc_slave b3 (h x)))"
    unfolding c2 using 2(8) by blast
  obtain b3' b4 sent where run: "run_of now b3 Y b3' b4 sent" using run_exists [OF 3(3)] by blast
  have conf3: "same_settings a a3" "same_settings b b3" using same_settings_trans 2(5,6) 3(4,5) by blast+
  have "slave_may_enable b4 (h x)" if x: "x \<in> X" for x
    using run_attaches(5) [OF run ids(1) _ 3(6), of "h x"] ids(3) same_settingsD(3) [OF conf3(2)] x 3(7) [OF x] by (auto simp: Y)
  then show ?thesis
    using 2(1,2) 3(1,2,7) run_ofD(1,4) [OF run] conf3(1) same_settings_trans [OF conf3(2) run_ofD(8) [OF run]] by blast
qed

end
