(* ===== verification/Lacp_Props.thy ===== *)
theory Lacp_Props
  imports Lacp_Net
begin

text \<open>
  What link aggregation promises its client, in every state that calls can reach: traffic goes to one
  partner only, links between two systems come up, a partner that falls silent is noticed, and
  \<open>lacp_wait\<close> wakes the client early enough.
\<close>

section \<open>Sequences of calls\<close>

fun lc_runs :: "lacp \<Rightarrow> int list \<Rightarrow> lacp option" where
  "lc_runs l [] = Some l"
| "lc_runs l (t # ts) = Option.bind (lacp_run l t) (\<lambda>(l, _). lc_runs l ts)"

lemma runs_keep:
  assumes "lacp_inv l X" "x \<in> X" "\<forall>t \<in> set ts. t < sl_rx (lc_slave l x)"
  shows "\<exists>l'. lc_runs l ts = Some l' \<and> lacp_inv l' X \<and> same_settings l l' \<and> sl_status (lc_slave l' x) = sl_status (lc_slave l x) \<and>
    sl_partner (lc_slave l' x) = sl_partner (lc_slave l x) \<and> sl_rx (lc_slave l' x) = sl_rx (lc_slave l x)"
  using assms
proof (induction ts arbitrary: l)
  case Nil
  then show ?case by (simp add: same_settings_refl)
next
  case (Cons t ts)
  obtain l1 l2 sent where run: "run_of t l X l1 l2 sent" using run_exists [OF Cons.prems(1)] by blast
  have "rx_slave t (lc_slave l x) = lc_slave l x" using Cons.prems(3) by (intro rx_slave_idle) (simp add: timer_expired_def)
  then have s: "sl_status (lc_slave l2 x) = sl_status (lc_slave l x)" "sl_partner (lc_slave l2 x) = sl_partner (lc_slave l x)"
    "sl_rx (lc_slave l2 x) = sl_rx (lc_slave l x)"
    using run_ofD(9-11) [OF run Cons.prems(2)] sent_onlyD [OF run_ofD(7) [OF run]] by simp_all
  then show ?case
    using Cons.IH [OF run_ofD(4) [OF run] Cons.prems(2)] Cons.prems(3) run_ofD(1) [OF run] same_settings_trans [OF run_ofD(8) [OF run]] by auto
qed

lemma run_slave:
  assumes "lacp_inv l X" "x \<in> X"
  shows "\<exists>l' sent. lacp_run l now = Some (l', sent) \<and> lacp_inv l' X \<and> same_settings l l' \<and>
    sl_status (lc_slave l' x) = sl_status (rx_slave now (lc_slave l x)) \<and> sl_partner (lc_slave l' x) = sl_partner (rx_slave now (lc_slave l x)) \<and>
    sl_rx (lc_slave l' x) = sl_rx (rx_slave now (lc_slave l x))"
proof -
  obtain l1 l2 sent where run: "run_of now l X l1 l2 sent" using run_exists [OF assms(1)] by blast
  show ?thesis
    using run_ofD(1,4,8) [OF run] run_ofD(9-11) [OF run assms(2)] sent_onlyD [OF run_ofD(7) [OF run]] by simp
qed

lemma may_enable_lookup:
  assumes "lacp_inv l X" "x \<in> X" "sl_aux (lc_slave l x) = aux"
  shows "lacp_slave_may_enable (Some l) aux = Some (slave_may_enable l x)"
    "lacp_slave_is_current l aux = Some (sl_status (lc_slave l x) \<noteq> LACP_DEFAULTED)"
  using lookup_slave [OF assms(1,2)] assms(3) by (auto simp: lacp_slave_may_enable_def lacp_slave_is_current_def)

lemma may_enable_slave:
  assumes "lacp_inv l X" "lacp_slave_may_enable (Some l) aux = Some True"
  obtains x where "x \<in> X" "slave_lookup l aux = Some x" "slave_may_enable l x"
proof -
  obtain x where "slave_lookup l aux = Some x"
    "if x = 0 then aux \<notin> (\<lambda>x. sl_aux (lc_slave l x)) ` X else x \<in> X \<and> sl_aux (lc_slave l x) = aux"
    by (rule lookup_inv [OF assms(1)])
  then show thesis using that assms(2) by (auto simp: lacp_slave_may_enable_def split: if_splits)
qed

lemma unref_frees:
  assumes "lacp_inv l X" "lc_ref_cnt l = 1"
  shows "lacp_unref (Some l) = Some None"
proof -
  have "lacp_table l X" using assms(1) by (simp add: lacp_inv_def)
  then obtain xs where xs: "hmap_nodes (lc_slaves l) = Some xs" "distinct xs" "set xs = X" by (rule lacp_nodes)
  have "lacp_inv (l\<lparr>lc_ref_cnt := 0\<rparr>) X"
    using assms(1) by (intro lacp_inv_settings [OF assms(1)]) (auto simp: lacp_inv_def)
  then have "destroy_all (l\<lparr>lc_ref_cnt := 0\<rparr>) xs \<noteq> None" using destroy_all_inv xs(2,3) by fastforce
  then show ?thesis using xs(1) assms(2) by (auto simp: lacp_unref_def)
qed

section \<open>Sleeping\<close>

lemma actor_of_sent: "sent_only l l' \<Longrightarrow> actor_of l' x = actor_of l x"
  unfolding actor_of_def slave_get_actor_def Let_def using sent_onlyD by simp

lemma run_up_to_date:
  assumes run: "run_of now l X l1 l2 sent" and x: "x \<in> X" and tx: "slave_may_tx l2 x"
  shows "info_tx_equal (actor_of l2 x) (sl_ntt_actor (lc_slave l2 x))"
proof (cases "tx_needed now l1 x")
  case True
  then show ?thesis
    using run_ofD(14) [OF run x] actor_of_sent [OF run_ofD(7) [OF run], of x]
    by (simp add: info_tx_equal_def eth_addr_equals_def eth_addr_compare_3way_def memcmp_zero)
next
  case False
  have "slave_may_tx l1 x" using tx sent_onlyD [OF run_ofD(7) [OF run]] by (simp add: slave_may_tx_def)
  then show ?thesis
    using False run_ofD(14) [OF run x] actor_of_sent [OF run_ofD(7) [OF run], of x] by (simp add: tx_needed_def)
qed

lemma fold_idle: "(\<And>x. x \<in> set xs \<Longrightarrow> f x s = s) \<Longrightarrow> fold f xs s = s"
  by (induction xs) auto

lemma run_idle:
  assumes inv: "lacp_inv l X" and upd: "\<not> lc_update l"
    and rx: "\<And>x. x \<in> X \<Longrightarrow> sl_status (lc_slave l x) \<noteq> LACP_DEFAULTED \<Longrightarrow> \<not> timer_expired (sl_rx (lc_slave l x)) now"
    and tx: "\<And>x. x \<in> X \<Longrightarrow> \<not> tx_needed now l x"
  shows "lacp_run l now = Some (l, [])"
proof -
  have t: "lacp_table l X" using inv by (simp add: lacp_inv_def)
  then obtain xs where xs: "hmap_nodes (lc_slaves l) = Some xs" "distinct xs" "set xs = X" by (rule lacp_nodes)
  have "run_rx now x l = l" if "x \<in> X" for x
    using rx [OF that] by (cases "sl_status (lc_slave l x)") (auto simp: run_rx_def Let_def)
  then have "fold (run_rx now) xs l = l" using xs(3) by (intro fold_idle) auto
  moreover have "run_tx_all now xs l = Some (l, [])"
  proof (cases "X = {}")
    case False
    then have "lc_key_slave l \<noteq> 0" using key_slave_nonzero [OF inv] by blast
    moreover have "filter (tx_needed now l) xs = []" using tx xs(3) by (simp add: filter_empty_conv)
    moreover have "(\<lambda>x. if x \<in> set xs \<and> tx_needed now l x then sent_slave now l x else lc_slave l x) = lc_slave l"
      using tx xs(3) by (intro ext) auto
    ultimately show ?thesis using run_tx_all_eq [OF _ xs(2), of l now] by simp
  qed (use xs(3) in simp)
  ultimately show ?thesis using xs(1) upd by (simp add: lacp_run_def)
qed

lemma run_timers_later:
  assumes run: "run_of now l X l1 l2 sent" and time: "clock_ok now" and tx: "lc_active l" "\<forall>x \<in> X. sl_tx (lc_slave l x) \<le> now"
    and ws: "lacp_wait l2 = Some ws"
  shows "\<forall>w \<in> set ws. now < w"
proof -
  have "lacp_table l2 X" using run_ofD(4) [OF run] by (simp add: lacp_inv_def)
  then obtain xs where xs: "hmap_nodes (lc_slaves l2) = Some xs" "set xs = X" by (rule lacp_nodes)
  have "now < sl_tx (lc_slave l2 x)" "sl_status (lc_slave l2 x) \<noteq> LACP_DEFAULTED \<Longrightarrow> now < sl_rx (lc_slave l2 x)" if x: "x \<in> X" for x
  proof -
    have "tx_needed now l1 x"
      using tx x run_ofD(12) [OF run x] same_settingsD(5) [OF run_ofD(6) [OF run]] by (simp add: tx_needed_def slave_may_tx_def timer_expired_def)
    then have s: "lc_slave l2 x = sent_slave now l1 x" using run_ofD(14) [OF run x] by simp
    show "now < sl_tx (lc_slave l2 x)" using sent_fresh [OF time, of l1 x] s by (simp only: timer_expired_def not_le)
    show "now < sl_rx (lc_slave l2 x)" if "sl_status (lc_slave l2 x) \<noteq> LACP_DEFAULTED"
      using rx_slave_fresh [OF time, of "lc_slave l x"] that s run_ofD(9,11) [OF run x] by (simp add: timer_expired_def)
  qed
  then show ?thesis using ws xs by (auto simp: lacp_wait_def timer_wait_at_def split: if_splits)
qed

section \<open>A system with links\<close>

lemma set_slave_same:
  "lc_active (set_slave x s now l) = lc_active l" "lc_sys_id (set_slave x s now l) = lc_sys_id l"
  "sl_aux (lc_slave (set_slave x s now l) y) = sl_aux (lc_slave l y)" "sl_tx (lc_slave (set_slave x s now l) y) = sl_tx (lc_slave l y)"
  by (auto simp: set_slave_def Let_def slave_set_expired_def)

lemma register_new:
  assumes inv: "lacp_inv l X" and new: "new \<notin> X" "new \<noteq> 0" "card X + 1 < 2 ^ 32" and aux: "aux \<notin> (\<lambda>x. sl_aux (lc_slave l x)) ` X"
  shows "\<exists>l'. lacp_slave_register l aux s new now = Some l' \<and> lacp_inv l' (insert new X) \<and> lc_active l' = lc_active l \<and>
    lc_sys_id l' = lc_sys_id l \<and> sl_aux (lc_slave l' new) = aux \<and> sl_tx (lc_slave l' new) = 0 \<and>
    (\<forall>x \<in> X. sl_aux (lc_slave l' x) = sl_aux (lc_slave l x) \<and> sl_tx (lc_slave l' x) = sl_tx (lc_slave l x))"
proof -
  obtain x where x: "slave_lookup l aux = Some x"
    "if x = 0 then aux \<notin> (\<lambda>x. sl_aux (lc_slave l x)) ` X else x \<in> X \<and> sl_aux (lc_slave l x) = aux"
    by (rule lookup_inv [OF inv])
  then have "x = 0" using aux by (auto split: if_splits)
  obtain l1 where l1: "add_slave new aux l = Some l1" "lacp_inv l1 (insert new X)" by (rule add_slave_inv [OF inv new aux])
  have "lc_active l1 = lc_active l" "lc_sys_id l1 = lc_sys_id l" "sl_aux (lc_slave l1 new) = aux" "sl_tx (lc_slave l1 new) = 0"
    "\<forall>x \<in> X. lc_slave l1 x = lc_slave l x"
    using l1(1) new(1) by (auto simp: add_slave_def Let_def slave_set_defaulted_def zero_slave_def split: if_splits)
  then show ?thesis
    using x(1) \<open>x = 0\<close> l1(1) set_slave_inv [OF l1(2), of new s now] set_slave_same [of new s now l1] by (simp add: lacp_slave_register_def)
qed

definition demo_settings :: "u8 list \<Rightarrow> lacp_settings" where
  "demo_settings sid = \<lparr>ls_name = ''bond'', ls_id = sid, ls_priority = 32768, ls_active = True, ls_fast = True, ls_fallback_ab_cfg = False\<rparr>"

definition demo_slave :: "nat \<Rightarrow> lacp_slave_settings" where
  "demo_slave n = \<lparr>lss_name = ''eth'', lss_id = of_nat n, lss_priority = 32768, lss_key = 7\<rparr>"

lemma reachable_exec: "lc_reachable l \<Longrightarrow> lc_allowed l op \<Longrightarrow> lc_exec l op = Some l' \<Longrightarrow> lc_reachable l'"
  unfolding lc_reachable_def by (rule reachable_call)

lemma demo_system:
  assumes "length sid = 6" "\<not> eth_addr_is_zero sid" "n < 1000"
  shows "\<exists>l. lc_reachable l \<and> slaves_of l = {1..n} \<and> lc_active l \<and> lc_sys_id l = sid \<and>
    (\<forall>x \<in> {1..n}. sl_aux (lc_slave l x) = x \<and> sl_tx (lc_slave l x) = 0)"
  using assms(3)
proof (induction n)
  case 0
  let ?l = "lacp_create (\<lambda>_. zero_slave) \<lparr>hm_node = (\<lambda>_. \<lparr>hn_hash = 0, hn_next = 0\<rparr>), hm_buckets = [], hm_mask = 0, hm_n = 0\<rparr>"
  have r: "lc_reachable ?l" unfolding lc_reachable_def by (rule reachable_start) (auto simp: lc_start_def)
  obtain l' where l': "lacp_configure ?l (demo_settings sid) = Some l'" "lacp_inv l' {}"
    using lacp_configure_inv [OF lacp_create_inv, of "demo_settings sid"] assms(1,2) by (auto simp: demo_settings_def)
  then have "lc_reachable l'" using assms(1,2) by (intro reachable_exec [OF r, of "Lc_Configure (demo_settings sid)"]) (simp_all add: demo_settings_def)
  moreover have "lc_active l'" "lc_sys_id l' = sid"
    using l'(1) assms(1,2) by (auto simp: lacp_configure_def Let_def demo_settings_def lacp_create_def eth_addr_equals_iff split: if_splits)
  ultimately show ?case using slaves_of_inv [OF l'(2)] by auto
next
  case (Suc n)
  then obtain l where l: "lc_reachable l" "slaves_of l = {1..n}" "lc_active l" "lc_sys_id l = sid"
    "\<forall>x \<in> {1..n}. sl_aux (lc_slave l x) = x \<and> sl_tx (lc_slave l x) = 0" by auto
  have inv: "lacp_inv l {1..n}" using reachable_slaves [OF l(1)] l(2) by simp
  obtain l' where l': "lacp_slave_register l (Suc n) (demo_slave (Suc n)) (Suc n) 0 = Some l'" "lacp_inv l' (insert (Suc n) {1..n})"
    "lc_active l' = lc_active l" "lc_sys_id l' = lc_sys_id l" "sl_aux (lc_slave l' (Suc n)) = Suc n" "sl_tx (lc_slave l' (Suc n)) = 0"
    "\<forall>x \<in> {1..n}. sl_aux (lc_slave l' x) = sl_aux (lc_slave l x) \<and> sl_tx (lc_slave l' x) = sl_tx (lc_slave l x)"
    using register_new [OF inv, of "Suc n" "Suc n" "demo_slave (Suc n)" 0] Suc.prems l(5) by auto
  have "lc_reachable l'"
    using l'(1) l(2) Suc.prems by (intro reachable_exec [OF l(1), of "Lc_Register (Suc n) (demo_slave (Suc n)) (Suc n) 0"]) simp_all
  moreover have n: "insert (Suc n) {1..n} = {1..Suc n}" by auto
  moreover have "\<forall>x \<in> {1..Suc n}. sl_aux (lc_slave l' x) = x \<and> sl_tx (lc_slave l' x) = 0"
    unfolding n [symmetric] using l'(5-7) l(5) by simp
  ultimately show ?case using l'(3,4) l(3,4) slaves_of_inv [OF l'(2)] by (intro exI [of _ l']) simp
qed

lemma reachable_deliver:
  assumes "lc_reachable l" "deliver hdr link now ps l = Some l'"
  shows "lc_reachable l'"
  using assms
proof (induction ps arbitrary: l)
  case (Cons p ps)
  obtain aux pdu where p: "p = (aux, pdu)" by (cases p)
  then obtain l1 where l1: "lacp_process_packet l (link aux) (hdr @ pdu) (length hdr) now = Some l1" "deliver hdr link now ps l1 = Some l'"
    using Cons.prems(2) by (auto simp: bind_eq_Some_conv)
  have "lc_reachable l1" by (rule reachable_exec [OF Cons.prems(1), of "Lc_Packet (link aux) (hdr @ pdu) (length hdr) now"]) (use l1(1) in simp_all)
  then show ?case using Cons.IH l1(2) by blast
qed simp

lemma reachable_exchange:
  assumes "lc_reachable a" "lc_reachable b" "lacp_exchange hdr link now a b = Some (a', b')"
  shows "lc_reachable a'" "lc_reachable b'"
proof -
  obtain sent where s: "lacp_run a now = Some (a', sent)" "deliver hdr link now sent b = Some b'"
    using assms(3) by (auto simp: lacp_exchange_def bind_eq_Some_conv)
  show "lc_reachable a'" using reachable_exec [OF assms(1), of "Lc_Run now" a'] s(1) by simp
  show "lc_reachable b'" by (rule reachable_deliver [OF assms(2) s(2)])
qed

definition handles :: "lacp \<Rightarrow> addr set" where
  "handles l = (\<lambda>x. sl_aux (lc_slave l x)) ` slaves_of l"

lemma eth_addr_zero:
  assumes "length ea = 6"
  shows "eth_addr_is_zero ea \<longleftrightarrow> ea = replicate 6 0"
proof -
  obtain a b c d e f where "ea = [a, b, c, d, e, f]" using assms by (auto simp: length_Suc_conv numeral_eq_Suc)
  then show ?thesis by (simp add: eth_addr_is_zero_def numeral_eq_Suc or_eq_0_iff)
qed

text \<open>The slaves at the two ends of the links.\<close>

lemma peers_exist:
  assumes a: "lacp_inv a X" and b: "lacp_inv b Y"
    and link: "bij_betw link ((\<lambda>x. sl_aux (lc_slave a x)) ` X) ((\<lambda>y. sl_aux (lc_slave b y)) ` Y)"
  shows "\<exists>h. bij_betw h X Y \<and> (\<forall>x \<in> X. link (sl_aux (lc_slave a x)) = sl_aux (lc_slave b (h x)))"
proof -
  have inj: "inj_on (\<lambda>x. sl_aux (lc_slave a x)) X" "inj_on (\<lambda>y. sl_aux (lc_slave b y)) Y"
    using a b by (auto simp: lacp_inv_def lacp_table_def)
  let ?g = "inv_into Y (\<lambda>y. sl_aux (lc_slave b y))"
  have bij: "bij_betw (\<lambda>x. sl_aux (lc_slave a x)) X ((\<lambda>x. sl_aux (lc_slave a x)) ` X)"
    "bij_betw ?g ((\<lambda>y. sl_aux (lc_slave b y)) ` Y) Y"
    using inj by (auto simp: bij_betw_def intro: inj_on_inv_into)
  have "bij_betw (?g \<circ> (link \<circ> (\<lambda>x. sl_aux (lc_slave a x)))) X Y"
    by (rule bij_betw_trans [OF bij_betw_trans [OF bij(1) link] bij(2)])
  moreover have "link (sl_aux (lc_slave a x)) = sl_aux (lc_slave b (?g (link (sl_aux (lc_slave a x)))))" if "x \<in> X" for x
  proof -
    have "link (sl_aux (lc_slave a x)) \<in> (\<lambda>y. sl_aux (lc_slave b y)) ` Y" using bij_betwE [OF link] that by blast
    from f_inv_into_f [OF this] show ?thesis by simp
  qed
  ultimately show ?thesis by (intro exI [of _ "?g \<circ> (link \<circ> (\<lambda>x. sl_aux (lc_slave a x)))"]) simp
qed

text \<open>Two active systems with two links between them, before and after the handshake.\<close>

lemma demo_pair:
  "\<exists>a b. lc_reachable a \<and> lc_reachable b \<and> slaves_of a = {1..2} \<and> slaves_of b = {1..2} \<and> lc_active a \<and>
     lc_sys_id a = [2, 0, 0, 0, 0, 1] \<and> lc_sys_id b = [2, 0, 0, 0, 0, 2] \<and>
     (\<forall>x \<in> {1..2}. sl_aux (lc_slave a x) = x \<and> sl_tx (lc_slave a x) = 0 \<and> sl_aux (lc_slave b x) = x)"
proof -
  have *: "length [2, 0, 0, 0, 0, n] = 6" "\<not> eth_addr_is_zero [2, 0, 0, 0, 0, n]" for n :: u8
    by (simp_all add: eth_addr_zero numeral_eq_Suc)
  have 2: "(2 :: nat) < 1000" by simp
  obtain a where a: "lc_reachable a" "slaves_of a = {1..2}" "lc_active a" "lc_sys_id a = [2, 0, 0, 0, 0, 1]"
    "\<forall>x \<in> {1..2}. sl_aux (lc_slave a x) = x \<and> sl_tx (lc_slave a x) = 0" using demo_system [OF * 2] by blast
  obtain b where b: "lc_reachable b" "slaves_of b = {1..2}" "lc_sys_id b = [2, 0, 0, 0, 0, 2]"
    "\<forall>x \<in> {1..2}. sl_aux (lc_slave b x) = x \<and> sl_tx (lc_slave b x) = 0" using demo_system [OF * 2] by blast
  show ?thesis by (rule exI [of _ a], rule exI [of _ b]) (use a b in simp)
qed

lemma demo_up:
  "\<exists>l l' sent. lc_reachable l \<and> lacp_run l 0 = Some (l', sent) \<and> lacp_slave_may_enable (Some l') 1 = Some True \<and>
     lacp_slave_may_enable (Some l') 2 = Some True"
proof -
  obtain a b where ab: "lc_reachable a" "lc_reachable b" "slaves_of a = {1..2}" "slaves_of b = {1..2}" "lc_active a"
    "lc_sys_id a = [2, 0, 0, 0, 0, 1]" "lc_sys_id b = [2, 0, 0, 0, 0, 2]"
    "\<forall>x \<in> {1..2}. sl_aux (lc_slave a x) = x \<and> sl_tx (lc_slave a x) = 0 \<and> sl_aux (lc_slave b x) = x" using demo_pair by blast
  have inv: "lacp_inv a {1..2}" "lacp_inv b {1..2}" using ab(1-4) reachable_slaves by metis+
  have "\<exists>a1 b1 b2 a2 a3 b3 b4 sent. lacp_exchange [] id 0 a b = Some (a1, b1) \<and> lacp_exchange [] id 0 b1 a1 = Some (b2, a2) \<and>
      lacp_exchange [] id 0 a2 b2 = Some (a3, b3) \<and> lacp_run b3 0 = Some (b4, sent) \<and> lacp_inv a3 {1..2} \<and> lacp_inv b4 {1..2} \<and>
      same_settings a a3 \<and> same_settings b b4 \<and> (\<forall>x \<in> {1..2}. slave_may_enable a3 x \<and> slave_may_enable b4 (id x))"
    using ab by (intro handshake [OF inv]) (auto simp: timer_expired_def bij_betw_def numeral_eq_Suc)
  then obtain a1 b1 b2 a2 a3 b3 b4 sent where r: "lacp_exchange [] id 0 a b = Some (a1, b1)" "lacp_exchange [] id 0 b1 a1 = Some (b2, a2)"
      "lacp_exchange [] id 0 a2 b2 = Some (a3, b3)" "lacp_run b3 0 = Some (b4, sent)" "lacp_inv b4 {1..2}" "same_settings b b4"
      "\<forall>x \<in> {1..2}. slave_may_enable b4 x" unfolding id_apply by blast
  note r1 = reachable_exchange [OF ab(1,2) r(1)]
  note r2 = reachable_exchange [OF r1(2,1) r(2)]
  have "lc_reachable b3" by (rule reachable_exchange(2) [OF r2(2,1) r(3)])
  moreover have "lacp_slave_may_enable (Some b4) x = Some True" if "x \<in> {1..2}" for x
    using may_enable_lookup(1) [OF r(5) that, of x] same_settingsD(8) [OF r(6)] ab(8) r(7) that by simp
  then have "lacp_slave_may_enable (Some b4) 1 = Some True" "lacp_slave_may_enable (Some b4) 2 = Some True" by simp_all
  ultimately show ?thesis using r(4) by blast
qed

section \<open>Properties\<close>

text \<open>
  C13: After any calls, a run of the protocol leaves only slaves enabled that have the same partner: their
  partners have the same system identifier and the same key, and are not the system itself.
\<close>

theorem lacp_one_partner:
  assumes "lc_reachable l"
  shows "\<exists>l' sent. lacp_run l now = Some (l', sent) \<and>
    (\<forall>aux aux'. lacp_slave_may_enable (Some l') aux = Some True \<and> lacp_slave_may_enable (Some l') aux' = Some True \<longrightarrow>
       (\<exists>x y. slave_lookup l' aux = Some x \<and> slave_lookup l' aux' = Some y \<and>
          li_sys_id (sl_partner (lc_slave l' x)) = li_sys_id (sl_partner (lc_slave l' y)) \<and>
          li_key (sl_partner (lc_slave l' x)) = li_key (sl_partner (lc_slave l' y)) \<and>
          li_sys_id (sl_partner (lc_slave l' x)) \<noteq> lc_sys_id l'))"
proof -
  let ?X = "slaves_of l"
  obtain l1 l' sent where run: "run_of now l ?X l1 l' sent" using run_exists [OF reachable_slaves [OF assms]] by blast
  have one: "one_partner l' ?X" using run_ofD(4,5) [OF run] by (simp add: lacp_inv_def)
  have "\<exists>x y. slave_lookup l' aux = Some x \<and> slave_lookup l' aux' = Some y \<and>
      li_sys_id (sl_partner (lc_slave l' x)) = li_sys_id (sl_partner (lc_slave l' y)) \<and>
      li_key (sl_partner (lc_slave l' x)) = li_key (sl_partner (lc_slave l' y)) \<and>
      li_sys_id (sl_partner (lc_slave l' x)) \<noteq> lc_sys_id l'"
    if en: "lacp_slave_may_enable (Some l') aux = Some True" "lacp_slave_may_enable (Some l') aux' = Some True" for aux aux'
  proof -
    obtain x where x: "x \<in> ?X" "slave_lookup l' aux = Some x" "slave_may_enable l' x" by (rule may_enable_slave [OF run_ofD(4) [OF run] en(1)])
    obtain y where y: "y \<in> ?X" "slave_lookup l' aux' = Some y" "slave_may_enable l' y" by (rule may_enable_slave [OF run_ofD(4) [OF run] en(2)])
    have "sl_attached (lc_slave l' x)" "sl_attached (lc_slave l' y)" using x(3) y(3) by (auto simp: slave_may_enable_def Let_def)
    then have "li_sys_id (sl_partner (lc_slave l' x)) = li_sys_id (sl_partner (lc_slave l' y))"
      "li_key (sl_partner (lc_slave l' x)) = li_key (sl_partner (lc_slave l' y))" "li_sys_id (sl_partner (lc_slave l' x)) \<noteq> lc_sys_id l'"
      using one x(1) y(1) unfolding one_partner_def by metis+
    then show ?thesis using x(2) y(2) by blast
  qed
  then show ?thesis using run_ofD(1) [OF run] by blast
qed

theorem lacp_one_partner_witness:
  "\<exists>l l' sent x y. lc_reachable l \<and> lacp_run l 0 = Some (l', sent) \<and>
     lacp_slave_may_enable (Some l') 1 = Some True \<and> lacp_slave_may_enable (Some l') 2 = Some True \<and>
     slave_lookup l' 1 = Some x \<and> slave_lookup l' 2 = Some y \<and>
     li_sys_id (sl_partner (lc_slave l' x)) = li_sys_id (sl_partner (lc_slave l' y)) \<and>
     li_sys_id (sl_partner (lc_slave l' x)) \<noteq> lc_sys_id l'"
proof -
  obtain l l' sent where l: "lc_reachable l" "lacp_run l 0 = Some (l', sent)" "lacp_slave_may_enable (Some l') 1 = Some True"
    "lacp_slave_may_enable (Some l') 2 = Some True" using demo_up by blast
  have "lacp_slave_may_enable (Some l') 1 = Some True \<and> lacp_slave_may_enable (Some l') 2 = Some True" using l(3,4) ..
  then obtain x y where "slave_lookup l' 1 = Some x" "slave_lookup l' 2 = Some y"
    "li_sys_id (sl_partner (lc_slave l' x)) = li_sys_id (sl_partner (lc_slave l' y))" "li_sys_id (sl_partner (lc_slave l' x)) \<noteq> lc_sys_id l'"
    using lacp_one_partner [OF l(1), of 0] unfolding l(2) option.inject prod.inject by blast
  with l show ?thesis by blast
qed

text \<open>
  C14: \<open>lacp_update_attached\<close> computes the reference: with a slave that has a partner in another system,
  those slaves are attached that have the same partner as one of the least priority value, and
  negotiation has succeeded; with none, the links that are not loops are attached if fallback is
  configured. Nothing else changes but the pending update.
\<close>

theorem lacp_attaches_reference:
  assumes "lc_reachable l"
  shows "\<exists>A lead. lacp_update_attached l = Some ((with_attached A l)\<lparr>lc_update := False, lc_negotiated := lead \<noteq> None\<rparr>) \<and>
    leads l (slaves_of l) lead \<and> (\<forall>x \<in> slaves_of l. A x = attaches l lead x)"
  by (rule update_attached_spec [OF reachable_slaves [OF assms]]) blast

theorem lacp_attaches_reference_witness:
  "\<exists>l A lead. lc_reachable l \<and> slaves_of l = {1..2} \<and>
     lacp_update_attached l = Some ((with_attached A l)\<lparr>lc_update := False, lc_negotiated := lead \<noteq> None\<rparr>) \<and>
     leads l {1..2} lead \<and> A 1 = attaches l lead 1 \<and> A 2 = attaches l lead 2"
proof -
  obtain l where l: "lc_reachable l" "slaves_of l = {1..2}" using demo_pair by blast
  obtain A lead where "lacp_update_attached l = Some ((with_attached A l)\<lparr>lc_update := False, lc_negotiated := lead \<noteq> None\<rparr>)"
    "leads l {1..2} lead" "\<forall>x \<in> {1..2}. A x = attaches l lead x"
    using lacp_attaches_reference [OF l(1)] unfolding l(2) by blast
  then show ?thesis using l by (intro exI [of _ l] exI [of _ A] exI [of _ lead]) simp
qed

text \<open>A PDU is read as it was composed, wherever it stands in a packet and whatever follows it.\<close>

theorem lacp_pdu_roundtrip:
  assumes "length (li_sys_id actor) = 6" "length (li_sys_id partner) = 6"
  shows "parse_lacp_packet (hdr @ compose_lacp_pdu actor partner @ pad) (length hdr) = Some (actor, partner)"
  using assms by (rule parse_compose)

theorem lacp_pdu_roundtrip_witness:
  "parse_lacp_packet (replicate 14 9 @ compose_lacp_pdu (zero_info\<lparr>li_key := 77\<rparr>) (zero_info\<lparr>li_state := 255\<rparr>) @ []) (length (replicate 14 (9 :: u8))) =
     Some (zero_info\<lparr>li_key := 77\<rparr>, zero_info\<lparr>li_state := 255\<rparr>)"
  by (rule lacp_pdu_roundtrip) (simp_all add: zero_info_def)

text \<open>
  C15: A partner that falls silent is noticed. Runs before three transmission intervals have passed since
  the last PDU leave the slave current. The first run after that disables it, although
  \<open>lacp_slave_is_current\<close> still holds; a run three seconds later forgets the partner, and then only
  the fallback mode can enable the slave.
\<close>

theorem lacp_partner_timeout:
  assumes "lc_reachable l" "slave_lookup l aux = Some x" "x \<noteq> 0"
    and "lacp_process_packet l aux packet off t0 = Some l0" "parse_lacp_packet packet off \<noteq> None"
    and "d = (if lc_fast l then 3000 else 90000)" "0 \<le> t0" "t1 + 3000 < 2 ^ 63"
    and "\<forall>t \<in> set ts. t < t0 + d" "t0 + d \<le> t1" "\<forall>t \<in> set ts'. t < t1 + 3000" "t1 + 3000 \<le> t2"
  shows "\<exists>l1 l2 l3. lc_runs l0 ts = Some l1 \<and> lc_runs l1 (t1 # ts') = Some l2 \<and> lc_runs l2 [t2] = Some l3 \<and>
    sl_status (lc_slave l1 x) = LACP_CURRENT \<and>
    lacp_slave_may_enable (Some l2) aux = Some False \<and> lacp_slave_is_current l2 aux = Some True \<and>
    lacp_slave_is_current l3 aux = Some False \<and> sl_partner (lc_slave l3 x) = zero_info \<and>
    (lacp_slave_may_enable (Some l3) aux = Some True \<longrightarrow> lc_fallback_ab l)"
proof -
  let ?X = "slaves_of l"
  have inv: "lacp_inv l ?X" by (rule reachable_slaves [OF assms(1)])
  obtain y where "slave_lookup l aux = Some y" "if y = 0 then aux \<notin> (\<lambda>x. sl_aux (lc_slave l x)) ` ?X else y \<in> ?X \<and> sl_aux (lc_slave l y) = aux"
    by (rule lookup_inv [OF inv])
  then have x: "x \<in> ?X" "sl_aux (lc_slave l x) = aux" using assms(2,3) by auto
  obtain a p where "parse_lacp_packet packet off = Some (a, p)" using assms(5) by auto
  then obtain l0: "lacp_inv l0 ?X" "same_settings l l0" "lc_slave l0 = (lc_slave l)(x := received (lc_fast l) a p t0 (lc_slave l x))"
    using process_packet_received [OF inv x(1), of packet off a p t0] x(2) assms(4) by auto
  have rx0: "sl_rx (lc_slave l0 x) = t0 + d" "sl_status (lc_slave l0 x) = LACP_CURRENT"
    using l0(3) assms(6-8,10) c_llong_id [of "t0 + d"]
    by (cases "lc_fast l"; simp add: received_def timer_set_duration_def)+
  obtain l1 where l1: "lc_runs l0 ts = Some l1" "lacp_inv l1 ?X" "same_settings l0 l1" "sl_status (lc_slave l1 x) = LACP_CURRENT" "sl_rx (lc_slave l1 x) = t0 + d"
    using runs_keep [OF l0(1) x(1), of ts] assms(9) rx0 by auto
  obtain m sent where m: "lacp_run l1 t1 = Some (m, sent)" "lacp_inv m ?X" "same_settings l1 m" "sl_status (lc_slave m x) = LACP_EXPIRED"
    "sl_partner (lc_slave m x) = sl_partner (rx_slave t1 (lc_slave l1 x))" "sl_rx (lc_slave m x) = t1 + 3000"
    using run_slave [OF l1(2) x(1), of t1] l1(4,5) assms(7,8,10) c_llong_id [of "t1 + 3000"]
    by (auto simp: rx_slave_def timer_expired_def timer_set_duration_def assms(6) split: if_splits)
  have "\<not> in_sync (sl_partner (lc_slave m x))"
    unfolding m(5) in_sync_bit using l1(4,5) assms(10) by (simp add: rx_slave_def timer_expired_def bit_and_iff bit_not_iff)
  then obtain l2 where l2: "lc_runs m ts' = Some l2" "lacp_inv l2 ?X" "same_settings m l2" "sl_status (lc_slave l2 x) = LACP_EXPIRED"
    "\<not> in_sync (sl_partner (lc_slave l2 x))" "sl_rx (lc_slave l2 x) = t1 + 3000"
    using runs_keep [OF m(2) x(1), of ts'] assms(11) m(4,6) by auto
  obtain l3 sent' where l3: "lacp_run l2 t2 = Some (l3, sent')" "lacp_inv l3 ?X" "same_settings l2 l3" "sl_status (lc_slave l3 x) = LACP_DEFAULTED"
    "sl_partner (lc_slave l3 x) = zero_info"
    using run_slave [OF l2(2) x(1), of t2] l2(4,6) assms(12) by (auto simp: rx_slave_def timer_expired_def)
  have conf: "same_settings l l2" "same_settings l l3" using l0(2) l1(3) m(3) l2(3) l3(3) same_settings_trans by blast+
  have aux: "sl_aux (lc_slave l2 x) = aux" "sl_aux (lc_slave l3 x) = aux" using same_settingsD(8) [OF conf(1)] same_settingsD(8) [OF conf(2)] x(2) by auto
  have "\<not> slave_may_enable l2 x" using l2(4,5) by (simp add: slave_may_enable_def Let_def in_sync_def)
  moreover have "slave_may_enable l3 x \<Longrightarrow> lc_fallback_ab l"
    using l3(5) same_settingsD(7) [OF conf(2)] by (simp add: slave_may_enable_def Let_def zero_info_def)
  ultimately show ?thesis
    using l1(1,4) m(1) l2(1,4) l3(1,4,5) may_enable_lookup [OF l2(2) x(1) aux(1)] may_enable_lookup [OF l3(2) x(1) aux(2)] by simp
qed

theorem lacp_partner_timeout_witness:
  "\<exists>l l0 l1 l2 l3. lc_reachable l \<and> lacp_process_packet l 1 (compose_lacp_pdu zero_info zero_info) 0 0 = Some l0 \<and>
     lc_runs l0 [1000] = Some l1 \<and> lc_runs l1 [90000, 91000] = Some l2 \<and> lc_runs l2 [93000] = Some l3 \<and>
     lacp_slave_may_enable (Some l2) 1 = Some False \<and> lacp_slave_is_current l3 1 = Some False"
proof -
  obtain l where l: "lc_reachable l" "slaves_of l = {1..2}" "sl_aux (lc_slave l 1) = 1" using demo_pair by fastforce
  have inv: "lacp_inv l {1..2}" using reachable_slaves [OF l(1)] l(2) by simp
  have pdu: "parse_lacp_packet (compose_lacp_pdu zero_info zero_info) 0 = Some (zero_info, zero_info)"
    using parse_compose [of zero_info zero_info "[]" "[]"] by (simp add: zero_info_def)
  obtain l0 where l0: "lacp_process_packet l 1 (compose_lacp_pdu zero_info zero_info) 0 0 = Some l0"
    by (rule lacp_process_packet_inv [OF inv])
  have "slave_lookup l 1 = Some 1" using lookup_slave [OF inv, of 1] l(3) by simp
  moreover have "0 + (if lc_fast l then 3000 else 90000) \<le> (90000 :: int)" "\<forall>t \<in> set [1000]. t < 0 + (if lc_fast l then 3000 else 90000 :: int)"
    by simp_all
  ultimately
  obtain l1 l2 l3 where "lc_runs l0 [1000] = Some l1" "lc_runs l1 [90000, 91000] = Some l2" "lc_runs l2 [93000] = Some l3"
    "lacp_slave_may_enable (Some l2) 1 = Some False" "lacp_slave_is_current l3 1 = Some False"
    using lacp_partner_timeout [OF l(1) _ _ l0 _ refl, of 1 90000 "[1000]" "[91000]" 93000] pdu by (auto simp del: lc_runs.simps)
  then show ?thesis using l(1) l0 by blast
qed

text \<open>
  \<open>lacp_wait\<close> does not oversleep: after a run, running again before the earliest of the times it
  gives would change nothing and send nothing.
\<close>

theorem lacp_wait_sufficient:
  assumes "lc_reachable l" "lacp_run l now = Some (l', sent)"
  shows "\<exists>ws. lacp_wait l' = Some ws \<and> (\<forall>t < LLONG_MAX. (\<forall>w \<in> set ws. t < w) \<longrightarrow> lacp_run l' t = Some (l', []))"
proof -
  let ?X = "slaves_of l"
  obtain l1 where run: "run_of now l ?X l1 l' sent" by (rule run_of_eq [OF reachable_slaves [OF assms(1)] assms(2)])
  note inv = run_ofD(4) [OF run]
  have "lacp_table l' ?X" using inv by (simp add: lacp_inv_def)
  then obtain xs where xs: "hmap_nodes (lc_slaves l') = Some xs" "set xs = ?X" by (rule lacp_nodes)
  let ?ws = "concat (map (\<lambda>x. (if slave_may_tx l' x then timer_wait_at (sl_tx (lc_slave l' x)) else []) @
      (if sl_status (lc_slave l' x) \<noteq> LACP_DEFAULTED then timer_wait_at (sl_rx (lc_slave l' x)) else [])) xs)"
  have "lacp_wait l' = Some ?ws" using xs(1) by (simp add: lacp_wait_def)
  moreover have "lacp_run l' t = Some (l', [])" if t: "t < LLONG_MAX" "\<forall>w \<in> set ?ws. t < w" for t
  proof (rule run_idle [OF inv run_ofD(5) [OF run]])
    have asleep: "\<not> timer_expired tm t" if "set (timer_wait_at tm) \<subseteq> W" "\<forall>w \<in> W. t < w" for tm W
      using that t(1) by (fastforce simp: timer_expired_def timer_wait_at_def split: if_splits)
    fix x assume x: "x \<in> ?X"
    show "\<not> timer_expired (sl_rx (lc_slave l' x)) t" if "sl_status (lc_slave l' x) \<noteq> LACP_DEFAULTED"
      using that x xs(2) by (intro asleep [OF _ t(2)]) auto
    have "\<not> timer_expired (sl_tx (lc_slave l' x)) t" if "slave_may_tx l' x" using that x xs(2) by (intro asleep [OF _ t(2)]) auto
    then show "\<not> tx_needed t l' x" using run_up_to_date [OF run x] by (auto simp: tx_needed_def)
  qed
  ultimately show ?thesis by blast
qed

theorem lacp_wait_sufficient_witness:
  "\<exists>l l' sent. lc_reachable l \<and> slaves_of l = {1..2} \<and> lacp_run l 5 = Some (l', sent) \<and> lacp_run l' 5 = Some (l', [])"
proof -
  obtain l where l: "lc_reachable l" "slaves_of l = {1..2}" "lc_active l" "\<forall>x \<in> {1..2}. sl_tx (lc_slave l x) = 0" using demo_pair by blast
  obtain l1 l' sent where run: "run_of 5 l {1..2} l1 l' sent" using run_exists reachable_slaves [OF l(1)] l(2) by metis
  obtain ws where ws: "lacp_wait l' = Some ws" "\<forall>t < LLONG_MAX. (\<forall>w \<in> set ws. t < w) \<longrightarrow> lacp_run l' t = Some (l', [])"
    using lacp_wait_sufficient [OF l(1) run_ofD(1) [OF run]] by blast
  have "\<forall>w \<in> set ws. 5 < w" using run_timers_later [OF run _ l(3) _ ws(1)] l(4) by simp
  then show ?thesis using ws(2) l(1,2) run_ofD(1) [OF run] by auto
qed

text \<open>
  C12: Two systems joined by any number of links bring all of them up. Whatever both were doing before, if
  one of them is active and due to transmit, then three exchanges of PDUs and a run leave every slave
  enabled at both ends.
\<close>

theorem lacp_links_come_up:
  assumes "lc_reachable a" "lc_reachable b" "lc_active a" "\<forall>x \<in> slaves_of a. sl_tx (lc_slave a x) \<le> now"
    and "\<not> eth_addr_is_zero (lc_sys_id a)" "\<not> eth_addr_is_zero (lc_sys_id b)" "lc_sys_id a \<noteq> lc_sys_id b"
    and "bij_betw link (handles a) (handles b)" "\<forall>aux \<in> handles a. link' (link aux) = aux"
    and "0 \<le> now" "now + 90000 < 2 ^ 63"
  shows "\<exists>a1 b1 b2 a2 a3 b3 b4 sent. lacp_exchange hdr link now a b = Some (a1, b1) \<and> lacp_exchange hdr' link' now b1 a1 = Some (b2, a2) \<and>
    lacp_exchange hdr link now a2 b2 = Some (a3, b3) \<and> lacp_run b3 now = Some (b4, sent) \<and>
    (\<forall>aux \<in> handles a. lacp_slave_may_enable (Some a3) aux = Some True \<and> lacp_slave_may_enable (Some b4) (link aux) = Some True)"
proof -
  let ?X = "slaves_of a" and ?Y = "slaves_of b"
  have inv: "lacp_inv a ?X" "lacp_inv b ?Y" using assms(1,2) reachable_slaves by auto
  obtain h where h: "bij_betw h ?X ?Y" "\<forall>x \<in> ?X. link (sl_aux (lc_slave a x)) = sl_aux (lc_slave b (h x))"
    using peers_exist [OF inv assms(8) [unfolded handles_def]] by blast
  have "length (lc_sys_id a) = 6" "length (lc_sys_id b) = 6" using inv by (auto simp: lacp_inv_def)
  then have ids: "lc_sys_id a \<noteq> replicate 6 0" "lc_sys_id b \<noteq> replicate 6 0" using assms(5,6) eth_addr_zero by auto
  have link: "link (sl_aux (lc_slave a x)) = sl_aux (lc_slave b (h x)) \<and> link' (sl_aux (lc_slave b (h x))) = sl_aux (lc_slave a x)" if "x \<in> ?X" for x
    using h(2) assms(9) that unfolding handles_def by (metis image_eqI)
  have tx: "timer_expired (sl_tx (lc_slave a x)) now" if "x \<in> ?X" for x using assms(4) that by (simp add: timer_expired_def)
  obtain a1 b1 b2 a2 a3 b3 b4 sent where r: "lacp_exchange hdr link now a b = Some (a1, b1)" "lacp_exchange hdr' link' now b1 a1 = Some (b2, a2)"
    "lacp_exchange hdr link now a2 b2 = Some (a3, b3)" "lacp_run b3 now = Some (b4, sent)" "lacp_inv a3 ?X" "lacp_inv b4 ?Y"
    "same_settings a a3" "same_settings b b4" "\<forall>x \<in> ?X. slave_may_enable a3 x \<and> slave_may_enable b4 (h x)"
    using handshake [OF inv h(1) conjI [OF assms(10,11)] link assms(3) tx ids assms(7), of hdr hdr'] by blast
  have "lacp_slave_may_enable (Some a3) aux = Some True \<and> lacp_slave_may_enable (Some b4) (link aux) = Some True" if aux: "aux \<in> handles a" for aux
  proof -
    obtain x where x: "x \<in> ?X" "aux = sl_aux (lc_slave a x)" using aux by (auto simp: handles_def)
    have y: "h x \<in> ?Y" using bij_betwE [OF h(1)] x(1) by blast
    have "sl_aux (lc_slave a3 x) = aux" "sl_aux (lc_slave b4 (h x)) = link aux"
      using same_settingsD(8) [OF r(7)] same_settingsD(8) [OF r(8)] link [OF x(1)] x(2) by simp_all
    from may_enable_lookup(1) [OF r(5) x(1) this(1)] may_enable_lookup(1) [OF r(6) y this(2)] show ?thesis using r(9) x(1) by simp
  qed
  then show ?thesis using r(1-4) by blast
qed

theorem lacp_links_come_up_witness:
  "\<exists>a b a1 b1 b2 a2 a3 b3 b4 sent. lc_reachable a \<and> lc_reachable b \<and> lc_sys_id a = [2, 0, 0, 0, 0, 1] \<and>
     lacp_exchange [] id 0 a b = Some (a1, b1) \<and> lacp_exchange [] id 0 b1 a1 = Some (b2, a2) \<and>
     lacp_exchange [] id 0 a2 b2 = Some (a3, b3) \<and> lacp_run b3 0 = Some (b4, sent) \<and>
     lacp_slave_may_enable (Some a3) 1 = Some True \<and> lacp_slave_may_enable (Some b4) 1 = Some True \<and>
     lacp_slave_may_enable (Some a3) 2 = Some True \<and> lacp_slave_may_enable (Some b4) 2 = Some True"
proof -
  obtain a b where ab: "lc_reachable a" "lc_reachable b" "slaves_of a = {1..2}" "slaves_of b = {1..2}" "lc_active a"
    "lc_sys_id a = [2, 0, 0, 0, 0, 1]" "lc_sys_id b = [2, 0, 0, 0, 0, 2]"
    "\<forall>x \<in> {1..2}. sl_aux (lc_slave a x) = x \<and> sl_tx (lc_slave a x) = 0 \<and> sl_aux (lc_slave b x) = x" using demo_pair by blast
  have h: "handles a = {1..2}" "handles b = {1..2}" using ab(3,4,8) by (auto simp: handles_def)
  have "\<not> eth_addr_is_zero (lc_sys_id a)" "\<not> eth_addr_is_zero (lc_sys_id b)" using ab(6,7) by (simp_all add: eth_addr_zero numeral_eq_Suc)
  from lacp_links_come_up [OF ab(1,2,5) _ this, of 0 id id "[]" "[]"]
  have "\<exists>a1 b1 b2 a2 a3 b3 b4 sent. lacp_exchange [] id 0 a b = Some (a1, b1) \<and> lacp_exchange [] id 0 b1 a1 = Some (b2, a2) \<and>
      lacp_exchange [] id 0 a2 b2 = Some (a3, b3) \<and> lacp_run b3 0 = Some (b4, sent) \<and>
      (\<forall>aux \<in> {1..2}. lacp_slave_may_enable (Some a3) aux = Some True \<and> lacp_slave_may_enable (Some b4) aux = Some True)"
    using ab(3,6,7,8) h by simp
  then obtain a1 b1 b2 a2 a3 b3 b4 sent where "lacp_exchange [] id 0 a b = Some (a1, b1)" "lacp_exchange [] id 0 b1 a1 = Some (b2, a2)"
      "lacp_exchange [] id 0 a2 b2 = Some (a3, b3)" "lacp_run b3 0 = Some (b4, sent)"
      "\<forall>aux \<in> {1..2}. lacp_slave_may_enable (Some a3) aux = Some True \<and> lacp_slave_may_enable (Some b4) aux = Some True" by blast
  moreover have "(1 :: addr) \<in> {1..2}" "(2 :: addr) \<in> {1..2}" by simp_all
  ultimately show ?thesis using ab(1,2,6) by blast
qed

end
