(* ===== verification/Srv_Buffer.thy ===== *)
theory Srv_Buffer
  imports Srv_Common Ovs_List State_Machine
begin

text \<open>
  The buffer pools of the docker agent, ofproto/srv_buffer.c, with the bitmaps of ofproto/srv_bitmap.c
  that mark the blocks in use. A pool is an array of blocks of one size in memory, each with a head
  in front of the buffer that the client gets. Handles are 32 bits wide and hold pointers, so the
  model is of a 32-bit host, where a head takes 16 bytes. The list of free blocks is the list of
  their addresses; \<open>Ovs_List\<close> shows that the pointers of ofproto/srv_list.h implement such lists.

  \<open>None\<close> is an access outside the arrays, or the insertion of a block into a list that contains it,
  which breaks the links of the list (\<open>srv_buf_free_race\<close>). The results of \<open>malloc\<close> and of the creation of mutexes are
  arguments. Allocation is one critical section. \<open>srv_buf_free\<close> looks at the bitmap before it takes the
  mutex, so that it is two steps: \<open>free_check\<close> and \<open>free_put\<close>.
\<close>

section \<open>Bitmaps\<close>

type_synonym bitmap = "u32 list"

abbreviation SRV_BMP_BITS :: int where "SRV_BMP_BITS \<equiv> 32"

definition srv_bmp_create :: "bool \<Rightarrow> int \<Rightarrow> bitmap option" where
  "srv_bmp_create malloc_ok bitnr =
     (let size = (if bitnr smod SRV_BMP_BITS = 0 then bitnr sdiv SRV_BMP_BITS else bitnr sdiv SRV_BMP_BITS + 1)
      in if \<not> malloc_ok then None else Some (replicate (nat size) 0))"

definition srv_bmp_destroy :: "bitmap option \<Rightarrow> bitmap option" where
  "srv_bmp_destroy hBmp = None"

definition srv_bmp_get_bit :: "bitmap option \<Rightarrow> int \<Rightarrow> u32 option" where
  "srv_bmp_get_bit hBmp b =
     (case hBmp of
        None \<Rightarrow> Some (of_int SRV_ERR)
      | Some bmp \<Rightarrow>
          let ind = b sdiv SRV_BMP_BITS; subind = b smod SRV_BMP_BITS
          in if b < 0 \<or> int (length bmp) \<le> ind then None
             else Some (drop_bit (nat subind) (bmp ! nat ind) AND 1))"

definition srv_bmp_set_bit :: "bitmap option \<Rightarrow> int \<Rightarrow> u32 \<Rightarrow> (int \<times> bitmap option) option" where
  "srv_bmp_set_bit hBmp b val =
     (case hBmp of
        None \<Rightarrow> Some (SRV_ERR, None)
      | Some bmp \<Rightarrow>
          let ind = b sdiv SRV_BMP_BITS; subind = b smod SRV_BMP_BITS
          in if b < 0 \<or> int (length bmp) \<le> ind then None
             else if val \<noteq> 0
             then Some (SRV_OK, Some (bmp[nat ind := bmp ! nat ind OR push_bit (nat subind) 1]))
             else Some (SRV_OK, Some (bmp[nat ind := bmp ! nat ind AND NOT (push_bit (nat subind) 1)])))"

text \<open>A bitmap stands for a set of positions.\<close>

definition bmp_set :: "bitmap \<Rightarrow> nat set" where
  "bmp_set bmp = {n. n < 32 * length bmp \<and> bit (bmp ! (n div 32)) (n mod 32)}"

lemma bit_position: "int n sdiv 32 = int (n div 32)" "nat (int n smod 32) = n mod 32"
  by (simp_all add: sdiv_pos smod_pos zdiv_int zmod_int nat_mod_distrib)

lemma bmp_get:
  assumes "n < 32 * length bmp"
  shows "srv_bmp_get_bit (Some bmp) (int n) = Some (of_bool (n \<in> bmp_set bmp))"
proof -
  have "\<not> int (length bmp) \<le> int (n div 32)" using assms by simp
  moreover have "drop_bit (n mod 32) (bmp ! (n div 32)) AND 1 = of_bool (bit (bmp ! (n div 32)) (n mod 32))"
    by (simp add: and_one_eq bit_iff_odd_drop_bit odd_iff_mod_2_eq_one)
  ultimately show ?thesis using assms by (simp add: srv_bmp_get_bit_def bit_position bmp_set_def Let_def)
qed

lemma same_position: "n div 32 = m div 32 \<Longrightarrow> n mod 32 = m mod 32 \<Longrightarrow> n = (m :: nat)"
  by (metis div_mult_mod_eq)

lemma bmp_set_bit:
  assumes "n < 32 * length bmp"
  shows "\<exists>bmp'. srv_bmp_set_bit (Some bmp) (int n) v = Some (SRV_OK, Some bmp') \<and> length bmp' = length bmp \<and>
    bmp_set bmp' = (if v \<noteq> 0 then insert n (bmp_set bmp) else bmp_set bmp - {n})"
proof -
  have l: "n div 32 < length bmp" using assms by simp
  have e: "srv_bmp_set_bit (Some bmp) (int n) v =
    Some (SRV_OK, Some (bmp[n div 32 := if v \<noteq> 0 then bmp ! (n div 32) OR push_bit (n mod 32) 1 else bmp ! (n div 32) AND NOT (push_bit (n mod 32) 1)]))"
    using l by (simp add: srv_bmp_set_bit_def bit_position Let_def)
  have "bmp_set (bmp[n div 32 := bmp ! (n div 32) OR push_bit (n mod 32) 1]) = insert n (bmp_set bmp)"
    using assms l same_position [of _ n]
    by (auto simp: bmp_set_def nth_list_update bit_or_iff bit_exp_iff)
  moreover have "bmp_set (bmp[n div 32 := bmp ! (n div 32) AND NOT (push_bit (n mod 32) 1)]) = bmp_set bmp - {n}"
    using assms l same_position [of _ n]
    by (auto simp: bmp_set_def nth_list_update bit_and_iff bit_not_iff bit_exp_iff)
  ultimately show ?thesis unfolding e by simp
qed

lemma bmp_create:
  assumes "0 \<le> n"
  shows "\<exists>bmp. srv_bmp_create True n = Some bmp \<and> bmp_set bmp = {} \<and> nat n \<le> 32 * length bmp"
proof -
  let ?size = "if n mod 32 = 0 then n div 32 else n div 32 + 1"
  have size: "n \<le> 32 * ?size" "0 \<le> ?size"
    using assms mult_div_mod_eq [of 32 n] pos_mod_bound [of 32 n] by (auto simp: pos_imp_zdiv_nonneg_iff)
  have "srv_bmp_create True n = Some (replicate (nat ?size) 0)"
    using assms by (simp add: srv_bmp_create_def Let_def sdiv_pos smod_pos)
  moreover have "bmp_set (replicate (nat ?size) 0) = {}" by (auto simp: bmp_set_def)
  moreover have "nat n \<le> 32 * nat k" if "n \<le> 32 * k" "0 \<le> k" for k using that by linarith
  then have "nat n \<le> 32 * length (replicate (nat ?size) (0 :: u32))" using size by (simp only: length_replicate)
  ultimately show ?thesis by blast
qed

section \<open>Pools\<close>

abbreviation BUF_HEAD_SIZE :: nat where "BUF_HEAD_SIZE \<equiv> 16"

record srv_buf_pool =
  pc_blocksize :: int
  pc_blocknr :: int

record buf_pool =
  bp_root :: "addr list"
  bp_blocksize :: int
  bp_blocknr :: int
  bp_addr :: addr
  bp_bitmap :: "bitmap option"

text \<open>The global variables, and the field \<open>poolid\<close> of the block heads in memory.\<close>

record srv_bufs =
  sb_pools :: "buf_pool list"
  sb_n :: int
  sb_poolid :: "addr \<Rightarrow> int"

text \<open>The inner loop of \<open>srv_buf_init\<close> puts block after block at the end of the list of free blocks.\<close>

definition block_addr :: "addr \<Rightarrow> int \<Rightarrow> nat \<Rightarrow> addr" where
  "block_addr base realsize j = base + j * nat realsize"

definition link_block :: "addr \<Rightarrow> int \<Rightarrow> int \<Rightarrow> nat \<Rightarrow> addr list \<times> (addr \<Rightarrow> int) \<Rightarrow> addr list \<times> (addr \<Rightarrow> int)" where
  "link_block base realsize i j = (\<lambda>(root, poolid).
     let head = block_addr base realsize j in (root @ [head], poolid(head := i)))"

text \<open>
  The outer loop, over the pools left. For each pool, the results of \<open>malloc\<close>, of the creation of
  the bitmap and of the mutex.
\<close>

fun init_pools :: "srv_buf_pool list \<Rightarrow> (addr option \<times> bool \<times> bool) list \<Rightarrow> srv_bufs \<Rightarrow> int \<times> srv_bufs" where
  "init_pools (c # cs) ((buf, bmp_ok, mutex_ok) # rs) s =
     (let i = int (length (sb_pools s));
          realsize = c_int (pc_blocksize c + int BUF_HEAD_SIZE)
      in case buf of
           None \<Rightarrow> (SRV_ERR, s)
         | Some base \<Rightarrow>
             let (root, poolid) = fold (link_block base realsize i) [0 ..< nat (pc_blocknr c)] ([], sb_poolid s);
                 bmp = srv_bmp_create bmp_ok (pc_blocknr c);
                 s = s\<lparr>sb_pools := sb_pools s @ [\<lparr>bp_root = root, bp_blocksize = pc_blocksize c, bp_blocknr = pc_blocknr c,
                                                  bp_addr = base, bp_bitmap = bmp\<rparr>], sb_poolid := poolid\<rparr>
             in if bmp = None then (SRV_ERR, s)
                else if \<not> mutex_ok then (SRV_ERR, s)
                else init_pools cs rs s)"
| "init_pools _ _ s = (SRV_OK, s)"

definition srv_buf_init :: "srv_buf_pool list option \<Rightarrow> bool \<Rightarrow> (addr option \<times> bool \<times> bool) list \<Rightarrow> srv_bufs \<Rightarrow> int \<times> srv_bufs" where
  "srv_buf_init pstBufPool malloc_ok rs s =
     (case pstBufPool of
        None \<Rightarrow> (SRV_ERR, s)
      | Some cs \<Rightarrow>
          if cs = [] then (SRV_ERR, s)
          else if \<not> malloc_ok then (SRV_ERR, s)
          else
            let (rc, s) = init_pools cs rs (s\<lparr>sb_pools := []\<rparr>)
            in if rc = SRV_OK then (SRV_OK, s\<lparr>sb_n := int (length cs)\<rparr>) else (rc, s))"

definition block_index :: "buf_pool \<Rightarrow> addr \<Rightarrow> int" where
  "block_index p head = int ((head - bp_addr p) div (BUF_HEAD_SIZE + nat (bp_blocksize p)))"

definition upd_pool :: "nat \<Rightarrow> (buf_pool \<Rightarrow> buf_pool) \<Rightarrow> srv_bufs \<Rightarrow> srv_bufs" where
  "upd_pool i f s = s\<lparr>sb_pools := (sb_pools s)[i := f (sb_pools s ! i)]\<rparr>"

text \<open>The loop of \<open>srv_buf_alloc\<close>, over the pools left. The result 0 is NULL.\<close>

fun alloc_from :: "srv_bufs \<Rightarrow> int \<Rightarrow> nat list \<Rightarrow> (addr \<times> srv_bufs) option" where
  "alloc_from s sz [] = Some (0, s)"
| "alloc_from s sz (i # is) =
     (let p = sb_pools s ! i
      in if sz \<le> bp_blocksize p \<and> bp_root p \<noteq> [] then
           let buf = hd (bp_root p)
           in map_option
                (\<lambda>(_, bmp). (buf + BUF_HEAD_SIZE, upd_pool i (\<lambda>p. p\<lparr>bp_root := tl (bp_root p), bp_bitmap := bmp\<rparr>) s))
                (srv_bmp_set_bit (bp_bitmap p) (block_index p buf) 1)
         else alloc_from s sz is)"

definition srv_buf_alloc :: "srv_bufs \<Rightarrow> int \<Rightarrow> (addr \<times> srv_bufs) option" where
  "srv_buf_alloc s sz = alloc_from s sz [0 ..< nat (sb_n s)]"

text \<open>Whether a call of \<open>srv_buf_free\<close> goes on to the critical section.\<close>

definition free_check :: "srv_bufs \<Rightarrow> addr \<Rightarrow> bool option" where
  "free_check s buf =
     (if buf = 0 then Some False
      else
        let head = buf - BUF_HEAD_SIZE; poolid = sb_poolid s head
        in if poolid \<ge> sb_n s then Some False
           else if poolid < 0 then None
           else let p = sb_pools s ! nat poolid
                in map_option (\<lambda>b. b \<noteq> 0) (srv_bmp_get_bit (bp_bitmap p) (block_index p head)))"

definition free_put :: "srv_bufs \<Rightarrow> addr \<Rightarrow> srv_bufs option" where
  "free_put s buf =
     (let head = buf - BUF_HEAD_SIZE; i = nat (sb_poolid s head); p = sb_pools s ! i
      in if head \<in> set (bp_root p) then None
         else map_option
           (\<lambda>(_, bmp). upd_pool i (\<lambda>p. p\<lparr>bp_root := bp_root p @ [head], bp_bitmap := bmp\<rparr>) s)
           (srv_bmp_set_bit (bp_bitmap p) (block_index p head) 0))"

definition srv_buf_free :: "srv_bufs \<Rightarrow> addr \<Rightarrow> srv_bufs option" where
  "srv_buf_free s buf =
     (case free_check s buf of None \<Rightarrow> None | Some go \<Rightarrow> if go then free_put s buf else Some s)"

section \<open>Blocks\<close>

text \<open>
  The blocks of a pool, the part of memory it takes, and the invariant: the blocks of different pools
  are apart, a head names its pool, the free blocks are on the list once, and the bitmap marks the
  others.
\<close>

abbreviation block_size :: "buf_pool \<Rightarrow> nat" where
  "block_size p \<equiv> BUF_HEAD_SIZE + nat (bp_blocksize p)"

definition blocks :: "buf_pool \<Rightarrow> addr set" where
  "blocks p = {bp_addr p + j * block_size p | j. j < nat (bp_blocknr p)}"

definition region :: "buf_pool \<Rightarrow> addr set" where
  "region p = {bp_addr p ..< bp_addr p + nat (bp_blocknr p) * block_size p}"

definition pool_ok :: "buf_pool \<Rightarrow> bool" where
  "pool_ok p \<longleftrightarrow> 0 \<le> bp_blocksize p \<and> distinct (bp_root p) \<and> set (bp_root p) \<subseteq> blocks p \<and>
     (\<exists>bmp. bp_bitmap p = Some bmp \<and> nat (bp_blocknr p) \<le> 32 * length bmp \<and>
        (\<forall>b \<in> blocks p. nat (block_index p b) \<in> bmp_set bmp \<longleftrightarrow> b \<notin> set (bp_root p)))"

definition bufs_inv :: "srv_bufs \<Rightarrow> bool" where
  "bufs_inv s \<longleftrightarrow> sb_n s = int (length (sb_pools s)) \<and> (\<forall>p \<in> set (sb_pools s). pool_ok p) \<and>
     (\<forall>i < length (sb_pools s). \<forall>b \<in> blocks (sb_pools s ! i). sb_poolid s b = int i) \<and>
     (\<forall>i < length (sb_pools s). \<forall>j < i. region (sb_pools s ! i) \<inter> region (sb_pools s ! j) = {})"

lemma block_index_eq: "block_index p (bp_addr p + j * block_size p) = int j"
  by (simp add: block_index_def)

lemma block_index_inj: "b \<in> blocks p \<Longrightarrow> b' \<in> blocks p \<Longrightarrow> block_index p b = block_index p b' \<Longrightarrow> b = b'"
  by (auto simp: blocks_def block_index_eq)

lemma block_index_less: "b \<in> blocks p \<Longrightarrow> \<exists>n. block_index p b = int n \<and> n < nat (bp_blocknr p)"
  by (auto simp: blocks_def block_index_eq)

text \<open>The memory of two blocks of a pool does not overlap, and is within the region of the pool.\<close>

lemma block_in_region:
  assumes "b \<in> blocks p"
  shows "{b ..< b + block_size p} \<subseteq> region p"
proof -
  obtain j where j: "b = bp_addr p + j * block_size p" "j < nat (bp_blocknr p)" using assms by (auto simp: blocks_def)
  have "j * block_size p + block_size p \<le> nat (bp_blocknr p) * block_size p"
    using j(2) mult_le_mono1 [of "Suc j" "nat (bp_blocknr p)" "block_size p"] by simp
  then show ?thesis using j(1) by (auto simp: region_def)
qed

lemma blocks_apart:
  assumes "b \<in> blocks p" "b' \<in> blocks p" "b < b'"
  shows "b + block_size p \<le> b'"
proof -
  obtain j j' where j: "b = bp_addr p + j * block_size p" "b' = bp_addr p + j' * block_size p" using assms by (auto simp: blocks_def)
  then have "j < j'" using assms(3) by simp
  then have "j * block_size p + block_size p \<le> j' * block_size p"
    using mult_le_mono1 [of "Suc j" j' "block_size p"] by simp
  then show ?thesis using j by simp
qed

lemma block_self: "b \<in> blocks p \<Longrightarrow> b \<in> region p"
  using block_in_region [of b p] by auto

lemma bufs_invD:
  assumes "bufs_inv s"
  shows "sb_n s = int (length (sb_pools s))" "i < length (sb_pools s) \<Longrightarrow> pool_ok (sb_pools s ! i)"
    "i < length (sb_pools s) \<Longrightarrow> b \<in> blocks (sb_pools s ! i) \<Longrightarrow> sb_poolid s b = int i"
    "i < length (sb_pools s) \<Longrightarrow> j < length (sb_pools s) \<Longrightarrow> i \<noteq> j \<Longrightarrow> region (sb_pools s ! i) \<inter> region (sb_pools s ! j) = {}"
proof -
  show "sb_n s = int (length (sb_pools s))" "i < length (sb_pools s) \<Longrightarrow> pool_ok (sb_pools s ! i)"
    "i < length (sb_pools s) \<Longrightarrow> b \<in> blocks (sb_pools s ! i) \<Longrightarrow> sb_poolid s b = int i"
    using assms by (auto simp: bufs_inv_def)
  show "region (sb_pools s ! i) \<inter> region (sb_pools s ! j) = {}" if "i < length (sb_pools s)" "j < length (sb_pools s)" "i \<noteq> j"
    using assms that nat_neq_iff [of i j] unfolding bufs_inv_def by (metis Int_commute)
qed

text \<open>The buffers in use.\<close>

definition used :: "srv_bufs \<Rightarrow> addr set" where
  "used s = {b + BUF_HEAD_SIZE | b i. i < length (sb_pools s) \<and> b \<in> blocks (sb_pools s ! i) \<and> b \<notin> set (bp_root (sb_pools s ! i))}"

lemma used_block:
  assumes "bufs_inv s" "i < length (sb_pools s)" "b \<in> blocks (sb_pools s ! i)"
  shows "b + BUF_HEAD_SIZE \<in> used s \<longleftrightarrow> b \<notin> set (bp_root (sb_pools s ! i))"
proof -
  have only: "j = i" if "j < length (sb_pools s)" "b \<in> blocks (sb_pools s ! j)" for j
    using bufs_invD(3) [OF assms] bufs_invD(3) [OF assms(1) that] by simp
  have "b + BUF_HEAD_SIZE \<in> used s \<longleftrightarrow> (\<exists>j < length (sb_pools s). b \<in> blocks (sb_pools s ! j) \<and> b \<notin> set (bp_root (sb_pools s ! j)))"
    by (auto simp: used_def)
  then show ?thesis using only assms(2,3) by blast
qed

text \<open>A pool with other free blocks.\<close>

definition same_place :: "buf_pool \<Rightarrow> buf_pool \<Rightarrow> bool" where
  "same_place p p' \<longleftrightarrow> bp_addr p' = bp_addr p \<and> bp_blocksize p' = bp_blocksize p \<and> bp_blocknr p' = bp_blocknr p"

definition same_layout :: "srv_bufs \<Rightarrow> srv_bufs \<Rightarrow> bool" where
  "same_layout s s' \<longleftrightarrow> length (sb_pools s') = length (sb_pools s) \<and> sb_n s' = sb_n s \<and> sb_poolid s' = sb_poolid s \<and>
     (\<forall>i < length (sb_pools s). same_place (sb_pools s ! i) (sb_pools s' ! i))"

lemma same_placeD: "same_place p p' \<Longrightarrow> blocks p' = blocks p \<and> region p' = region p \<and> block_index p' b = block_index p b"
  by (simp add: same_place_def blocks_def region_def block_index_def)

lemma same_layoutD: "same_layout s s' \<Longrightarrow> i < length (sb_pools s) \<Longrightarrow> same_place (sb_pools s ! i) (sb_pools s' ! i)"
  by (simp add: same_layout_def)

lemma same_layout_refl: "same_layout s s"
  by (simp add: same_layout_def same_place_def)

lemma same_layout_trans: "same_layout s s1 \<Longrightarrow> same_layout s1 s2 \<Longrightarrow> same_layout s s2"
  by (auto simp: same_layout_def same_place_def)

lemma upd_pool_inv:
  assumes inv: "bufs_inv s" and i: "i < length (sb_pools s)" and f: "same_place (sb_pools s ! i) (f (sb_pools s ! i))" "pool_ok (f (sb_pools s ! i))"
  shows "bufs_inv (upd_pool i f s)" "same_layout s (upd_pool i f s)"
proof -
  show lay: "same_layout s (upd_pool i f s)"
    using f(1) i by (auto simp: same_layout_def upd_pool_def nth_list_update same_place_def)
  have "blocks (sb_pools (upd_pool i f s) ! j) = blocks (sb_pools s ! j)" "region (sb_pools (upd_pool i f s) ! j) = region (sb_pools s ! j)"
    if "j < length (sb_pools s)" for j
    using same_placeD [OF same_layoutD [OF lay that]] by simp_all
  then show "bufs_inv (upd_pool i f s)"
    using inv f(2) i set_update_subset_insert [of "sb_pools s" i "f (sb_pools s ! i)"] unfolding bufs_inv_def by (auto simp: upd_pool_def)
qed

lemma upd_pool_used:
  assumes "bufs_inv s" "i < length (sb_pools s)" "same_place (sb_pools s ! i) (f (sb_pools s ! i))" "pool_ok (f (sb_pools s ! i))"
  shows "q \<in> used (upd_pool i f s) \<longleftrightarrow>
    (if \<exists>b. q = b + BUF_HEAD_SIZE \<and> b \<in> blocks (sb_pools s ! i) then q - BUF_HEAD_SIZE \<notin> set (bp_root (f (sb_pools s ! i))) else q \<in> used s)"
proof -
  note u = upd_pool_inv [where f = f, OF assms]
  have b: "blocks (sb_pools (upd_pool i f s) ! j) = blocks (sb_pools s ! j)" if "j < length (sb_pools s)" for j
    using same_placeD [OF same_layoutD [OF u(2) that]] by simp
  have l: "length (sb_pools (upd_pool i f s)) = length (sb_pools s)" by (simp add: upd_pool_def)
  show ?thesis
  proof (cases "\<exists>b. q = b + BUF_HEAD_SIZE \<and> b \<in> blocks (sb_pools s ! i)")
    case True
    then obtain c where c: "q = c + BUF_HEAD_SIZE" "c \<in> blocks (sb_pools s ! i)" by blast
    have "sb_pools (upd_pool i f s) ! i = f (sb_pools s ! i)" using assms(2) by (simp add: upd_pool_def)
    then show ?thesis using True used_block [OF u(1), of i c] l b [OF assms(2)] assms(2) c by simp
  next
    case False
    let ?other = "\<exists>c j. q = c + BUF_HEAD_SIZE \<and> j < length (sb_pools s) \<and> j \<noteq> i \<and> c \<in> blocks (sb_pools s ! j) \<and> c \<notin> set (bp_root (sb_pools s ! j))"
    have o: "sb_pools (upd_pool i f s) ! j = sb_pools s ! j" if "j \<noteq> i" for j using that by (simp add: upd_pool_def)
    have "q \<in> used s \<longleftrightarrow> ?other" using False unfolding used_def by blast
    moreover have "q \<in> used (upd_pool i f s) \<longleftrightarrow> ?other"
    proof -
      have "q \<in> used (upd_pool i f s) \<longleftrightarrow> (\<exists>c j. q = c + BUF_HEAD_SIZE \<and> j < length (sb_pools s) \<and> j \<noteq> i \<and>
          c \<in> blocks (sb_pools (upd_pool i f s) ! j) \<and> c \<notin> set (bp_root (sb_pools (upd_pool i f s) ! j)))"
        using False b [OF assms(2)] unfolding used_def l mem_Collect_eq by metis
      then show ?thesis using o by metis
    qed
    ultimately have "q \<in> used (upd_pool i f s) \<longleftrightarrow> q \<in> used s" by simp
    then show ?thesis unfolding if_not_P [OF False] .
  qed
qed

section \<open>Allocation\<close>

definition suitable :: "srv_bufs \<Rightarrow> int \<Rightarrow> nat \<Rightarrow> bool" where
  "suitable s sz i \<longleftrightarrow> sz \<le> bp_blocksize (sb_pools s ! i) \<and> bp_root (sb_pools s ! i) \<noteq> []"

definition take_block :: "srv_bufs \<Rightarrow> nat \<Rightarrow> (addr \<times> srv_bufs) option" where
  "take_block s i =
     (let p = sb_pools s ! i; buf = hd (bp_root p)
      in map_option
           (\<lambda>(_, bmp). (buf + BUF_HEAD_SIZE, upd_pool i (\<lambda>p. p\<lparr>bp_root := tl (bp_root p), bp_bitmap := bmp\<rparr>) s))
           (srv_bmp_set_bit (bp_bitmap p) (block_index p buf) 1))"

lemma alloc_from_eq: "alloc_from s sz is = (case find (suitable s sz) is of None \<Rightarrow> Some (0, s) | Some i \<Rightarrow> take_block s i)"
  by (induction "is") (auto simp: suitable_def take_block_def Let_def)

lemma pool_bitmap:
  assumes ok: "pool_ok p" and b: "b \<in> blocks p" and r: "distinct r" "set r \<subseteq> blocks p"
    and v: "set r = (if v \<noteq> 0 then set (bp_root p) - {b} else insert b (set (bp_root p)))"
  shows "\<exists>bmp. srv_bmp_set_bit (bp_bitmap p) (block_index p b) v = Some (SRV_OK, Some bmp) \<and> pool_ok (p\<lparr>bp_root := r, bp_bitmap := Some bmp\<rparr>)"
proof -
  obtain bmp where bmp: "bp_bitmap p = Some bmp" "nat (bp_blocknr p) \<le> 32 * length bmp"
    "\<forall>c \<in> blocks p. nat (block_index p c) \<in> bmp_set bmp \<longleftrightarrow> c \<notin> set (bp_root p)"
    using ok by (auto simp: pool_ok_def)
  obtain n where n: "block_index p b = int n" "n < nat (bp_blocknr p)" using block_index_less [OF b] by blast
  then have "n < 32 * length bmp" using bmp(2) by simp
  from bmp_set_bit [OF this, of v] obtain bmp' where bmp': "srv_bmp_set_bit (Some bmp) (int n) v = Some (SRV_OK, Some bmp')"
    "length bmp' = length bmp" "bmp_set bmp' = (if v \<noteq> 0 then insert n (bmp_set bmp) else bmp_set bmp - {n})" by blast
  have "nat (block_index p c) \<in> bmp_set bmp' \<longleftrightarrow> c \<notin> set r" if c: "c \<in> blocks p" for c
  proof -
    have "nat (block_index p c) = n \<longleftrightarrow> c = b"
      using block_index_inj [OF c b] block_index_less [OF c] n(1) by (metis nat_int)
    then show ?thesis using bmp(3) c v bmp'(3) by auto
  qed
  moreover have "blocks (p\<lparr>bp_root := r, bp_bitmap := Some bmp'\<rparr>) = blocks p" "block_index (p\<lparr>bp_root := r, bp_bitmap := Some bmp'\<rparr>) = block_index p"
    by (simp_all add: blocks_def block_index_def fun_eq_iff)
  ultimately have "pool_ok (p\<lparr>bp_root := r, bp_bitmap := Some bmp'\<rparr>)" using ok r bmp'(2) bmp(2) by (simp add: pool_ok_def)
  then show ?thesis using bmp(1) bmp'(1) n(1) by auto
qed

lemma take_block_inv:
  assumes inv: "bufs_inv s" and i: "i < length (sb_pools s)" and r: "bp_root (sb_pools s ! i) \<noteq> []"
  shows "\<exists>b s'. take_block s i = Some (b + BUF_HEAD_SIZE, s') \<and> b \<in> blocks (sb_pools s ! i) \<and> bufs_inv s' \<and> same_layout s s' \<and>
    b + BUF_HEAD_SIZE \<notin> used s \<and> used s' = insert (b + BUF_HEAD_SIZE) (used s)"
proof -
  let ?p = "sb_pools s ! i"
  have ok: "pool_ok ?p" by (rule bufs_invD(2) [OF inv i])
  obtain b bs where bs: "bp_root ?p = b # bs" using r by (cases "bp_root ?p") auto
  then have b: "b \<in> blocks ?p" "distinct bs" "b \<notin> set bs" "set bs \<subseteq> blocks ?p" using ok by (auto simp: pool_ok_def)
  obtain bmp where bmp: "srv_bmp_set_bit (bp_bitmap ?p) (block_index ?p b) 1 = Some (SRV_OK, Some bmp)" "pool_ok (?p\<lparr>bp_root := bs, bp_bitmap := Some bmp\<rparr>)"
    using pool_bitmap [OF ok b(1,2,4), of 1] bs b(3) by auto
  let ?f = "\<lambda>p. p\<lparr>bp_root := tl (bp_root p), bp_bitmap := Some bmp\<rparr>"
  have f: "same_place ?p (?f ?p)" "pool_ok (?f ?p)" using bmp(2) bs by (simp_all add: same_place_def)
  have "take_block s i = Some (b + BUF_HEAD_SIZE, upd_pool i ?f s)" using bmp(1) bs by (simp add: take_block_def Let_def)
  moreover have "b + BUF_HEAD_SIZE \<notin> used s" using used_block [OF inv i b(1)] bs by simp
  moreover have "q \<in> used (upd_pool i ?f s) \<longleftrightarrow> q \<in> insert (b + BUF_HEAD_SIZE) (used s)" for q
  proof (cases "\<exists>c. q = c + BUF_HEAD_SIZE \<and> c \<in> blocks ?p")
    case True
    then obtain c where c: "q = c + BUF_HEAD_SIZE" "c \<in> blocks ?p" by blast
    then show ?thesis using upd_pool_used [where f = ?f and q = q, OF inv i f] True used_block [OF inv i c(2)] bs b(3) by auto
  next
    case False
    then show ?thesis using upd_pool_used [where f = ?f and q = q, OF inv i f] b(1) by auto
  qed
  ultimately show ?thesis using upd_pool_inv [where f = ?f, OF inv i f] b(1) by blast
qed

lemma free_inv:
  assumes inv: "bufs_inv s" and i: "i < length (sb_pools s)" and b: "b \<in> blocks (sb_pools s ! i)"
  shows "free_check s (b + BUF_HEAD_SIZE) = Some (b + BUF_HEAD_SIZE \<in> used s)"
    "b + BUF_HEAD_SIZE \<in> used s \<Longrightarrow> \<exists>s'. free_put s (b + BUF_HEAD_SIZE) = Some s' \<and> bufs_inv s' \<and> same_layout s s' \<and> used s' = used s - {b + BUF_HEAD_SIZE}"
proof -
  let ?p = "sb_pools s ! i"
  have ok: "pool_ok ?p" by (rule bufs_invD(2) [OF inv i])
  obtain bmp where bmp: "bp_bitmap ?p = Some bmp" "nat (bp_blocknr ?p) \<le> 32 * length bmp"
    "\<forall>c \<in> blocks ?p. nat (block_index ?p c) \<in> bmp_set bmp \<longleftrightarrow> c \<notin> set (bp_root ?p)"
    using ok by (auto simp: pool_ok_def)
  obtain n where n: "block_index ?p b = int n" "n < nat (bp_blocknr ?p)" using block_index_less [OF b] by blast
  have id: "sb_poolid s b = int i" by (rule bufs_invD(3) [OF inv i b])
  have get: "srv_bmp_get_bit (bp_bitmap ?p) (block_index ?p b) = Some (of_bool (b \<notin> set (bp_root ?p)))"
  proof -
    have "n \<in> bmp_set bmp \<longleftrightarrow> b \<notin> set (bp_root ?p)" using bmp(3) b n(1) by (metis nat_int)
    then show ?thesis using bmp_get [of n bmp] n bmp(1,2) by simp
  qed
  show "free_check s (b + BUF_HEAD_SIZE) = Some (b + BUF_HEAD_SIZE \<in> used s)"
    using get id i bufs_invD(1) [OF inv] used_block [OF inv i b] by (simp add: free_check_def Let_def)
  assume "b + BUF_HEAD_SIZE \<in> used s"
  then have new: "b \<notin> set (bp_root ?p)" using used_block [OF inv i b] by simp
  have "distinct (bp_root ?p @ [b])" "set (bp_root ?p @ [b]) \<subseteq> blocks ?p" using ok new b by (auto simp: pool_ok_def)
  from pool_bitmap [OF ok b this, of 0] obtain bmp' where bmp': "srv_bmp_set_bit (bp_bitmap ?p) (block_index ?p b) 0 = Some (SRV_OK, Some bmp')"
    "pool_ok (?p\<lparr>bp_root := bp_root ?p @ [b], bp_bitmap := Some bmp'\<rparr>)" by auto
  let ?f = "\<lambda>p. p\<lparr>bp_root := bp_root p @ [b], bp_bitmap := Some bmp'\<rparr>"
  have f: "same_place ?p (?f ?p)" "pool_ok (?f ?p)" using bmp'(2) by (simp_all add: same_place_def)
  have "free_put s (b + BUF_HEAD_SIZE) = Some (upd_pool i ?f s)" using bmp'(1) id new by (simp add: free_put_def Let_def)
  moreover have "q \<in> used (upd_pool i ?f s) \<longleftrightarrow> q \<in> used s - {b + BUF_HEAD_SIZE}" for q
  proof (cases "\<exists>c. q = c + BUF_HEAD_SIZE \<and> c \<in> blocks ?p")
    case True
    then obtain c where c: "q = c + BUF_HEAD_SIZE" "c \<in> blocks ?p" by blast
    then show ?thesis using upd_pool_used [where f = ?f and q = q, OF inv i f] True used_block [OF inv i c(2)] by auto
  next
    case False
    then show ?thesis using upd_pool_used [where f = ?f and q = q, OF inv i f] b by auto
  qed
  ultimately show "\<exists>s'. free_put s (b + BUF_HEAD_SIZE) = Some s' \<and> bufs_inv s' \<and> same_layout s s' \<and> used s' = used s - {b + BUF_HEAD_SIZE}"
    using upd_pool_inv [where f = ?f, OF inv i f] by blast
qed

section \<open>Initialisation\<close>

lemma link_blocks:
  "fold (link_block base rs i) [0 ..< n] ([], pid) =
    (map (block_addr base rs) [0 ..< n], \<lambda>a. if a \<in> block_addr base rs ` {..< n} then i else pid a)"
proof (induction n)
  case (Suc n)
  then show ?case by (auto simp: link_block_def Let_def lessThan_Suc fun_eq_iff)
qed simp

text \<open>The memory that a pool asks for, and what \<open>malloc\<close> promises: areas that do not overlap.\<close>

definition pool_memory :: "srv_buf_pool \<Rightarrow> addr \<Rightarrow> addr set" where
  "pool_memory c base = {base ..< base + nat (pc_blocknr c) * (BUF_HEAD_SIZE + nat (pc_blocksize c))}"

fun separate :: "addr set \<Rightarrow> srv_buf_pool list \<Rightarrow> (addr option \<times> bool \<times> bool) list \<Rightarrow> bool" where
  "separate M (c # cs) ((Some base, _) # rs) \<longleftrightarrow> M \<inter> pool_memory c base = {} \<and> separate (M \<union> pool_memory c base) cs rs"
| "separate M _ _ \<longleftrightarrow> True"

definition pool_config_ok :: "srv_buf_pool \<Rightarrow> bool" where
  "pool_config_ok c \<longleftrightarrow> 0 \<le> pc_blocksize c \<and> pc_blocksize c + 16 \<le> INT_MAX \<and> 0 \<le> pc_blocknr c \<and>
     pc_blocknr c * (pc_blocksize c + 16) \<le> INT_MAX"

definition new_pool :: "srv_buf_pool \<Rightarrow> addr \<Rightarrow> bitmap \<Rightarrow> buf_pool" where
  "new_pool c base bmp =
     \<lparr>bp_root = map (block_addr base (pc_blocksize c + 16)) [0 ..< nat (pc_blocknr c)], bp_blocksize = pc_blocksize c,
      bp_blocknr = pc_blocknr c, bp_addr = base, bp_bitmap = Some bmp\<rparr>"

lemma new_pool_ok:
  assumes c: "pool_config_ok c" and bmp: "srv_bmp_create True (pc_blocknr c) = Some bmp"
  shows "pool_ok (new_pool c base bmp)" "region (new_pool c base bmp) = pool_memory c base"
    "set (bp_root (new_pool c base bmp)) = blocks (new_pool c base bmp)"
    "blocks (new_pool c base bmp) = block_addr base (pc_blocksize c + 16) ` {..< nat (pc_blocknr c)}"
proof -
  let ?p = "new_pool c base bmp" and ?addr = "block_addr base (pc_blocksize c + 16)"
  have addr: "?addr j = base + j * (BUF_HEAD_SIZE + nat (pc_blocksize c))" for j
    using c by (simp add: block_addr_def pool_config_ok_def nat_add_distrib add.commute)
  have set: "set (bp_root ?p) = ?addr ` {..< nat (pc_blocknr c)}" by (simp add: new_pool_def atLeast0LessThan)
  show b: "blocks ?p = ?addr ` {..< nat (pc_blocknr c)}" by (auto simp: blocks_def new_pool_def addr)
  show r: "set (bp_root ?p) = blocks ?p" unfolding b set ..
  show "region ?p = pool_memory c base" by (simp add: region_def pool_memory_def new_pool_def)
  obtain bmp' where "srv_bmp_create True (pc_blocknr c) = Some bmp'" "bmp_set bmp' = {}" "nat (pc_blocknr c) \<le> 32 * length bmp'"
    using bmp_create [of "pc_blocknr c"] c unfolding pool_config_ok_def by blast
  then have bmp_ok: "bmp_set bmp = {}" "nat (pc_blocknr c) \<le> 32 * length bmp" using bmp by auto
  have "inj_on ?addr {0 ..< nat (pc_blocknr c)}" unfolding inj_on_def addr by simp
  then have "distinct (bp_root ?p)" by (simp add: new_pool_def distinct_map)
  moreover have "bp_bitmap ?p = Some bmp" "bp_blocknr ?p = pc_blocknr c" "bp_blocksize ?p = pc_blocksize c" by (simp_all add: new_pool_def)
  ultimately show "pool_ok ?p" using r c bmp_ok unfolding pool_ok_def pool_config_ok_def by simp
qed

lemma add_pool_inv:
  assumes inv: "bufs_inv s" and p: "pool_ok p" and apart: "\<Union> (region ` set (sb_pools s)) \<inter> region p = {}"
    and pid: "\<forall>b \<in> blocks p. pid b = int (length (sb_pools s))" "\<forall>a. a \<notin> blocks p \<longrightarrow> pid a = sb_poolid s a"
  shows "bufs_inv (s\<lparr>sb_pools := sb_pools s @ [p], sb_poolid := pid, sb_n := int (length (sb_pools s) + 1)\<rparr>)" (is "bufs_inv ?s")
proof -
  let ?n = "length (sb_pools s)"
  have nth: "sb_pools ?s ! i = (if i = ?n then p else sb_pools s ! i)" if "i \<le> ?n" for i using that by (simp add: nth_append)
  have other: "region (sb_pools s ! i) \<inter> region p = {}" if "i < ?n" for i using apart that by (auto dest: nth_mem)
  have "sb_poolid ?s b = int i" if "i \<le> ?n" "b \<in> blocks (sb_pools ?s ! i)" for i b
  proof (cases "i = ?n")
    case True
    then show ?thesis using that pid(1) nth by simp
  next
    case False
    then have "i < ?n" "b \<in> blocks (sb_pools s ! i)" using that nth by auto
    moreover have "b \<notin> blocks p" using other [OF calculation(1)] block_self calculation(2) by blast
    ultimately show ?thesis using pid(2) bufs_invD(3) [OF inv] by simp
  qed
  moreover have "region (sb_pools ?s ! i) \<inter> region (sb_pools ?s ! j) = {}" if "i \<le> ?n" "j < i" for i j
    using that nth [of i] nth [of j] other [of j] bufs_invD(4) [OF inv, of i j] by (auto split: if_splits)
  moreover have "\<forall>q \<in> set (sb_pools ?s). pool_ok q" using p inv by (auto simp: bufs_inv_def)
  ultimately show ?thesis unfolding bufs_inv_def by (simp add: less_Suc_eq_le)
qed

lemma init_pools_inv:
  assumes "init_pools cs rs s = (SRV_OK, s')" "length rs = length cs" "\<forall>c \<in> set cs. pool_config_ok c"
    and "bufs_inv (s\<lparr>sb_n := int (length (sb_pools s))\<rparr>)" "\<forall>p \<in> set (sb_pools s). set (bp_root p) = blocks p"
    and "separate (\<Union> (region ` set (sb_pools s))) cs rs"
  shows "bufs_inv (s'\<lparr>sb_n := int (length (sb_pools s'))\<rparr>) \<and> (\<forall>p \<in> set (sb_pools s'). set (bp_root p) = blocks p) \<and>
    length (sb_pools s') = length (sb_pools s) + length cs"
  using assms
proof (induction cs arbitrary: rs s)
  case (Cons c cs rs0)
  obtain buf bmp_ok mutex_ok rs where rs: "rs0 = (buf, bmp_ok, mutex_ok) # rs" "length rs = length cs"
    using Cons.prems(2) by (cases rs0) auto
  let ?n = "length (sb_pools s)" and ?addr = "block_addr (the buf) (pc_blocksize c + 16)"
  have c: "pool_config_ok c" using Cons.prems(3) by simp
  have real: "c_int (pc_blocksize c + 16) = pc_blocksize c + 16" using c by (simp add: pool_config_ok_def)
  obtain base where base: "buf = Some base" using Cons.prems(1) [unfolded rs(1)] by (cases buf) auto
  let ?pid = "\<lambda>a. if a \<in> ?addr ` {..< nat (pc_blocknr c)} then int ?n else sb_poolid s a"
  obtain bmp where ok: "srv_bmp_create True (pc_blocknr c) = Some bmp" "bmp_ok" "mutex_ok"
    using Cons.prems(1) [unfolded rs(1)] base by (cases bmp_ok; auto simp: Let_def link_blocks srv_bmp_create_def split: if_splits)
  define s1 where "s1 = s\<lparr>sb_pools := sb_pools s @ [new_pool c base bmp], sb_poolid := ?pid\<rparr>"
  have rest: "init_pools cs rs s1 = (SRV_OK, s')"
    using Cons.prems(1) [unfolded rs(1)] base ok by (simp add: Let_def link_blocks real s1_def new_pool_def)
  note p = new_pool_ok [where base = base, OF c ok(1)]
  let ?s = "s\<lparr>sb_n := int ?n\<rparr>"
  have sep: "\<Union> (region ` set (sb_pools s)) \<inter> pool_memory c base = {}" "separate (\<Union> (region ` set (sb_pools s)) \<union> pool_memory c base) cs rs"
    using Cons.prems(6) [unfolded rs(1)] base by auto
  have "bufs_inv (?s\<lparr>sb_pools := sb_pools ?s @ [new_pool c base bmp], sb_poolid := ?pid, sb_n := int (length (sb_pools ?s) + 1)\<rparr>)"
    using sep(1) p(4) base by (intro add_pool_inv [OF Cons.prems(4) p(1)]) (auto simp: p(2))
  then have inv: "bufs_inv (s1\<lparr>sb_n := int (length (sb_pools s1))\<rparr>)" by (simp add: s1_def)
  have all: "\<forall>q \<in> set (sb_pools s1). set (bp_root q) = blocks q" using Cons.prems(5) p(3) by (simp add: s1_def)
  have "\<Union> (region ` set (sb_pools s1)) = \<Union> (region ` set (sb_pools s)) \<union> pool_memory c base" using p(2) by (auto simp: s1_def)
  then have sep1: "separate (\<Union> (region ` set (sb_pools s1))) cs rs" using sep(2) by simp
  have "\<forall>c \<in> set cs. pool_config_ok c" using Cons.prems(3) by simp
  note IH = Cons.IH [OF rest rs(2) this inv all sep1]
  moreover have "length (sb_pools s') = length (sb_pools s) + length (c # cs)" using IH by (simp add: s1_def)
  ultimately show ?case by blast
qed simp

lemma srv_buf_init_inv:
  assumes "srv_buf_init (Some cs) ok rs s = (SRV_OK, s')" "length rs = length cs" "\<forall>c \<in> set cs. pool_config_ok c" "separate {} cs rs"
  shows "bufs_inv s'" "used s' = {}"
proof -
  have "cs \<noteq> []" "ok" using assms(1) by (auto simp: srv_buf_init_def split: if_splits)
  then obtain s1 where i: "init_pools cs rs (s\<lparr>sb_pools := []\<rparr>) = (SRV_OK, s1)" "s' = s1\<lparr>sb_n := int (length cs)\<rparr>"
    using assms(1) by (cases "init_pools cs rs (s\<lparr>sb_pools := []\<rparr>)") (auto simp: srv_buf_init_def split: if_splits)
  have "bufs_inv ((s\<lparr>sb_pools := []\<rparr>)\<lparr>sb_n := int (length (sb_pools (s\<lparr>sb_pools := []\<rparr>)))\<rparr>)" by (simp add: bufs_inv_def)
  note r = init_pools_inv [OF i(1) assms(2,3) this]
  have r: "bufs_inv (s1\<lparr>sb_n := int (length (sb_pools s1))\<rparr>)" "\<forall>p \<in> set (sb_pools s1). set (bp_root p) = blocks p" "length (sb_pools s1) = length cs"
    using r assms(4) by auto
  show "bufs_inv s'" using r(1) unfolding r(3) i(2) .
  show "used s' = {}" using r(2) i(2) by (auto simp: used_def dest: nth_mem)
qed

text \<open>Initialisation succeeds if the allocations do, and makes pools of the sizes asked for.\<close>

lemma init_pools_ok:
  assumes "\<forall>c \<in> set cs. 0 \<le> pc_blocknr c" "\<forall>(buf, bmp_ok, mutex_ok) \<in> set rs. buf \<noteq> None \<and> bmp_ok \<and> mutex_ok"
  shows "fst (init_pools cs rs s) = SRV_OK"
  using assms
proof (induction cs arbitrary: rs s)
  case (Cons c cs)
  show ?case
  proof (cases rs)
    case (Cons r rs')
    obtain base where r: "r = (Some base, True, True)" using Cons.prems(2) Cons by (cases r) auto
    obtain bmp where "srv_bmp_create True (pc_blocknr c) = Some bmp" using bmp_create [of "pc_blocknr c"] Cons.prems(1) by auto
    then show ?thesis using Cons.IH [of rs'] Cons.prems Cons r by (simp add: Let_def case_prod_beta)
  qed simp
qed simp

lemma init_pools_sizes:
  assumes "init_pools cs rs s = (SRV_OK, s')" "length rs = length cs"
  shows "map (\<lambda>p. (bp_blocksize p, bp_blocknr p)) (sb_pools s') =
    map (\<lambda>p. (bp_blocksize p, bp_blocknr p)) (sb_pools s) @ map (\<lambda>c. (pc_blocksize c, pc_blocknr c)) cs"
  using assms
proof (induction cs arbitrary: rs s)
  case (Cons c cs)
  obtain buf bmp_ok mutex_ok rs' where rs: "rs = (buf, bmp_ok, mutex_ok) # rs'" "length rs' = length cs"
    using Cons.prems(2) by (cases rs) auto
  obtain base where base: "buf = Some base" using Cons.prems(1) [unfolded rs(1)] by (cases buf) auto
  obtain s1 root where s1: "init_pools cs rs' s1 = (SRV_OK, s')"
    "sb_pools s1 = sb_pools s @ [\<lparr>bp_root = root, bp_blocksize = pc_blocksize c, bp_blocknr = pc_blocknr c, bp_addr = base, bp_bitmap = srv_bmp_create bmp_ok (pc_blocknr c)\<rparr>]"
    using Cons.prems(1) unfolding rs(1) base by (force simp: Let_def case_prod_beta split: if_splits)
  show ?case using Cons.IH [OF s1(1) rs(2)] s1(2) by simp
qed simp

lemma srv_buf_init_sizes:
  assumes "srv_buf_init (Some cs) ok rs s = (SRV_OK, s')" "length rs = length cs"
  shows "map (\<lambda>p. (bp_blocksize p, bp_blocknr p)) (sb_pools s') = map (\<lambda>c. (pc_blocksize c, pc_blocknr c)) cs"
proof -
  obtain s1 where "init_pools cs rs (s\<lparr>sb_pools := []\<rparr>) = (SRV_OK, s1)" "sb_pools s' = sb_pools s1"
    using assms(1) by (auto simp: srv_buf_init_def split: if_splits prod.splits)
  then show ?thesis using init_pools_sizes [OF _ assms(2)] by fastforce
qed

section \<open>Sequences of calls\<close>

datatype buf_op = Buf_Alloc int | Buf_Free addr

fun buf_exec :: "srv_bufs \<Rightarrow> buf_op \<Rightarrow> srv_bufs option" where
  "buf_exec s (Buf_Alloc sz) = map_option snd (srv_buf_alloc s sz)"
| "buf_exec s (Buf_Free p) = srv_buf_free s p"

text \<open>Clients free NULL or buffers of the pools.\<close>

definition is_buffer :: "srv_bufs \<Rightarrow> addr \<Rightarrow> bool" where
  "is_buffer s p \<longleftrightarrow> (\<exists>i < length (sb_pools s). \<exists>b \<in> blocks (sb_pools s ! i). p = b + BUF_HEAD_SIZE)"

fun buf_allowed :: "srv_bufs \<Rightarrow> buf_op \<Rightarrow> bool" where
  "buf_allowed s (Buf_Alloc _) \<longleftrightarrow> True"
| "buf_allowed s (Buf_Free p) \<longleftrightarrow> p = 0 \<or> is_buffer s p"

definition buf_start :: "srv_bufs \<Rightarrow> bool" where
  "buf_start s \<longleftrightarrow> (\<exists>cs ok rs s0. srv_buf_init (Some cs) ok rs s0 = (SRV_OK, s) \<and> length rs = length cs \<and>
     (\<forall>c \<in> set cs. pool_config_ok c) \<and> separate {} cs rs)"

definition buf_reachable :: "srv_bufs \<Rightarrow> bool" where
  "buf_reachable = reachable_by buf_start buf_allowed buf_exec"

lemma used_is_buffer: "p \<in> used s \<Longrightarrow> is_buffer s p"
  by (auto simp: used_def is_buffer_def)

lemma find_upt:
  "find P [0 ..< n] = None \<Longrightarrow> \<forall>i < n. \<not> P i"
  "find P [0 ..< n] = Some i \<Longrightarrow> i < n \<and> P i \<and> (\<forall>j < i. \<not> P j)"
  by (auto simp: find_None_iff find_Some_iff)

lemma buf_alloc_spec:
  assumes inv: "bufs_inv s"
  shows "\<exists>p s'. srv_buf_alloc s sz = Some (p, s') \<and> bufs_inv s' \<and> same_layout s s' \<and>
    (if p = 0 then s' = s \<and> (\<forall>i < length (sb_pools s). \<not> suitable s sz i)
     else p \<notin> used s \<and> used s' = insert p (used s) \<and>
       (\<exists>i < length (sb_pools s). sz \<le> bp_blocksize (sb_pools s ! i) \<and> p - BUF_HEAD_SIZE \<in> blocks (sb_pools s ! i) \<and> BUF_HEAD_SIZE \<le> p \<and>
          (\<forall>j < i. \<not> suitable s sz j)))"
proof -
  have eq: "srv_buf_alloc s sz = (case find (suitable s sz) [0 ..< length (sb_pools s)] of None \<Rightarrow> Some (0, s) | Some i \<Rightarrow> take_block s i)"
    using bufs_invD(1) [OF inv] by (simp add: srv_buf_alloc_def alloc_from_eq)
  show ?thesis
  proof (cases "find (suitable s sz) [0 ..< length (sb_pools s)]")
    case None
    then show ?thesis using eq inv same_layout_refl find_upt(1) by simp
  next
    case (Some i)
    note i = find_upt(2) [OF Some]
    then obtain b s' where b: "take_block s i = Some (b + BUF_HEAD_SIZE, s')" "b \<in> blocks (sb_pools s ! i)" "bufs_inv s'" "same_layout s s'"
      "b + BUF_HEAD_SIZE \<notin> used s" "used s' = insert (b + BUF_HEAD_SIZE) (used s)"
      using take_block_inv [OF inv, of i] unfolding suitable_def by blast
    have "srv_buf_alloc s sz = Some (b + BUF_HEAD_SIZE, s')" using eq Some b(1) by simp
    then show ?thesis using b(2-6) i unfolding suitable_def by (intro exI [of _ "b + BUF_HEAD_SIZE"] exI [of _ s']) auto
  qed
qed

lemma buf_free_spec:
  assumes inv: "bufs_inv s" and p: "p = 0 \<or> is_buffer s p"
  shows "\<exists>s'. srv_buf_free s p = Some s' \<and> bufs_inv s' \<and> same_layout s s' \<and> used s' = used s - {p} \<and> (p \<notin> used s \<longrightarrow> s' = s)"
proof (cases "p = 0")
  case True
  have "0 \<notin> used s" by (auto simp: used_def)
  then show ?thesis using True inv same_layout_refl by (simp add: srv_buf_free_def free_check_def)
next
  case False
  then obtain i b where b: "i < length (sb_pools s)" "b \<in> blocks (sb_pools s ! i)" "p = b + BUF_HEAD_SIZE" using p by (auto simp: is_buffer_def)
  show ?thesis
  proof (cases "p \<in> used s")
    case True
    then obtain s' where "free_put s p = Some s'" "bufs_inv s'" "same_layout s s'" "used s' = used s - {p}"
      using free_inv(2) [OF inv b(1,2)] b(3) by blast
    then show ?thesis using True free_inv(1) [OF inv b(1,2)] b(3) by (simp add: srv_buf_free_def)
  next
    case False
    then have "srv_buf_free s p = Some s" using free_inv(1) [OF inv b(1,2)] b(3) by (simp add: srv_buf_free_def)
    then show ?thesis using False inv same_layout_refl by simp
  qed
qed

lemma buf_exec_inv: "bufs_inv s \<Longrightarrow> buf_allowed s op \<Longrightarrow> \<exists>s'. buf_exec s op = Some s' \<and> bufs_inv s'"
proof (cases op)
  case (Buf_Alloc sz)
  assume "bufs_inv s"
  from buf_alloc_spec [OF this, of sz] show ?thesis by (auto simp: Buf_Alloc)
next
  case (Buf_Free p)
  assume "bufs_inv s" "buf_allowed s op"
  then show ?thesis using buf_free_spec [of s p] by (auto simp: Buf_Free)
qed

interpretation buf_machine: call_machine buf_start buf_allowed buf_exec bufs_inv
proof
  show "bufs_inv s" if "buf_start s" for s using that srv_buf_init_inv(1) by (auto simp: buf_start_def)
  show "bufs_inv s'" if "bufs_inv s" "buf_allowed s op" "buf_exec s op = Some s'" for s op s' using buf_exec_inv [OF that(1,2)] that(3) by auto
qed

lemma buf_reachable_inv: "buf_reachable s \<Longrightarrow> bufs_inv s"
  unfolding buf_reachable_def by (rule buf_machine.reachable_inv)

section \<open>Counting buffers\<close>

definition buffers :: "srv_bufs \<Rightarrow> addr set" where
  "buffers s = {b + BUF_HEAD_SIZE | b i. i < length (sb_pools s) \<and> b \<in> blocks (sb_pools s ! i)}"

lemma blocks_image: "blocks p = (\<lambda>j. bp_addr p + j * block_size p) ` {..< nat (bp_blocknr p)}"
  by (auto simp: blocks_def)

lemma card_blocks: "finite (blocks p)" "card (blocks p) = nat (bp_blocknr p)"
  unfolding blocks_image by (simp, subst card_image) (auto simp: inj_on_def)

lemma buffers_union: "buffers s = (\<Union>i < length (sb_pools s). (\<lambda>b. b + BUF_HEAD_SIZE) ` blocks (sb_pools s ! i))"
  by (auto simp: buffers_def)

lemma buffers_finite: "finite (buffers s)"
  unfolding buffers_union by (intro finite_UN_I finite_imageI card_blocks(1)) simp

lemma card_buffers: "card (buffers s) \<le> (\<Sum>p \<leftarrow> sb_pools s. nat (bp_blocknr p))"
proof -
  have "card (buffers s) \<le> (\<Sum>i < length (sb_pools s). card ((\<lambda>b. b + BUF_HEAD_SIZE) ` blocks (sb_pools s ! i)))"
    unfolding buffers_union by (rule card_UN_le) simp
  also have "\<dots> = (\<Sum>i < length (sb_pools s). nat (bp_blocknr (sb_pools s ! i)))"
    by (intro sum.cong refl) (simp add: card_image card_blocks(2))
  also have "\<dots> = (\<Sum>p \<leftarrow> sb_pools s. nat (bp_blocknr p))" by (simp add: sum_list_sum_nth atLeast0LessThan)
  finally show ?thesis .
qed

lemma used_buffers: "used s \<subseteq> buffers s" "finite (used s)" "card (used s) \<le> card (buffers s)"
proof -
  show "used s \<subseteq> buffers s" by (auto simp: used_def buffers_def)
  then show "finite (used s)" "card (used s) \<le> card (buffers s)" using buffers_finite finite_subset card_mono by blast+
qed

lemma same_layout_buffers:
  assumes "same_layout s s'"
  shows "buffers s' = buffers s"
proof -
  have "blocks (sb_pools s' ! i) = blocks (sb_pools s ! i)" if "i < length (sb_pools s)" for i
    using same_placeD [OF same_layoutD [OF assms that]] by blast
  then show ?thesis using assms unfolding buffers_union by (simp add: same_layout_def)
qed

lemma alloc_succeeds:
  assumes inv: "bufs_inv s" and i: "i < length (sb_pools s)" "sz \<le> bp_blocksize (sb_pools s ! i)" "card (used s) < nat (bp_blocknr (sb_pools s ! i))"
  shows "\<exists>p s'. srv_buf_alloc s sz = Some (p, s') \<and> p \<noteq> 0 \<and> bufs_inv s' \<and> same_layout s s' \<and> card (used s') = Suc (card (used s))"
proof -
  obtain p s' where a: "srv_buf_alloc s sz = Some (p, s')" "bufs_inv s'" "same_layout s s'"
    "if p = 0 then s' = s \<and> (\<forall>i < length (sb_pools s). \<not> suitable s sz i) else p \<notin> used s \<and> used s' = insert p (used s)"
    using buf_alloc_spec [OF inv, of sz] by auto
  have "p \<noteq> 0"
  proof
    assume "p = 0"
    then have "bp_root (sb_pools s ! i) = []" using a(4) i(1,2) by (auto simp: suitable_def)
    then have "(\<lambda>b. b + BUF_HEAD_SIZE) ` blocks (sb_pools s ! i) \<subseteq> used s"
      using i(1) used_block [OF inv i(1)] by auto
    from card_mono [OF used_buffers(2) this] show False using i(3) by (simp add: card_image card_blocks(2))
  qed
  then show ?thesis using a used_buffers(2) by simp
qed

section \<open>Properties\<close>

text \<open>The memory of the buffer at an address, without its head.\<close>

definition buf_room :: "srv_bufs \<Rightarrow> addr \<Rightarrow> addr set" where
  "buf_room s p = {p ..< p + nat (bp_blocksize (sb_pools s ! nat (sb_poolid s (p - BUF_HEAD_SIZE))))}"

lemma room_of_block:
  assumes "bufs_inv s" "i < length (sb_pools s)" "b \<in> blocks (sb_pools s ! i)"
  shows "buf_room s (b + BUF_HEAD_SIZE) = {b + BUF_HEAD_SIZE ..< b + block_size (sb_pools s ! i)}"
  using bufs_invD(3) [OF assms] by (simp add: buf_room_def add.assoc)

lemma same_layout_room:
  assumes inv: "bufs_inv s" and l: "same_layout s s'" and p: "is_buffer s p"
  shows "buf_room s' p = buf_room s p"
proof -
  obtain i b where b: "i < length (sb_pools s)" "b \<in> blocks (sb_pools s ! i)" "p = b + BUF_HEAD_SIZE" using p by (auto simp: is_buffer_def)
  have "sb_poolid s b = int i" by (rule bufs_invD(3) [OF inv b(1,2)])
  then show ?thesis using l b(1,3) by (simp add: buf_room_def same_layout_def same_place_def)
qed

lemma alloc_room:
  assumes inv: "bufs_inv s" and a: "srv_buf_alloc s sz = Some (p, s')" and p: "p \<noteq> 0"
  shows "sz \<le> int (card (buf_room s p))" "is_buffer s p"
proof -
  obtain i where i: "i < length (sb_pools s)" "sz \<le> bp_blocksize (sb_pools s ! i)" "p - BUF_HEAD_SIZE \<in> blocks (sb_pools s ! i)" "BUF_HEAD_SIZE \<le> p"
    using buf_alloc_spec [OF inv, of sz] a p by auto
  then show "is_buffer s p" unfolding is_buffer_def by (metis le_add_diff_inverse2)
  show "sz \<le> int (card (buf_room s p))" using room_of_block [OF inv i(1,3)] i(2,4) by simp
qed

lemma rooms_apart:
  assumes inv: "bufs_inv s" and p: "is_buffer s p" and q: "is_buffer s q" and ne: "p \<noteq> q"
  shows "buf_room s p \<inter> buf_room s q = {}"
proof -
  obtain i b where b: "i < length (sb_pools s)" "b \<in> blocks (sb_pools s ! i)" "p = b + BUF_HEAD_SIZE" using p by (auto simp: is_buffer_def)
  obtain j c where c: "j < length (sb_pools s)" "c \<in> blocks (sb_pools s ! j)" "q = c + BUF_HEAD_SIZE" using q by (auto simp: is_buffer_def)
  have r: "buf_room s p = {b + BUF_HEAD_SIZE ..< b + block_size (sb_pools s ! i)}" "buf_room s q = {c + BUF_HEAD_SIZE ..< c + block_size (sb_pools s ! j)}"
    using room_of_block [OF inv b(1,2)] room_of_block [OF inv c(1,2)] b(3) c(3) by simp_all
  show ?thesis
  proof (cases "i = j")
    case True
    then have "b + block_size (sb_pools s ! i) \<le> c \<or> c + block_size (sb_pools s ! i) \<le> b"
      using blocks_apart [of b "sb_pools s ! i" c] blocks_apart [of c "sb_pools s ! i" b] b c ne by (cases "b < c") auto
    then show ?thesis unfolding r using True by auto
  next
    case False
    have "buf_room s p \<subseteq> region (sb_pools s ! i)" "buf_room s q \<subseteq> region (sb_pools s ! j)"
      using block_in_region [OF b(2)] block_in_region [OF c(2)] unfolding r by (auto simp: subset_eq)
    then show ?thesis using bufs_invD(4) [OF inv b(1) c(1) False] by blast
  qed
qed

text \<open>An example: one pool with one block of 32 bytes.\<close>

definition one_buf :: "int \<Rightarrow> addr list \<Rightarrow> u32 \<Rightarrow> srv_bufs" where
  "one_buf pid root bits = \<lparr>sb_pools = [\<lparr>bp_root = root, bp_blocksize = 32, bp_blocknr = 1, bp_addr = 100, bp_bitmap = Some [bits]\<rparr>],
     sb_n = 1, sb_poolid = (\<lambda>_. pid)(100 := 0)\<rparr>"

lemma one_buf_free: "buf_reachable (one_buf 7 [100] 0)"
proof -
  have "srv_buf_init (Some [\<lparr>pc_blocksize = 32, pc_blocknr = 1\<rparr>]) True [(Some 100, True, True)]
    \<lparr>sb_pools = [], sb_n = 0, sb_poolid = (\<lambda>_. 7)\<rparr> = (SRV_OK, one_buf 7 [100] 0)"
    by (simp add: srv_buf_init_def one_buf_def link_block_def block_addr_def srv_bmp_create_def smod_pos sdiv_pos Let_def)
  then have "buf_start (one_buf 7 [100] 0)" unfolding buf_start_def
    by (intro exI conjI, assumption) (simp_all add: pool_config_ok_def)
  then show ?thesis unfolding buf_reachable_def by (rule reachable_by.intros)
qed

lemma one_buf_alloc: "srv_buf_alloc (one_buf 7 [100] 0) 20 = Some (116, one_buf 7 [] 1)"
  by (simp add: srv_buf_alloc_def one_buf_def block_index_def srv_bmp_set_bit_def sdiv_pos smod_pos upd_pool_def Let_def)

lemma one_buf_used: "buf_reachable (one_buf 7 [] 1)"
  using one_buf_free unfolding buf_reachable_def
  by (rule reachable_by.intros(2) [where op = "Buf_Alloc 20"]) (simp_all add: one_buf_alloc)

lemma one_buf_in_use: "used (one_buf 7 [] 1) = {116}"
  by (auto simp: used_def one_buf_def blocks_def)

text \<open>
  C17: After any calls, allocation returns: a buffer that is not in use, has room for the size asked for and
  does not overlap any buffer in use; or NULL, and then every buffer of a pool with large enough
  blocks is in use.
\<close>

theorem srv_buf_alloc_safe:
  assumes "buf_reachable s"
  shows "\<exists>p s'. srv_buf_alloc s sz = Some (p, s') \<and>
    (if p = 0 then s' = s \<and> (\<forall>i < length (sb_pools s). sz \<le> bp_blocksize (sb_pools s ! i) \<longrightarrow> (\<forall>b \<in> blocks (sb_pools s ! i). b + BUF_HEAD_SIZE \<in> used s))
     else p \<notin> used s \<and> used s' = insert p (used s) \<and> sz \<le> int (card (buf_room s p)) \<and> (\<forall>q \<in> used s. buf_room s p \<inter> buf_room s q = {}))"
proof -
  have inv: "bufs_inv s" by (rule buf_reachable_inv [OF assms])
  obtain p s' where a: "srv_buf_alloc s sz = Some (p, s')"
    "if p = 0 then s' = s \<and> (\<forall>i < length (sb_pools s). \<not> suitable s sz i)
     else p \<notin> used s \<and> used s' = insert p (used s) \<and>
       (\<exists>i < length (sb_pools s). sz \<le> bp_blocksize (sb_pools s ! i) \<and> p - BUF_HEAD_SIZE \<in> blocks (sb_pools s ! i) \<and> BUF_HEAD_SIZE \<le> p \<and>
          (\<forall>j < i. \<not> suitable s sz j))"
    using buf_alloc_spec [OF inv, of sz] by blast
  show ?thesis
  proof (cases "p = 0")
    case True
    then have "b + BUF_HEAD_SIZE \<in> used s" if "i < length (sb_pools s)" "sz \<le> bp_blocksize (sb_pools s ! i)" "b \<in> blocks (sb_pools s ! i)" for i b
      using a(2) that used_block [OF inv that(1,3)] by (simp add: suitable_def)
    then show ?thesis using a True by auto
  next
    case False
    note r = alloc_room [OF inv a(1) False]
    have "buf_room s p \<inter> buf_room s q = {}" if "q \<in> used s" for q
      using rooms_apart [OF inv r(2) used_is_buffer [OF that]] a(2) False that by auto
    then show ?thesis using a False r(1) by auto
  qed
qed

theorem srv_buf_alloc_safe_witness:
  "buf_reachable (one_buf 7 [100] 0) \<and>
   (\<exists>s'. srv_buf_alloc (one_buf 7 [100] 0) 20 = Some (116, s') \<and> 116 \<notin> used (one_buf 7 [100] 0) \<and>
      used s' = insert 116 (used (one_buf 7 [100] 0)) \<and> 20 \<le> int (card (buf_room (one_buf 7 [100] 0) 116)))"
  using srv_buf_alloc_safe [OF one_buf_free, of 20] one_buf_free unfolding one_buf_alloc by simp

text \<open>
  Freeing a buffer in use makes it free and nothing else; freeing it a second time, or NULL, has no
  effect.
\<close>

theorem srv_buf_free_safe:
  assumes "buf_reachable s" "p = 0 \<or> is_buffer s p"
  shows "\<exists>s'. srv_buf_free s p = Some s' \<and> used s' = used s - {p} \<and> srv_buf_free s' p = Some s'"
proof -
  have inv: "bufs_inv s" by (rule buf_reachable_inv [OF assms(1)])
  obtain s' where s': "srv_buf_free s p = Some s'" "bufs_inv s'" "same_layout s s'" "used s' = used s - {p}"
    using buf_free_spec [OF inv assms(2)] by blast
  have "p = 0 \<or> is_buffer s' p"
    using assms(2) same_placeD [OF same_layoutD [OF s'(3)]] s'(3) unfolding is_buffer_def same_layout_def by metis
  from buf_free_spec [OF s'(2) this] show ?thesis using s'(1,4) by auto
qed

theorem srv_buf_free_safe_witness:
  "buf_reachable (one_buf 7 [] 1) \<and> is_buffer (one_buf 7 [] 1) 116 \<and>
   (\<exists>s'. srv_buf_free (one_buf 7 [] 1) 116 = Some s' \<and> used s' = {} \<and> srv_buf_free s' 116 = Some s')"
proof -
  have "116 \<in> used (one_buf 7 [] 1)" by (simp add: one_buf_in_use)
  then have b: "is_buffer (one_buf 7 [] 1) 116" by (rule used_is_buffer)
  then have "116 = 0 \<or> is_buffer (one_buf 7 [] 1) 116" by simp
  from srv_buf_free_safe [OF one_buf_used this] show ?thesis using b one_buf_used by (simp add: one_buf_in_use)
qed



end
