(* ===== verification/Srv_Task.thy ===== *)
theory Srv_Task
  imports Srv_Buffer Msg_Queue
begin

text \<open>
  Tasks and messages of the docker agent: ofproto/srv_task.c, composed from the buffer pools of
  \<open>Srv_Buffer\<close> and the queues of \<open>Msg_Queue\<close>, with ofproto/srv_trace.c, which takes its tables from the
  same pools, and the start of the agent in ofproto/docker_config.c. The structures of a message
  header and of a task take 16 and 32 bytes on a 32-bit host.

  A message is a buffer with a header in front of what the client gets; the headers are a store by
  address, which \<open>Srv_Buffer\<close> justifies, since buffers in use do not overlap. \<open>None\<close> is an access outside
  an array or through a null pointer. A task has one thread, so that \<open>srv_msg_rcv\<close> is one step.
\<close>

section \<open>Tasks\<close>

abbreviation SRV_INVALID :: u32 where "SRV_INVALID \<equiv> 0xffffffff"
abbreviation (input) INVALID_TID :: int where "INVALID_TID \<equiv> - 1"
abbreviation MAX_MSQ_SIZE :: int where "MAX_MSQ_SIZE \<equiv> 500"
abbreviation MSG_HDR_SIZE :: nat where "MSG_HDR_SIZE \<equiv> 16"
abbreviation TASK_BLOCK_SIZE :: int where "TASK_BLOCK_SIZE \<equiv> 32"

record srv_task =
  st_tid :: int
  st_pName :: string
  st_fpEntry :: addr
  st_arg :: addr
  st_prio :: int
  st_isMsqEnable :: int

record task_block =
  tb_tid :: int
  tb_pName :: string
  tb_fpEntry :: addr
  tb_arg :: addr
  tb_prio :: int
  tb_isMsqEnable :: int
  tb_hTask :: u32
  tb_hMsq :: "msg_queue option"

record msg_hdr =
  mh_stid :: int
  mh_dtid :: int
  mh_bodysize :: int
  mh_reserve :: int

text \<open>The global variables of srv_task.c, the buffers, and the message headers in memory.\<close>

record agent =
  ag_bufs :: srv_bufs
  ag_tbl :: "task_block list option"
  ag_max :: int
  ag_hdr :: "addr \<Rightarrow> msg_hdr"

text \<open>The entry of a task, and its update.\<close>

definition task_at :: "agent \<Rightarrow> int \<Rightarrow> task_block option" where
  "task_at a tid = (case ag_tbl a of None \<Rightarrow> None | Some tbl \<Rightarrow>
     if tid < 0 \<or> int (length tbl) \<le> tid then None else Some (tbl ! nat tid))"

definition put_task :: "int \<Rightarrow> task_block \<Rightarrow> agent \<Rightarrow> agent" where
  "put_task tid tb a = a\<lparr>ag_tbl := map_option (\<lambda>tbl. tbl[nat tid := tb]) (ag_tbl a)\<rparr>"

text \<open>
  \<open>uninit\<close> is what the new table holds before. When the size of the table does not fit an int, the
  buffer is too small for it.
\<close>

definition srv_task_init :: "(nat \<Rightarrow> task_block) \<Rightarrow> int \<Rightarrow> agent \<Rightarrow> (int \<times> agent) option" where
  "srv_task_init uninit maxtablesize a =
     (if ag_tbl a \<noteq> None then Some (SRV_ERR, a)
      else
        let size = c_int (TASK_BLOCK_SIZE * maxtablesize)
        in case srv_buf_alloc (ag_bufs a) size of
             None \<Rightarrow> None
           | Some (p, bufs) \<Rightarrow>
               let a = a\<lparr>ag_bufs := bufs\<rparr>
               in if p = 0 then Some (SRV_ERR, a)
                  else if 0 < maxtablesize \<and> size \<noteq> TASK_BLOCK_SIZE * maxtablesize then None
                  else Some (SRV_OK, a\<lparr>ag_tbl := Some (map (\<lambda>i. (uninit i)\<lparr>tb_tid := INVALID_TID, tb_hTask := SRV_INVALID, tb_hMsq := None\<rparr>)
                                                         [0 ..< nat maxtablesize]),
                                       ag_max := maxtablesize\<rparr>))"

text \<open>Which of the allocations and initialisations for a message queue succeed, and its array before.\<close>

type_synonym msq_env = "bool \<times> bool \<times> bool \<times> bool \<times> (nat \<Rightarrow> msg_block)"

fun create_msq :: "msq_env \<Rightarrow> int \<Rightarrow> msg_queue option" where
  "create_msq (queue_ok, mutex_ok, cond_ok, array_ok, uninit) n = srv_msq_create queue_ok mutex_ok cond_ok array_ok uninit n"

definition srv_task_register :: "msq_env \<Rightarrow> srv_task option \<Rightarrow> agent \<Rightarrow> (int \<times> agent) option" where
  "srv_task_register env pstTask a =
     (case pstTask of
        None \<Rightarrow> Some (SRV_ERR, a)
      | Some t \<Rightarrow>
          if st_tid t \<ge> ag_max a \<or> st_fpEntry t = 0 then Some (SRV_ERR, a)
          else case task_at a (st_tid t) of
            None \<Rightarrow> None
          | Some tb \<Rightarrow>
              if tb_tid tb \<noteq> INVALID_TID then Some (SRV_ERR, a)
              else
                let tb = tb\<lparr>tb_tid := st_tid t, tb_pName := st_pName t, tb_fpEntry := st_fpEntry t, tb_arg := st_arg t,
                            tb_prio := st_prio t, tb_isMsqEnable := st_isMsqEnable t\<rparr>
                in if st_isMsqEnable t \<noteq> 0 then
                     let tb = tb\<lparr>tb_hMsq := create_msq env MAX_MSQ_SIZE\<rparr>
                     in if tb_hMsq tb = None then Some (SRV_ERR, put_task (st_tid t) (tb\<lparr>tb_tid := INVALID_TID\<rparr>) a)
                        else Some (SRV_OK, put_task (st_tid t) tb a)
                   else Some (SRV_OK, put_task (st_tid t) tb a))"

fun register_loop :: "(msq_env \<times> srv_task) list \<Rightarrow> agent \<Rightarrow> (int \<times> agent) option" where
  "register_loop [] a = Some (SRV_OK, a)"
| "register_loop ((env, t) # ts) a =
     (case srv_task_register env (Some t) a of
        None \<Rightarrow> None
      | Some (rc, a) \<Rightarrow> if rc \<noteq> SRV_OK then Some (SRV_ERR, a) else register_loop ts a)"

definition srv_task_register_table :: "(msq_env \<times> srv_task) list option \<Rightarrow> agent \<Rightarrow> (int \<times> agent) option" where
  "srv_task_register_table pstTaskTbl a =
     (case pstTaskTbl of
        None \<Rightarrow> Some (SRV_ERR, a)
      | Some ts \<Rightarrow> if ts = [] then Some (SRV_ERR, a) else register_loop ts a)"

text \<open>The result of \<open>pthread_create\<close>: a thread, unless it fails.\<close>

definition srv_task_create :: "task_block option \<Rightarrow> u32 option \<Rightarrow> u32" where
  "srv_task_create pstTask thd =
     (if pstTask = None then SRV_INVALID else case thd of None \<Rightarrow> SRV_INVALID | Some thdid \<Rightarrow> thdid)"

definition srv_task_start :: "u32 option \<Rightarrow> int \<Rightarrow> agent \<Rightarrow> (int \<times> agent) option" where
  "srv_task_start thd tid a =
     (if tid \<ge> ag_max a then Some (SRV_ERR, a)
      else case task_at a tid of
        None \<Rightarrow> None
      | Some tb \<Rightarrow>
          if tb_tid tb = INVALID_TID then Some (SRV_ERR, a)
          else if tb_hTask tb \<noteq> SRV_INVALID then Some (SRV_ERR, a)
          else
            let tb = tb\<lparr>tb_hTask := srv_task_create (Some tb) thd\<rparr>
            in if tb_hTask tb = SRV_INVALID then Some (SRV_ERR, put_task tid tb a)
               else Some (SRV_OK, put_task tid tb a))"

fun start_loop :: "(nat \<Rightarrow> u32 option) \<Rightarrow> nat list \<Rightarrow> agent \<Rightarrow> agent option" where
  "start_loop thds [] a = Some a"
| "start_loop thds (tid # tids) a =
     (case srv_task_start (thds tid) (int tid) a of None \<Rightarrow> None | Some (_, a) \<Rightarrow> start_loop thds tids a)"

definition srv_task_start_table :: "(nat \<Rightarrow> u32 option) \<Rightarrow> agent \<Rightarrow> (int \<times> agent) option" where
  "srv_task_start_table thds a =
     (if ag_tbl a = None then Some (SRV_ERR, a)
      else map_option (\<lambda>a. (SRV_OK, a)) (start_loop thds [0 ..< nat (ag_max a)] a))"

section \<open>Messages\<close>

definition srv_msg_alloc :: "int \<Rightarrow> agent \<Rightarrow> (addr \<times> agent) option" where
  "srv_msg_alloc sz a =
     (case srv_buf_alloc (ag_bufs a) (c_int (int MSG_HDR_SIZE + sz)) of
        None \<Rightarrow> None
      | Some (pMsg, bufs) \<Rightarrow>
          let a = a\<lparr>ag_bufs := bufs\<rparr>
          in if pMsg = 0 then Some (0, a)
             else Some (pMsg + MSG_HDR_SIZE, a\<lparr>ag_hdr := (ag_hdr a)(pMsg := (ag_hdr a pMsg)\<lparr>mh_bodysize := sz\<rparr>)\<rparr>))"

definition srv_msg_free :: "addr \<Rightarrow> agent \<Rightarrow> agent option" where
  "srv_msg_free pMsg a =
     (if pMsg = 0 then Some a
      else map_option (\<lambda>bufs. a\<lparr>ag_bufs := bufs\<rparr>) (srv_buf_free (ag_bufs a) (pMsg - MSG_HDR_SIZE)))"

definition srv_msg_snd :: "int \<Rightarrow> int \<Rightarrow> int \<Rightarrow> int \<Rightarrow> addr \<Rightarrow> agent \<Rightarrow> (int \<times> agent) option" where
  "srv_msg_snd stid dtid prio msgid pMsg a =
     (if pMsg = 0 \<or> dtid \<ge> ag_max a then Some (SRV_ERR, a)
      else
        let pHdr = pMsg - MSG_HDR_SIZE;
            a = a\<lparr>ag_hdr := (ag_hdr a)(pHdr := (ag_hdr a pHdr)\<lparr>mh_stid := stid, mh_dtid := dtid\<rparr>)\<rparr>
        in case task_at a dtid of
             None \<Rightarrow> None
           | Some tb \<Rightarrow>
               let (rc, q) = srv_msq_snd (tb_hMsq tb) prio msgid (if pHdr = 0 then None else Some pHdr)
                                         (c_int (mh_bodysize (ag_hdr a pHdr) + int MSG_HDR_SIZE))
               in Some (rc, put_task dtid (tb\<lparr>tb_hMsq := q\<rparr>) a))"

text \<open>
  The result carries the size returned and the values stored through the pointers. When the size of
  the message taken from the queue is not positive, the call fails and the message is lost.
\<close>

datatype msg_result = Msg_Error agent | Msg_Blocked | Msg_Received int int addr agent

definition srv_msg_rcv :: "int \<Rightarrow> bool \<Rightarrow> bool \<Rightarrow> agent \<Rightarrow> msg_result option" where
  "srv_msg_rcv tid pMsgid_null ppMsg_null a =
     (if tid \<ge> ag_max a \<or> pMsgid_null \<or> ppMsg_null then Some (Msg_Error a)
      else case task_at a tid of
        None \<Rightarrow> None
      | Some tb \<Rightarrow>
          (case srv_msq_rcv (tb_hMsq tb) False False of
             Rcv_Error \<Rightarrow> Some (Msg_Error a)
           | Rcv_Blocked \<Rightarrow> Some Msg_Blocked
           | Rcv_Message m q \<Rightarrow>
               let a = put_task tid (tb\<lparr>tb_hMsq := Some q\<rparr>) a
               in if mb_size m \<le> 0 then Some (Msg_Error a)
                  else Some (Msg_Received (mh_bodysize (ag_hdr a (mb_body m))) (mb_id m) (mb_body m + MSG_HDR_SIZE) a)))"

definition srv_msg_getsrctid :: "agent \<Rightarrow> addr \<Rightarrow> int" where
  "srv_msg_getsrctid a pMsg = (if pMsg = 0 then INVALID_TID else mh_stid (ag_hdr a (pMsg - MSG_HDR_SIZE)))"

definition srv_get_msg_num :: "int \<Rightarrow> agent \<Rightarrow> int option" where
  "srv_get_msg_num tid a =
     (if tid \<ge> ag_max a then Some SRV_ERR else map_option (\<lambda>tb. srv_msq_num (tb_hMsq tb)) (task_at a tid))"

section \<open>Queues of the tasks\<close>

definition queue_of :: "agent \<Rightarrow> int \<Rightarrow> msg_block list" where
  "queue_of a tid = (case task_at a tid of None \<Rightarrow> [] | Some tb \<Rightarrow> (case tb_hMsq tb of None \<Rightarrow> [] | Some q \<Rightarrow> msq_contents q))"

text \<open>The table has the size stored, and every queue is consistent.\<close>

definition tasks_ok :: "agent \<Rightarrow> bool" where
  "tasks_ok a \<longleftrightarrow> (\<exists>tbl. ag_tbl a = Some tbl \<and> ag_max a = int (length tbl)) \<and>
     (\<forall>tid tb q. task_at a tid = Some tb \<longrightarrow> tb_hMsq tb = Some q \<longrightarrow> msq_inv q) \<and>
     (\<forall>tid tb. task_at a tid = Some tb \<longrightarrow> tb_tid tb = INVALID_TID \<longrightarrow> tb_hMsq tb = None)"

lemma task_at_simps [simp]:
  "task_at (ag_bufs_update f a) tid = task_at a tid" "task_at (ag_hdr_update g a) tid = task_at a tid"
  by (simp_all add: task_at_def)

lemma queue_of_simps [simp]: "queue_of (ag_bufs_update f a) = queue_of a" "queue_of (ag_hdr_update g a) = queue_of a"
  by (simp_all add: queue_of_def fun_eq_iff)

lemma put_task_simps [simp]:
  "ag_bufs (put_task tid tb a) = ag_bufs a" "ag_max (put_task tid tb a) = ag_max a" "ag_hdr (put_task tid tb a) = ag_hdr a"
  by (simp_all add: put_task_def)

lemma task_at_put:
  assumes "task_at a tid = Some tb0"
  shows "task_at (put_task tid tb a) = (task_at a)(tid := Some tb)"
  using assms by (auto simp: task_at_def put_task_def fun_eq_iff nth_list_update split: option.splits if_splits)

lemma queue_of_put:
  assumes "task_at a tid = Some tb0"
  shows "queue_of (put_task tid tb a) = (queue_of a)(tid := (case tb_hMsq tb of None \<Rightarrow> [] | Some q \<Rightarrow> msq_contents q))"
  by (simp add: queue_of_def task_at_put [OF assms] fun_eq_iff)

lemma tasks_okD:
  assumes "tasks_ok a"
  shows "0 \<le> tid \<Longrightarrow> tid < ag_max a \<Longrightarrow> \<exists>tb. task_at a tid = Some tb"
    "task_at a tid = Some tb \<Longrightarrow> tb_hMsq tb = Some q \<Longrightarrow> msq_inv q"
    "task_at a tid = Some tb \<Longrightarrow> tb_tid tb = INVALID_TID \<Longrightarrow> tb_hMsq tb = None"
    "ag_tbl a \<noteq> None"
  using assms by (auto simp: tasks_ok_def task_at_def)

lemma put_task_ok:
  assumes "tasks_ok a" "task_at a tid = Some tb0" "\<And>q. tb_hMsq tb = Some q \<Longrightarrow> msq_inv q" "tb_tid tb = INVALID_TID \<Longrightarrow> tb_hMsq tb = None"
  shows "tasks_ok (put_task tid tb a)"
proof -
  obtain tbl where tbl: "ag_tbl a = Some tbl" "ag_max a = int (length tbl)" using assms(1) by (auto simp: tasks_ok_def)
  then have "ag_tbl (put_task tid tb a) = Some (tbl[nat tid := tb])" "ag_max (put_task tid tb a) = int (length (tbl[nat tid := tb]))"
    by (simp_all add: put_task_def)
  then show ?thesis using tasks_okD(2,3) [OF assms(1)] assms(3,4)
    unfolding tasks_ok_def task_at_put [OF assms(2)] by auto
qed

lemma put_queue_ok:
  assumes "tasks_ok a" "task_at a tid = Some tb" "tb_hMsq tb = Some q" "msq_inv q'"
  shows "tasks_ok (put_task tid (tb\<lparr>tb_hMsq := Some q'\<rparr>) a)"
  using assms(3,4) tasks_okD(3) [OF assms(1,2)] by (intro put_task_ok [OF assms(1,2)]) auto

lemma tasks_ok_simps [simp]: "tasks_ok (ag_bufs_update f a) = tasks_ok a" "tasks_ok (ag_hdr_update g a) = tasks_ok a"
  by (simp_all add: tasks_ok_def)

text \<open>The queue operations, through \<open>msq_add\<close> and \<open>msq_take\<close>.\<close>

lemma snd_eq:
  "msq_inv q \<Longrightarrow> srv_msq_snd (Some q) prio i (Some b) n =
    (if msq_count q + 1 = mq_size q then (SRV_ERR, Some q) else (SRV_OK, Some (msq_add \<lparr>mb_id = i, mb_size = n, mb_body = b\<rparr> q)))"
  by (simp add: srv_msq_snd_def Let_def msq_full msq_add_def)

lemma rcv_eq:
  assumes "msq_inv q"
  shows "srv_msq_rcv (Some q) False False = (case msq_contents q of [] \<Rightarrow> Rcv_Blocked | m # _ \<Rightarrow> Rcv_Message m (snd (msq_take q)))"
proof (cases "0 < msq_count q")
  case True
  then show ?thesis using assms msq_take_spec(2) [OF assms True, of "fst (msq_take q)" "snd (msq_take q)"]
    by (simp add: srv_msq_rcv_def msq_empty case_prod_beta)
next
  case False
  then have "msq_contents q = []" using length_msq_contents [of q] by simp
  then show ?thesis using False assms by (simp add: srv_msq_rcv_def msq_empty)
qed

section \<open>The agent and its clients\<close>

text \<open>
  What a client knows of a message: its source, identifier, address and size. The system records
  which messages the clients hold, with the sizes they asked for or were told, and for every task the
  messages sent to it and received by it.
\<close>

type_synonym message = "int \<times> int \<times> addr \<times> int"

record world =
  w_agent :: agent
  w_owned :: "addr \<Rightarrow> int option"
  w_sent :: "int \<Rightarrow> message list"
  w_got :: "int \<Rightarrow> message list"

datatype agent_op = Register_Task msq_env srv_task | Start_Task "u32 option" int | Alloc_Msg int | Free_Msg addr
  | Send_Msg int int int int addr | Receive_Msg int

fun world_exec :: "world \<Rightarrow> agent_op \<Rightarrow> world option" where
  "world_exec w (Register_Task env t) = map_option (\<lambda>(_, a). w\<lparr>w_agent := a\<rparr>) (srv_task_register env (Some t) (w_agent w))"
| "world_exec w (Start_Task thd tid) = map_option (\<lambda>(_, a). w\<lparr>w_agent := a\<rparr>) (srv_task_start thd tid (w_agent w))"
| "world_exec w (Alloc_Msg sz) =
     map_option (\<lambda>(p, a). w\<lparr>w_agent := a, w_owned := if p = 0 then w_owned w else (w_owned w)(p \<mapsto> sz)\<rparr>) (srv_msg_alloc sz (w_agent w))"
| "world_exec w (Free_Msg p) = map_option (\<lambda>a. w\<lparr>w_agent := a, w_owned := (w_owned w)(p := None)\<rparr>) (srv_msg_free p (w_agent w))"
| "world_exec w (Send_Msg stid dtid prio msgid p) =
     map_option (\<lambda>(rc, a). if rc = SRV_OK
                   then w\<lparr>w_agent := a, w_owned := (w_owned w)(p := None),
                          w_sent := (w_sent w)(dtid := w_sent w dtid @ [(stid, msgid, p, the (w_owned w p))])\<rparr>
                   else w\<lparr>w_agent := a\<rparr>)
       (srv_msg_snd stid dtid prio msgid p (w_agent w))"
| "world_exec w (Receive_Msg tid) =
     map_option (\<lambda>r. case r of
           Msg_Error a \<Rightarrow> w\<lparr>w_agent := a\<rparr>
         | Msg_Blocked \<Rightarrow> w
         | Msg_Received n i p a \<Rightarrow>
             w\<lparr>w_agent := a, w_owned := (w_owned w)(p \<mapsto> n),
               w_got := (w_got w)(tid := w_got w tid @ [(srv_msg_getsrctid a p, i, p, n)])\<rparr>)
       (srv_msg_rcv tid False False (w_agent w))"

abbreviation MAX_BODY :: int where "MAX_BODY \<equiv> 2147483631"

text \<open>Clients name tasks by numbers that are not negative, and send and free messages that they hold.\<close>

fun world_allowed :: "world \<Rightarrow> agent_op \<Rightarrow> bool" where
  "world_allowed w (Register_Task env t) \<longleftrightarrow> 0 \<le> st_tid t"
| "world_allowed w (Start_Task thd tid) \<longleftrightarrow> 0 \<le> tid"
| "world_allowed w (Alloc_Msg sz) \<longleftrightarrow> 0 \<le> sz \<and> sz \<le> MAX_BODY"
| "world_allowed w (Free_Msg p) \<longleftrightarrow> p = 0 \<or> w_owned w p \<noteq> None"
| "world_allowed w (Send_Msg stid dtid prio msgid p) \<longleftrightarrow> 0 \<le> dtid \<and> (p = 0 \<or> w_owned w p \<noteq> None)"
| "world_allowed w (Receive_Msg tid) \<longleftrightarrow> 0 \<le> tid"

definition world_start :: "world \<Rightarrow> bool" where
  "world_start w \<longleftrightarrow> w_owned w = (\<lambda>_. None) \<and> w_sent w = (\<lambda>_. []) \<and> w_got w = (\<lambda>_. []) \<and>
     (\<exists>uninit n a. buf_reachable (ag_bufs a) \<and> 0 \<le> n \<and> ag_tbl a = None \<and> srv_task_init uninit n a = Some (SRV_OK, w_agent w))"

definition world_reachable :: "world \<Rightarrow> bool" where
  "world_reachable = reachable_by world_start world_allowed world_exec"

text \<open>A buffer in use with a message of some size, and what a queue entry says of its message.\<close>

definition msg_ok :: "agent \<Rightarrow> addr \<Rightarrow> int \<Rightarrow> bool" where
  "msg_ok a h n \<longleftrightarrow> h \<in> used (ag_bufs a) \<and> mh_bodysize (ag_hdr a h) = n \<and> 0 \<le> n \<and> n \<le> MAX_BODY \<and>
     int MSG_HDR_SIZE + n \<le> int (card (buf_room (ag_bufs a) h))"

definition pending :: "agent \<Rightarrow> msg_block \<Rightarrow> message" where
  "pending a m = (mh_stid (ag_hdr a (mb_body m)), mb_id m, mb_body m + MSG_HDR_SIZE, mh_bodysize (ag_hdr a (mb_body m)))"

text \<open>
  The invariant of the messages: held messages and queue entries are buffers in use, no message is in
  two places, and what was sent to a task is what it received and what its queue holds.
\<close>

definition msgs_ok :: "agent \<Rightarrow> (addr \<Rightarrow> int option) \<Rightarrow> (int \<Rightarrow> msg_block list) \<Rightarrow> bool" where
  "msgs_ok a owned Q \<longleftrightarrow>
     (\<forall>p n. owned p = Some n \<longrightarrow> MSG_HDR_SIZE \<le> p \<and> msg_ok a (p - MSG_HDR_SIZE) n) \<and>
     (\<forall>d. \<forall>m \<in> set (Q d). msg_ok a (mb_body m) (mb_size m - int MSG_HDR_SIZE) \<and> mh_dtid (ag_hdr a (mb_body m)) = d \<and>
        owned (mb_body m + MSG_HDR_SIZE) = None) \<and>
     (\<forall>d. distinct (map mb_body (Q d)))"

definition world_inv :: "world \<Rightarrow> bool" where
  "world_inv w \<longleftrightarrow> bufs_inv (ag_bufs (w_agent w)) \<and> tasks_ok (w_agent w) \<and>
     msgs_ok (w_agent w) (w_owned w) (queue_of (w_agent w)) \<and>
     (\<forall>d. w_sent w d = w_got w d @ map (pending (w_agent w)) (queue_of (w_agent w) d))"

lemma used_ge: "p \<in> used s \<Longrightarrow> BUF_HEAD_SIZE \<le> p"
  by (auto simp: used_def)

lemma msgs_okD:
  assumes "msgs_ok a owned Q"
  shows "owned p = Some n \<Longrightarrow> MSG_HDR_SIZE \<le> p \<and> msg_ok a (p - MSG_HDR_SIZE) n"
    "m \<in> set (Q d) \<Longrightarrow> msg_ok a (mb_body m) (mb_size m - int MSG_HDR_SIZE)"
    "m \<in> set (Q d) \<Longrightarrow> mh_dtid (ag_hdr a (mb_body m)) = d"
    "m \<in> set (Q d) \<Longrightarrow> owned (mb_body m + MSG_HDR_SIZE) = None"
    "distinct (map mb_body (Q d))"
  using assms unfolding msgs_ok_def by blast+

text \<open>Changes of the headers and buffers that leave the messages alone.\<close>

lemma msgs_frame:
  assumes "msgs_ok a owned Q"
    and "\<And>h. h \<in> used (ag_bufs a) \<Longrightarrow> h \<in> used (ag_bufs a') \<and> ag_hdr a' h = ag_hdr a h \<and>
      buf_room (ag_bufs a') h = buf_room (ag_bufs a) h"
  shows "msgs_ok a' owned Q" "m \<in> set (Q d) \<Longrightarrow> pending a' m = pending a m"
proof -
  have m: "msg_ok a' h n" if "msg_ok a h n" for h n using that assms(2) [of h] by (simp add: msg_ok_def)
  have h: "ag_hdr a' (mb_body m) = ag_hdr a (mb_body m)" if "m \<in> set (Q d)" for m d
    using msgs_okD(2) [OF assms(1) that] assms(2) by (simp add: msg_ok_def)
  show "msgs_ok a' owned Q" unfolding msgs_ok_def using msgs_okD [OF assms(1)] m h by metis
  show "m \<in> set (Q d) \<Longrightarrow> pending a' m = pending a m" using h by (simp add: pending_def)
qed

lemma world_alloc:
  assumes inv: "world_inv w" and sz: "0 \<le> sz" "sz \<le> MAX_BODY"
  shows "\<exists>w'. world_exec w (Alloc_Msg sz) = Some w' \<and> world_inv w'"
proof -
  let ?a = "w_agent w"
  have i: "bufs_inv (ag_bufs ?a)" "tasks_ok ?a" "msgs_ok ?a (w_owned w) (queue_of ?a)"
    "\<And>d. w_sent w d = w_got w d @ map (pending ?a) (queue_of ?a d)" using inv by (simp_all add: world_inv_def)
  obtain h bufs where b: "srv_buf_alloc (ag_bufs ?a) (c_int (int MSG_HDR_SIZE + sz)) = Some (h, bufs)" "bufs_inv bufs" "same_layout (ag_bufs ?a) bufs"
    "if h = 0 then bufs = ag_bufs ?a else h \<notin> used (ag_bufs ?a) \<and> used bufs = insert h (used (ag_bufs ?a))"
    using buf_alloc_spec [OF i(1), of "c_int (int MSG_HDR_SIZE + sz)"] by auto
  show ?thesis
  proof (cases "h = 0")
    case True
    then have "world_exec w (Alloc_Msg sz) = Some w" using b(1,4) by (simp add: srv_msg_alloc_def)
    then show ?thesis using inv by blast
  next
    case False
    let ?a' = "?a\<lparr>ag_bufs := bufs, ag_hdr := (ag_hdr ?a)(h := (ag_hdr ?a h)\<lparr>mh_bodysize := sz\<rparr>)\<rparr>"
    let ?w = "w\<lparr>w_agent := ?a', w_owned := (w_owned w)(h + MSG_HDR_SIZE \<mapsto> sz)\<rparr>"
    have e: "world_exec w (Alloc_Msg sz) = Some ?w" using b(1) False by (simp add: srv_msg_alloc_def)
    have new: "h \<notin> used (ag_bufs ?a)" "used bufs = insert h (used (ag_bufs ?a))" using b(4) False by simp_all
    have keep: "x \<in> used (ag_bufs ?a') \<and> ag_hdr ?a' x = ag_hdr ?a x \<and> buf_room (ag_bufs ?a') x = buf_room (ag_bufs ?a) x"
      if "x \<in> used (ag_bufs ?a)" for x
      using that new same_layout_room [OF i(1) b(3) used_is_buffer [OF that]] by auto
    note f = msgs_frame [OF i(3), of ?a', OF keep]
    have "buf_room bufs h = buf_room (ag_bufs ?a) h" by (rule same_layout_room [OF i(1) b(3) alloc_room(2) [OF i(1) b(1) False]])
    then have "msg_ok ?a' h sz" using new sz alloc_room(1) [OF i(1) b(1) False] by (simp add: msg_ok_def)
    moreover have "mb_body m \<noteq> h" if "m \<in> set (queue_of ?a d)" for m d
      using msgs_okD(2) [OF i(3) that] new(1) by (auto simp: msg_ok_def)
    ultimately have "msgs_ok ?a' ((w_owned w)(h + MSG_HDR_SIZE \<mapsto> sz)) (queue_of ?a)"
      using msgs_okD [OF f(1)] unfolding msgs_ok_def by auto
    moreover have "map (pending ?a') (queue_of ?a d) = map (pending ?a) (queue_of ?a d)" for d using f(2) by auto
    ultimately have "world_inv ?w" using i b(2) unfolding world_inv_def by simp
    then show ?thesis using e by blast
  qed
qed

lemma world_free:
  assumes inv: "world_inv w" and p: "p = 0 \<or> w_owned w p \<noteq> None"
  shows "\<exists>w'. world_exec w (Free_Msg p) = Some w' \<and> world_inv w'"
proof (cases "p = 0")
  case True
  have "w_owned w 0 = None" using inv msgs_okD(1) [of "w_agent w" "w_owned w" "queue_of (w_agent w)" 0] by (cases "w_owned w 0") (auto simp: world_inv_def)
  then have "(w_owned w)(0 := None) = w_owned w" by auto
  then have "world_exec w (Free_Msg p) = Some w" using True by (simp add: srv_msg_free_def)
  then show ?thesis using inv by blast
next
  case False
  let ?a = "w_agent w"
  have i: "bufs_inv (ag_bufs ?a)" "tasks_ok ?a" "msgs_ok ?a (w_owned w) (queue_of ?a)"
    "\<And>d. w_sent w d = w_got w d @ map (pending ?a) (queue_of ?a d)" using inv by (simp_all add: world_inv_def)
  obtain n where n: "w_owned w p = Some n" using p False by auto
  let ?h = "p - MSG_HDR_SIZE"
  have h: "MSG_HDR_SIZE \<le> p" "?h \<in> used (ag_bufs ?a)" using msgs_okD(1) [OF i(3) n] by (simp_all add: msg_ok_def)
  obtain bufs where b: "srv_buf_free (ag_bufs ?a) ?h = Some bufs" "bufs_inv bufs" "used bufs = used (ag_bufs ?a) - {?h}"
    "same_layout (ag_bufs ?a) bufs"
    using buf_free_spec [OF i(1), of ?h] used_is_buffer [OF h(2)] by blast
  let ?a' = "?a\<lparr>ag_bufs := bufs\<rparr>" and ?own = "(w_owned w)(p := None)"
  have e: "world_exec w (Free_Msg p) = Some (w\<lparr>w_agent := ?a', w_owned := ?own\<rparr>)" using b(1) False by (simp add: srv_msg_free_def)
  have q: "mb_body m \<noteq> ?h" if "m \<in> set (queue_of ?a d)" for m d
    using msgs_okD(4) [OF i(3) that] n h(1) by auto
  have o: "x - MSG_HDR_SIZE \<noteq> ?h" if "?own x = Some k" for x k
    using that msgs_okD(1) [OF i(3), of x k] h(1) by (auto split: if_splits)
  have m: "msg_ok ?a' x k" if "msg_ok ?a x k" "x \<noteq> ?h" for x k
    using that b(3) same_layout_room [OF i(1) b(4) used_is_buffer, of x] by (simp add: msg_ok_def)
  have "msgs_ok ?a' ?own (queue_of ?a)"
    unfolding msgs_ok_def
  proof (intro conjI allI ballI impI)
    show "MSG_HDR_SIZE \<le> x" "msg_ok ?a' (x - MSG_HDR_SIZE) k" if "?own x = Some k" for x k
      using msgs_okD(1) [OF i(3), of x k] that m o [OF that] by (auto split: if_splits)
    show "msg_ok ?a' (mb_body x) (mb_size x - int MSG_HDR_SIZE)" "mh_dtid (ag_hdr ?a' (mb_body x)) = d" "?own (mb_body x + MSG_HDR_SIZE) = None"
      if "x \<in> set (queue_of ?a d)" for d x
      using msgs_okD(2,3,4) [OF i(3) that] m q [OF that] by auto
  qed (rule msgs_okD(5) [OF i(3)])
  moreover have "pending ?a' = pending ?a" by (simp add: pending_def fun_eq_iff)
  ultimately have "world_inv (w\<lparr>w_agent := ?a', w_owned := ?own\<rparr>)" using i b(2) unfolding world_inv_def by simp
  then show ?thesis using e by blast
qed

text \<open>Addressing a message that a client holds.\<close>

lemma address_message:
  fixes stid dtid :: int
  assumes ok: "msgs_ok a owned Q" and n: "owned p = Some n"
  defines "h \<equiv> p - MSG_HDR_SIZE"
  defines "a1 \<equiv> a\<lparr>ag_hdr := (ag_hdr a)(h := (ag_hdr a h)\<lparr>mh_stid := stid, mh_dtid := dtid\<rparr>)\<rparr>"
  shows "msgs_ok a1 owned Q" "m \<in> set (Q d) \<Longrightarrow> pending a1 m = pending a m" "msg_ok a1 h n"
    "p = h + MSG_HDR_SIZE" "h \<noteq> 0"
proof -
  have h: "MSG_HDR_SIZE \<le> p" "msg_ok a h n" using msgs_okD(1) [OF ok n] by (simp_all add: h_def)
  show p: "p = h + MSG_HDR_SIZE" using h(1) by (simp add: h_def)
  show "h \<noteq> 0" using h(2) used_ge [of h "ag_bufs a"] by (simp add: msg_ok_def)
  have q: "mb_body m \<noteq> h" if "m \<in> set (Q d)" for m d using msgs_okD(4) [OF ok that] n p by auto
  have m: "msg_ok a1 x k = msg_ok a x k" for x k by (simp add: msg_ok_def a1_def)
  then show "msg_ok a1 h n" using h(2) by simp
  show "m \<in> set (Q d) \<Longrightarrow> pending a1 m = pending a m" using q by (simp add: pending_def a1_def)
  have "ag_hdr a1 (mb_body x) = ag_hdr a (mb_body x)" if "x \<in> set (Q d)" for x d using q [OF that] by (simp add: a1_def)
  then show "msgs_ok a1 owned Q" unfolding msgs_ok_def m using msgs_okD [OF ok] by metis
qed

lemma queue_message:
  assumes ok: "msgs_ok a owned Q" and n: "owned (h + MSG_HDR_SIZE) = Some n" and d: "mh_dtid (ag_hdr a h) = d"
    and m: "mb_body m = h" "mb_size m = n + int MSG_HDR_SIZE"
  shows "msgs_ok a (owned(h + MSG_HDR_SIZE := None)) (Q(d := Q d @ [m]))"
proof -
  let ?own = "owned(h + MSG_HDR_SIZE := None)" and ?Q = "Q(d := Q d @ [m])"
  have h: "msg_ok a h n" using msgs_okD(1) [OF ok n] by simp
  have q: "mb_body x \<noteq> h" if "x \<in> set (Q e)" for x e using msgs_okD(4) [OF ok that] n by auto
  show ?thesis unfolding msgs_ok_def
  proof (intro conjI allI ballI impI)
    show "MSG_HDR_SIZE \<le> x" "msg_ok a (x - MSG_HDR_SIZE) k" if "?own x = Some k" for x k
      using msgs_okD(1) [OF ok, of x k] that by (auto split: if_splits)
    show "msg_ok a (mb_body x) (mb_size x - int MSG_HDR_SIZE)" "mh_dtid (ag_hdr a (mb_body x)) = e" "?own (mb_body x + MSG_HDR_SIZE) = None"
      if x: "x \<in> set (?Q e)" for e x
    proof -
      have c: "x = m \<and> e = d \<or> x \<in> set (Q e)" using x by (auto split: if_splits)
      then show "msg_ok a (mb_body x) (mb_size x - int MSG_HDR_SIZE)" using msgs_okD(2) [OF ok] h m by auto
      show "mh_dtid (ag_hdr a (mb_body x)) = e" using c msgs_okD(3) [OF ok] d m by auto
      show "?own (mb_body x + MSG_HDR_SIZE) = None" using c msgs_okD(4) [OF ok] m by auto
    qed
    show "distinct (map mb_body (?Q e))" for e
    proof -
      have "h \<notin> set (map mb_body (Q d))" using q [of _ d] by (auto simp: image_iff)
      then show ?thesis using msgs_okD(5) [OF ok, of e] msgs_okD(5) [OF ok, of d] m(1) by simp
    qed
  qed
qed

lemma take_message:
  assumes ok: "msgs_ok a owned Q" and q: "Q d = m # ms"
  shows "msgs_ok a (owned(mb_body m + MSG_HDR_SIZE \<mapsto> mb_size m - int MSG_HDR_SIZE)) (Q(d := ms))"
proof -
  let ?own = "owned(mb_body m + MSG_HDR_SIZE \<mapsto> mb_size m - int MSG_HDR_SIZE)" and ?Q = "Q(d := ms)"
  have m: "m \<in> set (Q d)" using q by simp
  have sub: "x \<in> set (Q e) \<and> mb_body x \<noteq> mb_body m" if "x \<in> set (?Q e)" for x e
  proof (cases "e = d")
    case True
    then have "x \<in> set ms" using that by simp
    then show ?thesis using True q msgs_okD(5) [OF ok, of d] by (auto simp: image_iff)
  next
    case False
    then have x: "x \<in> set (Q e)" using that by simp
    then show ?thesis using msgs_okD(3) [OF ok m] msgs_okD(3) [OF ok x] False by auto
  qed
  show ?thesis unfolding msgs_ok_def
  proof (intro conjI allI ballI impI)
    show "MSG_HDR_SIZE \<le> x" "msg_ok a (x - MSG_HDR_SIZE) k" if "?own x = Some k" for x k
      using msgs_okD(1) [OF ok, of x k] that msgs_okD(2) [OF ok m] by (auto split: if_splits)
    show "msg_ok a (mb_body x) (mb_size x - int MSG_HDR_SIZE)" "mh_dtid (ag_hdr a (mb_body x)) = e" "?own (mb_body x + MSG_HDR_SIZE) = None"
      if "x \<in> set (?Q e)" for e x
      using msgs_okD(2-4) [OF ok] sub [OF that] by auto
    show "distinct (map mb_body (?Q e))" for e using msgs_okD(5) [OF ok, of e] msgs_okD(5) [OF ok, of d] q by auto
  qed
qed

lemma srv_msg_snd_eq:
  assumes "dtid < ag_max a" "p = h + MSG_HDR_SIZE" "h \<noteq> 0" "task_at a dtid = Some tb" "msg_ok a h n"
  shows "srv_msg_snd stid dtid prio msgid p a =
    (case srv_msq_snd (tb_hMsq tb) prio msgid (Some h) (n + int MSG_HDR_SIZE) of
       (rc, q) \<Rightarrow> Some (rc, put_task dtid (tb\<lparr>tb_hMsq := q\<rparr>)
         (a\<lparr>ag_hdr := (ag_hdr a)(h := (ag_hdr a h)\<lparr>mh_stid := stid, mh_dtid := dtid\<rparr>)\<rparr>)))"
  using assms by (simp add: srv_msg_snd_def msg_ok_def Let_def)

lemma world_send:
  assumes inv: "world_inv w" and d: "0 \<le> dtid" and p: "p = 0 \<or> w_owned w p \<noteq> None"
  shows "\<exists>w'. world_exec w (Send_Msg stid dtid prio msgid p) = Some w' \<and> world_inv w'"
proof (cases "p = 0 \<or> dtid \<ge> ag_max (w_agent w)")
  case True
  then have "world_exec w (Send_Msg stid dtid prio msgid p) = Some w" by (simp add: srv_msg_snd_def)
  then show ?thesis using inv by blast
next
  case False
  let ?a = "w_agent w" and ?h = "p - MSG_HDR_SIZE"
  have i: "bufs_inv (ag_bufs ?a)" "tasks_ok ?a" "msgs_ok ?a (w_owned w) (queue_of ?a)"
    "\<And>d. w_sent w d = w_got w d @ map (pending ?a) (queue_of ?a d)" using inv by (simp_all add: world_inv_def)
  obtain n where n: "w_owned w p = Some n" using p False by auto
  define a1 where "a1 = ?a\<lparr>ag_hdr := (ag_hdr ?a)(?h := (ag_hdr ?a ?h)\<lparr>mh_stid := stid, mh_dtid := dtid\<rparr>)\<rparr>"
  note am = address_message(1-3) [where stid = stid and dtid = dtid, OF i(3) n, folded a1_def] address_message(4,5) [OF i(3) n]
  have same: "ag_bufs a1 = ag_bufs ?a" "task_at a1 = task_at ?a" "queue_of a1 = queue_of ?a" "tasks_ok a1" using i(2) by (simp_all add: a1_def fun_eq_iff)
  have pend: "map (pending a1) (queue_of ?a d) = map (pending ?a) (queue_of ?a d)" for d using am(2) by auto
  obtain tb where tb: "task_at ?a dtid = Some tb" using tasks_okD(1) [OF i(2) d] False by auto
  have ok: "msg_ok ?a ?h n" using am(3) by (simp add: msg_ok_def a1_def)
  have snd: "srv_msg_snd stid dtid prio msgid p ?a = (case srv_msq_snd (tb_hMsq tb) prio msgid (Some ?h) (n + int MSG_HDR_SIZE) of
      (rc, q) \<Rightarrow> Some (rc, put_task dtid (tb\<lparr>tb_hMsq := q\<rparr>) a1))"
    using srv_msg_snd_eq [OF _ am(4,5) tb ok] False unfolding a1_def by simp
  show ?thesis
  proof (cases "\<exists>q. tb_hMsq tb = Some q \<and> msq_count q + 1 \<noteq> mq_size q")
    case False
    have "srv_msq_snd (tb_hMsq tb) prio msgid (Some ?h) (n + int MSG_HDR_SIZE) = (SRV_ERR, tb_hMsq tb)"
    proof (cases "tb_hMsq tb")
      case (Some q)
      then show ?thesis using False tasks_okD(2) [OF i(2) tb Some] by (simp add: snd_eq)
    qed (simp add: srv_msq_snd_def)
    then have e: "world_exec w (Send_Msg stid dtid prio msgid p) = Some (w\<lparr>w_agent := put_task dtid tb a1\<rparr>)" using snd by simp
    have "put_task dtid tb a1 = a1" using tb same(2) unfolding put_task_def task_at_def a1_def by (auto split: option.splits if_splits)
    then have "world_inv (w\<lparr>w_agent := put_task dtid tb a1\<rparr>)" using i am(1) pend same unfolding world_inv_def by simp
    then show ?thesis using e by blast
  next
    case True
    then obtain q where q: "tb_hMsq tb = Some q" "msq_count q + 1 \<noteq> mq_size q" by blast
    have qi: "msq_inv q" by (rule tasks_okD(2) [OF i(2) tb q(1)])
    let ?m = "\<lparr>mb_id = msgid, mb_size = n + int MSG_HDR_SIZE, mb_body = ?h\<rparr>"
    let ?a2 = "put_task dtid (tb\<lparr>tb_hMsq := Some (msq_add ?m q)\<rparr>) a1" and ?own = "(w_owned w)(p := None)"
    have room: "msq_count q + 1 < mq_size q" using q(2) msq_count_range [OF qi] by simp
    note add = msq_add_spec [OF qi room, of ?m]
    have Q: "queue_of ?a2 = (queue_of ?a)(dtid := queue_of ?a dtid @ [?m])"
      using queue_of_put [of a1 dtid tb] tb same(2,3) q(1) add(2) by (simp add: queue_of_def)
    have e: "world_exec w (Send_Msg stid dtid prio msgid p) = Some (w\<lparr>w_agent := ?a2, w_owned := ?own,
        w_sent := (w_sent w)(dtid := w_sent w dtid @ [(stid, msgid, p, n)])\<rparr>)"
      using snd q snd_eq [OF qi] n by simp
    have "msgs_ok a1 ?own (queue_of ?a2)"
      using queue_message [OF am(1), of ?h n dtid ?m] am(4) n unfolding Q by (simp add: a1_def)
    moreover have hd: "msg_ok ?a2 = msg_ok a1" "pending ?a2 = pending a1" "ag_hdr ?a2 = ag_hdr a1" by (simp_all add: msg_ok_def pending_def fun_eq_iff)
    ultimately have "msgs_ok ?a2 ?own (queue_of ?a2)" unfolding msgs_ok_def by simp
    moreover have "tasks_ok ?a2" using put_queue_ok [OF same(4) _ q(1) add(1)] tb same(2) by simp
    moreover have "pending a1 ?m = (stid, msgid, p, n)" using am(3,4) by (simp add: pending_def msg_ok_def a1_def)
    then have "((w_sent w)(dtid := w_sent w dtid @ [(stid, msgid, p, n)])) d = w_got w d @ map (pending ?a2) (queue_of ?a2 d)" for d
      unfolding hd(2) Q by (cases "d = dtid") (simp_all add: i(4) pend del: map_eq_conv)
    ultimately have "world_inv (w\<lparr>w_agent := ?a2, w_owned := ?own, w_sent := (w_sent w)(dtid := w_sent w dtid @ [(stid, msgid, p, n)])\<rparr>)"
      using i(1) same(1) unfolding world_inv_def by simp
    then show ?thesis using e by blast
  qed
qed

lemma receive_empty:
  assumes inv: "world_inv w" and t: "0 \<le> tid" and e: "queue_of (w_agent w) tid = []"
  shows "srv_msg_rcv tid False False (w_agent w) \<in> {Some Msg_Blocked, Some (Msg_Error (w_agent w))}"
proof (cases "tid < ag_max (w_agent w)")
  case True
  have ok: "tasks_ok (w_agent w)" using inv by (simp add: world_inv_def)
  obtain tb where tb: "task_at (w_agent w) tid = Some tb" using tasks_okD(1) [OF ok t True] by blast
  show ?thesis
  proof (cases "tb_hMsq tb")
    case None
    then show ?thesis using True tb by (simp add: srv_msg_rcv_def srv_msq_rcv_def)
  next
    case (Some q)
    then have "msq_contents q = []" using e tb by (simp add: queue_of_def)
    then show ?thesis using True tb Some rcv_eq [OF tasks_okD(2) [OF ok tb Some]] by (simp add: srv_msg_rcv_def)
  qed
qed (simp add: srv_msg_rcv_def)

lemma receive_message:
  assumes inv: "world_inv w" and q: "queue_of (w_agent w) tid = m # ms" and p: "pending (w_agent w) m = (stid, i, p, n)"
  shows "\<exists>a'. srv_msg_rcv tid False False (w_agent w) = Some (Msg_Received n i p a') \<and> srv_msg_getsrctid a' p = stid \<and>
    world_inv (w\<lparr>w_agent := a', w_owned := (w_owned w)(p \<mapsto> n), w_got := (w_got w)(tid := w_got w tid @ [(stid, i, p, n)])\<rparr>)"
proof -
  let ?a = "w_agent w"
  have i: "bufs_inv (ag_bufs ?a)" "tasks_ok ?a" "msgs_ok ?a (w_owned w) (queue_of ?a)"
    "\<And>d. w_sent w d = w_got w d @ map (pending ?a) (queue_of ?a d)" using inv by (simp_all add: world_inv_def)
  obtain tb q where tb: "task_at ?a tid = Some tb" "tb_hMsq tb = Some q" "msq_contents q = m # ms"
    using q by (auto simp: queue_of_def split: option.splits)
  have max: "tid < ag_max ?a" using tb(1) i(2) by (auto simp: task_at_def tasks_ok_def split: if_splits)
  have qi: "msq_inv q" by (rule tasks_okD(2) [OF i(2) tb(1,2)])
  have pos: "0 < msq_count q" using tb(3) length_msq_contents [of q] by simp
  obtain q' where q': "msq_take q = (m, q')" using tb(3) msq_take_spec(2) [OF qi pos] by (metis list.inject prod.exhaust)
  note take = msq_take_spec [OF qi pos q']
  have m: "msg_ok ?a (mb_body m) (mb_size m - int MSG_HDR_SIZE)" using msgs_okD(2) [OF i(3), of m tid] \<open>queue_of ?a tid = m # ms\<close> by simp
  let ?a' = "put_task tid (tb\<lparr>tb_hMsq := Some q'\<rparr>) ?a"
  have pn: "stid = mh_stid (ag_hdr ?a (mb_body m))" "i = mb_id m" "p = mb_body m + MSG_HDR_SIZE" "n = mb_size m - int MSG_HDR_SIZE"
    using p m by (simp_all add: pending_def msg_ok_def)
  have rcv: "srv_msg_rcv tid False False ?a = Some (Msg_Received n i p ?a')"
    using max tb rcv_eq [OF qi] q' m by (simp add: srv_msg_rcv_def msg_ok_def pn)
  have src: "srv_msg_getsrctid ?a' p = stid" by (simp add: srv_msg_getsrctid_def pn)
  have Q: "queue_of ?a' = (queue_of ?a)(tid := ms)" using queue_of_put [OF tb(1)] take(2) tb(3) by simp
  have hd: "msg_ok ?a' = msg_ok ?a" "pending ?a' = pending ?a" "ag_hdr ?a' = ag_hdr ?a" by (simp_all add: msg_ok_def pending_def fun_eq_iff)
  have "msgs_ok ?a' ((w_owned w)(p \<mapsto> n)) (queue_of ?a')"
    using take_message [OF i(3) \<open>queue_of ?a tid = m # ms\<close>] unfolding Q msgs_ok_def hd pn .
  moreover have "tasks_ok ?a'" by (rule put_queue_ok [OF i(2) tb(1,2) take(1)])
  ultimately have "world_inv (w\<lparr>w_agent := ?a', w_owned := (w_owned w)(p \<mapsto> n), w_got := (w_got w)(tid := w_got w tid @ [(stid, i, p, n)])\<rparr>)"
    using i(1,4) \<open>queue_of ?a tid = m # ms\<close> p unfolding world_inv_def by (simp add: Q hd)
  then show ?thesis using rcv src by blast
qed

lemma world_receive:
  assumes inv: "world_inv w" and t: "0 \<le> tid"
  shows "\<exists>w'. world_exec w (Receive_Msg tid) = Some w' \<and> world_inv w'"
proof (cases "queue_of (w_agent w) tid")
  case Nil
  then have "world_exec w (Receive_Msg tid) = Some w" using receive_empty [OF inv t] by auto
  then show ?thesis using inv by blast
next
  case (Cons m ms)
  obtain stid i p n where p: "pending (w_agent w) m = (stid, i, p, n)" by (metis prod_cases4)
  show ?thesis using receive_message [OF inv Cons p] by auto
qed

lemma world_register:
  assumes inv: "world_inv w" and t: "0 \<le> st_tid t"
  shows "\<exists>w'. world_exec w (Register_Task env t) = Some w' \<and> world_inv w'"
proof -
  let ?a = "w_agent w"
  have i: "bufs_inv (ag_bufs ?a)" "tasks_ok ?a" "msgs_ok ?a (w_owned w) (queue_of ?a)"
    "\<And>d. w_sent w d = w_got w d @ map (pending ?a) (queue_of ?a d)" using inv by (simp_all add: world_inv_def)
  have same: "\<exists>w'. world_exec w (Register_Task env t) = Some w' \<and> world_inv w'" if "srv_task_register env (Some t) ?a = Some (rc, ?a)" for rc
    using that inv by simp
  show ?thesis
  proof (cases "st_tid t \<ge> ag_max ?a \<or> st_fpEntry t = 0")
    case True
    then show ?thesis by (intro same) (auto simp: srv_task_register_def)
  next
    case False
    then obtain tb where tb: "task_at ?a (st_tid t) = Some tb" using tasks_okD(1) [OF i(2) t] by auto
    show ?thesis
    proof (cases "tb_tid tb = INVALID_TID")
      case free: True
      have none: "tb_hMsq tb = None" by (rule tasks_okD(3) [OF i(2) tb free])
      obtain rc tb' where r: "srv_task_register env (Some t) ?a = Some (rc, put_task (st_tid t) tb' ?a)"
        "tb_hMsq tb' \<noteq> None \<longrightarrow> tb_tid tb' = st_tid t \<and> tb_hMsq tb' = create_msq env MAX_MSQ_SIZE"
        using False tb free none
        by (cases "st_isMsqEnable t = 0"; cases "create_msq env MAX_MSQ_SIZE") (auto simp: srv_task_register_def Let_def)
      have new: "msq_inv q \<and> msq_contents q = []" if "tb_hMsq tb' = Some q" for q
        using that r(2) msq_create_inv [of MAX_MSQ_SIZE] by (cases env) auto
      let ?a' = "put_task (st_tid t) tb' ?a"
      have "queue_of ?a (st_tid t) = []" using tb none by (simp add: queue_of_def)
      then have Q: "queue_of ?a' = queue_of ?a"
        using new unfolding queue_of_put [OF tb] by (auto simp: fun_eq_iff split: option.splits)
      have "tasks_ok ?a'" using new r(2) t by (intro put_task_ok [OF i(2) tb]) auto
      moreover have "msg_ok ?a' = msg_ok ?a" "pending ?a' = pending ?a" "ag_hdr ?a' = ag_hdr ?a" by (simp_all add: msg_ok_def pending_def fun_eq_iff)
      ultimately have "world_inv (w\<lparr>w_agent := ?a'\<rparr>)" using i by (simp add: world_inv_def msgs_ok_def Q)
      then show ?thesis using r(1) by simp
    qed (intro same, use False tb in \<open>auto simp: srv_task_register_def\<close>)
  qed
qed

lemma world_start_task:
  assumes inv: "world_inv w" and t: "0 \<le> tid"
  shows "\<exists>w'. world_exec w (Start_Task thd tid) = Some w' \<and> world_inv w'"
proof -
  let ?a = "w_agent w"
  have i: "bufs_inv (ag_bufs ?a)" "tasks_ok ?a" "msgs_ok ?a (w_owned w) (queue_of ?a)"
    "\<And>d. w_sent w d = w_got w d @ map (pending ?a) (queue_of ?a d)" using inv by (simp_all add: world_inv_def)
  show ?thesis
  proof (cases "tid < ag_max ?a")
    case True
    then obtain tb where tb: "task_at ?a tid = Some tb" using tasks_okD(1) [OF i(2) t] by blast
    show ?thesis
    proof (cases "tb_tid tb = INVALID_TID \<or> tb_hTask tb \<noteq> SRV_INVALID")
      case True
      then have "world_exec w (Start_Task thd tid) = Some w" using tb \<open>tid < ag_max ?a\<close> by (auto simp: srv_task_start_def)
      then show ?thesis using inv by blast
    next
      case False
      let ?a' = "put_task tid (tb\<lparr>tb_hTask := srv_task_create (Some tb) thd\<rparr>) ?a"
      have e: "world_exec w (Start_Task thd tid) = Some (w\<lparr>w_agent := ?a'\<rparr>)" using False tb True by (simp add: srv_task_start_def Let_def)
      have Q: "queue_of ?a' = queue_of ?a" unfolding queue_of_put [OF tb] using tb by (auto simp: fun_eq_iff queue_of_def)
      have "tasks_ok ?a'" using tasks_okD(2,3) [OF i(2) tb] by (intro put_task_ok [OF i(2) tb]) auto
      moreover have "msg_ok ?a' = msg_ok ?a" "pending ?a' = pending ?a" "ag_hdr ?a' = ag_hdr ?a" by (simp_all add: msg_ok_def pending_def fun_eq_iff)
      ultimately have "world_inv (w\<lparr>w_agent := ?a'\<rparr>)" using i by (simp add: world_inv_def msgs_ok_def Q)
      then show ?thesis using e by blast
    qed
  next
    case False
    then have "world_exec w (Start_Task thd tid) = Some w" by (simp add: srv_task_start_def)
    then show ?thesis using inv by blast
  qed
qed

lemma world_step: "world_inv w \<Longrightarrow> world_allowed w op \<Longrightarrow> \<exists>w'. world_exec w op = Some w' \<and> world_inv w'"
proof (cases op)
  case (Register_Task env t)
  assume "world_inv w" "world_allowed w op"
  then show ?thesis unfolding Register_Task by (intro world_register) auto
next
  case (Start_Task thd tid)
  assume "world_inv w" "world_allowed w op"
  then show ?thesis unfolding Start_Task by (intro world_start_task) auto
next
  case (Alloc_Msg sz)
  assume "world_inv w" "world_allowed w op"
  then show ?thesis unfolding Alloc_Msg by (intro world_alloc) auto
next
  case (Free_Msg p)
  assume "world_inv w" "world_allowed w op"
  then show ?thesis unfolding Free_Msg by (intro world_free) auto
next
  case (Send_Msg stid dtid prio msgid p)
  assume "world_inv w" "world_allowed w op"
  then show ?thesis unfolding Send_Msg by (intro world_send) auto
next
  case (Receive_Msg tid)
  assume "world_inv w" "world_allowed w op"
  then show ?thesis unfolding Receive_Msg by (intro world_receive) auto
qed

lemma task_init_ok:
  assumes "bufs_inv (ag_bufs a)" "0 \<le> n" "ag_tbl a = None" "srv_task_init uninit n a = Some (SRV_OK, a')"
  shows "bufs_inv (ag_bufs a')" "tasks_ok a'" "queue_of a' = (\<lambda>_. [])" "\<exists>p. used (ag_bufs a') = insert p (used (ag_bufs a))"
proof -
  obtain p bufs where b: "srv_buf_alloc (ag_bufs a) (c_int (TASK_BLOCK_SIZE * n)) = Some (p, bufs)" "bufs_inv bufs"
    "if p = 0 then bufs = ag_bufs a else used bufs = insert p (used (ag_bufs a))"
    using buf_alloc_spec [OF assms(1), of "c_int (TASK_BLOCK_SIZE * n)"] by auto
  let ?tbl = "map (\<lambda>i. (uninit i)\<lparr>tb_tid := INVALID_TID, tb_hTask := SRV_INVALID, tb_hMsq := None\<rparr>) [0 ..< nat n]"
  have a': "a' = a\<lparr>ag_bufs := bufs, ag_tbl := Some ?tbl, ag_max := n\<rparr>" "p \<noteq> 0"
    using assms(3,4) b(1) by (auto simp: srv_task_init_def Let_def split: if_splits)
  have t: "tb_hMsq tb = None" if "task_at a' tid = Some tb" for tid tb
    using that by (auto simp: a' task_at_def split: if_splits)
  show "bufs_inv (ag_bufs a')" "\<exists>p. used (ag_bufs a') = insert p (used (ag_bufs a))" using b(2,3) a' by auto
  show "tasks_ok a'" using t assms(2) by (auto simp: tasks_ok_def a')
  show "queue_of a' = (\<lambda>_. [])" using t by (auto simp: queue_of_def fun_eq_iff split: option.splits)
qed

interpretation agent_machine: call_machine world_start world_allowed world_exec world_inv
proof
  show "world_inv w" if start: "world_start w" for w
  proof -
    obtain uninit n a where a: "buf_reachable (ag_bufs a)" "0 \<le> n" "ag_tbl a = None" "srv_task_init uninit n a = Some (SRV_OK, w_agent w)"
      and w: "w_owned w = (\<lambda>_. None)" "w_sent w = (\<lambda>_. [])" "w_got w = (\<lambda>_. [])"
      using start by (auto simp: world_start_def)
    show ?thesis using task_init_ok(1-3) [OF buf_reachable_inv [OF a(1)] a(2-4)] w by (simp add: world_inv_def msgs_ok_def)
  qed
  show "world_inv w'" if "world_inv w" "world_allowed w op" "world_exec w op = Some w'" for w op w'
    using world_step [OF that(1,2)] that(3) by auto
qed

lemma world_reachable_inv: "world_reachable w \<Longrightarrow> world_inv w"
  unfolding world_reachable_def by (rule agent_machine.reachable_inv)

text \<open>The memory of a message is within its buffer.\<close>

lemma body_in_room:
  assumes "msg_ok a (p - MSG_HDR_SIZE) n" "MSG_HDR_SIZE \<le> p"
  shows "{p ..< p + nat n} \<subseteq> buf_room (ag_bufs a) (p - MSG_HDR_SIZE)"
proof -
  define B where "B = nat (bp_blocksize (sb_pools (ag_bufs a) ! nat (sb_poolid (ag_bufs a) (p - MSG_HDR_SIZE - BUF_HEAD_SIZE))))"
  have room: "buf_room (ag_bufs a) (p - MSG_HDR_SIZE) = {p - MSG_HDR_SIZE ..< p - MSG_HDR_SIZE + B}" by (simp add: buf_room_def B_def)
  then have "0 \<le> n" "int MSG_HDR_SIZE + n \<le> int B" using assms(1) by (simp_all add: msg_ok_def)
  then have "MSG_HDR_SIZE + nat n \<le> B" by linarith
  then show ?thesis unfolding room using assms(2) by auto
qed

lemma held_apart:
  assumes inv: "world_inv w" and p: "w_owned w p = Some n" and q: "w_owned w p' = Some n'" and ne: "p \<noteq> p'"
  shows "{p ..< p + nat n} \<inter> {p' ..< p' + nat n'} = {}"
proof -
  have ok: "bufs_inv (ag_bufs (w_agent w))" "msgs_ok (w_agent w) (w_owned w) (queue_of (w_agent w))" using inv by (simp_all add: world_inv_def)
  have held: "MSG_HDR_SIZE \<le> x" "is_buffer (ag_bufs (w_agent w)) (x - MSG_HDR_SIZE)"
    "{x ..< x + nat k} \<subseteq> buf_room (ag_bufs (w_agent w)) (x - MSG_HDR_SIZE)" if "w_owned w x = Some k" for x k
    using msgs_okD(1) [OF ok(2) that] body_in_room [of "w_agent w" x k] used_is_buffer by (auto simp: msg_ok_def)
  have "p - MSG_HDR_SIZE \<noteq> p' - MSG_HDR_SIZE" using held(1) [OF p] held(1) [OF q] ne by simp
  from rooms_apart [OF ok(1) held(2) [OF p] held(2) [OF q] this] show ?thesis using held(3) [OF p] held(3) [OF q] by blast
qed

text \<open>An example: three buffers, of which the table of one task takes the first; clients hold two messages.\<close>

definition three_bufs :: "addr list \<Rightarrow> u32 \<Rightarrow> srv_bufs" where
  "three_bufs root bits = \<lparr>sb_pools = [\<lparr>bp_root = root, bp_blocksize = 64, bp_blocknr = 3, bp_addr = 1000, bp_bitmap = Some [bits]\<rparr>],
     sb_n = 1, sb_poolid = (\<lambda>_. 7)(1000 := 0, 1080 := 0, 1160 := 0)\<rparr>"

lemma three_bufs_start: "buf_reachable (three_bufs [1000, 1080, 1160] 0)"
proof -
  have "srv_buf_init (Some [\<lparr>pc_blocksize = 64, pc_blocknr = 3\<rparr>]) True [(Some 1000, True, True)]
    \<lparr>sb_pools = [], sb_n = 0, sb_poolid = (\<lambda>_. 7)\<rparr> = (SRV_OK, three_bufs [1000, 1080, 1160] 0)"
    by (simp add: srv_buf_init_def three_bufs_def link_block_def block_addr_def srv_bmp_create_def smod_pos sdiv_pos Let_def upt_rec)
  then have "buf_start (three_bufs [1000, 1080, 1160] 0)" unfolding buf_start_def
    by (intro exI conjI, assumption) (simp_all add: pool_config_ok_def)
  then show ?thesis unfolding buf_reachable_def by (rule reachable_start)
qed

lemma three_bufs_alloc:
  "sz \<le> 64 \<Longrightarrow> srv_buf_alloc (three_bufs [1000, 1080, 1160] 0) sz = Some (1016, three_bufs [1080, 1160] 1)"
  "sz \<le> 64 \<Longrightarrow> srv_buf_alloc (three_bufs [1080, 1160] 1) sz = Some (1096, three_bufs [1160] 3)"
  "sz \<le> 64 \<Longrightarrow> srv_buf_alloc (three_bufs [1160] 3) sz = Some (1176, three_bufs [] 7)"
  by (simp_all add: srv_buf_alloc_def three_bufs_def block_index_def srv_bmp_set_bit_def sdiv_pos smod_pos upd_pool_def)

text \<open>The example after the calls, with the queue given.\<close>

definition demo_task :: "msg_queue option \<Rightarrow> task_block" where
  "demo_task q = \<lparr>tb_tid = 0, tb_pName = ''T'', tb_fpEntry = 1, tb_arg = 0, tb_prio = 1, tb_isMsqEnable = 1, tb_hTask = SRV_INVALID, tb_hMsq = q\<rparr>"

definition demo_msg :: msg_block where
  "demo_msg = \<lparr>mb_id = 0, mb_size = 0, mb_body = 0\<rparr>"

definition demo_queue :: msg_queue where
  "demo_queue = \<lparr>mq_size = 501, mq_front = 0, mq_rear = 0, mq_pMsg = replicate 501 demo_msg\<rparr>"

definition demo_hdr :: "int \<Rightarrow> msg_hdr" where
  "demo_hdr n = \<lparr>mh_stid = 0, mh_dtid = 0, mh_bodysize = n, mh_reserve = 0\<rparr>"

definition demo_world :: "world" where
  "demo_world = \<lparr>w_agent = \<lparr>ag_bufs = three_bufs [] 7, ag_tbl = Some [demo_task (Some demo_queue)], ag_max = 1,
       ag_hdr = (\<lambda>_. demo_hdr 0)(1096 := demo_hdr 10, 1176 := demo_hdr 20)\<rparr>,
     w_owned = [1112 \<mapsto> 10, 1192 \<mapsto> 20], w_sent = (\<lambda>_. []), w_got = (\<lambda>_. [])\<rparr>"

lemma demo_reachable: "world_reachable demo_world"
proof -
  let ?tb = "(demo_task None)\<lparr>tb_tid := INVALID_TID\<rparr>"
  let ?w = "\<lambda>bufs tb hdr own. \<lparr>w_agent = \<lparr>ag_bufs = bufs, ag_tbl = Some [tb], ag_max = 1, ag_hdr = hdr\<rparr>,
     w_owned = own, w_sent = (\<lambda>_. []), w_got = (\<lambda>_. [])\<rparr>"
  let ?h0 = "\<lambda>_. demo_hdr 0" and ?t = "demo_task (Some demo_queue)"
  let ?env = "(True, True, True, True, \<lambda>_ :: nat. demo_msg)"
  have "srv_task_init (\<lambda>_. ?tb) 1 \<lparr>ag_bufs = three_bufs [1000, 1080, 1160] 0, ag_tbl = None, ag_max = 0, ag_hdr = ?h0\<rparr>
    = Some (SRV_OK, w_agent (?w (three_bufs [1080, 1160] 1) ?tb ?h0 (\<lambda>_. None)))"
    by (simp add: srv_task_init_def three_bufs_alloc demo_task_def)
  then have "world_start (?w (three_bufs [1080, 1160] 1) ?tb ?h0 (\<lambda>_. None))"
    using three_bufs_start unfolding world_start_def
    by (intro conjI exI [of _ "\<lambda>_. ?tb"] exI [of _ 1] exI [of _ "\<lparr>ag_bufs = three_bufs [1000, 1080, 1160] 0, ag_tbl = None, ag_max = 0, ag_hdr = ?h0\<rparr>"]) simp_all
  then have 0: "world_reachable (?w (three_bufs [1080, 1160] 1) ?tb ?h0 (\<lambda>_. None))"
    unfolding world_reachable_def by (rule reachable_start)
  have "create_msq ?env MAX_MSQ_SIZE = Some demo_queue" by (simp add: srv_msq_create_def demo_queue_def map_replicate_const)
  then have "world_exec (?w (three_bufs [1080, 1160] 1) ?tb ?h0 (\<lambda>_. None)) (Register_Task ?env
      \<lparr>st_tid = 0, st_pName = ''T'', st_fpEntry = 1, st_arg = 0, st_prio = 1, st_isMsqEnable = 1\<rparr>) = Some (?w (three_bufs [1080, 1160] 1) ?t ?h0 (\<lambda>_. None))"
    by (simp add: srv_task_register_def task_at_def put_task_def demo_task_def)
  from reachable_call [OF 0 [unfolded world_reachable_def] _ this]
  have 1: "world_reachable (?w (three_bufs [1080, 1160] 1) ?t ?h0 (\<lambda>_. None))" by (simp add: world_reachable_def)
  have "world_exec (?w (three_bufs [1080, 1160] 1) ?t ?h0 (\<lambda>_. None)) (Alloc_Msg 10) = Some (?w (three_bufs [1160] 3) ?t (?h0(1096 := demo_hdr 10)) [1112 \<mapsto> 10])"
    by (simp add: srv_msg_alloc_def three_bufs_alloc demo_hdr_def)
  from reachable_call [OF 1 [unfolded world_reachable_def] _ this]
  have 2: "world_reachable (?w (three_bufs [1160] 3) ?t (?h0(1096 := demo_hdr 10)) [1112 \<mapsto> 10])" by (simp add: world_reachable_def)
  have "world_exec (?w (three_bufs [1160] 3) ?t (?h0(1096 := demo_hdr 10)) [1112 \<mapsto> 10]) (Alloc_Msg 20) = Some demo_world"
    by (simp add: srv_msg_alloc_def three_bufs_alloc demo_hdr_def demo_world_def)
  from reachable_call [OF 2 [unfolded world_reachable_def] _ this] show ?thesis by (simp add: world_reachable_def)
qed

lemma demo_send:
  "\<exists>w. world_exec demo_world (Send_Msg 5 0 1 9 1112) = Some w \<and> world_reachable w \<and> w_sent w 0 = [(5, 9, 1112, 10)] \<and> w_got w 0 = []"
proof -
  have "\<exists>w. world_exec demo_world (Send_Msg 5 0 1 9 1112) = Some w \<and> w_sent w 0 = [(5, 9, 1112, 10)] \<and> w_got w 0 = []"
    by (simp add: demo_world_def srv_msg_snd_def task_at_def demo_task_def demo_queue_def demo_hdr_def srv_msq_snd_def smod_pos)
  then obtain w where w: "world_exec demo_world (Send_Msg 5 0 1 9 1112) = Some w" "w_sent w 0 = [(5, 9, 1112, 10)]" "w_got w 0 = []" by blast
  have "world_reachable w" using reachable_call [OF demo_reachable [unfolded world_reachable_def] _ w(1)] by (simp add: world_reachable_def demo_world_def)
  then show ?thesis using w by blast
qed

section \<open>Properties\<close>

text \<open>
  C16: After any calls, the messages sent to a task are those it received, in order and with the source,
  identifier, address and size of the sender, followed by messages still queued; receiving gives the
  first of these, and waits or fails if there is none.
\<close>

theorem srv_msg_delivery:
  assumes "world_reachable w" "0 \<le> tid"
  shows "\<exists>rest. w_sent w tid = w_got w tid @ rest \<and>
    (case rest of
       [] \<Rightarrow> srv_msg_rcv tid False False (w_agent w) \<in> {Some Msg_Blocked, Some (Msg_Error (w_agent w))}
     | (stid, i, p, n) # _ \<Rightarrow> \<exists>a. srv_msg_rcv tid False False (w_agent w) = Some (Msg_Received n i p a) \<and> srv_msg_getsrctid a p = stid)"
proof -
  have inv: "world_inv w" by (rule world_reachable_inv [OF assms(1)])
  then have log: "w_sent w tid = w_got w tid @ map (pending (w_agent w)) (queue_of (w_agent w) tid)" by (simp add: world_inv_def)
  show ?thesis
  proof (cases "queue_of (w_agent w) tid")
    case Nil
    then show ?thesis using log receive_empty [OF inv assms(2)] by simp
  next
    case (Cons m ms)
    obtain stid i p n where p: "pending (w_agent w) m = (stid, i, p, n)" by (metis prod_cases4)
    from receive_message [OF inv Cons p] show ?thesis using log Cons p
      by (intro exI [of _ "map (pending (w_agent w)) (m # ms)"]) auto
  qed
qed

theorem srv_msg_delivery_witness:
  "\<exists>w a. world_reachable w \<and> w_sent w 0 = [(5, 9, 1112, 10)] \<and> w_got w 0 = [] \<and>
     srv_msg_rcv 0 False False (w_agent w) = Some (Msg_Received 10 9 1112 a) \<and> srv_msg_getsrctid a 1112 = 5"
proof -
  obtain w where w: "world_reachable w" "w_sent w 0 = [(5, 9, 1112, 10)]" "w_got w 0 = []" using demo_send by blast
  from srv_msg_delivery [OF w(1), of 0] show ?thesis using w by auto
qed

text \<open>
  C18: No call of a client that follows the rules leaves the bounds of an array, and the memory of two
  messages that clients hold does not overlap.
\<close>

theorem srv_msg_safe:
  assumes "world_reachable w"
  shows "(world_allowed w op \<longrightarrow> (\<exists>w'. world_exec w op = Some w')) \<and>
    (\<forall>p n p' n'. w_owned w p = Some n \<longrightarrow> w_owned w p' = Some n' \<longrightarrow> p \<noteq> p' \<longrightarrow> {p ..< p + nat n} \<inter> {p' ..< p' + nat n'} = {})"
  using world_step [OF world_reachable_inv [OF assms]] held_apart [OF world_reachable_inv [OF assms]] by blast

theorem srv_msg_safe_witness:
  "world_reachable demo_world \<and> w_owned demo_world 1112 = Some 10 \<and> w_owned demo_world 1192 = Some 20 \<and>
   {1112 ..< 1112 + nat 10} \<inter> {1192 ..< 1192 + nat 20} = {} \<and> (\<exists>w'. world_exec demo_world (Free_Msg 1112) = Some w')"
proof -
  have o: "w_owned demo_world 1112 = Some 10" "w_owned demo_world 1192 = Some 20" "world_allowed demo_world (Free_Msg 1112)"
    by (simp_all add: demo_world_def)
  have "(1112 :: nat) \<noteq> 1192" by simp
  then show ?thesis using srv_msg_safe [OF demo_reachable, of "Free_Msg 1112"] o demo_reachable by blast
qed

end
