(* ===== verification/Docker_Agent.thy ===== *)
theory Docker_Agent
  imports Srv_Task
begin

text \<open>
  The docker agent as a whole: the trace configuration of ofproto/srv_trace.c, the start of the agent
  in ofproto/docker_config.c, and the path of a packet from ofproto/ofproto-dpif-xlate.c (port
  OFPP_MAX_4) to the receiver task of ofproto/docker_test.c. The contents of messages, the bodies of
  the other tasks and the text of trace messages are not modelled.
\<close>

section \<open>Trace configuration\<close>

record srv_trace_module =
  tm_mid :: int
  tm_name :: string
  tm_enable :: int

record srv_trace_level =
  tl_lid :: int
  tl_name :: string
  tl_enable :: int

text \<open>The two pointers of the structure; \<open>None\<close> is null or not initialised.\<close>

record trace_cfg =
  tc_mdl :: "srv_trace_module list option"
  tc_lvl :: "srv_trace_level list option"

record docker =
  dk_agent :: agent
  dk_trace :: "trace_cfg option"

abbreviation TRACE_CFG_SIZE :: int where "TRACE_CFG_SIZE \<equiv> 8"
abbreviation TRACE_ENTRY_SIZE :: int where "TRACE_ENTRY_SIZE \<equiv> 12"

text \<open>
  The loops over an array: the largest key, and storing every entry at its key. The indices are those
  that the loop visits; an index outside the array read or a key outside the array written is \<open>None\<close>.
\<close>

fun largest_key :: "('a \<Rightarrow> int) \<Rightarrow> 'a list \<Rightarrow> nat list \<Rightarrow> int \<Rightarrow> int option" where
  "largest_key key src [] nr = Some nr"
| "largest_key key src (i # is) nr =
     (if i < length src then largest_key key src is (if key (src ! i) > nr then key (src ! i) else nr) else None)"

fun store_entries :: "('a \<Rightarrow> int) \<Rightarrow> 'a list \<Rightarrow> nat list \<Rightarrow> 'a list \<Rightarrow> 'a list option" where
  "store_entries key src [] cfg = Some cfg"
| "store_entries key src (i # is) cfg =
     (if i < length src \<and> 0 \<le> key (src ! i) \<and> key (src ! i) < int (length cfg)
      then store_entries key src is (cfg[nat (key (src ! i)) := src ! i]) else None)"

text \<open>
  Registering one of the two tables: allocation of an array for all keys of the first \<open>n\<close> entries, and
  storing of the first \<open>m\<close> entries. The result is the array, or \<open>None\<close> in it if there is no buffer.
\<close>

definition register_entries ::
  "('a \<Rightarrow> int) \<Rightarrow> (nat \<Rightarrow> 'a) \<Rightarrow> 'a list \<Rightarrow> int \<Rightarrow> int \<Rightarrow> srv_bufs \<Rightarrow> ('a list option \<times> srv_bufs) option" where
  "register_entries key uninit src n m bufs =
     (case largest_key key src [0 ..< nat n] 0 of
        None \<Rightarrow> None
      | Some nr \<Rightarrow>
          let nr = c_int (nr + 1)
          in case srv_buf_alloc bufs (c_int (TRACE_ENTRY_SIZE * nr)) of
               None \<Rightarrow> None
             | Some (p, bufs) \<Rightarrow>
                 if p = 0 then Some (None, bufs)
                 else if c_int (TRACE_ENTRY_SIZE * nr) \<noteq> TRACE_ENTRY_SIZE * nr then None
                 else map_option (\<lambda>cfg. (Some cfg, bufs)) (store_entries key src [0 ..< nat m] (map uninit [0 ..< nat nr])))"

text \<open>The second table is read up to the number of modules, not of levels.\<close>

definition srv_trace_init ::
  "(nat \<Rightarrow> srv_trace_module) \<Rightarrow> (nat \<Rightarrow> srv_trace_level) \<Rightarrow> srv_trace_module list option \<Rightarrow> int \<Rightarrow>
   srv_trace_level list option \<Rightarrow> int \<Rightarrow> docker \<Rightarrow> (int \<times> docker) option" where
  "srv_trace_init um ul pstModule modulenr pstLevel levelnr d =
     (case (pstModule, pstLevel) of
        (Some ms, Some ls) \<Rightarrow>
          (case srv_buf_alloc (ag_bufs (dk_agent d)) TRACE_CFG_SIZE of
             None \<Rightarrow> None
           | Some (p, bufs) \<Rightarrow>
               if p = 0 then Some (SRV_ERR, d\<lparr>dk_agent := (dk_agent d)\<lparr>ag_bufs := bufs\<rparr>, dk_trace := None\<rparr>)
               else case register_entries tm_mid um ms modulenr modulenr bufs of
                 None \<Rightarrow> None
               | Some (mdl, bufs) \<Rightarrow>
                   if mdl = None
                   then Some (SRV_ERR, d\<lparr>dk_agent := (dk_agent d)\<lparr>ag_bufs := bufs\<rparr>, dk_trace := Some \<lparr>tc_mdl = None, tc_lvl = None\<rparr>\<rparr>)
                   else case register_entries tl_lid ul ls levelnr modulenr bufs of
                     None \<Rightarrow> None
                   | Some (lvl, bufs) \<Rightarrow>
                       Some (if lvl = None then SRV_ERR else SRV_OK,
                             d\<lparr>dk_agent := (dk_agent d)\<lparr>ag_bufs := bufs\<rparr>, dk_trace := Some \<lparr>tc_mdl = mdl, tc_lvl = lvl\<rparr>\<rparr>))
      | _ \<Rightarrow> Some (SRV_ERR, d))"

section \<open>Start of the agent\<close>

definition g_astBufPool :: "srv_buf_pool list" where
  "g_astBufPool = map (\<lambda>(s, n). \<lparr>pc_blocksize = s, pc_blocknr = n\<rparr>)
     [(32, 1000), (64, 1000), (128, 1000), (256, 1000), (512, 1000), (1024, 500), (2048, 500), (4096, 500), (8192, 500),
      (16384, 300), (32768, 300), (65536, 300), (131072, 300), (262144, 50), (524288, 20), (1048576, 20)]"

abbreviation (input) TID_OFPROTO :: int where "TID_OFPROTO \<equiv> 0"
abbreviation (input) TID_KERNEL :: int where "TID_KERNEL \<equiv> 1"
abbreviation (input) TID_TEST_SENDER :: int where "TID_TEST_SENDER \<equiv> 2"
abbreviation (input) TID_TEST_RECVER :: int where "TID_TEST_RECVER \<equiv> 3"
abbreviation (input) TID_MAX :: int where "TID_MAX \<equiv> 4"

text \<open>The tasks, given the addresses of their functions.\<close>

definition g_astTaskTbl :: "addr \<Rightarrow> addr \<Rightarrow> addr \<Rightarrow> srv_task list" where
  "g_astTaskTbl kernel_entry test_sender_entry test_recver_entry =
     [\<lparr>st_tid = TID_KERNEL, st_pName = ''KERNEL'', st_fpEntry = kernel_entry, st_arg = 0, st_prio = 1, st_isMsqEnable = 1\<rparr>,
      \<lparr>st_tid = TID_TEST_SENDER, st_pName = ''TEST_SENDER'', st_fpEntry = test_sender_entry, st_arg = 0, st_prio = 1, st_isMsqEnable = 1\<rparr>,
      \<lparr>st_tid = TID_TEST_RECVER, st_pName = ''TEST_RECVER'', st_fpEntry = test_recver_entry, st_arg = 0, st_prio = 1, st_isMsqEnable = 1\<rparr>]"

definition g_astTraceMdl :: "srv_trace_module list" where
  "g_astTraceMdl = [\<lparr>tm_mid = 0, tm_name = ''KERNEL'', tm_enable = 1\<rparr>, \<lparr>tm_mid = 1, tm_name = ''TCPSERVER'', tm_enable = 1\<rparr>,
     \<lparr>tm_mid = 2, tm_name = ''UDP'', tm_enable = 1\<rparr>]"

definition g_astTraceLvl :: "srv_trace_level list" where
  "g_astTraceLvl = [\<lparr>tl_lid = 0, tl_name = ''INFO'', tl_enable = 1\<rparr>, \<lparr>tl_lid = 1, tl_name = ''WARNING'', tl_enable = 1\<rparr>,
     \<lparr>tl_lid = 2, tl_name = ''ERROR'', tl_enable = 1\<rparr>]"

text \<open>The results of system calls, the contents of new memory, and the addresses of the task functions.\<close>

record docker_env =
  de_malloc :: bool
  de_pools :: "(addr option \<times> bool \<times> bool) list"
  de_module :: "nat \<Rightarrow> srv_trace_module"
  de_level :: "nat \<Rightarrow> srv_trace_level"
  de_task :: "nat \<Rightarrow> task_block"
  de_msqs :: "msq_env list"
  de_threads :: "nat \<Rightarrow> u32 option"
  de_entries :: "addr \<times> addr \<times> addr"

definition docker_init :: "docker_env \<Rightarrow> docker \<Rightarrow> docker option" where
  "docker_init e d =
     (let (_, bufs) = srv_buf_init (Some g_astBufPool) (de_malloc e) (de_pools e) (ag_bufs (dk_agent d));
          d = d\<lparr>dk_agent := (dk_agent d)\<lparr>ag_bufs := bufs\<rparr>\<rparr>
      in case srv_trace_init (de_module e) (de_level e) (Some g_astTraceMdl) (int (length g_astTraceMdl))
                (Some g_astTraceLvl) (int (length g_astTraceLvl)) d of
           None \<Rightarrow> None
         | Some (_, d) \<Rightarrow>
             (case srv_task_init (de_task e) TID_MAX (dk_agent d) of
                None \<Rightarrow> None
              | Some (_, a) \<Rightarrow>
                  let (kernel, sender, recver) = de_entries e
                  in case srv_task_register_table (Some (zip (de_msqs e) (g_astTaskTbl kernel sender recver))) a of
                       None \<Rightarrow> None
                     | Some (_, a) \<Rightarrow> map_option (\<lambda>(_, a). d\<lparr>dk_agent := a\<rparr>) (srv_task_start_table (de_threads e) a)))"

section \<open>Packets to the receiver task\<close>

text \<open>
  Output to OFPP_MAX_4: the packet is copied into a new message, which is not tested for NULL, and
  sent to the receiver task; a failure is only reported.
\<close>

definition xlate_to_recver :: "int \<Rightarrow> agent \<Rightarrow> agent option" where
  "xlate_to_recver packet_size a =
     (case srv_msg_alloc packet_size a of
        None \<Rightarrow> None
      | Some (pPacket, a) \<Rightarrow>
          if pPacket = 0 \<and> packet_size \<noteq> 0 then None
          else map_option snd (srv_msg_snd TID_OFPROTO TID_TEST_RECVER 1 1 pPacket a))"

text \<open>An iteration of the receiver task: it reports the message and does not free it.\<close>

definition test_recver_entry :: "agent \<Rightarrow> agent option" where
  "test_recver_entry a =
     map_option (\<lambda>r. case r of Msg_Error a \<Rightarrow> a | Msg_Blocked \<Rightarrow> a | Msg_Received _ _ _ a \<Rightarrow> a)
       (srv_msg_rcv TID_TEST_RECVER False False a)"

datatype dk_step = Packet int | Recver

fun dk_run :: "dk_step list \<Rightarrow> agent \<Rightarrow> agent option" where
  "dk_run [] a = Some a"
| "dk_run (Packet n # steps) a = (case xlate_to_recver n a of None \<Rightarrow> None | Some a \<Rightarrow> dk_run steps a)"
| "dk_run (Recver # steps) a = (case test_recver_entry a of None \<Rightarrow> None | Some a \<Rightarrow> dk_run steps a)"

section \<open>The buffers of a packet are never freed\<close>

lemma alloc_count:
  assumes inv: "bufs_inv s" and a: "srv_buf_alloc s sz = Some (p, s')"
  shows "bufs_inv s'" "buffers s' = buffers s" "card (used s) + (if p = 0 then 0 else 1) \<le> card (used s')"
proof -
  have "bufs_inv s' \<and> same_layout s s' \<and> (if p = 0 then s' = s else p \<notin> used s \<and> used s' = insert p (used s))"
    using buf_alloc_spec [OF inv, of sz] a by (auto split: if_splits)
  then show "bufs_inv s'" "buffers s' = buffers s" "card (used s) + (if p = 0 then 0 else 1) \<le> card (used s')"
    using same_layout_buffers used_buffers(2) [of s] by (auto split: if_splits)
qed

lemma snd_bufs: "srv_msg_snd st d pr i p a = Some (rc, a') \<Longrightarrow> ag_bufs a' = ag_bufs a"
  by (auto simp: srv_msg_snd_def Let_def case_prod_beta split: if_splits option.splits)

lemma recver_bufs: "test_recver_entry a = Some a' \<Longrightarrow> ag_bufs a' = ag_bufs a"
  by (auto simp: test_recver_entry_def srv_msg_rcv_def Let_def split: if_splits option.splits rcv_result.splits)

fun is_packet :: "dk_step \<Rightarrow> bool" where
  "is_packet (Packet n) \<longleftrightarrow> n \<noteq> 0"
| "is_packet Recver \<longleftrightarrow> False"

lemma packet_count:
  assumes inv: "bufs_inv (ag_bufs a)" and x: "xlate_to_recver n a = Some a'"
  shows "bufs_inv (ag_bufs a')" "buffers (ag_bufs a') = buffers (ag_bufs a)"
    "card (used (ag_bufs a)) + (if n = 0 then 0 else 1) \<le> card (used (ag_bufs a'))"
proof -
  obtain p a1 where m: "srv_msg_alloc n a = Some (p, a1)" "n \<noteq> 0 \<longrightarrow> p \<noteq> 0" and s: "map_option snd (srv_msg_snd TID_OFPROTO TID_TEST_RECVER 1 1 p a1) = Some a'"
    using x by (auto simp: xlate_to_recver_def split: option.splits if_splits)
  obtain h bufs where h: "srv_buf_alloc (ag_bufs a) (c_int (int MSG_HDR_SIZE + n)) = Some (h, bufs)" "n \<noteq> 0 \<longrightarrow> h \<noteq> 0" "ag_bufs a1 = bufs"
    using m by (auto simp: srv_msg_alloc_def Let_def split: option.splits if_splits)
  have "ag_bufs a' = bufs" using s snd_bufs h(3) by auto
  then show "bufs_inv (ag_bufs a')" "buffers (ag_bufs a') = buffers (ag_bufs a)"
    "card (used (ag_bufs a)) + (if n = 0 then 0 else 1) \<le> card (used (ag_bufs a'))"
    using alloc_count [OF inv h(1)] h(2) by (auto split: if_splits)
qed

lemma run_count:
  assumes "dk_run steps a = Some a'" "bufs_inv (ag_bufs a)"
  shows "card (used (ag_bufs a)) + length (filter is_packet steps) \<le> card (buffers (ag_bufs a))"
  using assms
proof (induction steps arbitrary: a)
  case Nil
  then show ?case using used_buffers(3) by simp
next
  case (Cons st steps)
  show ?case
  proof (cases st)
    case (Packet n)
    then obtain a1 where a1: "xlate_to_recver n a = Some a1" "dk_run steps a1 = Some a'" using Cons.prems(1) by (auto split: option.splits)
    note c = packet_count [OF Cons.prems(2) a1(1)]
    show ?thesis using Cons.IH [OF a1(2) c(1)] c(2,3) Packet by (simp split: if_splits)
  next
    case Recver
    then obtain a1 where a1: "test_recver_entry a = Some a1" "dk_run steps a1 = Some a'" using Cons.prems(1) by (auto split: option.splits)
    then show ?thesis using Cons.IH [OF a1(2)] Cons.prems(2) recver_bufs [OF a1(1)] Recver by simp
  qed
qed

section \<open>The agent starts\<close>

text \<open>Pools with enough free buffers in the last one.\<close>

definition roomy :: "nat \<Rightarrow> srv_bufs \<Rightarrow> bool" where
  "roomy k s \<longleftrightarrow> bufs_inv s \<and> 15 < length (sb_pools s) \<and> bp_blocksize (sb_pools s ! 15) = 1048576 \<and> bp_blocknr (sb_pools s ! 15) = 20 \<and>
     card (used s) \<le> k"

lemma roomy_alloc:
  assumes "roomy k s" "k < 20" "sz \<le> 1048576"
  shows "\<exists>p s'. srv_buf_alloc s sz = Some (p, s') \<and> p \<noteq> 0 \<and> roomy (Suc k) s' \<and> buffers s' = buffers s"
proof -
  have r: "bufs_inv s" "15 < length (sb_pools s)" "sz \<le> bp_blocksize (sb_pools s ! 15)" "card (used s) < nat (bp_blocknr (sb_pools s ! 15))"
    using assms by (auto simp: roomy_def)
  obtain p s' where s': "srv_buf_alloc s sz = Some (p, s')" "p \<noteq> 0" "bufs_inv s'" "same_layout s s'" "card (used s') = Suc (card (used s))"
    using alloc_succeeds [OF r] by blast
  then have "roomy (Suc k) s'" using assms(1) same_layoutD [OF s'(4) r(2)] by (simp add: roomy_def same_layout_def same_place_def)
  then show ?thesis using s' same_layout_buffers by blast
qed

text \<open>System calls that succeed, with the memory of the pools apart, and functions of the tasks.\<close>

definition env_ok :: "docker_env \<Rightarrow> bool" where
  "env_ok e \<longleftrightarrow> de_malloc e \<and> length (de_pools e) = length g_astBufPool \<and>
     (\<forall>(buf, bmp_ok, mutex_ok) \<in> set (de_pools e). buf \<noteq> None \<and> bmp_ok \<and> mutex_ok) \<and> separate {} g_astBufPool (de_pools e) \<and>
     length (de_msqs e) = 3 \<and> (\<forall>env \<in> set (de_msqs e). create_msq env MAX_MSQ_SIZE \<noteq> None) \<and>
     (\<forall>i. de_threads e i \<noteq> None \<and> de_threads e i \<noteq> Some SRV_INVALID) \<and>
     (\<forall>f \<in> {fst (de_entries e), fst (snd (de_entries e)), snd (snd (de_entries e))}. f \<noteq> 0)"

lemma config_pools: "\<forall>c \<in> set g_astBufPool. pool_config_ok c" "\<forall>c \<in> set g_astBufPool. 0 \<le> pc_blocknr c" "g_astBufPool \<noteq> []"
  by (simp_all add: g_astBufPool_def pool_config_ok_def)

lemma pools_start:
  assumes "env_ok e"
  shows "\<exists>s'. srv_buf_init (Some g_astBufPool) (de_malloc e) (de_pools e) s = (SRV_OK, s') \<and> roomy 0 s' \<and> card (buffers s') \<le> 8290"
proof -
  have e: "de_malloc e" "length (de_pools e) = length g_astBufPool" "separate {} g_astBufPool (de_pools e)"
    "\<forall>(buf, bmp_ok, mutex_ok) \<in> set (de_pools e). buf \<noteq> None \<and> bmp_ok \<and> mutex_ok" using assms by (simp_all add: env_ok_def)
  have "fst (init_pools g_astBufPool (de_pools e) (s\<lparr>sb_pools := []\<rparr>)) = SRV_OK" by (rule init_pools_ok [OF config_pools(2) e(4)])
  then obtain s' where s': "srv_buf_init (Some g_astBufPool) (de_malloc e) (de_pools e) s = (SRV_OK, s')"
    using e(1) config_pools(3) by (auto simp: srv_buf_init_def case_prod_beta)
  note sizes = srv_buf_init_sizes [OF s' e(2)]
  have n: "length (sb_pools s') = 16" using arg_cong [OF sizes, of length] by (simp add: g_astBufPool_def)
  have "(bp_blocksize (sb_pools s' ! 15), bp_blocknr (sb_pools s' ! 15)) = map (\<lambda>p. (bp_blocksize p, bp_blocknr p)) (sb_pools s') ! 15"
    using n by simp
  also have "\<dots> = (1048576, 20)" unfolding sizes by (simp add: g_astBufPool_def)
  finally have "roomy 0 s'" using srv_buf_init_inv [OF s' e(2) config_pools(1) e(3)] n by (simp add: roomy_def)
  moreover have "(\<Sum>p \<leftarrow> sb_pools s'. nat (bp_blocknr p)) = (\<Sum>x \<leftarrow> map (\<lambda>p. (bp_blocksize p, bp_blocknr p)) (sb_pools s'). nat (snd x))"
    by (simp add: comp_def)
  then have "(\<Sum>p \<leftarrow> sb_pools s'. nat (bp_blocknr p)) = 8290" unfolding sizes by (simp add: g_astBufPool_def)
  then have "card (buffers s') \<le> 8290" using card_buffers [of s'] by simp
  ultimately show ?thesis using s' by blast
qed

lemma register_start:
  assumes "roomy k bufs" "k < 20" "largest_key key src [0 ..< nat n] 0 = Some 2"
    and "store_entries key src [0 ..< nat m] (map uninit [0 ..< 3]) = Some cfg"
  shows "\<exists>bufs'. register_entries key uninit src n m bufs = Some (Some cfg, bufs') \<and> roomy (Suc k) bufs' \<and> buffers bufs' = buffers bufs"
proof -
  obtain p s' where s': "srv_buf_alloc bufs 36 = Some (p, s')" "p \<noteq> 0" "roomy (Suc k) s'" "buffers s' = buffers bufs"
    using roomy_alloc [OF assms(1,2), of 36] by auto
  then show ?thesis using assms(3,4) by (simp add: register_entries_def)
qed

lemma trace_start:
  assumes r: "roomy 0 (ag_bufs (dk_agent d))"
  shows "\<exists>bufs. srv_trace_init um ul (Some g_astTraceMdl) (int (length g_astTraceMdl)) (Some g_astTraceLvl) (int (length g_astTraceLvl)) d =
    Some (SRV_OK, d\<lparr>dk_agent := (dk_agent d)\<lparr>ag_bufs := bufs\<rparr>, dk_trace := Some \<lparr>tc_mdl = Some g_astTraceMdl, tc_lvl = Some g_astTraceLvl\<rparr>\<rparr>) \<and>
    roomy 3 bufs \<and> buffers bufs = buffers (ag_bufs (dk_agent d))"
proof -
  obtain p s1 where s1: "srv_buf_alloc (ag_bufs (dk_agent d)) 8 = Some (p, s1)" "p \<noteq> 0" "roomy 1 s1" "buffers s1 = buffers (ag_bufs (dk_agent d))"
    using roomy_alloc [OF r, of 8] by auto
  have m: "largest_key tm_mid g_astTraceMdl [0 ..< nat (int (length g_astTraceMdl))] 0 = Some 2"
    "store_entries tm_mid g_astTraceMdl [0 ..< nat (int (length g_astTraceMdl))] (map um [0 ..< 3]) = Some g_astTraceMdl"
    by (simp_all add: g_astTraceMdl_def upt_rec)
  have l: "largest_key tl_lid g_astTraceLvl [0 ..< nat (int (length g_astTraceLvl))] 0 = Some 2"
    "store_entries tl_lid g_astTraceLvl [0 ..< nat (int (length g_astTraceMdl))] (map ul [0 ..< 3]) = Some g_astTraceLvl"
    by (simp_all add: g_astTraceLvl_def g_astTraceMdl_def upt_rec)
  obtain s2 where s2: "register_entries tm_mid um g_astTraceMdl (int (length g_astTraceMdl)) (int (length g_astTraceMdl)) s1 = Some (Some g_astTraceMdl, s2)"
    "roomy 2 s2" "buffers s2 = buffers s1"
    using register_start [OF s1(3) _ m] by (auto simp: numeral_2_eq_2)
  obtain s3 where s3: "register_entries tl_lid ul g_astTraceLvl (int (length g_astTraceLvl)) (int (length g_astTraceMdl)) s2 = Some (Some g_astTraceLvl, s3)"
    "roomy 3 s3" "buffers s3 = buffers s2"
    using register_start [OF s2(2) _ l] by (auto simp: numeral_3_eq_3 numeral_2_eq_2)
  show ?thesis using s1 s2 s3 by (intro exI [of _ s3]) (simp add: srv_trace_init_def)
qed

lemma task_table_start:
  assumes r: "roomy 3 (ag_bufs a)" and t: "ag_tbl a = None"
  shows "\<exists>a' t0 t1 t2 t3. srv_task_init uninit TID_MAX a = Some (SRV_OK, a') \<and> roomy 4 (ag_bufs a') \<and> buffers (ag_bufs a') = buffers (ag_bufs a) \<and>
    ag_tbl a' = Some [t0, t1, t2, t3] \<and> ag_max a' = 4 \<and> (\<forall>tb \<in> {t0, t1, t2, t3}. tb_tid tb = INVALID_TID \<and> tb_hTask tb = SRV_INVALID \<and> tb_hMsq tb = None)"
proof -
  obtain p s' where s': "srv_buf_alloc (ag_bufs a) 128 = Some (p, s')" "p \<noteq> 0" "roomy 4 s'" "buffers s' = buffers (ag_bufs a)"
    using roomy_alloc [OF r, of 128] by auto
  then show ?thesis using t by (simp add: srv_task_init_def upt_rec)
qed

text \<open>A task after registration and start.\<close>

definition running :: "agent \<Rightarrow> int \<Rightarrow> bool" where
  "running a tid \<longleftrightarrow> (\<exists>tb q. task_at a tid = Some tb \<and> tb_tid tb = tid \<and> tb_hTask tb \<noteq> SRV_INVALID \<and> tb_hMsq tb = Some q \<and> msq_contents q = [])"

lemma tasks_run:
  assumes a: "ag_tbl a = Some [t0, t1, t2, t3]" "ag_max a = 4"
    and t: "\<forall>tb \<in> {t0, t1, t2, t3}. tb_tid tb = INVALID_TID \<and> tb_hTask tb = SRV_INVALID \<and> tb_hMsq tb = None"
    and q: "create_msq e1 MAX_MSQ_SIZE = Some q1" "create_msq e2 MAX_MSQ_SIZE = Some q2" "create_msq e3 MAX_MSQ_SIZE = Some q3"
    and f: "f1 \<noteq> 0" "f2 \<noteq> 0" "f3 \<noteq> 0" and h: "\<And>i. \<exists>h. thds i = Some h \<and> h \<noteq> SRV_INVALID"
  shows "\<exists>a1 a2. srv_task_register_table (Some (zip [e1, e2, e3] (g_astTaskTbl f1 f2 f3))) a = Some (SRV_OK, a1) \<and>
    srv_task_start_table thds a1 = Some (SRV_OK, a2) \<and> ag_bufs a2 = ag_bufs a \<and>
    (\<forall>tid \<in> {TID_KERNEL, TID_TEST_SENDER, TID_TEST_RECVER}. running a2 tid) \<and> task_at a2 TID_OFPROTO = Some t0"
proof -
  have c: "msq_contents q1 = []" "msq_contents q2 = []" "msq_contents q3 = []"
    using q msq_create_inv(2) [of MAX_MSQ_SIZE] by (cases e1; cases e2; cases e3; auto)+
  obtain h1 h2 h3 where th: "thds 1 = Some h1" "thds 2 = Some h2" "thds 3 = Some h3" "h1 \<noteq> SRV_INVALID" "h2 \<noteq> SRV_INVALID" "h3 \<noteq> SRV_INVALID"
    using h by metis
  have four: "[0 ..< 4] = [0, 1, 2, 3 :: nat]" by (simp add: upt_rec numeral_eq_Suc)
  let ?tb = "\<lambda>tb tid name f q. tb\<lparr>tb_tid := tid, tb_pName := name, tb_fpEntry := f, tb_arg := 0, tb_prio := 1, tb_isMsqEnable := 1, tb_hMsq := Some q\<rparr>"
  let ?t1 = "?tb t1 1 ''KERNEL'' f1 q1" and ?t2 = "?tb t2 2 ''TEST_SENDER'' f2 q2" and ?t3 = "?tb t3 3 ''TEST_RECVER'' f3 q3"
  let ?a1 = "a\<lparr>ag_tbl := Some [t0, ?t1, ?t2, ?t3]\<rparr>"
  let ?a2 = "a\<lparr>ag_tbl := Some [t0, ?t1\<lparr>tb_hTask := h1\<rparr>, ?t2\<lparr>tb_hTask := h2\<rparr>, ?t3\<lparr>tb_hTask := h3\<rparr>]\<rparr>"
  have "srv_task_register_table (Some (zip [e1, e2, e3] (g_astTaskTbl f1 f2 f3))) a = Some (SRV_OK, ?a1)"
    using a t q f by (simp add: srv_task_register_table_def g_astTaskTbl_def srv_task_register_def task_at_def put_task_def)
  moreover have "srv_task_start_table thds ?a1 = Some (SRV_OK, ?a2)"
    using a t th four by (simp add: srv_task_start_table_def srv_task_start_def task_at_def put_task_def srv_task_create_def)
  moreover have "\<forall>tid \<in> {TID_KERNEL, TID_TEST_SENDER, TID_TEST_RECVER}. running ?a2 tid"
    using c th by (simp add: running_def task_at_def)
  moreover have "task_at ?a2 TID_OFPROTO = Some t0" by (simp add: task_at_def)
  ultimately show ?thesis by auto
qed

lemma docker_start:
  assumes e: "env_ok e" and t: "ag_tbl (dk_agent d) = None"
  shows "\<exists>d'. docker_init e d = Some d' \<and> bufs_inv (ag_bufs (dk_agent d')) \<and> card (buffers (ag_bufs (dk_agent d'))) \<le> 8290 \<and>
    (\<forall>tid \<in> {TID_KERNEL, TID_TEST_SENDER, TID_TEST_RECVER}. running (dk_agent d') tid) \<and>
    (\<exists>tb. task_at (dk_agent d') TID_OFPROTO = Some tb \<and> tb_tid tb = INVALID_TID \<and> tb_hMsq tb = None) \<and>
    dk_trace d' = Some \<lparr>tc_mdl = Some g_astTraceMdl, tc_lvl = Some g_astTraceLvl\<rparr>"
proof -
  obtain s1 where s1: "srv_buf_init (Some g_astBufPool) (de_malloc e) (de_pools e) (ag_bufs (dk_agent d)) = (SRV_OK, s1)" "roomy 0 s1" "card (buffers s1) \<le> 8290"
    using pools_start [OF e] by blast
  let ?d1 = "d\<lparr>dk_agent := (dk_agent d)\<lparr>ag_bufs := s1\<rparr>\<rparr>" and ?cfg = "\<lparr>tc_mdl = Some g_astTraceMdl, tc_lvl = Some g_astTraceLvl\<rparr>"
  obtain s2 where s2: "srv_trace_init (de_module e) (de_level e) (Some g_astTraceMdl) (int (length g_astTraceMdl)) (Some g_astTraceLvl) (int (length g_astTraceLvl)) ?d1 =
      Some (SRV_OK, ?d1\<lparr>dk_agent := (dk_agent ?d1)\<lparr>ag_bufs := s2\<rparr>, dk_trace := Some ?cfg\<rparr>)" "roomy 3 s2" "buffers s2 = buffers s1"
    using trace_start [of ?d1 "de_module e" "de_level e"] s1(2) by auto
  let ?a = "(dk_agent d)\<lparr>ag_bufs := s2\<rparr>"
  obtain a1 t0 t1 t2 t3 where a1: "srv_task_init (de_task e) TID_MAX ?a = Some (SRV_OK, a1)" "roomy 4 (ag_bufs a1)" "buffers (ag_bufs a1) = buffers s2"
    "ag_tbl a1 = Some [t0, t1, t2, t3]" "ag_max a1 = 4" "\<forall>tb \<in> {t0, t1, t2, t3}. tb_tid tb = INVALID_TID \<and> tb_hTask tb = SRV_INVALID \<and> tb_hMsq tb = None"
    using task_table_start [of ?a "de_task e"] s2(2) t by auto
  obtain k s r where f: "de_entries e = (k, s, r)" "k \<noteq> 0" "s \<noteq> 0" "r \<noteq> 0" using e by (cases "de_entries e") (auto simp: env_ok_def)
  obtain e1 e2 e3 where m: "de_msqs e = [e1, e2, e3]" using e by (auto simp: env_ok_def length_Suc_conv numeral_3_eq_3)
  then obtain q1 q2 q3 where q: "create_msq e1 MAX_MSQ_SIZE = Some q1" "create_msq e2 MAX_MSQ_SIZE = Some q2" "create_msq e3 MAX_MSQ_SIZE = Some q3"
    using e by (auto simp: env_ok_def)
  have h: "\<exists>h. de_threads e i = Some h \<and> h \<noteq> SRV_INVALID" for i
  proof -
    have "de_threads e i \<noteq> None" "de_threads e i \<noteq> Some SRV_INVALID" using e unfolding env_ok_def by blast+
    then show ?thesis by (cases "de_threads e i") auto
  qed
  obtain a2 a3 where a3: "srv_task_register_table (Some (zip [e1, e2, e3] (g_astTaskTbl k s r))) a1 = Some (SRV_OK, a2)"
    "srv_task_start_table (de_threads e) a2 = Some (SRV_OK, a3)" "ag_bufs a3 = ag_bufs a1"
    "\<forall>tid \<in> {TID_KERNEL, TID_TEST_SENDER, TID_TEST_RECVER}. running a3 tid" "task_at a3 TID_OFPROTO = Some t0"
    using tasks_run [where thds = "de_threads e", OF a1(4-6) q f(2-4) h] by blast
  have "docker_init e d = Some (d\<lparr>dk_agent := a3, dk_trace := Some ?cfg\<rparr>)"
    using s1(1) s2(1) a1(1) f(1) m a3(1,2) by (simp add: docker_init_def)
  then show ?thesis using a1 a3(3-5) s1(3) s2(3) by (intro exI [of _ "d\<lparr>dk_agent := a3, dk_trace := Some ?cfg\<rparr>"]) (simp add: roomy_def)
qed

section \<open>What the trace tables hold\<close>

lemma largest_keyD:
  assumes "largest_key key src is nr = Some r"
  shows "r = nr \<or> (\<exists>i \<in> set is. r = key (src ! i))" "i \<in> set is \<Longrightarrow> i < length src \<and> key (src ! i) \<le> r"
proof -
  have "nr \<le> r \<and> (\<forall>i \<in> set is. i < length src \<and> key (src ! i) \<le> r) \<and> (r = nr \<or> (\<exists>i \<in> set is. r = key (src ! i)))"
    using assms by (induction "is" arbitrary: nr) (fastforce split: if_splits)+
  then show "r = nr \<or> (\<exists>i \<in> set is. r = key (src ! i))" "i \<in> set is \<Longrightarrow> i < length src \<and> key (src ! i) \<le> r" by blast+
qed

lemma store_entriesD:
  assumes "store_entries key src is cfg = Some cfg'" "distinct (map key src)" "distinct is"
  shows "\<forall>i \<in> set is. i < length src \<and> cfg' ! nat (key (src ! i)) = src ! i"
    "k \<notin> (\<lambda>i. nat (key (src ! i))) ` set is \<Longrightarrow> cfg' ! k = cfg ! k"
proof -
  have "(\<forall>i \<in> set is. i < length src \<and> 0 \<le> key (src ! i) \<and> cfg' ! nat (key (src ! i)) = src ! i) \<and>
    (\<forall>k. k \<notin> (\<lambda>i. nat (key (src ! i))) ` set is \<longrightarrow> cfg' ! k = cfg ! k)"
    using assms
  proof (induction "is" arbitrary: cfg)
    case (Cons j js)
    have j: "j < length src" "0 \<le> key (src ! j)" "key (src ! j) < int (length cfg)"
      and s: "store_entries key src js (cfg[nat (key (src ! j)) := src ! j]) = Some cfg'" using Cons.prems(1) by (auto split: if_splits)
    note IH = Cons.IH [OF s Cons.prems(2)]
    have "nat (key (src ! j)) \<notin> (\<lambda>i. nat (key (src ! i))) ` set js"
    proof
      assume "nat (key (src ! j)) \<in> (\<lambda>i. nat (key (src ! i))) ` set js"
      then obtain i where i: "i \<in> set js" "nat (key (src ! i)) = nat (key (src ! j))" by auto
      then have "i < length src" "key (src ! i) = key (src ! j)" using IH Cons.prems(3) j(2) by auto
      then have "i = j" using Cons.prems(2) j(1) by (simp add: distinct_conv_nth) metis
      then show False using i(1) Cons.prems(3) by simp
    qed
    then have "cfg' ! nat (key (src ! j)) = src ! j" using IH Cons.prems(3) j by auto
    then show ?case using IH Cons.prems(3) j by auto
  qed simp
  then show "\<forall>i \<in> set is. i < length src \<and> cfg' ! nat (key (src ! i)) = src ! i"
    "k \<notin> (\<lambda>i. nat (key (src ! i))) ` set is \<Longrightarrow> cfg' ! k = cfg ! k" by auto
qed

lemma register_entriesD:
  assumes r: "register_entries key uninit src (int (length src)) (int m) bufs = Some (Some cfg, bufs')"
    and d: "distinct (map key src)" and k: "\<forall>x \<in> set src. 0 \<le> key x \<and> key x < INT_MAX"
  shows "m \<le> length src \<and> (\<forall>i < length src. cfg ! nat (key (src ! i)) = (if i < m then src ! i else uninit (nat (key (src ! i)))))"
proof -
  obtain nr where nr: "largest_key key src [0 ..< length src] 0 = Some nr"
    and cfg: "store_entries key src [0 ..< m] (map uninit [0 ..< nat (c_int (nr + 1))]) = Some cfg"
    using r by (auto simp: register_entries_def Let_def split: option.splits if_splits)
  note st = store_entriesD [OF cfg d distinct_upt]
  have m: "m \<le> length src"
  proof (cases m)
    case (Suc m')
    then have "m' < length src" using st(1) by simp
    then show ?thesis using Suc by simp
  qed simp
  have "0 \<le> nr \<and> nr < INT_MAX" using largest_keyD(1) [OF nr] k by auto
  then have c: "c_int (nr + 1) = nr + 1" by simp
  have "cfg ! nat (key (src ! i)) = uninit (nat (key (src ! i)))" if i: "i < length src" "m \<le> i" for i
  proof -
    have ki: "0 \<le> key (src ! i)" "key (src ! i) \<le> nr" using k i(1) largest_keyD(2) [OF nr, of i] by auto
    have "nat (key (src ! i)) \<noteq> nat (key (src ! j))" if "j < m" for j
    proof -
      have "key (src ! j) \<noteq> key (src ! i)" "0 \<le> key (src ! j)" using d k i m that by (auto simp: distinct_conv_nth)
      then show ?thesis using ki(1) by simp
    qed
    then have "nat (key (src ! i)) \<notin> (\<lambda>i. nat (key (src ! i))) ` set [0 ..< m]" by (simp add: image_iff)
    from st(2) [OF this] have "cfg ! nat (key (src ! i)) = map uninit [0 ..< nat (c_int (nr + 1))] ! nat (key (src ! i))" .
    then show ?thesis using ki c by (simp add: nat_less_iff)
  qed
  then show ?thesis using m st(1) by auto
qed

text \<open>An example: pools one after the other in memory, from an address on.\<close>

fun bases_from :: "addr \<Rightarrow> srv_buf_pool list \<Rightarrow> (addr option \<times> bool \<times> bool) list" where
  "bases_from a [] = []"
| "bases_from a (c # cs) = (Some a, True, True) # bases_from (a + nat (pc_blocknr c) * (BUF_HEAD_SIZE + nat (pc_blocksize c))) cs"

lemma bases_from_ok: "length (bases_from a cs) = length cs" "\<forall>(buf, bmp_ok, mutex_ok) \<in> set (bases_from a cs). buf \<noteq> None \<and> bmp_ok \<and> mutex_ok"
  "\<forall>x \<in> M. x < a \<Longrightarrow> separate M cs (bases_from a cs)"
proof -
  show "length (bases_from a cs) = length cs" by (induction cs arbitrary: a) auto
  show "\<forall>(buf, bmp_ok, mutex_ok) \<in> set (bases_from a cs). buf \<noteq> None \<and> bmp_ok \<and> mutex_ok" by (induction cs arbitrary: a) auto
  show "\<forall>x \<in> M. x < a \<Longrightarrow> separate M cs (bases_from a cs)"
  proof (induction cs arbitrary: a M)
    case (Cons c cs)
    have "separate (M \<union> pool_memory c a) cs (bases_from (a + nat (pc_blocknr c) * (BUF_HEAD_SIZE + nat (pc_blocksize c))) cs)"
      using Cons.prems by (intro Cons.IH) (auto simp: pool_memory_def)
    moreover have "M \<inter> pool_memory c a = {}" using Cons.prems by (auto simp: pool_memory_def)
    ultimately show ?case by simp
  qed simp
qed

definition demo_env :: docker_env where
  "demo_env = \<lparr>de_malloc = True, de_pools = bases_from 1000 g_astBufPool,
     de_module = (\<lambda>_. \<lparr>tm_mid = 0, tm_name = [], tm_enable = 0\<rparr>), de_level = (\<lambda>_. \<lparr>tl_lid = 0, tl_name = [], tl_enable = 0\<rparr>),
     de_task = (\<lambda>_. demo_task None), de_msqs = replicate 3 (True, True, True, True, \<lambda>_. demo_msg), de_threads = (\<lambda>i. Some 1),
     de_entries = (1, 2, 3)\<rparr>"

definition demo_docker :: docker where
  "demo_docker = \<lparr>dk_agent = \<lparr>ag_bufs = \<lparr>sb_pools = [], sb_n = 0, sb_poolid = (\<lambda>_. 0)\<rparr>, ag_tbl = None, ag_max = 0, ag_hdr = (\<lambda>_. demo_hdr 0)\<rparr>,
     dk_trace = None\<rparr>"

lemma demo_env_ok: "env_ok demo_env" "ag_tbl (dk_agent demo_docker) = None"
  using bases_from_ok(2) [of 1000 g_astBufPool]
  by (simp_all add: env_ok_def demo_env_def bases_from_ok demo_docker_def srv_msq_create_def)

section \<open>Properties\<close>

text \<open>
  When system calls succeed, \<open>docker_init\<close> returns with the trace tables set up and every task of the
  table registered, running and with an empty message queue; the identifier that ofproto sends under
  has no task and no queue.
\<close>

theorem docker_init_starts:
  assumes "env_ok e" "ag_tbl (dk_agent d) = None"
  shows "\<exists>d'. docker_init e d = Some d' \<and> bufs_inv (ag_bufs (dk_agent d')) \<and>
    (\<forall>tid \<in> {TID_KERNEL, TID_TEST_SENDER, TID_TEST_RECVER}. running (dk_agent d') tid) \<and>
    (\<exists>tb. task_at (dk_agent d') TID_OFPROTO = Some tb \<and> tb_tid tb = INVALID_TID \<and> tb_hMsq tb = None) \<and>
    dk_trace d' = Some \<lparr>tc_mdl = Some g_astTraceMdl, tc_lvl = Some g_astTraceLvl\<rparr>"
  using docker_start [OF assms] by blast

theorem docker_init_starts_witness:
  "env_ok demo_env \<and> (\<exists>d'. docker_init demo_env demo_docker = Some d' \<and> running (dk_agent d') TID_TEST_RECVER)"
  using docker_init_starts [OF demo_env_ok] demo_env_ok(1) by auto

text \<open>
  C19: The receiver task does not free the messages of the packets sent to it, and the sender does not test
  whether it got a buffer: after at most 8290 packets, however the steps of the receiver come between
  them, output to OFPP_MAX_4 writes through a null pointer.
\<close>

theorem docker_packets_crash:
  assumes "env_ok e" "ag_tbl (dk_agent d) = None" "docker_init e d = Some d'" "8290 < length (filter is_packet steps)"
  shows "dk_run steps (dk_agent d') = None"
proof (rule ccontr)
  assume "dk_run steps (dk_agent d') \<noteq> None"
  then obtain a' where a': "dk_run steps (dk_agent d') = Some a'" by blast
  have "bufs_inv (ag_bufs (dk_agent d'))" "card (buffers (ag_bufs (dk_agent d'))) \<le> 8290" using docker_start [OF assms(1,2)] assms(3) by auto
  then show False using run_count [OF a'] assms(4) by simp
qed

theorem docker_packets_crash_witness:
  "\<exists>d'. docker_init demo_env demo_docker = Some d' \<and> dk_run (replicate 8291 (Packet 64)) (dk_agent d') = None"
proof -
  obtain d' where d': "docker_init demo_env demo_docker = Some d'" using docker_start [OF demo_env_ok] by blast
  have "8290 < length (filter is_packet (replicate 8291 (Packet 64)))" by (simp add: filter_replicate)
  from docker_packets_crash [OF demo_env_ok d' this] show ?thesis using d' by blast
qed

text \<open>
  The loop that stores the trace levels runs to the number of modules. Initialisation with fewer
  levels than modules does not succeed, since it reads outside the table of levels; with more, the
  entries of the further levels are never written.
\<close>

theorem srv_trace_init_levels:
  assumes "srv_trace_init um ul (Some ms) (int (length ms)) (Some ls) (int (length ls)) d = Some (SRV_OK, d')"
    and "distinct (map tl_lid ls)" "\<forall>l \<in> set ls. 0 \<le> tl_lid l \<and> tl_lid l < INT_MAX"
  shows "length ms \<le> length ls \<and>
    (\<exists>cfg lvl. dk_trace d' = Some cfg \<and> tc_lvl cfg = Some lvl \<and>
       (\<forall>i < length ls. lvl ! nat (tl_lid (ls ! i)) = (if i < length ms then ls ! i else ul (nat (tl_lid (ls ! i))))))"
proof -
  obtain bufs bufs' mdl lvl where r: "register_entries tl_lid ul ls (int (length ls)) (int (length ms)) bufs = Some (Some lvl, bufs')"
    "dk_trace d' = Some \<lparr>tc_mdl = mdl, tc_lvl = Some lvl\<rparr>"
    using assms(1) by (auto simp: srv_trace_init_def split: option.splits if_splits)
  show ?thesis using register_entriesD [OF r(1) assms(2,3)] r(2) by simp
qed

theorem srv_trace_init_levels_witness:
  "\<exists>d d' cfg lvl. srv_trace_init (de_module demo_env) (de_level demo_env) (Some []) 0 (Some [\<lparr>tl_lid = 0, tl_name = ''INFO'', tl_enable = 1\<rparr>]) 1 d = Some (SRV_OK, d') \<and>
     dk_trace d' = Some cfg \<and> tc_lvl cfg = Some lvl \<and> tl_enable (lvl ! 0) = 0"
proof -
  let ?ls = "[\<lparr>tl_lid = 0, tl_name = ''INFO'', tl_enable = 1\<rparr>]"
  let ?d = "\<lparr>dk_agent = \<lparr>ag_bufs = three_bufs [1000, 1080, 1160] 0, ag_tbl = None, ag_max = 0, ag_hdr = (\<lambda>_. demo_hdr 0)\<rparr>, dk_trace = None\<rparr>"
  obtain d' where d': "srv_trace_init (de_module demo_env) (de_level demo_env) (Some []) (int (length ([] :: srv_trace_module list))) (Some ?ls) (int (length ?ls)) ?d = Some (SRV_OK, d')"
    by (simp add: srv_trace_init_def register_entries_def three_bufs_alloc)
  have k: "distinct (map tl_lid ?ls)" "\<forall>l \<in> set ?ls. 0 \<le> tl_lid l \<and> tl_lid l < INT_MAX" by simp_all
  from srv_trace_init_levels [OF d' k] obtain cfg lvl where "dk_trace d' = Some cfg" "tc_lvl cfg = Some lvl" "lvl ! 0 = de_level demo_env 0" by auto
  moreover have "tl_enable (de_level demo_env 0) = 0" by (simp add: demo_env_def)
  moreover have "srv_trace_init (de_module demo_env) (de_level demo_env) (Some []) 0 (Some ?ls) 1 ?d = Some (SRV_OK, d')" using d' by simp
  ultimately show ?thesis by metis
qed

end
