(* ===== verification/Spec2Isabelle.thy ===== *)
theory Spec2Isabelle
  imports Heap_Queue Byte_Queue Token_Bucket Csum Reconnect Stp_Bpdu Ovs_List Msg_Queue Mac_Learning_Props Hmap_Table
    Hash Id_Pool Pktbuf Quicksort Ovsdb_Data_Ops Ovsdb_Data_Unique Lacp_Props
    Docker_Agent
begin

text \<open>
  A verification library for parts of Open vSwitch 2.3.90, in the version of this repository, which
  adds a docker agent under ofproto. Paths below are relative to src/openvswitch-2.3.90.

  \<^bold>\<open>The program.\<close> The switch daemon (vswitchd) configures bridges (ofproto) from a database (ovsdb) and
  hands packets to a datapath. It rests on a library (lib) of data structures, protocol state
  machines and protocol encoders. This development models components of the library whose
  correctness the rest of the program relies on, and some of their clients in ofproto. Each is
  modelled whole, from its C functions, and composed the way the code composes them: the MAC
  learning table contains the priority heap; the pool of recirculation identifiers and link
  aggregation keep their objects in the hash map and hash with the functions of lib/hash.h; sorting
  database values calls the quicksort with comparison and swap callbacks; the message queue and the
  byte queue meet one interface; the messages of the docker agent are buffers of its pools that pass
  through message queues.

  \<^bold>\<open>How code is translated.\<close> A C structure is a record with the fields of the source; an object in
  memory is named by its address (0 is NULL), and the structure that owns a set of objects carries
  the store from addresses to them. Unsigned integers are words of their width, so that arithmetic
  wraps around; signed integers are \<open>int\<close> with the conversion \<open>c_int\<close> or \<open>c_llong\<close> where the code may
  overflow (\<open>OVS_Prelude\<close>). A function that can fail an assertion, follow a null pointer or not return
  has an option as its result, and \<open>None\<close> stands for all of these. Loops over lists are recursion on
  lists; loops along pointers are \<open>partial_function (option)\<close>, so that a loop that does not end has no
  value and every theorem that a call returns is a theorem that its loops end. No definition uses
  fuel. The current time, random numbers, the results of system calls and the addresses of new
  objects are arguments. A mutex held throughout a call makes the call one step; where code releases
  a mutex in between, the call is several steps (\<open>Msg_Queue\<close>). Callbacks that only receive data
  (transmission of frames) are part of the result.

  \<^bold>\<open>Prelude and interfaces.\<close>
  \<^item> \<open>OVS_Prelude\<close>: the C integer types, wrap-around, lemmas on words, lists and updates.
  \<^item> \<open>Byte_Order\<close>: fields in network byte order, with their round trip.
  \<^item> \<open>State_Machine\<close>: states reachable by calls; locale \<open>call_machine\<close> (an invariant that initial states
    have and calls keep holds in reachable states), interpreted for \<open>Reconnect\<close>, \<open>Stp_Safety\<close>, \<open>Msg_Queue\<close>,
    \<open>Mac_Learning_Props\<close>, \<open>Id_Pool\<close>, \<open>Lacp_Calls\<close>, \<open>Srv_Buffer\<close> and \<open>Srv_Task\<close>.
  \<^item> \<open>Fifo_Spec\<close>: locale of a bounded queue, interpreted for the byte queue and the message queue.
  \<^item> \<open>Three_Way\<close>: locale of a comparison function with a negative, zero or positive result, interpreted
    for database atoms and for \<open>memcmp\<close>.
  \<^item> \<open>Hmap_Table\<close>: locales \<open>node_table\<close> and \<open>iterable_table\<close>, what clients of the hash map use of it,
    interpreted for the model of lib/hmap.c.

  \<^bold>\<open>Components.\<close>
  \<^item> \<open>Heap_Queue\<close> (lib/heap.c, lib/heap.h): array heap with back pointers. Any sequence of operations
    implements a map from nodes to priorities with a greatest element; \<open>heap_rebuild\<close> restores the order.
  \<^item> \<open>Byte_Queue\<close> (lib/byteq.c): ring buffer with free-running 32-bit counters. It is a bounded queue
    from any state, also when counters wrap around; reading and writing files lose no byte.
  \<^item> \<open>Token_Bucket\<close> (lib/token-bucket.c, lib/sat-math.h): the tokens granted over an interval are bounded;
    waking when \<open>token_bucket_wait\<close> says is early enough.
  \<^item> \<open>Csum\<close> (lib/csum.c): the checksum is the ones' complement sum, independent of byte order up to a
    byte swap; incremental updates are equivalent to recomputing; odd lengths on big-endian hosts.
  \<^item> \<open>Reconnect\<close> (lib/reconnect.c): the connection state machine, with its invariant, exact timeouts,
    exponential backoff and the limit on tries.
  \<^item> \<open>Stp\<close>, \<open>Stp_Core\<close>, \<open>Stp_Tree\<close>, \<open>Stp_Safety\<close>, \<open>Stp_Bpdu\<close> (lib/stp.c): the spanning tree bridge. Root and
    designated ports are chosen by least priority vector; in every reachable state active ports have
    a role; a port forwards only after learning; frames survive a round trip; timer arithmetic.
  \<^item> \<open>Ovs_List\<close> (lib/list.h, ofproto/srv_list.h): circular doubly linked lists in a store implement a
    family of disjoint lists.
  \<^item> \<open>Msg_Queue\<close> (ofproto/lnx_msq.c): the message queue of the docker agent is a bounded queue for one
    receiver, and not for two.
  \<^item> \<open>Srv_Common\<close>, \<open>Srv_Buffer\<close> (ofproto/srv_bitmap.c, ofproto/srv_buffer.c): pools of buffers with bitmaps of the
    blocks in use. Allocation gives memory that no one else uses, and fails only if there is none;
    two threads that free a buffer at once break the list of free blocks.
  \<^item> \<open>Srv_Task\<close> (ofproto/srv_task.c): tasks and messages. Messages are delivered in order, as they were
    sent, and clients that keep to the rules never share memory.
  \<^item> \<open>Docker_Agent\<close> (ofproto/docker_config.c, ofproto/srv_trace.c, the in-house controller path of
    ofproto/ofproto-dpif-xlate.c and its receiver in ofproto/docker_test.c): the agent starts with the
    tasks of its table; packets to the receiver use up the buffers, and then the daemon crashes.
  \<^item> \<open>Mac_Learning\<close>, \<open>Mac_Learning_Inv\<close>, \<open>Mac_Learning_Props\<close> (lib/mac-learning.c): the table, its lists and its
    heap agree in every reachable state; learning, lookup, fair eviction and expiration.
  \<^item> \<open>Hmap\<close>, \<open>Hmap_Table\<close> (lib/hmap.c, lib/hmap.h): chained hash table with resizing implements a finite
    map from nodes to hash values; iteration visits every node once.
  \<^item> \<open>Hash\<close> (lib/hash.c, lib/hash.h): the portable hash functions; each is injective in one word.
  \<^item> \<open>Id_Pool\<close> (lib/id-pool.c, ofproto/ofproto-dpif-rid.c): allocation gives unused identifiers and fails
    only if all are in use; the identifier past the end of the range.
  \<^item> \<open>Pktbuf\<close> (ofproto/pktbuf.c): a packet saved can be retrieved by its identifier, and no stale one.
  \<^item> \<open>Quicksort\<close> (lib/sort.c): the result is a sorted rearrangement for fair random numbers; a sequence of
    random numbers for which it does not return.
  \<^item> \<open>Ovsdb_Data\<close>, \<open>Ovsdb_Data_Props\<close>, \<open>Ovsdb_Data_Ops\<close>, \<open>Ovsdb_Data_Unique\<close> (lib/ovsdb-data.c): sorted arrays of
    atoms; sorting, search, union and difference against finite maps and sets.
  \<^item> \<open>Lacp\<close>, \<open>Lacp_Inv\<close>, \<open>Lacp_Calls\<close>, \<open>Lacp_Run\<close>, \<open>Lacp_Net\<close>, \<open>Lacp_Props\<close> (lib/lacp.c, lib/timer.h): link
    aggregation. The loops of \<open>lacp_update_attached\<close> agree with a declarative reference; in every
    reachable state a run enables slaves of one partner only; partners time out; \<open>lacp_wait\<close> does not
    oversleep; and two systems that exchange PDUs bring all their links up.

  \<^bold>\<open>Bounds.\<close> Clients of the model are assumed to give new objects addresses that are not in use, to keep
  the number of nodes of a hash map below \<open>2 ^ 64\<close> (of link aggregation slaves below \<open>2 ^ 32\<close>), and to
  call with times whose sums with the timeouts of the code fit a 64-bit integer; each theorem states
  what it needs. The services of the docker agent store pointers in 32-bit handles and are modelled for
  a host with 32-bit pointers; the number 8290 is the number of buffers of its configuration. Theorems about sequences of calls are for sequences of any length.

  \<^bold>\<open>Not modelled.\<close> Log output, coverage counters, statistics that are only printed, and freeing of memory.
  The SSE4.2 and 64-bit variants of the hash functions, which the build selects. The printing commands
  and the list of all objects of lib/lacp.c. The text of trace messages, the sockets and the controller
  tasks of the docker agent. Conversion of database values from and to JSON and text.
  The OpenFlow protocol, the flow classifier and everything that uses them (ofproto, datapaths,
  command line tools) depend on tables that the build generates, on read-copy-update and on the
  kernel; devices, sockets and Netlink are system calls. The remaining protocol machines of the
  library (rapid spanning tree, CFM, BFD, multicast snooping) are of the kind treated here and are
  left out for size. The manifest lists every part with its status.
\<close>

end
